(* ===== verification/Prelude.thy ===== *)
theory Prelude
  imports Main "HOL-Library.AList"
begin

text \<open>
  The library every component shares: results with errors as values, the named collections
  the component proofs extend, list facts used by several components, and the
  \<open>string_enum\<close> interface of the fieldless enums that are stored as text.
\<close>

section \<open>Results\<close>

text \<open>Rust's \<open>Result<T, E>\<close> is the sum type with \<^term>\<open>Inl\<close> for \<open>Err\<close>; \<open>and_then\<close> is the
  \<open>?\<close> operator: an error leaves the function at once.\<close>

type_synonym ('e, 'a) result = "'e + 'a"

definition and_then :: "('e, 'a) result \<Rightarrow> ('a \<Rightarrow> ('e, 'b) result) \<Rightarrow> ('e, 'b) result" where
  "and_then r f = (case r of Inl e \<Rightarrow> Inl e | Inr x \<Rightarrow> f x)"

lemma and_then_simps [simp]:
  "and_then (Inl e) f = Inl e"
  "and_then (Inr x) f = f x"
  by (simp_all add: and_then_def)

lemma and_then_cong [fundef_cong]:
  assumes "r = r'" and "\<And>x. r' = Inr x \<Longrightarrow> f x = g x"
  shows "and_then r f = and_then r' g"
  using assms by (cases r') simp_all

lemma and_then_Inr_iff:
  "and_then r f = Inr y \<longleftrightarrow> (\<exists>x. r = Inr x \<and> f x = Inr y)"
  by (cases r) simp_all

lemma and_then_Inl_iff:
  "and_then r f = Inl e \<longleftrightarrow> r = Inl e \<or> (\<exists>x. r = Inr x \<and> f x = Inl e)"
  by (cases r) simp_all

lemma and_then_InrE:
  assumes "and_then r f = Inr y"
  obtains x where "r = Inr x" "f x = Inr y"
  using assms by (auto simp: and_then_Inr_iff)

definition map_ok :: "('a \<Rightarrow> 'b) \<Rightarrow> ('e, 'a) result \<Rightarrow> ('e, 'b) result" where
  "map_ok f r = and_then r (\<lambda>x. Inr (f x))"

lemma map_ok_simps [simp]:
  "map_ok f (Inl e) = Inl e"
  "map_ok f (Inr x) = Inr (f x)"
  by (simp_all add: map_ok_def)

section \<open>Loops\<close>

text \<open>
  A \<^verbatim>\<open>for\<close> loop over a list whose body may leave the function with an error, and a
  \<^verbatim>\<open>while\<close> loop with such a body. The \<^verbatim>\<open>while\<close> loop may run forever; then its value is
  \<^term>\<open>None\<close>, so that every claim that a function returns is a claim about this option.
\<close>

fun for_each :: "('a \<Rightarrow> 's \<Rightarrow> ('e, 's) result) \<Rightarrow> 'a list \<Rightarrow> 's \<Rightarrow> ('e, 's) result" where
  "for_each f [] s = Inr s"
| "for_each f (x # xs) s = and_then (f x s) (for_each f xs)"

lemma for_each_append:
  "for_each f (xs @ ys) s = and_then (for_each f xs s) (for_each f ys)"
proof (induction xs arbitrary: s)
  case (Cons x xs)
  then show ?case by (cases "f x s") simp_all
qed simp

lemma for_each_invariant:
  assumes "P s" and "\<And>x s. x \<in> set xs \<Longrightarrow> P s \<Longrightarrow> \<exists>s'. f x s = Inr s' \<and> P s'"
  shows "\<exists>s'. for_each f xs s = Inr s' \<and> P s'"
  using assms
proof (induction xs arbitrary: s)
  case (Cons x xs)
  then obtain s' where "f x s = Inr s'" "P s'" by (meson list.set_intros(1))
  with Cons.IH [of s'] Cons.prems(2) show ?case by simp
qed simp

partial_function (option) loop_while ::
    "('s \<Rightarrow> bool) \<Rightarrow> ('s \<Rightarrow> ('e, 's) result) \<Rightarrow> 's \<Rightarrow> ('e, 's) result option" where
  "loop_while b step s =
     (if b s then (case step s of Inl e \<Rightarrow> Some (Inl e) | Inr s' \<Rightarrow> loop_while b step s')
      else Some (Inr s))"

text \<open>Total correctness: an invariant that every iteration keeps while a well-founded
  relation decreases.\<close>

lemma loop_while_total:
  assumes "wf r" and "I s"
    and step: "\<And>s. I s \<Longrightarrow> b s \<Longrightarrow> \<exists>s'. step s = Inr s' \<and> I s' \<and> (s', s) \<in> r"
  shows "\<exists>s'. loop_while b step s = Some (Inr s') \<and> I s' \<and> \<not> b s'"
  using \<open>wf r\<close> \<open>I s\<close>
proof (induction s rule: wf_induct_rule)
  case (less s)
  show ?case
  proof (cases "b s")
    case True
    with step less.prems obtain s' where "step s = Inr s'" "I s'" "(s', s) \<in> r" by blast
    with less.IH [of s'] True show ?thesis by (simp add: loop_while.simps [of b step s])
  next
    case False
    with less.prems show ?thesis by (simp add: loop_while.simps)
  qed
qed

text \<open>The same for a loop whose body may leave with an \<^term>\<open>Inl\<close> that satisfies \<open>Q\<close>.\<close>

lemma loop_while_total_exit:
  assumes "wf r" and "I s"
    and step: "\<And>s. I s \<Longrightarrow> b s \<Longrightarrow>
      (\<exists>s'. step s = Inr s' \<and> I s' \<and> (s', s) \<in> r) \<or> (\<exists>e. step s = Inl e \<and> Q e)"
  shows "(\<exists>s'. loop_while b step s = Some (Inr s') \<and> I s' \<and> \<not> b s') \<or>
         (\<exists>e. loop_while b step s = Some (Inl e) \<and> Q e)"
  using \<open>wf r\<close> \<open>I s\<close>
proof (induction s rule: wf_induct_rule)
  case (less s)
  show ?case
  proof (cases "b s")
    case True
    from step [OF less.prems True] show ?thesis
    proof
      assume "\<exists>s'. step s = Inr s' \<and> I s' \<and> (s', s) \<in> r"
      then obtain s' where "step s = Inr s'" "I s'" "(s', s) \<in> r" by blast
      with less.IH [of s'] True show ?thesis by (simp add: loop_while.simps [of b step s])
    next
      assume "\<exists>e. step s = Inl e \<and> Q e"
      with True show ?thesis by (auto simp: loop_while.simps [of b step s])
    qed
  next
    case False
    with less.prems show ?thesis by (simp add: loop_while.simps)
  qed
qed

text \<open>An early \<^verbatim>\<open>return\<close> from inside a loop is one of the ways its body leaves; the caller of
  the loop turns it back into the function's result.\<close>

datatype ('e, 'r) exit = Fail 'e | Return 'r

definition fail_on_error :: "('e, 'a) result \<Rightarrow> (('e, 'r) exit, 'a) result" where
  "fail_on_error r = (case r of Inl e \<Rightarrow> Inl (Fail e) | Inr x \<Rightarrow> Inr x)"

lemma fail_on_error_simps [simp]:
  "fail_on_error (Inl e) = Inl (Fail e)"
  "fail_on_error (Inr x) = Inr x"
  by (simp_all add: fail_on_error_def)

fun finish_loop :: "('s \<Rightarrow> 'r) \<Rightarrow> (('e, 'r) exit, 's) result option \<Rightarrow> ('e, 'r) result option" where
  "finish_loop f None = None"
| "finish_loop f (Some (Inl (Fail e))) = Some (Inl e)"
| "finish_loop f (Some (Inl (Return r))) = Some (Inr r)"
| "finish_loop f (Some (Inr s)) = Some (Inr (f s))"

section \<open>Hash maps\<close>

text \<open>A \<^verbatim>\<open>HashMap\<close> is an association list with distinct keys: \<^const>\<open>map_of\<close> is \<open>get\<close>, \<open>hm_insert\<close>
  is \<open>insert\<close>, \<open>hm_remove\<close> is \<open>remove\<close> and the length is \<open>len\<close>. The code never depends on the
  iteration order of the maps modelled so.\<close>

type_synonym ('k, 'v) hash_map = "('k \<times> 'v) list"

definition hm_insert :: "'k \<Rightarrow> 'v \<Rightarrow> ('k, 'v) hash_map \<Rightarrow> ('k, 'v) hash_map" where
  "hm_insert = AList.update"

definition hm_remove :: "'k \<Rightarrow> ('k, 'v) hash_map \<Rightarrow> ('k, 'v) hash_map" where
  "hm_remove = AList.delete"

definition hm_contains :: "'k \<Rightarrow> ('k, 'v) hash_map \<Rightarrow> bool" where
  "hm_contains k m \<longleftrightarrow> k \<in> fst ` set m"

definition hm_wf :: "('k, 'v) hash_map \<Rightarrow> bool" where
  "hm_wf m \<longleftrightarrow> distinct (map fst m)"

lemma hm_get_insert [simp]: "map_of (hm_insert k v m) = (map_of m)(k \<mapsto> v)"
  by (simp add: hm_insert_def update_conv')

lemma hm_get_remove [simp]: "map_of (hm_remove k m) = (map_of m)(k := None)"
  by (simp add: hm_remove_def delete_conv')

lemma hm_contains_iff: "hm_contains k m \<longleftrightarrow> map_of m k \<noteq> None"
  by (simp add: hm_contains_def map_of_eq_None_iff)

lemma hm_wf_empty [simp]: "hm_wf []"
  by (simp add: hm_wf_def)

lemma hm_wf_insert [simp]: "hm_wf m \<Longrightarrow> hm_wf (hm_insert k v m)"
  by (simp add: hm_wf_def hm_insert_def distinct_update)

lemma hm_wf_remove [simp]: "hm_wf m \<Longrightarrow> hm_wf (hm_remove k m)"
  by (simp add: hm_wf_def hm_remove_def distinct_delete)

lemma hm_keys: "fst ` set m = dom (map_of m)"
  by (simp add: dom_map_of_conv_image_fst)

lemma hm_len: "hm_wf m \<Longrightarrow> length m = card (dom (map_of m))"
  by (metis distinct_card hm_keys hm_wf_def length_map set_map)

lemma hm_entry: "hm_wf m \<Longrightarrow> (k, v) \<in> set m \<longleftrightarrow> map_of m k = Some v"
  by (simp add: hm_wf_def)

section \<open>Ordered maps\<close>

text \<open>A \<^verbatim>\<open>BTreeMap\<close> is an association list with strictly increasing keys: its head is the first
  entry.\<close>

fun bt_insert :: "'k::linorder \<Rightarrow> 'v \<Rightarrow> ('k \<times> 'v) list \<Rightarrow> ('k \<times> 'v) list" where
  "bt_insert k v [] = [(k, v)]"
| "bt_insert k v ((k', v') # m) =
     (if k < k' then (k, v) # (k', v') # m
      else if k = k' then (k, v) # m
      else (k', v') # bt_insert k v m)"

definition bt_remove :: "'k \<Rightarrow> ('k \<times> 'v) list \<Rightarrow> ('k \<times> 'v) list" where
  "bt_remove k m = filter (\<lambda>e. fst e \<noteq> k) m"

definition bt_wf :: "('k::linorder \<times> 'v) list \<Rightarrow> bool" where
  "bt_wf m \<longleftrightarrow> sorted_wrt (<) (map fst m)"

lemma bt_insert_above:
  "\<forall>e\<in>set m. fst e < k \<Longrightarrow> bt_insert k v m = m @ [(k, v)]"
  by (induction m rule: induct_list012) auto

lemma bt_wf_remove: "bt_wf m \<Longrightarrow> bt_wf (bt_remove k m)"
  unfolding bt_wf_def bt_remove_def sorted_wrt_map by (rule sorted_wrt_filter)

lemma set_bt_remove: "set (bt_remove k m) = {e \<in> set m. fst e \<noteq> k}"
  by (simp add: bt_remove_def)

section \<open>Lists\<close>

lemma find_code:
  assumes "distinct (map f xs)" and "x \<in> set xs"
  shows "find (\<lambda>y. f y = f x) xs = Some x"
  using assms by (induction xs) auto

lemma find_Some_holds: "find P xs = Some x \<Longrightarrow> P x \<and> x \<in> set xs"
  by (induction xs) (auto split: if_splits)

lemma filter_empty_set: "filter P xs = [] \<longleftrightarrow> (\<forall>x\<in>set xs. \<not> P x)"
  by (simp add: filter_empty_conv)

lemma map_of_SomeD_key: "map_of (map (\<lambda>x. (f x, x)) xs) k = Some y \<Longrightarrow> y \<in> set xs \<and> f y = k"
  by (induction xs) (auto split: if_splits)

lemma map_of_keyed:
  assumes "distinct (map f xs)" and "x \<in> set xs"
  shows "map_of (map (\<lambda>x. (f x, x)) xs) (f x) = Some x"
  using assms by (induction xs) (auto intro: rev_image_eqI)

lemma map_of_keyed_None:
  "map_of (map (\<lambda>x. (f x, x)) xs) k = None \<longleftrightarrow> k \<notin> f ` set xs"
  by (induction xs) auto

section \<open>Enums stored as text\<close>

text \<open>
  The interface of a fieldless enum with a text code: the list of its values, its
  \<open>as_str\<close>, and the promise that the list is complete and the codes are distinct.
  \<open>parse\<close> is the \<open>FromStr\<close> every such enum of the code has: the first listed value whose
  code is the given text.
\<close>

locale string_enum =
  fixes all_values :: "'k list"
    and as_str :: "'k \<Rightarrow> string"
    and parse :: "string \<Rightarrow> (string, 'k) result"
    and err :: "string \<Rightarrow> string"
  assumes complete: "set all_values = UNIV"
    and distinct_codes: "distinct (map as_str all_values)"
    and parse_eq: "parse s = (case find (\<lambda>k. as_str k = s) all_values of
                                Some k \<Rightarrow> Inr k | None \<Rightarrow> Inl (err s))"
begin

lemma as_str_inj: "as_str a = as_str b \<Longrightarrow> a = b"
  using distinct_codes complete by (metis UNIV_I distinct_map inj_onD)

lemma parse_as_str: "parse (as_str k) = Inr k"
  using find_code [OF distinct_codes, of k] by (simp add: parse_eq complete)

lemma parse_iff: "parse s = Inr k \<longleftrightarrow> s = as_str k"
proof
  assume p: "parse s = Inr k"
  then have "find (\<lambda>k. as_str k = s) all_values = Some k"
    unfolding parse_eq by (cases "find (\<lambda>k. as_str k = s) all_values") simp_all
  then show "s = as_str k" by (auto dest: find_Some_holds)
qed (simp add: parse_as_str)

lemma parse_unknown: "s \<notin> range as_str \<Longrightarrow> parse s = Inl (err s)"
  by (cases "find (\<lambda>k. as_str k = s) all_values") (auto simp: parse_eq dest: find_Some_holds)

lemma parse_error_iff: "(\<exists>e. parse s = Inl e) \<longleftrightarrow> s \<notin> range as_str"
  by (cases "parse s") (auto simp: parse_iff[symmetric] parse_as_str)

lemma values_distinct: "distinct all_values"
  using distinct_codes by (simp add: distinct_map)

lemma card_values: "card (UNIV :: 'k set) = length all_values"
  using values_distinct complete by (metis distinct_card)

end

end
