(* ===== verification/Graph_Types.thy ===== *)
theory Graph_Types
  imports Prelude "HOL-Library.Word"
begin

text \<open>
  The data model of the knowledge graph (\<^verbatim>\<open>src/types.rs\<close>): the node, edge and language enums
  with their text codes, and the node, edge and subgraph records.
\<close>

section \<open>Enums and their codes\<close>

datatype node_kind =
    NK_File | NK_Module | NK_Class | NK_Struct | NK_Interface | NK_Trait | NK_Protocol |
    NK_Function | NK_Method | NK_Property | NK_Field | NK_Variable | NK_Constant | NK_Enum |
    NK_EnumMember | NK_TypeAlias | NK_Namespace | NK_Parameter | NK_Import | NK_Export |
    NK_Route | NK_Component | NK_DataSymbol | NK_StringLiteral | NK_Macro | NK_Union |
    NK_Section

definition NODE_KINDS :: "node_kind list" where
  "NODE_KINDS = [
     NK_File, NK_Module, NK_Class, NK_Struct, NK_Interface, NK_Trait, NK_Protocol,
     NK_Function, NK_Method, NK_Property, NK_Field, NK_Variable, NK_Constant, NK_Enum,
     NK_EnumMember, NK_TypeAlias, NK_Namespace, NK_Parameter, NK_Import, NK_Export, NK_Route,
     NK_Component, NK_DataSymbol, NK_StringLiteral, NK_Macro, NK_Union, NK_Section]"

fun node_kind_as_str :: "node_kind \<Rightarrow> string" where
  "node_kind_as_str NK_File = ''file''"
| "node_kind_as_str NK_Module = ''module''"
| "node_kind_as_str NK_Class = ''class''"
| "node_kind_as_str NK_Struct = ''struct''"
| "node_kind_as_str NK_Interface = ''interface''"
| "node_kind_as_str NK_Trait = ''trait''"
| "node_kind_as_str NK_Protocol = ''protocol''"
| "node_kind_as_str NK_Function = ''function''"
| "node_kind_as_str NK_Method = ''method''"
| "node_kind_as_str NK_Property = ''property''"
| "node_kind_as_str NK_Field = ''field''"
| "node_kind_as_str NK_Variable = ''variable''"
| "node_kind_as_str NK_Constant = ''constant''"
| "node_kind_as_str NK_Enum = ''enum''"
| "node_kind_as_str NK_EnumMember = ''enum_member''"
| "node_kind_as_str NK_TypeAlias = ''type_alias''"
| "node_kind_as_str NK_Namespace = ''namespace''"
| "node_kind_as_str NK_Parameter = ''parameter''"
| "node_kind_as_str NK_Import = ''import''"
| "node_kind_as_str NK_Export = ''export''"
| "node_kind_as_str NK_Route = ''route''"
| "node_kind_as_str NK_Component = ''component''"
| "node_kind_as_str NK_Union = ''union''"
| "node_kind_as_str NK_DataSymbol = ''data_symbol''"
| "node_kind_as_str NK_StringLiteral = ''string_literal''"
| "node_kind_as_str NK_Macro = ''macro''"
| "node_kind_as_str NK_Section = ''section''"

definition node_kind_from_str :: "string \<Rightarrow> (string, node_kind) result" where
  "node_kind_from_str s =
     (case find (\<lambda>k. node_kind_as_str k = s) NODE_KINDS of
        Some k \<Rightarrow> Inr k
      | None \<Rightarrow> Inl (''unknown node kind: '' @ s))"

datatype edge_kind =
    EK_Contains | EK_Calls | EK_Imports | EK_Exports | EK_Extends | EK_Implements |
    EK_References | EK_TypeOf | EK_Returns | EK_Instantiates | EK_Overrides | EK_Decorates |
    EK_Reads | EK_Writes | EK_Aliases

definition EDGE_KINDS :: "edge_kind list" where
  "EDGE_KINDS = [
     EK_Contains, EK_Calls, EK_Imports, EK_Exports, EK_Extends, EK_Implements, EK_References,
     EK_TypeOf, EK_Returns, EK_Instantiates, EK_Overrides, EK_Decorates, EK_Reads, EK_Writes,
     EK_Aliases]"

fun edge_kind_as_str :: "edge_kind \<Rightarrow> string" where
  "edge_kind_as_str EK_Contains = ''contains''"
| "edge_kind_as_str EK_Calls = ''calls''"
| "edge_kind_as_str EK_Imports = ''imports''"
| "edge_kind_as_str EK_Exports = ''exports''"
| "edge_kind_as_str EK_Extends = ''extends''"
| "edge_kind_as_str EK_Implements = ''implements''"
| "edge_kind_as_str EK_References = ''references''"
| "edge_kind_as_str EK_TypeOf = ''type_of''"
| "edge_kind_as_str EK_Returns = ''returns''"
| "edge_kind_as_str EK_Instantiates = ''instantiates''"
| "edge_kind_as_str EK_Overrides = ''overrides''"
| "edge_kind_as_str EK_Decorates = ''decorates''"
| "edge_kind_as_str EK_Reads = ''reads''"
| "edge_kind_as_str EK_Writes = ''writes''"
| "edge_kind_as_str EK_Aliases = ''aliases''"

definition edge_kind_from_str :: "string \<Rightarrow> (string, edge_kind) result" where
  "edge_kind_from_str s =
     (case find (\<lambda>k. edge_kind_as_str k = s) EDGE_KINDS of
        Some k \<Rightarrow> Inr k
      | None \<Rightarrow> Inl (''unknown edge kind: '' @ s))"

datatype language =
    Lang_Typescript | Lang_Javascript | Lang_Tsx | Lang_Jsx | Lang_Arkts | Lang_Python |
    Lang_Go | Lang_Rust | Lang_Java | Lang_C | Lang_Cpp | Lang_Csharp | Lang_Razor |
    Lang_Php | Lang_Ruby | Lang_Swift | Lang_Kotlin | Lang_Dart | Lang_Svelte | Lang_Vue |
    Lang_Astro | Lang_Liquid | Lang_Pascal | Lang_Scala | Lang_Lua | Lang_Luau | Lang_Objc |
    Lang_R | Lang_Solidity | Lang_Vyper | Lang_Move | Lang_Cairo | Lang_Sway | Lang_Fe |
    Lang_Nix | Lang_Apex | Lang_Bash | Lang_Zsh | Lang_Fish | Lang_Html | Lang_Visualforce |
    Lang_Aura | Lang_Yaml | Lang_Twig | Lang_Xml | Lang_Properties | Lang_Toml |
    Lang_Markdown | Lang_Gitignore | Lang_Cfml | Lang_Cfscript | Lang_Cfquery | Lang_Cobol |
    Lang_Vbnet | Lang_Erlang | Lang_Terraform | Lang_Unknown

definition LANGUAGES :: "language list" where
  "LANGUAGES = [
     Lang_Typescript, Lang_Javascript, Lang_Tsx, Lang_Jsx, Lang_Arkts, Lang_Python, Lang_Go,
     Lang_Rust, Lang_Java, Lang_C, Lang_Cpp, Lang_Csharp, Lang_Razor, Lang_Php, Lang_Ruby,
     Lang_Swift, Lang_Kotlin, Lang_Dart, Lang_Svelte, Lang_Vue, Lang_Astro, Lang_Liquid,
     Lang_Pascal, Lang_Scala, Lang_Lua, Lang_Luau, Lang_Objc, Lang_R, Lang_Solidity,
     Lang_Vyper, Lang_Move, Lang_Cairo, Lang_Sway, Lang_Fe, Lang_Nix, Lang_Apex, Lang_Bash,
     Lang_Zsh, Lang_Fish, Lang_Html, Lang_Visualforce, Lang_Aura, Lang_Yaml, Lang_Twig,
     Lang_Xml, Lang_Properties, Lang_Toml, Lang_Markdown, Lang_Gitignore, Lang_Cfml,
     Lang_Cfscript, Lang_Cfquery, Lang_Cobol, Lang_Vbnet, Lang_Erlang, Lang_Terraform,
     Lang_Unknown]"

fun language_as_str :: "language \<Rightarrow> string" where
  "language_as_str Lang_Typescript = ''typescript''"
| "language_as_str Lang_Javascript = ''javascript''"
| "language_as_str Lang_Tsx = ''tsx''"
| "language_as_str Lang_Jsx = ''jsx''"
| "language_as_str Lang_Arkts = ''arkts''"
| "language_as_str Lang_Python = ''python''"
| "language_as_str Lang_Go = ''go''"
| "language_as_str Lang_Rust = ''rust''"
| "language_as_str Lang_Java = ''java''"
| "language_as_str Lang_C = ''c''"
| "language_as_str Lang_Cpp = ''cpp''"
| "language_as_str Lang_Csharp = ''csharp''"
| "language_as_str Lang_Razor = ''razor''"
| "language_as_str Lang_Php = ''php''"
| "language_as_str Lang_Ruby = ''ruby''"
| "language_as_str Lang_Swift = ''swift''"
| "language_as_str Lang_Kotlin = ''kotlin''"
| "language_as_str Lang_Dart = ''dart''"
| "language_as_str Lang_Svelte = ''svelte''"
| "language_as_str Lang_Vue = ''vue''"
| "language_as_str Lang_Astro = ''astro''"
| "language_as_str Lang_Liquid = ''liquid''"
| "language_as_str Lang_Pascal = ''pascal''"
| "language_as_str Lang_Scala = ''scala''"
| "language_as_str Lang_Lua = ''lua''"
| "language_as_str Lang_Luau = ''luau''"
| "language_as_str Lang_Objc = ''objc''"
| "language_as_str Lang_R = ''r''"
| "language_as_str Lang_Solidity = ''solidity''"
| "language_as_str Lang_Vyper = ''vyper''"
| "language_as_str Lang_Move = ''move''"
| "language_as_str Lang_Cairo = ''cairo''"
| "language_as_str Lang_Sway = ''sway''"
| "language_as_str Lang_Fe = ''fe''"
| "language_as_str Lang_Nix = ''nix''"
| "language_as_str Lang_Apex = ''apex''"
| "language_as_str Lang_Bash = ''bash''"
| "language_as_str Lang_Zsh = ''zsh''"
| "language_as_str Lang_Fish = ''fish''"
| "language_as_str Lang_Html = ''html''"
| "language_as_str Lang_Visualforce = ''visualforce''"
| "language_as_str Lang_Aura = ''aura''"
| "language_as_str Lang_Yaml = ''yaml''"
| "language_as_str Lang_Twig = ''twig''"
| "language_as_str Lang_Xml = ''xml''"
| "language_as_str Lang_Properties = ''properties''"
| "language_as_str Lang_Toml = ''toml''"
| "language_as_str Lang_Markdown = ''markdown''"
| "language_as_str Lang_Gitignore = ''gitignore''"
| "language_as_str Lang_Cfml = ''cfml''"
| "language_as_str Lang_Cfscript = ''cfscript''"
| "language_as_str Lang_Cfquery = ''cfquery''"
| "language_as_str Lang_Cobol = ''cobol''"
| "language_as_str Lang_Vbnet = ''vbnet''"
| "language_as_str Lang_Erlang = ''erlang''"
| "language_as_str Lang_Terraform = ''terraform''"
| "language_as_str Lang_Unknown = ''unknown''"

definition language_from_str :: "string \<Rightarrow> (string, language) result" where
  "language_from_str s =
     (case find (\<lambda>k. language_as_str k = s) LANGUAGES of
        Some k \<Rightarrow> Inr k
      | None \<Rightarrow> Inl (''unknown language: '' @ s))"

datatype visibility = Public | Private | Protected | Internal

datatype provenance = TreeSitter | Scip | Heuristic

fun provenance_as_str :: "provenance \<Rightarrow> string" where
  "provenance_as_str TreeSitter = ''tree-sitter''"
| "provenance_as_str Scip = ''scip''"
| "provenance_as_str Heuristic = ''heuristic''"

definition provenance_from_str :: "string \<Rightarrow> (string, provenance) result" where
  "provenance_from_str s =
     (if s = ''tree-sitter'' then Inr TreeSitter
      else if s = ''scip'' then Inr Scip
      else if s = ''heuristic'' then Inr Heuristic
      else Inl (''unknown provenance: '' @ s))"

definition PROVENANCES :: "provenance list" where
  "PROVENANCES = [TreeSitter, Scip, Heuristic]"

interpretation nk: string_enum NODE_KINDS node_kind_as_str node_kind_from_str
    "\<lambda>s. ''unknown node kind: '' @ s"
proof
  show "set NODE_KINDS = UNIV"
    by (auto simp: NODE_KINDS_def intro: node_kind.exhaust)
  show "distinct (map node_kind_as_str NODE_KINDS)"
    by (simp add: NODE_KINDS_def)
qed (simp add: node_kind_from_str_def)

interpretation ek: string_enum EDGE_KINDS edge_kind_as_str edge_kind_from_str
    "\<lambda>s. ''unknown edge kind: '' @ s"
proof
  show "set EDGE_KINDS = UNIV"
    by (auto simp: EDGE_KINDS_def intro: edge_kind.exhaust)
  show "distinct (map edge_kind_as_str EDGE_KINDS)"
    by (simp add: EDGE_KINDS_def)
qed (simp add: edge_kind_from_str_def)

interpretation lang: string_enum LANGUAGES language_as_str language_from_str
    "\<lambda>s. ''unknown language: '' @ s"
proof
  show "set LANGUAGES = UNIV"
    by (auto simp: LANGUAGES_def intro: language.exhaust)
  show "distinct (map language_as_str LANGUAGES)"
    by (simp add: LANGUAGES_def)
qed (simp add: language_from_str_def)

interpretation prov: string_enum PROVENANCES provenance_as_str provenance_from_str
    "\<lambda>s. ''unknown provenance: '' @ s"
proof
  show "set PROVENANCES = UNIV"
    by (auto simp: PROVENANCES_def intro: provenance.exhaust)
  show "distinct (map provenance_as_str PROVENANCES)"
    by (simp add: PROVENANCES_def)
  show "provenance_from_str s =
      (case find (\<lambda>k. provenance_as_str k = s) PROVENANCES of
         Some k \<Rightarrow> Inr k | None \<Rightarrow> Inl (''unknown provenance: '' @ s))" for s
    by (auto simp: provenance_from_str_def PROVENANCES_def)
qed
section \<open>Errors\<close>

text \<open>\<^verbatim>\<open>CodeGraphError\<close>; the payloads of the I/O, SQLite and JSON variants are those libraries'
  own errors and are kept as their text.\<close>

datatype cg_error =
    FileError string string
  | ParseError string string "nat option" "nat option"
  | DatabaseError string string
  | SearchError string string
  | VectorError string string
  | ConfigError string
  | IoError string
  | SqliteError string
  | JsonError string
  | OtherError string

fun cg_error_code :: "cg_error \<Rightarrow> string" where
  "cg_error_code (FileError _ _) = ''FILE_ERROR''"
| "cg_error_code (ParseError _ _ _ _) = ''PARSE_ERROR''"
| "cg_error_code (DatabaseError _ _) = ''DATABASE_ERROR''"
| "cg_error_code (SearchError _ _) = ''SEARCH_ERROR''"
| "cg_error_code (VectorError _ _) = ''VECTOR_ERROR''"
| "cg_error_code (ConfigError _) = ''CONFIG_ERROR''"
| "cg_error_code (IoError _) = ''FILE_ERROR''"
| "cg_error_code (SqliteError _) = ''DATABASE_ERROR''"
| "cg_error_code (JsonError _) = ''CONFIG_ERROR''"
| "cg_error_code (OtherError _) = ''ERROR''"

section \<open>Nodes and edges\<close>

text \<open>JSON values as \<^verbatim>\<open>serde_json\<close> documents them, a number by its text; edge metadata is a JSON
  object.\<close>

datatype json =
    JNull | JBool bool | JNumber string | JString string | JArray "json list"
  | JObject "(string \<times> json) list"

type_synonym metadata = "(string, json) hash_map"

text \<open>Line, column and byte positions (\<^verbatim>\<open>u32\<close>) are only stored and compared, so they are \<^typ>\<open>nat\<close>;
  the address goes through a cast to \<^verbatim>\<open>i64\<close> and keeps its width.\<close>

record node =
  node_id :: string
  node_kind :: node_kind
  node_name :: string
  node_qualified_name :: string
  node_file_path :: string
  node_language :: language
  node_start_line :: nat
  node_end_line :: nat
  node_start_column :: nat
  node_end_column :: nat
  node_start_byte :: "nat option"
  node_end_byte :: "nat option"
  node_address :: "64 word option"
  node_size :: "nat option"
  node_docstring :: "string option"
  node_signature :: "string option"
  node_return_type :: "string option"
  node_visibility :: "visibility option"
  node_is_exported :: "bool option"
  node_is_async :: "bool option"
  node_is_static :: "bool option"
  node_is_abstract :: "bool option"
  node_decorators :: "string list option"
  node_type_parameters :: "string list option"
  node_updated_at :: int

definition node_new ::
    "string \<Rightarrow> node_kind \<Rightarrow> string \<Rightarrow> string \<Rightarrow> string \<Rightarrow> language \<Rightarrow> nat \<Rightarrow> nat \<Rightarrow> node" where
  "node_new i kind name qualified_name file_path language start_line end_line =
     \<lparr>node_id = i, node_kind = kind, node_name = name, node_qualified_name = qualified_name,
      node_file_path = file_path, node_language = language, node_start_line = start_line,
      node_end_line = end_line, node_start_column = 0, node_end_column = 0,
      node_start_byte = None, node_end_byte = None, node_address = None, node_size = None,
      node_docstring = None, node_signature = None, node_return_type = None,
      node_visibility = None, node_is_exported = None, node_is_async = None,
      node_is_static = None, node_is_abstract = None, node_decorators = None,
      node_type_parameters = None, node_updated_at = 0\<rparr>"

definition byte_range :: "node \<Rightarrow> (nat \<times> nat) option" where
  "byte_range n =
     (case (node_start_byte n, node_end_byte n) of
        (Some s, Some e) \<Rightarrow> if s \<le> e then Some (s, e) else None
      | _ \<Rightarrow> None)"

record edge =
  edge_source :: string
  edge_target :: string
  edge_kind_of :: edge_kind
  edge_metadata :: "metadata option"
  edge_line :: "nat option"
  edge_column :: "nat option"
  edge_provenance :: "provenance option"

definition edge_new :: "string \<Rightarrow> string \<Rightarrow> edge_kind \<Rightarrow> edge" where
  "edge_new source target kind =
     \<lparr>edge_source = source, edge_target = target, edge_kind_of = kind, edge_metadata = None,
      edge_line = None, edge_column = None, edge_provenance = None\<rparr>"

text \<open>The metadata of a call whose receiver expression extraction dropped.\<close>

definition RECEIVER_DROPPED :: string where
  "RECEIVER_DROPPED = ''receiverDropped''"

definition RECEIVER_TEXT :: string where
  "RECEIVER_TEXT = ''receiver''"

definition receiver_dropped_metadata :: metadata where
  "receiver_dropped_metadata = [(RECEIVER_DROPPED, JBool True)]"

definition dropped_receiver_metadata :: "string option \<Rightarrow> metadata" where
  "dropped_receiver_metadata receiver =
     (case receiver of
        None \<Rightarrow> receiver_dropped_metadata
      | Some r \<Rightarrow> hm_insert RECEIVER_TEXT (JString r) receiver_dropped_metadata)"

definition receiver_was_dropped :: "metadata option \<Rightarrow> bool" where
  "receiver_was_dropped m =
     (case Option.bind m (\<lambda>m. map_of m RECEIVER_DROPPED) of Some (JBool b) \<Rightarrow> b | _ \<Rightarrow> False)"

definition dropped_receiver_text :: "metadata option \<Rightarrow> string option" where
  "dropped_receiver_text m =
     (if receiver_was_dropped m
      then (case Option.bind m (\<lambda>m. map_of m RECEIVER_TEXT) of Some (JString s) \<Rightarrow> Some s | _ \<Rightarrow> None)
      else None)"

section \<open>Queries and their results\<close>

datatype confidence = High | Low

record subgraph =
  sg_nodes :: "(string, node) hash_map"
  sg_edges :: "edge list"
  sg_roots :: "string list"
  sg_confidence :: "confidence option"

definition subgraph_default :: subgraph where
  "subgraph_default = \<lparr>sg_nodes = [], sg_edges = [], sg_roots = [], sg_confidence = None\<rparr>"

datatype direction = Outgoing | Incoming | Both

record traversal_options =
  opt_max_depth :: "nat option"
  opt_edge_kinds :: "edge_kind list option"
  opt_node_kinds :: "node_kind list option"
  opt_direction :: "direction option"
  opt_limit :: "nat option"
  opt_include_start :: "bool option"

definition traversal_options_default :: traversal_options where
  "traversal_options_default =
     \<lparr>opt_max_depth = None, opt_edge_kinds = None, opt_node_kinds = None, opt_direction = None,
      opt_limit = None, opt_include_start = None\<rparr>"

record node_ref =
  ref_node :: node
  ref_edge :: edge

end
