(* ===== verification/Query_Interface.thy ===== *)
theory Query_Interface
  imports Graph_Types
begin

text \<open>
  The read side of \<^verbatim>\<open>QueryBuilder\<close> as the graph algorithms see it: the operations
  (\<open>queries\<close>), and the contract \<open>graph_store\<close> under which the traversals are proved correct.
  \<^verbatim>\<open>Graph_Store\<close> gives the tables and the SQL behind the operations and discharges the contract.
\<close>

section \<open>The operations\<close>

record queries =
  q_node_by_id :: "string \<Rightarrow> (cg_error, node option) result"
  q_nodes_by_ids :: "string list \<Rightarrow> (cg_error, (string, node) hash_map) result"
  q_outgoing :: "string \<Rightarrow> edge_kind list option \<Rightarrow> (cg_error, edge list) result"
  q_incoming :: "string \<Rightarrow> edge_kind list option \<Rightarrow> (cg_error, edge list) result"
  q_outgoing_many :: "string list \<Rightarrow> edge_kind list option \<Rightarrow> (cg_error, edge list) result"
  q_incoming_many :: "string list \<Rightarrow> edge_kind list option \<Rightarrow> (cg_error, edge list) result"

text \<open>The \<^verbatim>\<open>kinds\<close> argument filters only when it is present and not empty.\<close>

fun kind_matches :: "edge_kind list option \<Rightarrow> edge_kind \<Rightarrow> bool" where
  "kind_matches None k = True"
| "kind_matches (Some []) k = True"
| "kind_matches (Some ks) k = (k \<in> set ks)"

lemma kind_matches_nonempty: "ks \<noteq> [] \<Longrightarrow> kind_matches (Some ks) k \<longleftrightarrow> k \<in> set ks"
  by (cases ks) simp_all

section \<open>The contract\<close>

locale graph_store =
  fixes q :: queries
    and nodes :: "string \<Rightarrow> node option"
    and edges :: "edge set"
  assumes node_by_id: "q_node_by_id q i = Inr (nodes i)"
    and nodes_by_ids: "\<exists>m. q_nodes_by_ids q ids = Inr m \<and> map_of m = nodes |` set ids"
    and outgoing: "\<exists>es. q_outgoing q i ks = Inr es \<and>
      set es = {e \<in> edges. edge_source e = i \<and> kind_matches ks (edge_kind_of e)}"
    and incoming: "\<exists>es. q_incoming q i ks = Inr es \<and>
      set es = {e \<in> edges. edge_target e = i \<and> kind_matches ks (edge_kind_of e)}"
    and outgoing_many: "\<exists>es. q_outgoing_many q ids ks = Inr es \<and>
      set es = {e \<in> edges. edge_source e \<in> set ids \<and> kind_matches ks (edge_kind_of e)}"
    and incoming_many: "\<exists>es. q_incoming_many q ids ks = Inr es \<and>
      set es = {e \<in> edges. edge_target e \<in> set ids \<and> kind_matches ks (edge_kind_of e)}"
    and node_key: "nodes i = Some n \<Longrightarrow> node_id n = i"
    and finite_nodes: "finite (dom nodes)"
begin

lemma outgoingE:
  obtains es where "q_outgoing q i ks = Inr es"
    "set es = {e \<in> edges. edge_source e = i \<and> kind_matches ks (edge_kind_of e)}"
  using outgoing by blast

lemma incomingE:
  obtains es where "q_incoming q i ks = Inr es"
    "set es = {e \<in> edges. edge_target e = i \<and> kind_matches ks (edge_kind_of e)}"
  using incoming by blast

lemma nodes_by_idsE:
  obtains m where "q_nodes_by_ids q ids = Inr m" "map_of m = nodes |` set ids"
  using nodes_by_ids by blast

end

section \<open>Walks with a length\<close>

text \<open>\<open>hops R a k b\<close>: some walk of \<open>k\<close> steps of \<open>R\<close> leads from \<open>a\<close> to \<open>b\<close>.\<close>

inductive hops :: "('a \<Rightarrow> 'a \<Rightarrow> bool) \<Rightarrow> 'a \<Rightarrow> nat \<Rightarrow> 'a \<Rightarrow> bool" for R :: "'a \<Rightarrow> 'a \<Rightarrow> bool" and a :: 'a where
  hops_0: "hops R a 0 a"
| hops_Suc: "hops R a k b \<Longrightarrow> R b c \<Longrightarrow> hops R a (Suc k) c"

inductive_simps hops_zero_iff: "hops R a 0 b"
inductive_cases hops_SucE: "hops R a (Suc k) b"

lemma hops_reachable: "hops R a k b \<Longrightarrow> R\<^sup>*\<^sup>* a b"
  by (induction rule: hops.induct) auto

lemma reachable_hops: "R\<^sup>*\<^sup>* a b \<Longrightarrow> \<exists>k. hops R a k b"
  by (induction rule: rtranclp_induct) (auto intro: hops.intros)

definition within_hops :: "('a \<Rightarrow> 'a \<Rightarrow> bool) \<Rightarrow> 'a \<Rightarrow> nat \<Rightarrow> 'a \<Rightarrow> bool" where
  "within_hops R a d b \<longleftrightarrow> (\<exists>k\<le>d. hops R a k b)"

text \<open>The length of a shortest walk.\<close>

definition hop_distance :: "('a \<Rightarrow> 'a \<Rightarrow> bool) \<Rightarrow> 'a \<Rightarrow> nat \<Rightarrow> 'a \<Rightarrow> bool" where
  "hop_distance R a k b \<longleftrightarrow> hops R a k b \<and> (\<forall>j. hops R a j b \<longrightarrow> k \<le> j)"

text \<open>A labelling that starts at \<open>0\<close>, stands for walks and grows by at most one per step
  over everything it covers is the hop distance.\<close>

lemma labelling_is_distance:
  assumes "a \<in> V" and "l a = 0"
    and sound: "\<And>v. v \<in> V \<Longrightarrow> hops R a (l v) v"
    and closed: "\<And>v w. v \<in> V \<Longrightarrow> R v w \<Longrightarrow> w \<in> V \<and> l w \<le> Suc (l v)"
  shows "v \<in> V \<longleftrightarrow> R\<^sup>*\<^sup>* a v" and "v \<in> V \<Longrightarrow> hop_distance R a (l v) v"
proof -
  have upper: "hops R a k b \<Longrightarrow> b \<in> V \<and> l b \<le> k" for k b
  proof (induction k b rule: hops.induct)
    case hops_0
    with assms show ?case by simp
  next
    case (hops_Suc k b c)
    with closed [of b c] show ?case by fastforce
  qed
  show "v \<in> V \<longleftrightarrow> R\<^sup>*\<^sup>* a v"
    using upper sound by (meson hops_reachable reachable_hops)
  show "v \<in> V \<Longrightarrow> hop_distance R a (l v) v"
    using upper sound by (auto simp: hop_distance_def)
qed

end
