(* ===== verification/Lru.thy ===== *)
theory Lru
  imports Graph_Types
begin

text \<open>
  The two least-recently-used caches: \<^verbatim>\<open>NodeLru\<close> in front of the node table
  (\<^verbatim>\<open>src/db/queries/statements/cache.rs\<close>) and the generic \<^verbatim>\<open>LRUCache\<close> of the reference resolver
  (\<^verbatim>\<open>src/resolution/lru_cache.rs\<close>). Both keep a hash map from key to stamp and value, and an
  ordered map from stamp to key. The contract \<open>lru\<close> says they are a list of entries, oldest
  first; what a client may rely on is proved from that contract.
\<close>

section \<open>The contract\<close>

text \<open>The entries a cache stands for, oldest first.\<close>

definition entries_touch :: "'k \<Rightarrow> ('k \<times> 'v) list \<Rightarrow> ('k \<times> 'v) list" where
  "entries_touch k es =
     (case map_of es k of None \<Rightarrow> es | Some v \<Rightarrow> filter (\<lambda>e. fst e \<noteq> k) es @ [(k, v)])"

definition entries_put :: "nat \<Rightarrow> 'k \<Rightarrow> 'v \<Rightarrow> ('k \<times> 'v) list \<Rightarrow> ('k \<times> 'v) list" where
  "entries_put cap k v es =
     (if k \<in> fst ` set es then filter (\<lambda>e. fst e \<noteq> k) es
      else if cap \<le> length es then tl es else es) @ [(k, v)]"

locale lru =
  fixes ok :: "'s \<Rightarrow> bool"
    and entries :: "'s \<Rightarrow> ('k \<times> 'v) list"
    and capacity :: "'s \<Rightarrow> nat"
    and get :: "'k \<Rightarrow> 's \<Rightarrow> 'v option \<times> 's"
    and put :: "'k \<Rightarrow> 'v \<Rightarrow> 's \<Rightarrow> 's"
  assumes get_ok: "ok s \<Longrightarrow> ok (snd (get k s))"
    and get_value: "ok s \<Longrightarrow> fst (get k s) = map_of (entries s) k"
    and get_entries: "ok s \<Longrightarrow> entries (snd (get k s)) = entries_touch k (entries s)"
    and put_ok: "ok s \<Longrightarrow> ok (put k v s)"
    and put_entries: "ok s \<Longrightarrow> entries (put k v s) = entries_put (capacity s) k v (entries s)"
    and put_capacity: "capacity (put k v s) = capacity s"
    and get_capacity: "capacity (snd (get k s)) = capacity s"
    and entries_distinct: "ok s \<Longrightarrow> distinct (map fst (entries s))"
begin

lemma map_of_filter_other:
  "k' \<noteq> k \<Longrightarrow> map_of (filter (\<lambda>e. fst e \<noteq> k) es) k' = map_of es k'"
  by (induction es) auto

lemma map_of_filter_same: "map_of (filter (\<lambda>e. fst e \<noteq> k) es) k = None"
  by (auto simp: map_of_eq_None_iff)

lemma get_put_same: "ok s \<Longrightarrow> fst (get k (put k v s)) = Some v"
proof -
  assume "ok s"
  moreover have "(k, v) \<in> set (entries_put c k v es)" for c es
    by (simp add: entries_put_def)
  ultimately show ?thesis
    using entries_distinct [OF put_ok, of s k v]
    by (simp add: get_value put_ok put_entries map_of_is_SomeI)
qed

lemma get_put_other:
  assumes "ok s" and "k' \<noteq> k"
  shows "fst (get k' (put k v s)) = fst (get k' s) \<or>
    k \<notin> fst ` set (entries s) \<and> capacity s \<le> length (entries s) \<and>
    entries s \<noteq> [] \<and> k' = fst (hd (entries s)) \<and> fst (get k' (put k v s)) = None"
proof (cases "k \<notin> fst ` set (entries s) \<and> capacity s \<le> length (entries s) \<and> entries s \<noteq> []")
  case True
  then obtain a b es where es: "entries s = (a, b) # es" by (cases "entries s") auto
  have eq: "fst (get k' (put k v s)) = map_of es k'" "fst (get k' s) = (if k' = a then Some b else map_of es k')"
    using True es assms
    by (auto simp: get_value put_ok put_entries entries_put_def map_add_def split: option.splits)
  have "map_of es a = None"
    using entries_distinct [OF assms(1)] es by (simp add: map_of_eq_None_iff)
  with eq True es show ?thesis by auto
next
  case False
  then show ?thesis
    using assms map_of_filter_other [OF assms(2), of "entries s"]
    by (auto simp: get_value put_ok put_entries entries_put_def map_add_def split: option.splits)
qed

lemma get_same_values:
  assumes "ok s" shows "map_of (entries (snd (get k s))) = map_of (entries s)"
proof
  fix k'
  show "map_of (entries (snd (get k s))) k' = map_of (entries s) k'"
  proof (cases "map_of (entries s) k")
    case None
    then show ?thesis using assms by (simp add: get_entries entries_touch_def)
  next
    case (Some v)
    then show ?thesis
      using assms map_of_filter_other [of k' k "entries s"] map_of_filter_same [of k "entries s"]
      by (cases "k' = k") (auto simp: get_entries entries_touch_def map_add_def split: option.splits)
  qed
qed

lemma put_bound:
  assumes "ok s" and "0 < capacity s" and "length (entries s) \<le> capacity s"
  shows "length (entries (put k v s)) \<le> capacity (put k v s)"
proof -
  have "Suc (length (filter (\<lambda>e. fst e \<noteq> k) (entries s))) \<le> length (entries s)" if "k \<in> fst ` set (entries s)"
  proof -
    from that obtain e where "e \<in> set (entries s)" "fst e = k" by auto
    then show ?thesis using length_filter_less [of e "entries s" "\<lambda>e. fst e \<noteq> k"] by simp
  qed
  with assms show ?thesis
    by (auto simp: put_entries put_capacity entries_put_def intro: le_trans)
qed

text \<open>A key that was just read survives fewer insertions of other keys than the capacity.\<close>

lemma recent_survives_step:
  assumes ok: "ok s" and es: "entries s = pre @ (k, v) # post" and "k' \<noteq> k"
    and short: "length post + 1 < capacity s"
  shows "\<exists>pre' post'. entries (put k' v' s) = pre' @ (k, v) # post' \<and> length post' \<le> length post + 1"
proof -
  let ?f = "filter (\<lambda>e. fst e \<noteq> k')"
  consider (old) "k' \<in> fst ` set (entries s)"
    | (evict) "k' \<notin> fst ` set (entries s)" "capacity s \<le> length (entries s)"
    | (room) "k' \<notin> fst ` set (entries s)" "\<not> capacity s \<le> length (entries s)" by blast
  then show ?thesis
  proof cases
    case old
    then have "entries (put k' v' s) = ?f pre @ (k, v) # (?f post @ [(k', v')])"
      using ok es assms(3) by (simp add: put_entries entries_put_def)
    then show ?thesis by (intro exI [of _ "?f pre"] exI [of _ "?f post @ [(k', v')]"]) simp
  next
    case evict
    with es short have "pre \<noteq> []" by auto
    with evict have "entries (put k' v' s) = tl pre @ (k, v) # (post @ [(k', v')])"
      using ok es by (simp add: put_entries entries_put_def)
    then show ?thesis by (intro exI [of _ "tl pre"] exI [of _ "post @ [(k', v')]"]) simp
  next
    case room
    then have "entries (put k' v' s) = pre @ (k, v) # (post @ [(k', v')])"
      using ok es by (simp add: put_entries entries_put_def)
    then show ?thesis by (intro exI [of _ pre] exI [of _ "post @ [(k', v')]"]) simp
  qed
qed

lemma recent_survives_fold:
  assumes "ok s" and "entries s = pre @ (k, v) # post" and "k \<notin> fst ` set kvs"
    and "length post + length kvs < capacity s"
  shows "map_of (entries (fold (\<lambda>(k, v). put k v) kvs s)) k = Some v"
  using assms
proof (induction kvs arbitrary: s pre post)
  case Nil
  have "(k, v) \<in> set (entries s)" using Nil(2) by simp
  with entries_distinct [OF Nil(1)] show ?case by (simp add: map_of_is_SomeI)
next
  case (Cons kv kvs)
  obtain k' v' where kv: "kv = (k', v')" by (cases kv)
  from Cons.prems kv have "k' \<noteq> k" "length post + 1 < capacity s" by auto
  from recent_survives_step [OF Cons.prems(1,2) this, of v'] obtain pre' post' where
    "entries (put k' v' s) = pre' @ (k, v) # post'" "length post' \<le> length post + 1" by blast
  with Cons.IH [of "put k' v' s" pre' post'] Cons.prems kv show ?case
    by (simp add: put_ok put_capacity)
qed

lemma recent_survives:
  assumes "ok s" and "fst (get k s) = Some v" and "k \<notin> fst ` set kvs"
    and "length kvs < capacity s"
  shows "fst (get k (fold (\<lambda>(k, v). put k v) kvs (snd (get k s)))) = Some v"
proof -
  have ok: "ok (fold (\<lambda>(k, v). put k v) kvs s)" if "ok s" for s
    using that by (induction kvs arbitrary: s) (auto simp: put_ok)
  from assms have "entries (snd (get k s)) = filter (\<lambda>e. fst e \<noteq> k) (entries s) @ (k, v) # []"
    by (simp add: get_value get_entries entries_touch_def)
  from recent_survives_fold [OF get_ok [OF assms(1)] this assms(3)] assms(1,4)
  show ?thesis by (simp add: get_value ok get_ok get_capacity)
qed

end

section \<open>A hash map with stamps and an ordered map of stamps\<close>

definition stamped_ok :: "('k, nat \<times> 'v) hash_map \<Rightarrow> (nat \<times> 'k) list \<Rightarrow> nat \<Rightarrow> bool" where
  "stamped_ok m ord c \<longleftrightarrow>
     hm_wf m \<and> bt_wf ord \<and> (\<forall>s\<in>fst ` set ord. s \<le> c) \<and>
     (\<forall>s k. (s, k) \<in> set ord \<longleftrightarrow> (\<exists>v. map_of m k = Some (s, v)))"

definition stamped_entries :: "('k, nat \<times> 'v) hash_map \<Rightarrow> (nat \<times> 'k) list \<Rightarrow> ('k \<times> 'v) list" where
  "stamped_entries m ord = map (\<lambda>(s, k). (k, snd (the (map_of m k)))) ord"

lemma stamped_okD:
  assumes "stamped_ok m ord c"
  shows "hm_wf m" "bt_wf ord" "\<And>s k. (s, k) \<in> set ord \<Longrightarrow> s \<le> c"
    "\<And>s k. (s, k) \<in> set ord \<longleftrightarrow> (\<exists>v. map_of m k = Some (s, v))"
  using assms unfolding stamped_ok_def by force+

lemma stamped_okI:
  assumes "hm_wf m" "bt_wf ord" "\<And>s k. (s, k) \<in> set ord \<Longrightarrow> s \<le> c"
    "\<And>s k. (s, k) \<in> set ord \<longleftrightarrow> (\<exists>v. map_of m k = Some (s, v))"
  shows "stamped_ok m ord c"
  using assms unfolding stamped_ok_def by force

lemma stamped_empty: "stamped_ok [] [] c"
  by (simp add: stamped_ok_def bt_wf_def)

lemma stamped_stamps_distinct: "stamped_ok m ord c \<Longrightarrow> distinct (map fst ord)"
  using stamped_okD(2) unfolding bt_wf_def by (metis strict_sorted_iff)

lemma stamped_keys_distinct:
  assumes "stamped_ok m ord c" shows "distinct (map snd ord)"
proof -
  have "inj_on snd (set ord)"
  proof (rule inj_onI)
    fix x y assume xy: "x \<in> set ord" "y \<in> set ord" "snd x = snd y"
    obtain s k s' k' where "x = (s, k)" "y = (s', k')" by (metis surj_pair)
    with xy stamped_okD(4) [OF assms] show "x = y" by fastforce
  qed
  moreover have "distinct ord" using stamped_stamps_distinct [OF assms] by (simp add: distinct_map)
  ultimately show ?thesis by (simp add: distinct_map)
qed

lemma stamped_entry:
  assumes "stamped_ok m ord c"
  shows "(k, v) \<in> set (stamped_entries m ord) \<longleftrightarrow> (\<exists>s. map_of m k = Some (s, v))"
proof
  assume "(k, v) \<in> set (stamped_entries m ord)"
  then obtain s where "(s, k) \<in> set ord" "v = snd (the (map_of m k))"
    by (auto simp: stamped_entries_def)
  with stamped_okD(4) [OF assms, of s k] show "\<exists>s. map_of m k = Some (s, v)" by auto
next
  assume "\<exists>s. map_of m k = Some (s, v)"
  then obtain s where s: "map_of m k = Some (s, v)" ..
  with stamped_okD(4) [OF assms, of s k] have "(s, k) \<in> set ord" by blast
  with s show "(k, v) \<in> set (stamped_entries m ord)"
    by (force simp: stamped_entries_def)
qed

lemma stamped_entries_distinct: "stamped_ok m ord c \<Longrightarrow> distinct (map fst (stamped_entries m ord))"
  using stamped_keys_distinct [of m ord c] by (simp add: stamped_entries_def comp_def case_prod_unfold)

lemma stamped_get:
  assumes "stamped_ok m ord c"
  shows "map_of (stamped_entries m ord) k = map_option snd (map_of m k)"
proof (cases "map_of m k")
  case None
  then have "k \<notin> fst ` set (stamped_entries m ord)"
    using stamped_entry [OF assms, of k] by force
  then have "map_of (stamped_entries m ord) k = None"
    using map_of_eq_None_iff [of "stamped_entries m ord" k] by blast
  with None show ?thesis by (simp only: option.map)
next
  case (Some e)
  then obtain s v where e: "map_of m k = Some (s, v)" by (cases e) auto
  with stamped_entry [OF assms, of k v] stamped_entries_distinct [OF assms] show ?thesis by simp
qed

lemma stamped_key: "stamped_ok m ord c \<Longrightarrow> k \<in> fst ` set (stamped_entries m ord) \<longleftrightarrow> map_of m k \<noteq> None"
  using stamped_get [of m ord c k] by (metis map_of_eq_None_iff option.map_disc_iff)

lemma stamped_length:
  assumes "stamped_ok m ord c" shows "length (stamped_entries m ord) = length m"
proof -
  have "fst ` set (stamped_entries m ord) = dom (map_of m)"
    using stamped_key [OF assms] by (auto simp: domIff)
  moreover have "length (stamped_entries m ord) = card (fst ` set (stamped_entries m ord))"
    using stamped_entries_distinct [OF assms] by (metis distinct_card length_map set_map)
  ultimately show ?thesis using stamped_okD(1) [OF assms] by (simp add: hm_len)
qed

lemma stamped_order_removed:
  assumes ok: "stamped_ok m ord c" and k: "map_of m k = Some (s, v)"
  shows "filter (\<lambda>e. fst e \<noteq> s) ord = filter (\<lambda>e. snd e \<noteq> k) ord"
proof (rule filter_cong [OF refl])
  fix e assume e: "e \<in> set ord"
  obtain s' k' where e': "e = (s', k')" by fastforce
  have "(s, k) \<in> set ord" using stamped_okD(4) [OF ok] k by blast
  moreover have "(s', k') \<in> set ord" using e e' by simp
  ultimately show "(fst e \<noteq> s) = (snd e \<noteq> k)"
    using stamped_stamps_distinct [OF ok] stamped_keys_distinct [OF ok] e'
    by (metis eq_key_imp_eq_value fst_conv snd_conv stamped_okD(4) [OF ok] k option.inject prod.inject)
qed

lemma stamped_remove:
  assumes ok: "stamped_ok m ord c" and k: "map_of m k = Some (s, v)"
    and m': "hm_wf m'" "map_of m' = (map_of m)(k := None)"
  shows "stamped_ok m' (bt_remove s ord) c"
    and "stamped_entries m' (bt_remove s ord) = filter (\<lambda>e. fst e \<noteq> k) (stamped_entries m ord)"
proof -
  have ord: "bt_remove s ord = filter (\<lambda>e. snd e \<noteq> k) ord"
    using stamped_order_removed [OF ok k] by (simp add: bt_remove_def)
  show "stamped_ok m' (bt_remove s ord) c"
  proof (rule stamped_okI [OF m'(1) bt_wf_remove [OF stamped_okD(2) [OF ok]]])
    show "s' \<le> c" if "(s', k') \<in> set (bt_remove s ord)" for s' k'
      using that stamped_okD(3) [OF ok] by (auto simp: set_bt_remove)
    show "(s', k') \<in> set (bt_remove s ord) \<longleftrightarrow> (\<exists>v. map_of m' k' = Some (s', v))" for s' k'
      using stamped_okD(4) [OF ok, of s' k'] unfolding ord m'(2) by auto
  qed
  show "stamped_entries m' (bt_remove s ord) = filter (\<lambda>e. fst e \<noteq> k) (stamped_entries m ord)"
    unfolding stamped_entries_def ord m'(2) filter_map comp_def
    by (simp add: case_prod_unfold cong: map_cong)
qed

lemma stamped_add:
  assumes ok: "stamped_ok m ord c" and k: "map_of m k = None"
    and m': "hm_wf m'" "map_of m' = (map_of m)(k \<mapsto> (Suc c, v))"
  shows "stamped_ok m' (bt_insert (Suc c) k ord) (Suc c)"
    and "stamped_entries m' (bt_insert (Suc c) k ord) = stamped_entries m ord @ [(k, v)]"
proof -
  have lt: "\<forall>e\<in>set ord. fst e < Suc c" using stamped_okD(3) [OF ok] by (auto simp: less_Suc_eq_le)
  then have ord: "bt_insert (Suc c) k ord = ord @ [(Suc c, k)]" by (rule bt_insert_above)
  have no_k: "(s, k) \<notin> set ord" for s using stamped_okD(4) [OF ok] k by simp
  have old: "(s', k') \<in> set ord \<Longrightarrow> s' \<noteq> Suc c" for s' k' using lt by force
  show "stamped_ok m' (bt_insert (Suc c) k ord) (Suc c)"
  proof (rule stamped_okI [OF m'(1)])
    show "bt_wf (bt_insert (Suc c) k ord)"
      using stamped_okD(2) [OF ok] lt unfolding ord bt_wf_def by (auto simp: sorted_wrt_append)
    show "s' \<le> Suc c" if "(s', k') \<in> set (bt_insert (Suc c) k ord)" for s' k'
      using that stamped_okD(3) [OF ok] unfolding ord by (auto intro: le_SucI)
    show "(s', k') \<in> set (bt_insert (Suc c) k ord) \<longleftrightarrow> (\<exists>v. map_of m' k' = Some (s', v))" for s' k'
      using stamped_okD(4) [OF ok, of s' k'] no_k unfolding ord m'(2) by auto
  qed
  show "stamped_entries m' (bt_insert (Suc c) k ord) = stamped_entries m ord @ [(k, v)]"
    using no_k unfolding stamped_entries_def ord m'(2) by auto
qed

lemma stamped_hd:
  assumes ok: "stamped_ok m ((s, k) # rest) c"
  obtains v where "map_of m k = Some (s, v)" "bt_remove s ((s, k) # rest) = rest"
proof -
  obtain v where "map_of m k = Some (s, v)" using stamped_okD(4) [OF ok, of s k] by auto
  moreover have "bt_remove s ((s, k) # rest) = rest"
    using stamped_stamps_distinct [OF ok] by (auto simp: bt_remove_def filter_id_conv image_iff)
  ultimately show ?thesis ..
qed

section \<open>The generic cache\<close>

text \<open>The stamps are \<^verbatim>\<open>u64\<close> counters in the code, one per access; they are natural numbers here,
  since a process does not make \<open>2 ^ 64\<close> accesses.\<close>

record ('k, 'v) LRUCache =
  lru_max :: nat
  lru_counter :: nat
  lru_store :: "('k, nat \<times> 'v) hash_map"
  lru_order :: "(nat \<times> 'k) list"

text \<open>\<^verbatim>\<open>new\<close> panics on \<open>0\<close>.\<close>

definition lru_new :: "nat \<Rightarrow> ('k, 'v) LRUCache option" where
  "lru_new m =
     (if m = 0 then None
      else Some \<lparr>lru_max = m, lru_counter = 0, lru_store = [], lru_order = []\<rparr>)"

definition lru_len :: "('k, 'v) LRUCache \<Rightarrow> nat" where
  "lru_len c = length (lru_store c)"

definition lru_get :: "'k \<Rightarrow> ('k, 'v) LRUCache \<Rightarrow> 'v option \<times> ('k, 'v) LRUCache" where
  "lru_get k c =
     (case map_of (lru_store c) k of
        None \<Rightarrow> (None, c)
      | Some (stamp, v) \<Rightarrow>
          let n = Suc (lru_counter c) in
          (Some v, c\<lparr>lru_counter := n,
                     lru_order := bt_insert n k (bt_remove stamp (lru_order c)),
                     lru_store := hm_insert k (n, v) (lru_store c)\<rparr>))"

definition lru_has :: "'k \<Rightarrow> ('k, 'v) LRUCache \<Rightarrow> bool" where
  "lru_has k c = hm_contains k (lru_store c)"

definition lru_set :: "'k \<Rightarrow> 'v \<Rightarrow> ('k, 'v) LRUCache \<Rightarrow> ('k, 'v) LRUCache" where
  "lru_set k v c =
     (let c = (case map_of (lru_store c) k of
                 Some (stamp, _) \<Rightarrow> c\<lparr>lru_order := bt_remove stamp (lru_order c)\<rparr>
               | None \<Rightarrow>
                   if lru_max c \<le> length (lru_store c)
                   then (case lru_order c of
                           [] \<Rightarrow> c
                         | (_, oldest) # rest \<Rightarrow>
                             c\<lparr>lru_order := rest, lru_store := hm_remove oldest (lru_store c)\<rparr>)
                   else c);
          n = Suc (lru_counter c) in
      c\<lparr>lru_counter := n, lru_order := bt_insert n k (lru_order c),
        lru_store := hm_insert k (n, v) (lru_store c)\<rparr>)"

definition lru_clear :: "('k, 'v) LRUCache \<Rightarrow> ('k, 'v) LRUCache" where
  "lru_clear c = c\<lparr>lru_store := [], lru_order := []\<rparr>"

definition lru_ok :: "('k, 'v) LRUCache \<Rightarrow> bool" where
  "lru_ok c \<longleftrightarrow> stamped_ok (lru_store c) (lru_order c) (lru_counter c)"

definition lru_entries :: "('k, 'v) LRUCache \<Rightarrow> ('k \<times> 'v) list" where
  "lru_entries c = stamped_entries (lru_store c) (lru_order c)"

lemmas lru_abs = lru_ok_def lru_entries_def

text \<open>Replacing an entry by a newer one is removing it and adding it anew.\<close>

lemma stamped_replace:
  assumes ok: "stamped_ok m ord c" and k: "map_of m k = Some (s, v)"
    and m': "hm_wf m'" "map_of m' = (map_of m)(k \<mapsto> (Suc c, w))"
  shows "stamped_ok m' (bt_insert (Suc c) k (bt_remove s ord)) (Suc c)"
    and "stamped_entries m' (bt_insert (Suc c) k (bt_remove s ord)) =
           filter (\<lambda>e. fst e \<noteq> k) (stamped_entries m ord) @ [(k, w)]"
proof -
  have r: "hm_wf (hm_remove k m)" "map_of (hm_remove k m) = (map_of m)(k := None)"
    using stamped_okD(1) [OF ok] by simp_all
  note rem = stamped_remove [OF ok k r]
  have "map_of (hm_remove k m) k = None" "map_of m' = (map_of (hm_remove k m))(k \<mapsto> (Suc c, w))"
    using m'(2) by simp_all
  from stamped_add [OF rem(1) this(1) m'(1) this(2)] rem(2)
  show "stamped_ok m' (bt_insert (Suc c) k (bt_remove s ord)) (Suc c)"
    and "stamped_entries m' (bt_insert (Suc c) k (bt_remove s ord)) =
           filter (\<lambda>e. fst e \<noteq> k) (stamped_entries m ord) @ [(k, w)]" by simp_all
qed

lemma stamped_evict:
  assumes ok: "stamped_ok m ((s, k) # rest) c"
  shows "stamped_ok (hm_remove k m) rest c"
    and "stamped_entries (hm_remove k m) rest = tl (stamped_entries m ((s, k) # rest))"
proof -
  obtain v where v: "map_of m k = Some (s, v)" "bt_remove s ((s, k) # rest) = rest"
    using stamped_hd [OF ok] .
  have r: "hm_wf (hm_remove k m)" "map_of (hm_remove k m) = (map_of m)(k := None)"
    using stamped_okD(1) [OF ok] by simp_all
  note rem = stamped_remove [OF ok v(1) r]
  from rem(1) v(2) show "stamped_ok (hm_remove k m) rest c" by simp
  have "k \<notin> snd ` set rest" using stamped_keys_distinct [OF ok] by simp
  then show "stamped_entries (hm_remove k m) rest = tl (stamped_entries m ((s, k) # rest))"
    by (auto simp: stamped_entries_def image_iff)
qed

lemma lru_get_abs:
  assumes ok: "lru_ok c"
  shows "fst (lru_get k c) = map_of (lru_entries c) k" and "lru_ok (snd (lru_get k c))"
    and "lru_entries (snd (lru_get k c)) = entries_touch k (lru_entries c)"
proof -
  note ok' = ok [unfolded lru_ok_def]
  have val: "map_of (lru_entries c) k = map_option snd (map_of (lru_store c) k)"
    using stamped_get [OF ok'] by (simp add: lru_entries_def)
  have "fst (lru_get k c) = map_of (lru_entries c) k \<and> lru_ok (snd (lru_get k c)) \<and>
        lru_entries (snd (lru_get k c)) = entries_touch k (lru_entries c)"
  proof (cases "map_of (lru_store c) k")
    case None
    then have "lru_get k c = (None, c)" by (simp add: lru_get_def)
    with None ok val show ?thesis by (simp add: entries_touch_def)
  next
    case (Some e)
    then obtain st v where e: "map_of (lru_store c) k = Some (st, v)" by (cases e) auto
    let ?m = "hm_insert k (Suc (lru_counter c), v) (lru_store c)"
    have "hm_wf ?m" "map_of ?m = (map_of (lru_store c))(k \<mapsto> (Suc (lru_counter c), v))"
      using stamped_okD(1) [OF ok'] by simp_all
    from stamped_replace [OF ok' e this] e val show ?thesis
      by (simp add: lru_get_def lru_abs entries_touch_def)
  qed
  then show "fst (lru_get k c) = map_of (lru_entries c) k" and "lru_ok (snd (lru_get k c))"
    and "lru_entries (snd (lru_get k c)) = entries_touch k (lru_entries c)" by blast+
qed

lemma lru_set_abs:
  assumes ok: "lru_ok c"
  shows "lru_ok (lru_set k v c)"
    and "lru_entries (lru_set k v c) = entries_put (lru_max c) k v (lru_entries c)"
proof -
  note ok' = ok [unfolded lru_ok_def]
  have key: "k \<in> fst ` set (lru_entries c) \<longleftrightarrow> map_of (lru_store c) k \<noteq> None"
    using stamped_key [OF ok'] by (simp add: lru_entries_def)
  have len: "length (lru_entries c) = length (lru_store c)"
    using stamped_length [OF ok'] by (simp add: lru_entries_def)
  have wf: "hm_wf (lru_store c)" using stamped_okD(1) [OF ok'] .
  let ?e = "(Suc (lru_counter c), v)"
  have "lru_ok (lru_set k v c) \<and>
        lru_entries (lru_set k v c) = entries_put (lru_max c) k v (lru_entries c)"
  proof (cases "map_of (lru_store c) k")
    case (Some e)
    then obtain st w where e: "map_of (lru_store c) k = Some (st, w)" by (cases e) auto
    let ?m = "hm_insert k ?e (lru_store c)"
    have "hm_wf ?m" "map_of ?m = (map_of (lru_store c))(k \<mapsto> ?e)" using wf by simp_all
    from stamped_replace [OF ok' e this] e key show ?thesis
      by (simp add: lru_set_def lru_abs entries_put_def)
  next
    case None
    show ?thesis
    proof (cases "lru_max c \<le> length (lru_store c) \<and> lru_order c \<noteq> []")
      case True
      then obtain st old rest where o: "lru_order c = (st, old) # rest"
        by (cases "lru_order c") auto
      let ?m = "hm_remove old (lru_store c)"
      note ev = stamped_evict [OF ok' [unfolded o]]
      have "map_of ?m k = None" "hm_wf (hm_insert k ?e ?m)" "map_of (hm_insert k ?e ?m) = (map_of ?m)(k \<mapsto> ?e)"
        using None wf by simp_all
      from stamped_add [OF ev(1) this] ev(2) None True o key len show ?thesis
        by (simp add: lru_set_def lru_abs entries_put_def)
    next
      case False
      let ?m = "hm_insert k ?e (lru_store c)"
      have "hm_wf ?m" "map_of ?m = (map_of (lru_store c))(k \<mapsto> ?e)" using wf by simp_all
      note add = stamped_add [OF ok' None this]
      have "lru_max c \<le> length (lru_entries c) \<Longrightarrow> lru_entries c = []"
        using False len by (auto simp: lru_entries_def stamped_entries_def)
      with add None False key show ?thesis
        by (auto simp: lru_set_def lru_abs entries_put_def split: list.split)
    qed
  qed
  then show "lru_ok (lru_set k v c)"
    and "lru_entries (lru_set k v c) = entries_put (lru_max c) k v (lru_entries c)" by blast+
qed

lemma lru_max_kept [simp]: "lru_max (snd (lru_get k c)) = lru_max c" "lru_max (lru_set k v c) = lru_max c"
  by (auto simp: lru_get_def lru_set_def Let_def split: option.split list.split)

lemma lru_entries_distinct: "lru_ok c \<Longrightarrow> distinct (map fst (lru_entries c))"
  unfolding lru_abs by (rule stamped_entries_distinct)

interpretation lru_cache: lru lru_ok lru_entries lru_max lru_get lru_set
  by unfold_locales (simp_all add: lru_get_abs lru_set_abs lru_entries_distinct)

section \<open>The node cache\<close>

record node_lru =
  nl_map :: "(string, nat \<times> node) hash_map"
  nl_order :: "(nat \<times> string) list"
  nl_seq :: nat
  nl_cap :: nat

definition nl_new :: "nat \<Rightarrow> node_lru" where
  "nl_new cap = \<lparr>nl_map = [], nl_order = [], nl_seq = 0, nl_cap = cap\<rparr>"

definition nl_get_touch :: "string \<Rightarrow> node_lru \<Rightarrow> node option \<times> node_lru" where
  "nl_get_touch i c =
     (case map_of (nl_map c) i of
        None \<Rightarrow> (None, c)
      | Some (old_seq, n) \<Rightarrow>
          let order = bt_remove old_seq (nl_order c);
              next = Suc (nl_seq c);
              order = bt_insert next i order in
          (Some n, c\<lparr>nl_seq := next, nl_order := order, nl_map := hm_insert i (next, n) (nl_map c)\<rparr>))"

text \<open>\<^verbatim>\<open>insert\<close> with the key it takes from the node as an argument of its own.\<close>

definition nl_insert_at :: "string \<Rightarrow> node \<Rightarrow> node_lru \<Rightarrow> node_lru" where
  "nl_insert_at i n c =
     (let c = (case map_of (nl_map c) i of
                 Some (old_seq, _) \<Rightarrow>
                   c\<lparr>nl_map := hm_remove i (nl_map c), nl_order := bt_remove old_seq (nl_order c)\<rparr>
               | None \<Rightarrow>
                   if nl_cap c \<le> length (nl_map c)
                   then (case nl_order c of
                           [] \<Rightarrow> c
                         | (oldest, j) # _ \<Rightarrow>
                             c\<lparr>nl_order := bt_remove oldest (nl_order c),
                               nl_map := hm_remove j (nl_map c)\<rparr>)
                   else c);
          next = Suc (nl_seq c) in
      c\<lparr>nl_seq := next, nl_order := bt_insert next i (nl_order c),
        nl_map := hm_insert i (next, n) (nl_map c)\<rparr>)"

definition nl_insert :: "node \<Rightarrow> node_lru \<Rightarrow> node_lru" where
  "nl_insert n = nl_insert_at (node_id n) n"

definition nl_remove :: "string \<Rightarrow> node_lru \<Rightarrow> node_lru" where
  "nl_remove i c =
     (case map_of (nl_map c) i of
        None \<Rightarrow> c
      | Some (s, _) \<Rightarrow>
          c\<lparr>nl_map := hm_remove i (nl_map c), nl_order := bt_remove s (nl_order c)\<rparr>)"

definition nl_remove_by_file :: "string \<Rightarrow> node_lru \<Rightarrow> node_lru" where
  "nl_remove_by_file file_path c =
     (let ids = map fst (filter (\<lambda>(_, _, n). node_file_path n = file_path) (nl_map c)) in
      fold nl_remove ids c)"

definition nl_clear :: "node_lru \<Rightarrow> node_lru" where
  "nl_clear c = c\<lparr>nl_map := [], nl_order := []\<rparr>"

definition nl_ok :: "node_lru \<Rightarrow> bool" where
  "nl_ok c \<longleftrightarrow> stamped_ok (nl_map c) (nl_order c) (nl_seq c)"

definition nl_entries :: "node_lru \<Rightarrow> (string \<times> node) list" where
  "nl_entries c = stamped_entries (nl_map c) (nl_order c)"

lemmas nl_abs = nl_ok_def nl_entries_def

lemma nl_get_abs:
  assumes ok: "nl_ok c"
  shows "fst (nl_get_touch i c) = map_of (nl_entries c) i" and "nl_ok (snd (nl_get_touch i c))"
    and "nl_entries (snd (nl_get_touch i c)) = entries_touch i (nl_entries c)"
proof -
  note ok' = ok [unfolded nl_ok_def]
  have val: "map_of (nl_entries c) i = map_option snd (map_of (nl_map c) i)"
    using stamped_get [OF ok'] by (simp add: nl_entries_def)
  have "fst (nl_get_touch i c) = map_of (nl_entries c) i \<and> nl_ok (snd (nl_get_touch i c)) \<and>
        nl_entries (snd (nl_get_touch i c)) = entries_touch i (nl_entries c)"
  proof (cases "map_of (nl_map c) i")
    case None
    then have "nl_get_touch i c = (None, c)" by (simp add: nl_get_touch_def)
    with None ok val show ?thesis by (simp add: entries_touch_def)
  next
    case (Some e)
    then obtain st n where e: "map_of (nl_map c) i = Some (st, n)" by (cases e) auto
    let ?m = "hm_insert i (Suc (nl_seq c), n) (nl_map c)"
    have "hm_wf ?m" "map_of ?m = (map_of (nl_map c))(i \<mapsto> (Suc (nl_seq c), n))"
      using stamped_okD(1) [OF ok'] by simp_all
    from stamped_replace [OF ok' e this] e val show ?thesis
      by (simp add: nl_get_touch_def nl_abs entries_touch_def Let_def)
  qed
  then show "fst (nl_get_touch i c) = map_of (nl_entries c) i" and "nl_ok (snd (nl_get_touch i c))"
    and "nl_entries (snd (nl_get_touch i c)) = entries_touch i (nl_entries c)" by blast+
qed

lemma nl_insert_at_abs:
  assumes ok: "nl_ok c"
  shows "nl_ok (nl_insert_at i n c)"
    and "nl_entries (nl_insert_at i n c) = entries_put (nl_cap c) i n (nl_entries c)"
proof -
  note ok' = ok [unfolded nl_ok_def]
  have key: "i \<in> fst ` set (nl_entries c) \<longleftrightarrow> map_of (nl_map c) i \<noteq> None"
    using stamped_key [OF ok'] by (simp add: nl_entries_def)
  have len: "length (nl_entries c) = length (nl_map c)"
    using stamped_length [OF ok'] by (simp add: nl_entries_def)
  have wf: "hm_wf (nl_map c)" using stamped_okD(1) [OF ok'] .
  let ?e = "(Suc (nl_seq c), n)"
  have "nl_ok (nl_insert_at i n c) \<and>
        nl_entries (nl_insert_at i n c) = entries_put (nl_cap c) i n (nl_entries c)"
  proof (cases "map_of (nl_map c) i")
    case (Some e)
    then obtain st w where e: "map_of (nl_map c) i = Some (st, w)" by (cases e) auto
    let ?m = "hm_insert i ?e (hm_remove i (nl_map c))"
    have "hm_wf ?m" "map_of ?m = (map_of (nl_map c))(i \<mapsto> ?e)" using wf by simp_all
    from stamped_replace [OF ok' e this] e key show ?thesis
      by (simp add: nl_insert_at_def nl_abs entries_put_def)
  next
    case None
    show ?thesis
    proof (cases "nl_cap c \<le> length (nl_map c) \<and> nl_order c \<noteq> []")
      case True
      then obtain st old rest where o: "nl_order c = (st, old) # rest"
        by (cases "nl_order c") auto
      let ?m = "hm_remove old (nl_map c)"
      note ev = stamped_evict [OF ok' [unfolded o]]
      have r: "bt_remove st (nl_order c) = rest"
        using stamped_hd [OF ok' [unfolded o]] o by metis
      have "map_of ?m i = None" "hm_wf (hm_insert i ?e ?m)" "map_of (hm_insert i ?e ?m) = (map_of ?m)(i \<mapsto> ?e)"
        using None wf by simp_all
      from stamped_add [OF ev(1) this] ev(2) None True o r key len show ?thesis
        by (simp add: nl_insert_at_def nl_abs entries_put_def)
    next
      case False
      let ?m = "hm_insert i ?e (nl_map c)"
      have "hm_wf ?m" "map_of ?m = (map_of (nl_map c))(i \<mapsto> ?e)" using wf by simp_all
      note add = stamped_add [OF ok' None this]
      have "nl_cap c \<le> length (nl_entries c) \<Longrightarrow> nl_entries c = []"
        using False len by (auto simp: nl_entries_def stamped_entries_def)
      with add None False key show ?thesis
        by (auto simp: nl_insert_at_def nl_abs entries_put_def split: list.split)
    qed
  qed
  then show "nl_ok (nl_insert_at i n c)"
    and "nl_entries (nl_insert_at i n c) = entries_put (nl_cap c) i n (nl_entries c)" by blast+
qed

lemma nl_cap_kept [simp]: "nl_cap (snd (nl_get_touch i c)) = nl_cap c"
    "nl_cap (nl_insert_at i n c) = nl_cap c" "nl_cap (nl_remove i c) = nl_cap c"
  by (auto simp: nl_get_touch_def nl_insert_at_def nl_remove_def Let_def split: option.split list.split)

lemma nl_entries_distinct: "nl_ok c \<Longrightarrow> distinct (map fst (nl_entries c))"
  unfolding nl_abs by (rule stamped_entries_distinct)

interpretation node_cache: lru nl_ok nl_entries nl_cap nl_get_touch nl_insert_at
  by unfold_locales (simp_all add: nl_get_abs nl_insert_at_abs nl_entries_distinct)

lemma nl_remove_abs:
  assumes ok: "nl_ok c"
  shows "nl_ok (nl_remove i c)"
    and "nl_entries (nl_remove i c) = filter (\<lambda>e. fst e \<noteq> i) (nl_entries c)"
proof -
  note ok' = ok [unfolded nl_ok_def]
  have "nl_ok (nl_remove i c) \<and>
        nl_entries (nl_remove i c) = filter (\<lambda>e. fst e \<noteq> i) (nl_entries c)"
  proof (cases "map_of (nl_map c) i")
    case None
    then have "i \<notin> fst ` set (nl_entries c)"
      using stamped_key [OF ok', of i] by (simp add: nl_entries_def)
    then have "filter (\<lambda>e. fst e \<noteq> i) (nl_entries c) = nl_entries c"
      by (auto simp: filter_id_conv image_iff)
    with None ok show ?thesis by (simp add: nl_remove_def)
  next
    case (Some e)
    then obtain st n where e: "map_of (nl_map c) i = Some (st, n)" by (cases e) auto
    have "hm_wf (hm_remove i (nl_map c))" "map_of (hm_remove i (nl_map c)) = (map_of (nl_map c))(i := None)"
      using stamped_okD(1) [OF ok'] by simp_all
    from stamped_remove [OF ok' e this] e show ?thesis by (simp add: nl_remove_def nl_abs)
  qed
  then show "nl_ok (nl_remove i c)"
    and "nl_entries (nl_remove i c) = filter (\<lambda>e. fst e \<noteq> i) (nl_entries c)" by blast+
qed

lemma nl_remove_all_abs:
  assumes "nl_ok c"
  shows "nl_ok (fold nl_remove ids c) \<and>
    nl_entries (fold nl_remove ids c) = filter (\<lambda>e. fst e \<notin> set ids) (nl_entries c)"
  using assms
proof (induction ids arbitrary: c)
  case (Cons i ids)
  then show ?case using nl_remove_abs [OF Cons.prems, of i]
    by (simp add: conj_commute)
qed simp

lemma nl_remove_by_file_abs:
  assumes ok: "nl_ok c"
  shows "nl_ok (nl_remove_by_file f c)"
    and "nl_entries (nl_remove_by_file f c) = filter (\<lambda>e. node_file_path (snd e) \<noteq> f) (nl_entries c)"
proof -
  note ok' = ok [unfolded nl_ok_def]
  let ?ids = "map fst (filter (\<lambda>(_, _, n). node_file_path n = f) (nl_map c))"
  have "fst e \<in> set ?ids \<longleftrightarrow> node_file_path (snd e) = f" if e: "e \<in> set (nl_entries c)" for e
  proof -
    obtain i n where in_e: "e = (i, n)" by (cases e)
    with e stamped_entry [OF ok', of i n] obtain s where s: "map_of (nl_map c) i = Some (s, n)"
      by (auto simp: nl_entries_def)
    have "i \<in> set ?ids \<longleftrightarrow> (\<exists>s' n'. map_of (nl_map c) i = Some (s', n') \<and> node_file_path n' = f)"
      using hm_entry [OF stamped_okD(1) [OF ok']] by force
    with s in_e show ?thesis by simp
  qed
  then have "filter (\<lambda>e. fst e \<notin> set ?ids) (nl_entries c) =
      filter (\<lambda>e. node_file_path (snd e) \<noteq> f) (nl_entries c)"
    by (intro filter_cong) simp_all
  with nl_remove_all_abs [OF ok, of ?ids]
  show "nl_ok (nl_remove_by_file f c)"
    and "nl_entries (nl_remove_by_file f c) = filter (\<lambda>e. node_file_path (snd e) \<noteq> f) (nl_entries c)"
    by (simp_all add: nl_remove_by_file_def Let_def)
qed

lemma nl_clear_abs: "nl_ok (nl_clear c)" "nl_entries (nl_clear c) = []"
  by (simp_all add: nl_abs nl_clear_def stamped_empty stamped_entries_def)

lemma nl_new_abs: "nl_ok (nl_new cap)" "nl_entries (nl_new cap) = []"
  by (simp_all add: nl_abs nl_new_def stamped_empty stamped_entries_def)

end
