(* ===== verification/Segments.thy ===== *)
theory Segments
  imports Prelude
begin

text \<open>
  The words of an identifier (\<^verbatim>\<open>src/search/identifier_segments.rs\<close>): camel-case humps, acronym
  runs and delimited parts, lower-cased. The character classes are Unicode's; they are an
  argument (\<open>unicode\<close>), with the ASCII classes as the instance the examples run on.
\<close>

section \<open>Character classes\<close>

record unicode =
  is_alphanumeric :: "char \<Rightarrow> bool"
  is_lowercase :: "char \<Rightarrow> bool"
  is_uppercase :: "char \<Rightarrow> bool"
  is_numeric :: "char \<Rightarrow> bool"
  to_lowercase :: "char \<Rightarrow> string"

definition ascii_lower :: "char \<Rightarrow> bool" where
  "ascii_lower c \<longleftrightarrow> 97 \<le> (of_char c :: nat) \<and> (of_char c :: nat) \<le> 122"

definition ascii_upper :: "char \<Rightarrow> bool" where
  "ascii_upper c \<longleftrightarrow> 65 \<le> (of_char c :: nat) \<and> (of_char c :: nat) \<le> 90"

definition ascii_digit :: "char \<Rightarrow> bool" where
  "ascii_digit c \<longleftrightarrow> 48 \<le> (of_char c :: nat) \<and> (of_char c :: nat) \<le> 57"

definition ascii_to_lower :: "char \<Rightarrow> char" where
  "ascii_to_lower c = (if ascii_upper c then char_of ((of_char c :: nat) + 32) else c)"

definition ascii :: unicode where
  "ascii = \<lparr>is_alphanumeric = (\<lambda>c. ascii_lower c \<or> ascii_upper c \<or> ascii_digit c),
            is_lowercase = ascii_lower, is_uppercase = ascii_upper, is_numeric = ascii_digit,
            to_lowercase = (\<lambda>c. [ascii_to_lower c])\<rparr>"

lemmas ascii_defs = ascii_def ascii_lower_def ascii_upper_def ascii_digit_def ascii_to_lower_def

section \<open>The code\<close>

definition MIN_SEGMENT_CHARS :: nat where "MIN_SEGMENT_CHARS = 2"
definition MAX_SEGMENT_CHARS :: nat where "MAX_SEGMENT_CHARS = 32"
definition MAX_SEGMENTS_PER_NAME :: nat where "MAX_SEGMENTS_PER_NAME = 12"

type_synonym segments = "string list \<times> string set"

definition push_segment :: "unicode \<Rightarrow> string \<Rightarrow> segments \<Rightarrow> segments" where
  "push_segment u raw s =
     (case s of (out, seen) \<Rightarrow>
        if raw = [] \<or> MAX_SEGMENTS_PER_NAME \<le> length out then (out, seen)
        else
          let segment = concat (map (to_lowercase u) raw); len = length segment in
          if \<not> (MIN_SEGMENT_CHARS \<le> len \<and> len \<le> MAX_SEGMENT_CHARS) \<or>
             (\<forall>c\<in>set segment. is_numeric u c) \<or> segment \<in> seen
          then (out, seen)
          else (out @ [segment], insert segment seen))"

definition slice :: "'a list \<Rightarrow> nat \<Rightarrow> nat \<Rightarrow> 'a list" where
  "slice xs i j = take (j - i) (drop i xs)"

definition hump_at :: "unicode \<Rightarrow> string \<Rightarrow> nat \<Rightarrow> bool" where
  "hump_at u run index =
     (let previous = run ! (index - 1); current = run ! index;
          next_is_lower = (Suc index < length run \<and> is_lowercase u (run ! Suc index)) in
      (is_lowercase u previous \<or> is_numeric u previous) \<and> is_uppercase u current \<or>
      is_uppercase u previous \<and> is_uppercase u current \<and> next_is_lower)"

fun split_run_loop :: "unicode \<Rightarrow> string \<Rightarrow> nat list \<Rightarrow> nat \<Rightarrow> segments \<Rightarrow> segments" where
  "split_run_loop u run [] start s = push_segment u (drop start run) s"
| "split_run_loop u run (index # rest) start s =
     (if hump_at u run index
      then
        let s = push_segment u (slice run start index) s in
        if MAX_SEGMENTS_PER_NAME \<le> length (fst s) then s
        else split_run_loop u run rest index s
      else split_run_loop u run rest start s)"

definition split_run :: "unicode \<Rightarrow> string \<Rightarrow> segments \<Rightarrow> segments" where
  "split_run u run s = split_run_loop u run [1..<length run] 0 s"

text \<open>The loop over the characters, the closing \<^verbatim>\<open>'\0'\<close> included.\<close>

fun split_name_loop :: "unicode \<Rightarrow> string \<Rightarrow> string \<Rightarrow> segments \<Rightarrow> segments" where
  "split_name_loop u [] run s = s"
| "split_name_loop u (ch # name) run s =
     (if is_alphanumeric u ch then split_name_loop u name (run @ [ch]) s
      else
        let s = split_run u run s in
        if MAX_SEGMENTS_PER_NAME \<le> length (fst s) then s
        else split_name_loop u name [] s)"

definition split_identifier_segments :: "unicode \<Rightarrow> string \<Rightarrow> string list" where
  "split_identifier_segments u name =
     fst (split_name_loop u (name @ [CHR 0x00]) [] ([], {}))"

section \<open>The specification\<close>

text \<open>The alphanumeric runs of a name, the humps of a run, and the words worth keeping; the code
  keeps the first twelve different ones.\<close>

fun runs_from :: "unicode \<Rightarrow> string \<Rightarrow> string \<Rightarrow> string list" where
  "runs_from u run [] = [run]"
| "runs_from u run (ch # name) =
     (if is_alphanumeric u ch then runs_from u (run @ [ch]) name else run # runs_from u [] name)"

fun pieces :: "'a list \<Rightarrow> nat \<Rightarrow> nat list \<Rightarrow> 'a list list" where
  "pieces xs start [] = [drop start xs]"
| "pieces xs start (c # cs) = slice xs start c # pieces xs c cs"

definition humps :: "unicode \<Rightarrow> string \<Rightarrow> string list" where
  "humps u run = pieces run 0 (filter (hump_at u run) [1..<length run])"

definition identifier_words :: "unicode \<Rightarrow> string \<Rightarrow> string list" where
  "identifier_words u name = concat (map (humps u) (runs_from u [] name))"

definition lower_word :: "unicode \<Rightarrow> string \<Rightarrow> string" where
  "lower_word u w = concat (map (to_lowercase u) w)"

definition keeps_word :: "unicode \<Rightarrow> string \<Rightarrow> bool" where
  "keeps_word u w \<longleftrightarrow>
     w \<noteq> [] \<and> 2 \<le> length (lower_word u w) \<and> length (lower_word u w) \<le> 32 \<and>
     \<not> (\<forall>c\<in>set (lower_word u w). is_numeric u c)"

definition first_occurrences :: "'a list \<Rightarrow> 'a list" where
  "first_occurrences xs = rev (remdups (rev xs))"

definition kept_words :: "unicode \<Rightarrow> string list \<Rightarrow> string list" where
  "kept_words u ws = first_occurrences (map (lower_word u) (filter (keeps_word u) ws))"

section \<open>The code meets it\<close>

lemmas segment_bounds = MIN_SEGMENT_CHARS_def MAX_SEGMENT_CHARS_def MAX_SEGMENTS_PER_NAME_def

lemma push_segment_full: "12 \<le> length (fst s) \<Longrightarrow> push_segment u raw s = s"
  by (cases s) (simp add: push_segment_def segment_bounds)

lemma push_all_full: "12 \<le> length (fst s) \<Longrightarrow> fold (push_segment u) ws s = s"
  by (induction ws) (simp_all add: push_segment_full)

lemma push_segment_word:
  "push_segment u w (out, set out) =
     (if 12 \<le> length out \<or> \<not> keeps_word u w \<or> lower_word u w \<in> set out then (out, set out)
      else (out @ [lower_word u w], set (out @ [lower_word u w])))"
  by (auto simp: push_segment_def segment_bounds keeps_word_def lower_word_def Let_def)

lemma kept_words_snoc:
  "kept_words u (ws @ [w]) =
     (if keeps_word u w \<and> lower_word u w \<notin> set (kept_words u ws)
      then kept_words u ws @ [lower_word u w] else kept_words u ws)"
  by (auto simp: kept_words_def first_occurrences_def)

lemma push_all_kept:
  "fold (push_segment u) ws ([], {}) =
     (take 12 (kept_words u ws), set (take 12 (kept_words u ws)))"
proof (induction ws rule: rev_induct)
  case Nil
  then show ?case by (simp add: kept_words_def first_occurrences_def)
next
  case (snoc w ws)
  then show ?case
    by (cases "12 \<le> length (kept_words u ws)") (auto simp: push_segment_word kept_words_snoc)
qed

lemma split_run_loop_eq:
  "split_run_loop u run is start s = fold (push_segment u) (pieces run start (filter (hump_at u run) is)) s"
  by (induction "is" arbitrary: start s)
     (simp_all add: Let_def push_all_full MAX_SEGMENTS_PER_NAME_def)

lemma split_run_eq: "split_run u run s = fold (push_segment u) (humps u run) s"
  by (simp add: split_run_def split_run_loop_eq humps_def)

lemma split_name_loop_eq:
  assumes "\<not> is_alphanumeric u (CHR 0x00)"
  shows "split_name_loop u (name @ [CHR 0x00]) run s =
     fold (push_segment u) (concat (map (humps u) (runs_from u run name))) s"
  using assms
proof (induction name arbitrary: run s)
  case Nil
  then show ?case by (simp add: split_run_eq Let_def)
next
  case (Cons c name)
  then show ?case
    by (auto simp: split_run_eq Let_def push_all_full MAX_SEGMENTS_PER_NAME_def)
qed

lemma split_identifier_segments_eq:
  assumes "\<not> is_alphanumeric u (CHR 0x00)"
  shows "split_identifier_segments u name = take 12 (kept_words u (identifier_words u name))"
  using assms
  by (simp add: split_identifier_segments_def split_name_loop_eq identifier_words_def push_all_kept)

text \<open>Every word of the result can be searched for, and nothing of the name is lost before the
  filter.\<close>

lemma split_identifier_segments_shape:
  assumes "\<not> is_alphanumeric u (CHR 0x00)"
  shows "length (split_identifier_segments u name) \<le> 12"
    and "distinct (split_identifier_segments u name)"
    and "w \<in> set (split_identifier_segments u name) \<Longrightarrow> 2 \<le> length w \<and> length w \<le> 32"
  using assms
  by (auto simp: split_identifier_segments_eq kept_words_def first_occurrences_def keeps_word_def
      dest!: in_set_takeD)

lemma concat_pieces:
  "sorted (start # cs) \<Longrightarrow> concat (pieces xs start cs) = drop start xs"
proof (induction cs arbitrary: start)
  case (Cons c cs)
  then have "concat (pieces xs c cs) = drop c xs" "start \<le> c" by simp_all
  then show ?case using append_take_drop_id [of "c - start" "drop start xs"]
    by (simp add: slice_def)
qed simp

lemma concat_humps: "concat (humps u run) = run"
proof -
  have "sorted (0 # filter (hump_at u run) [1..<length run])" by (simp add: sorted_wrt_filter)
  then show ?thesis by (simp add: humps_def concat_pieces)
qed

lemma concat_runs: "concat (runs_from u run name) = run @ filter (is_alphanumeric u) name"
  by (induction name arbitrary: run) simp_all

lemma concat_identifier_words: "concat (identifier_words u name) = filter (is_alphanumeric u) name"
proof -
  have "concat (concat (map (humps u) rs)) = concat rs" for rs
    by (induction rs) (simp_all add: concat_humps)
  then show ?thesis by (simp add: identifier_words_def concat_runs)
qed

end
