(* ===== verification/Graph_Store.thy ===== *)
theory Graph_Store
  imports Query_Interface Lru Segments "HOL-Library.Multiset"
begin

text \<open>
  \<^verbatim>\<open>QueryBuilder\<close> over the tables of \<^verbatim>\<open>schema.sql\<close>: rows, the conversions between rows and
  values, the statements on \<^verbatim>\<open>nodes\<close>, \<^verbatim>\<open>edges\<close> and \<^verbatim>\<open>name_segment_vocab\<close>, transactions, and the node
  cache in front of the node table. The SQL of the code is read as its text says, with foreign
  keys on (\<^verbatim>\<open>connection.rs\<close>): deleting a node deletes its edges, and an \<^verbatim>\<open>INSERT OR REPLACE\<close>
  first deletes the row it replaces. What SQL leaves open, the order in which a \<^verbatim>\<open>SELECT\<close>
  without \<^verbatim>\<open>ORDER BY\<close> returns its rows, is an argument, as are the clock and the JSON codec.
  I/O failures of the database are not modelled.
\<close>

section \<open>Rows\<close>

record node_row =
  nr_id :: string
  nr_kind :: string
  nr_name :: string
  nr_qualified_name :: string
  nr_file_path :: string
  nr_language :: string
  nr_start_line :: int
  nr_end_line :: int
  nr_start_column :: int
  nr_end_column :: int
  nr_start_byte :: "int option"
  nr_end_byte :: "int option"
  nr_address :: "int option"
  nr_size :: "int option"
  nr_docstring :: "string option"
  nr_signature :: "string option"
  nr_return_type :: "string option"
  nr_visibility :: "string option"
  nr_is_exported :: int
  nr_is_async :: int
  nr_is_static :: int
  nr_is_abstract :: int
  nr_decorators :: "string option"
  nr_type_parameters :: "string option"
  nr_updated_at :: int

record edge_row =
  er_source :: string
  er_target :: string
  er_kind :: string
  er_metadata :: "string option"
  er_line :: "int option"
  er_col :: "int option"
  er_provenance :: "string option"

record platform =
  to_json_strings :: "string list \<Rightarrow> (cg_error, string) result"
  from_json_strings :: "string \<Rightarrow> string list option"
  to_json_metadata :: "metadata \<Rightarrow> (cg_error, string) result"
  from_json_metadata :: "string \<Rightarrow> metadata option"
  now_ms :: int
  node_order :: "node_row list \<Rightarrow> node_row list"
  edge_order :: "edge_row list \<Rightarrow> edge_row list"
  chars :: unicode

text \<open>What is documented of them: a \<^verbatim>\<open>SELECT\<close> returns each selected row once, in some order, and
  parsing undoes serializing.\<close>

definition platform_ok :: "platform \<Rightarrow> bool" where
  "platform_ok p \<longleftrightarrow>
     (\<forall>rs. mset (node_order p rs) = mset rs) \<and> (\<forall>rs. mset (edge_order p rs) = mset rs) \<and>
     (\<forall>d. \<exists>t. to_json_strings p d = Inr t \<and> from_json_strings p t = Some d) \<and>
     (\<forall>m. \<exists>t. to_json_metadata p m = Inr t \<and> from_json_metadata p t = Some m)"

section \<open>Conversions\<close>

fun parse_visibility :: "string option \<Rightarrow> visibility option" where
  "parse_visibility None = None"
| "parse_visibility (Some s) =
     (if s = ''public'' then Some Public
      else if s = ''private'' then Some Private
      else if s = ''protected'' then Some Protected
      else if s = ''internal'' then Some Internal
      else None)"

fun visibility_str :: "visibility \<Rightarrow> string" where
  "visibility_str Public = ''public''"
| "visibility_str Private = ''private''"
| "visibility_str Protected = ''protected''"
| "visibility_str Internal = ''internal''"

text \<open>Reading an INTEGER column as \<^verbatim>\<open>u32\<close> fails out of its range.\<close>

definition get_u32 :: "int \<Rightarrow> (cg_error, nat) result" where
  "get_u32 v =
     (if 0 \<le> v \<and> v < 2 ^ 32 then Inr (nat v) else Inl (SqliteError ''integer out of range''))"

fun get_opt_u32 :: "int option \<Rightarrow> (cg_error, nat option) result" where
  "get_opt_u32 None = Inr None"
| "get_opt_u32 (Some v) = map_ok Some (get_u32 v)"

definition conv_err :: "string \<Rightarrow> cg_error" where
  "conv_err msg = SqliteError msg"

fun map_err :: "('e \<Rightarrow> 'f) \<Rightarrow> ('e, 'a) result \<Rightarrow> ('f, 'a) result" where
  "map_err f (Inl e) = Inl (f e)"
| "map_err f (Inr x) = Inr x"

definition language_or_unknown :: "string \<Rightarrow> language" where
  "language_or_unknown s = (case language_from_str s of Inr l \<Rightarrow> l | Inl _ \<Rightarrow> Lang_Unknown)"

definition node_from_row :: "platform \<Rightarrow> node_row \<Rightarrow> (cg_error, node) result" where
  "node_from_row p r =
     and_then (map_err conv_err (node_kind_from_str (nr_kind r))) (\<lambda>kind.
     and_then (get_u32 (nr_start_line r)) (\<lambda>start_line.
     and_then (get_u32 (nr_end_line r)) (\<lambda>end_line.
     and_then (get_u32 (nr_start_column r)) (\<lambda>start_column.
     and_then (get_u32 (nr_end_column r)) (\<lambda>end_column.
     and_then (get_opt_u32 (nr_start_byte r)) (\<lambda>start_byte.
     and_then (get_opt_u32 (nr_end_byte r)) (\<lambda>end_byte.
     and_then (get_opt_u32 (nr_size r)) (\<lambda>size.
     Inr \<lparr>node_id = nr_id r, node_kind = kind, node_name = nr_name r,
          node_qualified_name = nr_qualified_name r, node_file_path = nr_file_path r,
          node_language = language_or_unknown (nr_language r),
          node_start_line = start_line, node_end_line = end_line,
          node_start_column = start_column, node_end_column = end_column,
          node_start_byte = start_byte, node_end_byte = end_byte,
          node_address = map_option word_of_int (nr_address r), node_size = size,
          node_docstring = nr_docstring r, node_signature = nr_signature r,
          node_return_type = nr_return_type r,
          node_visibility = parse_visibility (nr_visibility r),
          node_is_exported = Some (nr_is_exported r = 1),
          node_is_async = Some (nr_is_async r = 1),
          node_is_static = Some (nr_is_static r = 1),
          node_is_abstract = Some (nr_is_abstract r = 1),
          node_decorators = Option.bind (nr_decorators r) (from_json_strings p),
          node_type_parameters = Option.bind (nr_type_parameters r) (from_json_strings p),
          node_updated_at = nr_updated_at r\<rparr>))))))))"

fun opt_json :: "('a \<Rightarrow> (cg_error, string) result) \<Rightarrow> 'a option \<Rightarrow> (cg_error, string option) result" where
  "opt_json to None = Inr None"
| "opt_json to (Some x) = map_ok Some (to x)"

definition flag_int :: "bool option \<Rightarrow> int" where
  "flag_int b = (if b = Some True then 1 else 0)"

text \<open>The named parameters of \<^verbatim>\<open>insert_node\<close> and \<^verbatim>\<open>update_node\<close>; an address is cast to \<^verbatim>\<open>i64\<close>.\<close>

definition node_to_row :: "platform \<Rightarrow> node \<Rightarrow> (cg_error, node_row) result" where
  "node_to_row p n =
     and_then (opt_json (to_json_strings p) (node_decorators n)) (\<lambda>decorators.
     and_then (opt_json (to_json_strings p) (node_type_parameters n)) (\<lambda>type_parameters.
     Inr \<lparr>nr_id = node_id n, nr_kind = node_kind_as_str (node_kind n), nr_name = node_name n,
          nr_qualified_name =
            (if node_qualified_name n = [] then node_name n else node_qualified_name n),
          nr_file_path = node_file_path n, nr_language = language_as_str (node_language n),
          nr_start_line = int (node_start_line n), nr_end_line = int (node_end_line n),
          nr_start_column = int (node_start_column n), nr_end_column = int (node_end_column n),
          nr_start_byte = map_option int (node_start_byte n),
          nr_end_byte = map_option int (node_end_byte n),
          nr_address = map_option sint (node_address n), nr_size = map_option int (node_size n),
          nr_docstring = node_docstring n, nr_signature = node_signature n,
          nr_return_type = node_return_type n,
          nr_visibility = map_option visibility_str (node_visibility n),
          nr_is_exported = flag_int (node_is_exported n), nr_is_async = flag_int (node_is_async n),
          nr_is_static = flag_int (node_is_static n),
          nr_is_abstract = flag_int (node_is_abstract n),
          nr_decorators = decorators, nr_type_parameters = type_parameters,
          nr_updated_at = (if node_updated_at n = 0 then now_ms p else node_updated_at n)\<rparr>))"

definition edge_from_row :: "platform \<Rightarrow> edge_row \<Rightarrow> (cg_error, edge) result" where
  "edge_from_row p r =
     and_then (map_err conv_err (edge_kind_from_str (er_kind r))) (\<lambda>kind.
     and_then (get_opt_u32 (er_line r)) (\<lambda>line.
     and_then (get_opt_u32 (er_col r)) (\<lambda>col.
     Inr \<lparr>edge_source = er_source r, edge_target = er_target r, edge_kind_of = kind,
          edge_metadata = Option.bind (er_metadata r) (from_json_metadata p),
          edge_line = line, edge_column = col,
          edge_provenance =
            Option.bind (er_provenance r)
              (\<lambda>s. case provenance_from_str s of Inr v \<Rightarrow> Some v | Inl _ \<Rightarrow> None)\<rparr>)))"

definition edge_to_row :: "platform \<Rightarrow> edge \<Rightarrow> (cg_error, edge_row) result" where
  "edge_to_row p e =
     and_then (opt_json (to_json_metadata p) (edge_metadata e)) (\<lambda>metadata.
     Inr \<lparr>er_source = edge_source e, er_target = edge_target e,
          er_kind = edge_kind_as_str (edge_kind_of e), er_metadata = metadata,
          er_line = map_option int (edge_line e), er_col = map_option int (edge_column e),
          er_provenance = map_option provenance_as_str (edge_provenance e)\<rparr>)"

section \<open>Statements\<close>

record db =
  tbl_nodes :: "node_row list"
  tbl_edges :: "edge_row list"
  tbl_segments :: "(string \<times> string) list"

text \<open>\<^verbatim>\<open>DELETE FROM nodes WHERE\<close> \<open>P\<close>, with \<^verbatim>\<open>ON DELETE CASCADE\<close> of the edges.\<close>

definition sql_delete_nodes :: "(node_row \<Rightarrow> bool) \<Rightarrow> db \<Rightarrow> db" where
  "sql_delete_nodes P d =
     (let gone = set (map nr_id (filter P (tbl_nodes d))) in
      d\<lparr>tbl_nodes := filter (\<lambda>r. \<not> P r) (tbl_nodes d),
        tbl_edges := filter (\<lambda>e. er_source e \<notin> gone \<and> er_target e \<notin> gone) (tbl_edges d)\<rparr>)"

definition sql_replace_node :: "node_row \<Rightarrow> db \<Rightarrow> db" where
  "sql_replace_node r d =
     (let d = sql_delete_nodes (\<lambda>r'. nr_id r' = nr_id r) d in
      d\<lparr>tbl_nodes := tbl_nodes d @ [r]\<rparr>)"

definition sql_update_node :: "node_row \<Rightarrow> db \<Rightarrow> db" where
  "sql_update_node r d =
     d\<lparr>tbl_nodes := map (\<lambda>r'. if nr_id r' = nr_id r then r else r') (tbl_nodes d)\<rparr>"

text \<open>The unique index \<^verbatim>\<open>idx_edges_identity\<close>.\<close>

definition if_null :: "int option \<Rightarrow> int" where
  "if_null x = (case x of None \<Rightarrow> -1 | Some v \<Rightarrow> v)"

definition edge_identity :: "edge_row \<Rightarrow> string \<times> string \<times> string \<times> int \<times> int" where
  "edge_identity r = (er_source r, er_target r, er_kind r, if_null (er_line r), if_null (er_col r))"

text \<open>\<^verbatim>\<open>INSERT OR IGNORE INTO edges\<close>: a duplicate is ignored, a dangling endpoint is an error.\<close>

definition sql_insert_edge :: "edge_row \<Rightarrow> db \<Rightarrow> (cg_error, db) result" where
  "sql_insert_edge r d =
     (if edge_identity r \<in> edge_identity ` set (tbl_edges d) then Inr d
      else if er_source r \<notin> nr_id ` set (tbl_nodes d) \<or> er_target r \<notin> nr_id ` set (tbl_nodes d)
      then Inl (SqliteError ''FOREIGN KEY constraint failed'')
      else Inr (d\<lparr>tbl_edges := tbl_edges d @ [r]\<rparr>))"

definition sql_insert_segment :: "string \<Rightarrow> string \<Rightarrow> db \<Rightarrow> db" where
  "sql_insert_segment name segment d =
     (if (segment, name) \<in> set (tbl_segments d) then d
      else d\<lparr>tbl_segments := tbl_segments d @ [(segment, name)]\<rparr>)"

section \<open>The query builder\<close>

record query_builder =
  qb_db :: db
  qb_cache :: node_lru

type_synonym 'a operation = "query_builder \<Rightarrow> (cg_error, 'a) result \<times> query_builder"

definition MAX_CACHE_SIZE :: nat where "MAX_CACHE_SIZE = 1000"
definition SQLITE_PARAM_CHUNK_SIZE :: nat where "SQLITE_PARAM_CHUNK_SIZE = 500"

definition query_builder_new :: "db \<Rightarrow> query_builder" where
  "query_builder_new d = \<lparr>qb_db = d, qb_cache = nl_new MAX_CACHE_SIZE\<rparr>"

definition empty_db :: db where
  "empty_db = \<lparr>tbl_nodes = [], tbl_edges = [], tbl_segments = []\<rparr>"

text \<open>A transaction restores the tables on an error; the cache is not part of it.\<close>

definition in_transaction :: "'a operation \<Rightarrow> 'a operation" where
  "in_transaction f s =
     (case f s of
        (Inr v, s') \<Rightarrow> (Inr v, s')
      | (Inl e, s') \<Rightarrow> (Inl e, s'\<lparr>qb_db := qb_db s\<rparr>))"

fun for_all :: "('a \<Rightarrow> unit operation) \<Rightarrow> 'a list \<Rightarrow> unit operation" where
  "for_all f [] s = (Inr (), s)"
| "for_all f (x # xs) s =
     (case f x s of
        (Inl e, s') \<Rightarrow> (Inl e, s')
      | (Inr _, s') \<Rightarrow> for_all f xs s')"

definition insert_name_segments :: "platform \<Rightarrow> string \<Rightarrow> db \<Rightarrow> db" where
  "insert_name_segments p name d =
     fold (sql_insert_segment name) (split_identifier_segments (chars p) name) d"

definition lacks_required :: "node \<Rightarrow> bool" where
  "lacks_required n \<longleftrightarrow> node_id n = [] \<or> node_name n = [] \<or> node_file_path n = []"

definition index_name :: "platform \<Rightarrow> node \<Rightarrow> db \<Rightarrow> db" where
  "index_name p n d =
     (if node_kind n \<in> {NK_File, NK_Import} then d else insert_name_segments p (node_name n) d)"

definition insert_node :: "platform \<Rightarrow> node \<Rightarrow> unit operation" where
  "insert_node p n s =
     (if lacks_required n then (Inr (), s)
      else
        let s = s\<lparr>qb_cache := nl_remove (node_id n) (qb_cache s)\<rparr> in
        case node_to_row p n of
          Inl e \<Rightarrow> (Inl e, s)
        | Inr r \<Rightarrow> (Inr (), s\<lparr>qb_db := index_name p n (sql_replace_node r (qb_db s))\<rparr>))"

definition insert_nodes :: "platform \<Rightarrow> node list \<Rightarrow> unit operation" where
  "insert_nodes p ns = in_transaction (for_all (insert_node p) ns)"

definition update_node :: "platform \<Rightarrow> node \<Rightarrow> unit operation" where
  "update_node p n s =
     (let s = s\<lparr>qb_cache := nl_remove (node_id n) (qb_cache s)\<rparr> in
      if lacks_required n then (Inr (), s)
      else
        case node_to_row p n of
          Inl e \<Rightarrow> (Inl e, s)
        | Inr r \<Rightarrow> (Inr (), s\<lparr>qb_db := index_name p n (sql_update_node r (qb_db s))\<rparr>))"

definition delete_node :: "string \<Rightarrow> unit operation" where
  "delete_node i s =
     (let s = s\<lparr>qb_cache := nl_remove i (qb_cache s)\<rparr> in
      (Inr (), s\<lparr>qb_db := sql_delete_nodes (\<lambda>r. nr_id r = i) (qb_db s)\<rparr>))"

definition delete_nodes_by_file :: "string \<Rightarrow> unit operation" where
  "delete_nodes_by_file f s =
     (let s = s\<lparr>qb_cache := nl_remove_by_file f (qb_cache s)\<rparr> in
      (Inr (), s\<lparr>qb_db := sql_delete_nodes (\<lambda>r. nr_file_path r = f) (qb_db s)\<rparr>))"

definition clear_cache :: "unit operation" where
  "clear_cache s = (Inr (), s\<lparr>qb_cache := nl_clear (qb_cache s)\<rparr>)"

section \<open>Edges\<close>

definition insert_edge :: "platform \<Rightarrow> edge \<Rightarrow> unit operation" where
  "insert_edge p e s =
     (case and_then (edge_to_row p e) (\<lambda>r. sql_insert_edge r (qb_db s)) of
        Inl err \<Rightarrow> (Inl err, s)
      | Inr d \<Rightarrow> (Inr (), s\<lparr>qb_db := d\<rparr>))"

text \<open>The endpoint ids, each once, in the order the edges name them.\<close>

fun push_new :: "string \<Rightarrow> string list \<times> string set \<Rightarrow> string list \<times> string set" where
  "push_new i (ids, seen) = (if i \<in> seen then (ids, seen) else (ids @ [i], insert i seen))"

definition endpoint_ids :: "edge list \<Rightarrow> string list" where
  "endpoint_ids es =
     fst (fold (\<lambda>e s. push_new (edge_target e) (push_new (edge_source e) s)) es ([], {}))"

function chunks :: "nat \<Rightarrow> 'a list \<Rightarrow> 'a list list" where
  "chunks n xs = (if n = 0 \<or> xs = [] then [] else take n xs # chunks n (drop n xs))"
  by pat_completeness auto
termination by (relation "measure (length \<circ> snd)") auto

declare chunks.simps [simp del]

definition get_existing_node_ids :: "platform \<Rightarrow> string list \<Rightarrow> db \<Rightarrow> string set" where
  "get_existing_node_ids p ids d =
     (let unique_ids = fst (fold push_new ids ([], {})) in
      fold (\<lambda>chunk out.
              out \<union> set (map nr_id (node_order p (filter (\<lambda>r. nr_id r \<in> set chunk) (tbl_nodes d)))))
        (chunks SQLITE_PARAM_CHUNK_SIZE unique_ids) {})"

definition insert_edge_if :: "platform \<Rightarrow> string set \<Rightarrow> edge \<Rightarrow> unit operation" where
  "insert_edge_if p existing e s =
     (if edge_source e \<notin> existing \<or> edge_target e \<notin> existing then (Inr (), s)
      else insert_edge p e s)"

definition insert_edges_body :: "platform \<Rightarrow> edge list \<Rightarrow> unit operation" where
  "insert_edges_body p es s =
     (let existing = get_existing_node_ids p (endpoint_ids es) (qb_db s) in
      for_all (insert_edge_if p existing) es s)"

definition insert_edges :: "platform \<Rightarrow> edge list \<Rightarrow> unit operation" where
  "insert_edges p es s =
     (if es = [] then (Inr (), s) else in_transaction (insert_edges_body p es) s)"

definition delete_edges_by_source :: "string \<Rightarrow> unit operation" where
  "delete_edges_by_source i s =
     (Inr (), s\<lparr>qb_db := (qb_db s)\<lparr>tbl_edges := filter (\<lambda>r. er_source r \<noteq> i) (tbl_edges (qb_db s))\<rparr>\<rparr>)"

text \<open>\<^verbatim>\<open>push_edge_kind_filter\<close>: no condition when the list of kinds is missing or empty.\<close>

definition kind_filter :: "edge_kind list option \<Rightarrow> edge_row \<Rightarrow> bool" where
  "kind_filter kinds r =
     (case kinds of
        None \<Rightarrow> True
      | Some ks \<Rightarrow> ks = [] \<or> er_kind r \<in> set (map edge_kind_as_str ks))"

fun collect_rows :: "('r \<Rightarrow> (cg_error, 'a) result) \<Rightarrow> 'r list \<Rightarrow> (cg_error, 'a list) result" where
  "collect_rows f [] = Inr []"
| "collect_rows f (r # rs) = and_then (f r) (\<lambda>x. map_ok (\<lambda>xs. x # xs) (collect_rows f rs))"

definition select_edges :: "platform \<Rightarrow> (edge_row \<Rightarrow> bool) \<Rightarrow> db \<Rightarrow> (cg_error, edge list) result" where
  "select_edges p P d = collect_rows (edge_from_row p) (edge_order p (filter P (tbl_edges d)))"

definition get_outgoing_edges ::
    "platform \<Rightarrow> string \<Rightarrow> edge_kind list option \<Rightarrow> string option \<Rightarrow> db \<Rightarrow> (cg_error, edge list) result"
  where
  "get_outgoing_edges p i kinds prov d =
     select_edges p (\<lambda>r. er_source r = i \<and> kind_filter kinds r \<and>
                         (prov \<noteq> None \<longrightarrow> er_provenance r = prov)) d"

definition get_outgoing_edges_for_sources ::
    "platform \<Rightarrow> string list \<Rightarrow> edge_kind list option \<Rightarrow> db \<Rightarrow> (cg_error, edge list) result" where
  "get_outgoing_edges_for_sources p ids kinds d =
     (if ids = [] then Inr []
      else select_edges p (\<lambda>r. er_source r \<in> set ids \<and> kind_filter kinds r) d)"

definition get_incoming_edges ::
    "platform \<Rightarrow> string \<Rightarrow> edge_kind list option \<Rightarrow> db \<Rightarrow> (cg_error, edge list) result" where
  "get_incoming_edges p i kinds d =
     select_edges p (\<lambda>r. er_target r = i \<and> kind_filter kinds r) d"

definition get_incoming_edges_for_targets ::
    "platform \<Rightarrow> string list \<Rightarrow> edge_kind list option \<Rightarrow> db \<Rightarrow> (cg_error, edge list) result" where
  "get_incoming_edges_for_targets p ids kinds d =
     (if ids = [] then Inr []
      else select_edges p (\<lambda>r. er_target r \<in> set ids \<and> kind_filter kinds r) d)"

definition find_edges_between_nodes ::
    "platform \<Rightarrow> string list \<Rightarrow> edge_kind list option \<Rightarrow> db \<Rightarrow> (cg_error, edge list) result" where
  "find_edges_between_nodes p ids kinds d =
     (if ids = [] then Inr []
      else select_edges p
             (\<lambda>r. er_source r \<in> set ids \<and> er_target r \<in> set ids \<and> kind_filter kinds r) d)"

section \<open>Node lookups\<close>

definition get_node_by_id :: "platform \<Rightarrow> string \<Rightarrow> node option operation" where
  "get_node_by_id p i s =
     (case nl_get_touch i (qb_cache s) of
        (Some cached, c) \<Rightarrow> (Inr (Some cached), s\<lparr>qb_cache := c\<rparr>)
      | (None, c) \<Rightarrow>
          let s = s\<lparr>qb_cache := c\<rparr> in
          case node_order p (filter (\<lambda>r. nr_id r = i) (tbl_nodes (qb_db s))) of
            [] \<Rightarrow> (Inr None, s)
          | row # _ \<Rightarrow>
              (case node_from_row p row of
                 Inl e \<Rightarrow> (Inl e, s)
               | Inr n \<Rightarrow> (Inr (Some n), s\<lparr>qb_cache := nl_insert n (qb_cache s)\<rparr>)))"

text \<open>\<^verbatim>\<open>get_nodes_by_ids\<close>: the cache hits, then the misses in chunks; every row read is cached.\<close>

fun split_hits :: "string list \<Rightarrow> (string, node) hash_map \<Rightarrow> string list \<Rightarrow> node_lru \<Rightarrow>
    (string, node) hash_map \<times> string list \<times> node_lru" where
  "split_hits [] out misses c = (out, misses, c)"
| "split_hits (i # ids) out misses c =
     (case nl_get_touch i c of
        (Some n, c) \<Rightarrow> split_hits ids (hm_insert i n out) misses c
      | (None, c) \<Rightarrow> split_hits ids out (misses @ [i]) c)"

fun load_rows :: "platform \<Rightarrow> node_row list \<Rightarrow> (string, node) hash_map \<Rightarrow> (string, node) hash_map operation"
  where
  "load_rows p [] out s = (Inr out, s)"
| "load_rows p (row # rows) out s =
     (case node_from_row p row of
        Inl e \<Rightarrow> (Inl e, s)
      | Inr n \<Rightarrow>
          load_rows p rows (hm_insert (node_id n) n out)
            (s\<lparr>qb_cache := nl_insert n (qb_cache s)\<rparr>))"

fun load_chunks ::
    "platform \<Rightarrow> string list list \<Rightarrow> (string, node) hash_map \<Rightarrow> (string, node) hash_map operation" where
  "load_chunks p [] out s = (Inr out, s)"
| "load_chunks p (chunk # rest) out s =
     (case load_rows p (node_order p (filter (\<lambda>r. nr_id r \<in> set chunk) (tbl_nodes (qb_db s)))) out s of
        (Inl e, s) \<Rightarrow> (Inl e, s)
      | (Inr out, s) \<Rightarrow> load_chunks p rest out s)"

definition get_nodes_by_ids :: "platform \<Rightarrow> string list \<Rightarrow> (string, node) hash_map operation" where
  "get_nodes_by_ids p ids s =
     (if ids = [] then (Inr [], s)
      else
        (case split_hits ids [] [] (qb_cache s) of
           (out, misses, c) \<Rightarrow>
             let s = s\<lparr>qb_cache := c\<rparr> in
             if misses = [] then (Inr out, s)
             else load_chunks p (chunks SQLITE_PARAM_CHUNK_SIZE misses) out s))"

definition select_nodes :: "platform \<Rightarrow> (node_row \<Rightarrow> bool) \<Rightarrow> db \<Rightarrow> (cg_error, node list) result" where
  "select_nodes p P d = collect_rows (node_from_row p) (node_order p (filter P (tbl_nodes d)))"

definition get_nodes_by_file :: "platform \<Rightarrow> string \<Rightarrow> db \<Rightarrow> (cg_error, node list) result" where
  "get_nodes_by_file p f d =
     collect_rows (node_from_row p)
       (sort_key nr_start_line (node_order p (filter (\<lambda>r. nr_file_path r = f) (tbl_nodes d))))"

definition get_nodes_by_kind :: "platform \<Rightarrow> node_kind \<Rightarrow> db \<Rightarrow> (cg_error, node list) result" where
  "get_nodes_by_kind p k = select_nodes p (\<lambda>r. nr_kind r = node_kind_as_str k)"

text \<open>The visitor keeps its own state and says whether to go on.\<close>

fun visit_rows ::
    "platform \<Rightarrow> (node \<Rightarrow> 'v \<Rightarrow> bool \<times> 'v) \<Rightarrow> node_row list \<Rightarrow> 'v \<Rightarrow> (cg_error, unit) result \<times> 'v" where
  "visit_rows p f [] v = (Inr (), v)"
| "visit_rows p f (row # rows) v =
     (case node_from_row p row of
        Inl e \<Rightarrow> (Inl e, v)
      | Inr n \<Rightarrow> (case f n v of (True, v) \<Rightarrow> visit_rows p f rows v | (False, v) \<Rightarrow> (Inr (), v)))"

definition iterate_nodes_by_kind ::
    "platform \<Rightarrow> node_kind \<Rightarrow> (node \<Rightarrow> 'v \<Rightarrow> bool \<times> 'v) \<Rightarrow> db \<Rightarrow> 'v \<Rightarrow> (cg_error, unit) result \<times> 'v" where
  "iterate_nodes_by_kind p k f d v =
     visit_rows p f (node_order p (filter (\<lambda>r. nr_kind r = node_kind_as_str k) (tbl_nodes d))) v"

definition get_all_nodes :: "platform \<Rightarrow> db \<Rightarrow> (cg_error, node list) result" where
  "get_all_nodes p = select_nodes p (\<lambda>r. nr_language r \<noteq> ''markdown'')"

definition get_nodes_by_name :: "platform \<Rightarrow> string \<Rightarrow> db \<Rightarrow> (cg_error, node list) result" where
  "get_nodes_by_name p name = select_nodes p (\<lambda>r. nr_name r = name)"

definition get_nodes_by_qualified_name_exact ::
    "platform \<Rightarrow> string \<Rightarrow> db \<Rightarrow> (cg_error, node list) result" where
  "get_nodes_by_qualified_name_exact p name = select_nodes p (\<lambda>r. nr_qualified_name r = name)"

text \<open>SQLite's \<^verbatim>\<open>lower\<close> folds ASCII letters only.\<close>

definition get_nodes_by_lower_name :: "platform \<Rightarrow> string \<Rightarrow> db \<Rightarrow> (cg_error, node list) result" where
  "get_nodes_by_lower_name p name = select_nodes p (\<lambda>r. map ascii_to_lower (nr_name r) = name)"

section \<open>The read side as an interface\<close>

text \<open>What a traversal that starts on \<open>s\<close> calls. \<^verbatim>\<open>Store_Proofs\<close> shows that the answers do not
  depend on what the cache holds, so that the calls before do not matter.\<close>

definition store_queries :: "platform \<Rightarrow> query_builder \<Rightarrow> queries" where
  "store_queries p s =
     \<lparr>q_node_by_id = (\<lambda>i. fst (get_node_by_id p i s)),
      q_nodes_by_ids = (\<lambda>ids. fst (get_nodes_by_ids p ids s)),
      q_outgoing = (\<lambda>i kinds. get_outgoing_edges p i kinds None (qb_db s)),
      q_incoming = (\<lambda>i kinds. get_incoming_edges p i kinds (qb_db s)),
      q_outgoing_many = (\<lambda>ids kinds. get_outgoing_edges_for_sources p ids kinds (qb_db s)),
      q_incoming_many = (\<lambda>ids kinds. get_incoming_edges_for_targets p ids kinds (qb_db s))\<rparr>"

end
