(* ===== verification/Traversal.thy ===== *)
theory Traversal
  imports Query_Interface
begin

text \<open>
  The graph traverser (\<^verbatim>\<open>src/graph/traversal.rs\<close>) over the operations of
  \<^verbatim>\<open>Query_Interface\<close>, and the cancellation poll (\<^verbatim>\<open>src/graph/cancel.rs\<close>): the definitions of
  every operation. The flag another thread may set is a function of the number of polls made so
  far, so a run can be cancelled at any poll. Correctness is in the theories that import this one.
\<close>

section \<open>Cancellation\<close>

type_synonym cancel_flag = "nat \<Rightarrow> bool"

definition cancelled_error :: cg_error where
  "cancelled_error = OtherError ''Traversal cancelled by client''"

definition check_cancel :: "cancel_flag \<Rightarrow> nat \<Rightarrow> (cg_error, nat) result" where
  "check_cancel cancel t = (if cancel t then Inl cancelled_error else Inr (Suc t))"

definition no_cancel :: cancel_flag where
  "no_cancel t = False"

lemma check_no_cancel [simp]: "check_cancel no_cancel t = Inr (Suc t)"
  by (simp add: check_cancel_def no_cancel_def)

section \<open>Options\<close>

definition DEFAULT_LIMIT :: nat where
  "DEFAULT_LIMIT = 1000"

definition RELATION_EDGE_KINDS :: "edge_kind list" where
  "RELATION_EDGE_KINDS = [EK_Calls, EK_References, EK_Imports]"

record resolved_options =
  ro_max_depth :: "nat option"
  ro_edge_kinds :: "edge_kind list"
  ro_node_kinds :: "node_kind list"
  ro_direction :: direction
  ro_limit :: nat
  ro_include_start :: bool

fun unwrap_or :: "'a option \<Rightarrow> 'a \<Rightarrow> 'a" where
  "unwrap_or None d = d"
| "unwrap_or (Some x) d = x"

definition resolve :: "traversal_options \<Rightarrow> resolved_options" where
  "resolve options =
     \<lparr>ro_max_depth = opt_max_depth options,
      ro_edge_kinds = unwrap_or (opt_edge_kinds options) [],
      ro_node_kinds = unwrap_or (opt_node_kinds options) [],
      ro_direction = unwrap_or (opt_direction options) Outgoing,
      ro_limit = unwrap_or (opt_limit options) DEFAULT_LIMIT,
      ro_include_start = unwrap_or (opt_include_start options) True\<rparr>"

definition depth_reached :: "resolved_options \<Rightarrow> nat \<Rightarrow> bool" where
  "depth_reached opts depth = (case ro_max_depth opts of None \<Rightarrow> False | Some m \<Rightarrow> m \<le> depth)"

definition node_kind_allowed :: "resolved_options \<Rightarrow> node \<Rightarrow> bool" where
  "node_kind_allowed opts n \<longleftrightarrow> ro_node_kinds opts = [] \<or> node_kind n \<in> set (ro_node_kinds opts)"

section \<open>Adjacent edges\<close>

definition other_endpoint :: "edge \<Rightarrow> string \<Rightarrow> string" where
  "other_endpoint e i = (if edge_source e = i then edge_target e else edge_source e)"

fun get_adjacent_edges ::
    "queries \<Rightarrow> string \<Rightarrow> direction \<Rightarrow> edge_kind list \<Rightarrow> (cg_error, edge list) result" where
  "get_adjacent_edges q i Outgoing ks = q_outgoing q i (if ks = [] then None else Some ks)"
| "get_adjacent_edges q i Incoming ks = q_incoming q i (if ks = [] then None else Some ks)"
| "get_adjacent_edges q i Both ks =
     and_then (q_outgoing q i (if ks = [] then None else Some ks)) (\<lambda>out.
     and_then (q_incoming q i (if ks = [] then None else Some ks)) (\<lambda>inc.
     Inr (out @ inc)))"

text \<open>The batch fetch of the neighbours that are not visited yet; no query for an empty batch.\<close>

definition fetch_neighbors ::
    "queries \<Rightarrow> string \<Rightarrow> edge list \<Rightarrow> string set \<Rightarrow> (cg_error, (string, node) hash_map) result" where
  "fetch_neighbors q i adjacent visited =
     (let want = filter (\<lambda>x. x \<notin> visited) (map (\<lambda>e. other_endpoint e i) adjacent)
      in if want \<noteq> [] then q_nodes_by_ids q want else Inr [])"

section \<open>Breadth-first traversal\<close>

record traversal_step =
  step_node :: node
  step_edge :: "edge option"
  step_depth :: nat

record bfs_state =
  bfs_nodes :: "(string, node) hash_map"
  bfs_edges :: "edge list"
  bfs_visited :: "string set"
  bfs_queue :: "traversal_step list"
  bfs_ticks :: nat

fun edge_priority :: "edge_kind \<Rightarrow> nat" where
  "edge_priority EK_Contains = 0"
| "edge_priority EK_Calls = 1"
| "edge_priority _ = 2"

definition bfs_neighbor ::
    "resolved_options \<Rightarrow> node \<Rightarrow> nat \<Rightarrow> (string, node) hash_map \<Rightarrow> edge \<Rightarrow> bfs_state \<Rightarrow> bfs_state" where
  "bfs_neighbor opts node depth neighbors e s =
     (let next = other_endpoint e (node_id node) in
      if next \<in> bfs_visited s then s
      else case map_of neighbors next of
          None \<Rightarrow> s
        | Some n \<Rightarrow>
            if \<not> node_kind_allowed opts n then s
            else s\<lparr>bfs_nodes := hm_insert (node_id n) n (bfs_nodes s),
                   bfs_queue := bfs_queue s @
                     [\<lparr>step_node = n, step_edge = Some e, step_depth = Suc depth\<rparr>]\<rparr>)"

definition bfs_expand ::
    "queries \<Rightarrow> resolved_options \<Rightarrow> node \<Rightarrow> nat \<Rightarrow> bfs_state \<Rightarrow> (cg_error, bfs_state) result" where
  "bfs_expand q opts node depth s =
     and_then (get_adjacent_edges q (node_id node) (ro_direction opts) (ro_edge_kinds opts)) (\<lambda>adj.
     let adjacent = sort_key (\<lambda>e. edge_priority (edge_kind_of e)) adj in
     and_then (fetch_neighbors q (node_id node) adjacent (bfs_visited s)) (\<lambda>neighbors.
     Inr (fold (bfs_neighbor opts node depth neighbors) adjacent s)))"

definition bfs_iteration ::
    "queries \<Rightarrow> resolved_options \<Rightarrow> cancel_flag \<Rightarrow> bfs_state \<Rightarrow> (cg_error, bfs_state) result" where
  "bfs_iteration q opts cancel s =
     and_then (check_cancel cancel (bfs_ticks s)) (\<lambda>t.
     let step = hd (bfs_queue s); node = step_node step;
         s = s\<lparr>bfs_queue := tl (bfs_queue s), bfs_ticks := t\<rparr> in
     if node_id node \<in> bfs_visited s then Inr s
     else
       let s = s\<lparr>bfs_visited := insert (node_id node) (bfs_visited s),
                 bfs_edges := bfs_edges s @ (case step_edge step of None \<Rightarrow> [] | Some e \<Rightarrow> [e])\<rparr> in
       if depth_reached opts (step_depth step) then Inr s
       else bfs_expand q opts node (step_depth step) s)"

definition bfs_running :: "resolved_options \<Rightarrow> bfs_state \<Rightarrow> bool" where
  "bfs_running opts s \<longleftrightarrow> bfs_queue s \<noteq> [] \<and> length (bfs_nodes s) < ro_limit opts"

definition bfs_start :: "resolved_options \<Rightarrow> node \<Rightarrow> bfs_state" where
  "bfs_start opts start =
     \<lparr>bfs_nodes = (if ro_include_start opts then [(node_id start, start)] else []),
      bfs_edges = [], bfs_visited = {},
      bfs_queue = [\<lparr>step_node = start, step_edge = None, step_depth = 0\<rparr>], bfs_ticks = 0\<rparr>"

definition make_subgraph :: "(string, node) hash_map \<Rightarrow> edge list \<Rightarrow> string \<Rightarrow> subgraph" where
  "make_subgraph ns es root = \<lparr>sg_nodes = ns, sg_edges = es, sg_roots = [root], sg_confidence = None\<rparr>"

definition traverse_bfs ::
    "queries \<Rightarrow> cancel_flag \<Rightarrow> string \<Rightarrow> traversal_options \<Rightarrow> (cg_error, subgraph) result option" where
  "traverse_bfs q cancel start_id options =
     (let opts = resolve options in
      case q_node_by_id q start_id of
        Inl e \<Rightarrow> Some (Inl e)
      | Inr None \<Rightarrow> Some (Inr subgraph_default)
      | Inr (Some start) \<Rightarrow>
          map_option (map_ok (\<lambda>s. make_subgraph (bfs_nodes s) (bfs_edges s) start_id))
            (loop_while (bfs_running opts) (bfs_iteration q opts cancel) (bfs_start opts start)))"

section \<open>Depth-first traversal\<close>

record dfs_state =
  dfs_nodes :: "(string, node) hash_map"
  dfs_edges :: "edge list"
  dfs_visited :: "string set"
  dfs_ticks :: nat

text \<open>The recursion and the loop over the adjacent edges inside it; \<^term>\<open>None\<close> is running out of
  fuel, one unit per level of recursion.\<close>

function dfs_recursive ::
    "nat \<Rightarrow> queries \<Rightarrow> resolved_options \<Rightarrow> cancel_flag \<Rightarrow> node \<Rightarrow> nat \<Rightarrow> dfs_state \<Rightarrow>
     (cg_error, dfs_state) result option"
  and dfs_edge_loop ::
    "nat \<Rightarrow> queries \<Rightarrow> resolved_options \<Rightarrow> cancel_flag \<Rightarrow> node \<Rightarrow> nat \<Rightarrow> (string, node) hash_map \<Rightarrow>
     edge list \<Rightarrow> dfs_state \<Rightarrow> (cg_error, dfs_state) result option" where
  "dfs_recursive 0 q opts cancel node depth s = None"
| "dfs_recursive (Suc fuel) q opts cancel node depth s =
     (case check_cancel cancel (dfs_ticks s) of
        Inl e \<Rightarrow> Some (Inl e)
      | Inr t \<Rightarrow>
          let s = s\<lparr>dfs_ticks := t\<rparr> in
          if node_id node \<in> dfs_visited s \<or> ro_limit opts \<le> length (dfs_nodes s)
             \<or> depth_reached opts depth
          then Some (Inr s)
          else
            let s = s\<lparr>dfs_visited := insert (node_id node) (dfs_visited s)\<rparr> in
            case get_adjacent_edges q (node_id node) (ro_direction opts) (ro_edge_kinds opts) of
              Inl e \<Rightarrow> Some (Inl e)
            | Inr adjacent \<Rightarrow>
                (case fetch_neighbors q (node_id node) adjacent (dfs_visited s) of
                   Inl e \<Rightarrow> Some (Inl e)
                 | Inr neighbors \<Rightarrow>
                     dfs_edge_loop fuel q opts cancel node depth neighbors adjacent s))"
| "dfs_edge_loop fuel q opts cancel node depth neighbors [] s = Some (Inr s)"
| "dfs_edge_loop fuel q opts cancel node depth neighbors (e # es) s =
     (let next = other_endpoint e (node_id node) in
      if next \<in> dfs_visited s then dfs_edge_loop fuel q opts cancel node depth neighbors es s
      else case map_of neighbors next of
          None \<Rightarrow> dfs_edge_loop fuel q opts cancel node depth neighbors es s
        | Some n \<Rightarrow>
            if \<not> node_kind_allowed opts n
            then dfs_edge_loop fuel q opts cancel node depth neighbors es s
            else
              let s = s\<lparr>dfs_nodes := hm_insert (node_id n) n (dfs_nodes s),
                        dfs_edges := dfs_edges s @ [e]\<rparr> in
              case dfs_recursive fuel q opts cancel n (Suc depth) s of
                None \<Rightarrow> None
              | Some (Inl err) \<Rightarrow> Some (Inl err)
              | Some (Inr s) \<Rightarrow> dfs_edge_loop fuel q opts cancel node depth neighbors es s)"
  by pat_completeness auto
termination
  by (relation "measures [\<lambda>x. case x of Inl (f, _) \<Rightarrow> 2 * f | Inr (f, _) \<Rightarrow> Suc (2 * f),
                          \<lambda>x. case x of Inl _ \<Rightarrow> 0 | Inr (_, _, _, _, _, _, _, es, _) \<Rightarrow> length es]")
     auto

definition traverse_dfs ::
    "nat \<Rightarrow> queries \<Rightarrow> cancel_flag \<Rightarrow> string \<Rightarrow> traversal_options \<Rightarrow>
     (cg_error, subgraph) result option" where
  "traverse_dfs fuel q cancel start_id options =
     (let opts = resolve options in
      case q_node_by_id q start_id of
        Inl e \<Rightarrow> Some (Inl e)
      | Inr None \<Rightarrow> Some (Inr subgraph_default)
      | Inr (Some start) \<Rightarrow>
          map_option (map_ok (\<lambda>s. make_subgraph (dfs_nodes s) (dfs_edges s) start_id))
            (dfs_recursive fuel q opts cancel start 0
               \<lparr>dfs_nodes = (if ro_include_start opts then [(node_id start, start)] else []),
                dfs_edges = [], dfs_visited = {}, dfs_ticks = 0\<rparr>))"

section \<open>Callers, callees and the call graph\<close>

record layer_state =
  ly_result :: "node_ref list"
  ly_visited :: "string set"
  ly_frontier :: "string list"
  ly_depth :: nat
  ly_stopped :: bool
  ly_ticks :: nat

text \<open>The endpoint of an edge a layer moves to, the first loop of a layer (which ids to fetch, in
  order and without repetition) and the second loop (which of them to emit). The second loop of
  the code also keeps the set of ids emitted in this layer; it adds each to that set and to
  \<open>visited\<close> in the same step, so the test against \<open>visited\<close> covers both.\<close>

definition layer_next :: "bool \<Rightarrow> edge \<Rightarrow> string" where
  "layer_next inc e = (if inc then edge_source e else edge_target e)"

fun layer_ids :: "bool \<Rightarrow> string set \<Rightarrow> edge list \<Rightarrow> string list \<Rightarrow> string list" where
  "layer_ids inc visited [] acc = acc"
| "layer_ids inc visited (e # es) acc =
     (if layer_next inc e \<in> visited \<or> layer_next inc e \<in> set acc
      then layer_ids inc visited es acc
      else layer_ids inc visited es (acc @ [layer_next inc e]))"

fun layer_emit ::
    "bool \<Rightarrow> (string, node) hash_map \<Rightarrow> edge list \<Rightarrow> string set \<Rightarrow> node_ref list \<Rightarrow> string list \<Rightarrow>
     string set \<times> node_ref list \<times> string list" where
  "layer_emit inc next_nodes [] visited result frontier = (visited, result, frontier)"
| "layer_emit inc next_nodes (e # es) visited result frontier =
     (let next = layer_next inc e in
      if next \<in> visited then layer_emit inc next_nodes es visited result frontier
      else case map_of next_nodes next of
          None \<Rightarrow> layer_emit inc next_nodes es visited result frontier
        | Some n \<Rightarrow> layer_emit inc next_nodes es (insert next visited)
                     (result @ [\<lparr>ref_node = n, ref_edge = e\<rparr>]) (frontier @ [next]))"

definition layer_iteration ::
    "queries \<Rightarrow> cancel_flag \<Rightarrow> bool \<Rightarrow> edge_kind list \<Rightarrow> layer_state \<Rightarrow> (cg_error, layer_state) result" where
  "layer_iteration q cancel inc kinds s =
     and_then (check_cancel cancel (ly_ticks s)) (\<lambda>t.
     and_then (if inc then q_incoming_many q (ly_frontier s) (Some kinds)
               else q_outgoing_many q (ly_frontier s) (Some kinds)) (\<lambda>edges.
     let s = s\<lparr>ly_ticks := t\<rparr>;
         ids = layer_ids inc (ly_visited s) edges [] in
     if edges = [] \<or> ids = [] then Inr (s\<lparr>ly_stopped := True\<rparr>)
     else
       and_then (q_nodes_by_ids q ids) (\<lambda>next_nodes.
       case layer_emit inc next_nodes edges (ly_visited s) (ly_result s) [] of
         (visited, result, frontier) \<Rightarrow>
           Inr (s\<lparr>ly_visited := visited, ly_result := result, ly_frontier := frontier,
                  ly_depth := Suc (ly_depth s)\<rparr>))))"

definition layer_running :: "nat \<Rightarrow> layer_state \<Rightarrow> bool" where
  "layer_running max_depth s \<longleftrightarrow> \<not> ly_stopped s \<and> ly_depth s < max_depth \<and> ly_frontier s \<noteq> []"

definition traverse_relation_layers ::
    "queries \<Rightarrow> cancel_flag \<Rightarrow> string \<Rightarrow> nat \<Rightarrow> direction \<Rightarrow> edge_kind list \<Rightarrow>
     (cg_error, node_ref list) result option" where
  "traverse_relation_layers q cancel start_id max_depth dir kinds =
     (if max_depth = 0 then Some (Inr [])
      else
        map_option (map_ok ly_result)
          (loop_while (layer_running max_depth) (layer_iteration q cancel (dir = Incoming) kinds)
             \<lparr>ly_result = [], ly_visited = {start_id}, ly_frontier = [start_id], ly_depth = 0,
              ly_stopped = False, ly_ticks = 0\<rparr>))"

definition get_callers ::
    "queries \<Rightarrow> cancel_flag \<Rightarrow> string \<Rightarrow> nat \<Rightarrow> (cg_error, node_ref list) result option" where
  "get_callers q cancel i max_depth =
     traverse_relation_layers q cancel i max_depth Incoming RELATION_EDGE_KINDS"

definition get_callees ::
    "queries \<Rightarrow> cancel_flag \<Rightarrow> string \<Rightarrow> nat \<Rightarrow> (cg_error, node_ref list) result option" where
  "get_callees q cancel i max_depth =
     traverse_relation_layers q cancel i max_depth Outgoing RELATION_EDGE_KINDS"

definition add_ref :: "node_ref \<Rightarrow> (string, node) hash_map \<Rightarrow> (string, node) hash_map" where
  "add_ref r ns = hm_insert (node_id (ref_node r)) (ref_node r) ns"

text \<open>The two walks of the call graph poll the flag one after the other; each has its own view of it.\<close>

definition get_call_graph ::
    "queries \<Rightarrow> cancel_flag \<Rightarrow> cancel_flag \<Rightarrow> string \<Rightarrow> nat \<Rightarrow> (cg_error, subgraph) result option" where
  "get_call_graph q cancel cancel' i depth =
     (case q_node_by_id q i of
        Inl e \<Rightarrow> Some (Inl e)
      | Inr None \<Rightarrow> Some (Inr subgraph_default)
      | Inr (Some focal) \<Rightarrow>
          (case get_callers q cancel i depth of
             None \<Rightarrow> None
           | Some (Inl e) \<Rightarrow> Some (Inl e)
           | Some (Inr callers) \<Rightarrow>
               (case get_callees q cancel' i depth of
                  None \<Rightarrow> None
                | Some (Inl e) \<Rightarrow> Some (Inl e)
                | Some (Inr callees) \<Rightarrow>
                    Some (Inr (make_subgraph
                      (fold add_ref callees (fold add_ref callers [(node_id focal, focal)]))
                      (map ref_edge callers @ map ref_edge callees) i)))))"

section \<open>Type hierarchy\<close>

record type_state =
  th_nodes :: "(string, node) hash_map"
  th_edges :: "edge list"
  th_visited :: "string set"
  th_ticks :: nat

text \<open>\<^verbatim>\<open>get_type_ancestors\<close> and \<^verbatim>\<open>get_type_descendants\<close> are one recursion over two directions: the
  ancestors follow outgoing \<^verbatim>\<open>extends\<close>/\<^verbatim>\<open>implements\<close> edges to their targets, the descendants
  incoming ones to their sources (\<open>up\<close> chooses). One unit of fuel per level.\<close>

definition type_edges :: "queries \<Rightarrow> bool \<Rightarrow> string \<Rightarrow> (cg_error, edge list) result" where
  "type_edges q up i =
     (if up then q_outgoing q i (Some [EK_Extends, EK_Implements])
      else q_incoming q i (Some [EK_Extends, EK_Implements]))"

definition type_endpoint :: "bool \<Rightarrow> edge \<Rightarrow> string" where
  "type_endpoint up e = (if up then edge_target e else edge_source e)"

function type_walk ::
    "nat \<Rightarrow> queries \<Rightarrow> bool \<Rightarrow> cancel_flag \<Rightarrow> string \<Rightarrow> type_state \<Rightarrow>
     (cg_error, type_state) result option"
  and type_walk_loop ::
    "nat \<Rightarrow> queries \<Rightarrow> bool \<Rightarrow> cancel_flag \<Rightarrow> (string, node) hash_map \<Rightarrow> edge list \<Rightarrow> type_state \<Rightarrow>
     (cg_error, type_state) result option" where
  "type_walk 0 q up cancel i s = None"
| "type_walk (Suc fuel) q up cancel i s =
     (case check_cancel cancel (th_ticks s) of
        Inl e \<Rightarrow> Some (Inl e)
      | Inr t \<Rightarrow>
          let s = s\<lparr>th_ticks := t\<rparr> in
          if i \<in> th_visited s then Some (Inr s)
          else
            let s = s\<lparr>th_visited := insert i (th_visited s)\<rparr> in
            case type_edges q up i of
              Inl e \<Rightarrow> Some (Inl e)
            | Inr es \<Rightarrow>
                if es = [] then Some (Inr s)
                else case q_nodes_by_ids q (map (type_endpoint up) es) of
                    Inl e \<Rightarrow> Some (Inl e)
                  | Inr found \<Rightarrow> type_walk_loop fuel q up cancel found es s)"
| "type_walk_loop fuel q up cancel found [] s = Some (Inr s)"
| "type_walk_loop fuel q up cancel found (e # es) s =
     (case map_of found (type_endpoint up e) of
        None \<Rightarrow> type_walk_loop fuel q up cancel found es s
      | Some n \<Rightarrow>
          if hm_contains (node_id n) (th_nodes s)
          then type_walk_loop fuel q up cancel found es s
          else
            let s = s\<lparr>th_nodes := hm_insert (node_id n) n (th_nodes s),
                      th_edges := th_edges s @ [e]\<rparr> in
            case type_walk fuel q up cancel (node_id n) s of
              None \<Rightarrow> None
            | Some (Inl err) \<Rightarrow> Some (Inl err)
            | Some (Inr s) \<Rightarrow> type_walk_loop fuel q up cancel found es s)"
  by pat_completeness auto
termination
  by (relation "measures [\<lambda>x. case x of Inl (f, _) \<Rightarrow> 2 * f | Inr (f, _) \<Rightarrow> Suc (2 * f),
                          \<lambda>x. case x of Inl _ \<Rightarrow> 0 | Inr (_, _, _, _, _, es, _) \<Rightarrow> length es]")
     auto

definition get_type_hierarchy ::
    "nat \<Rightarrow> queries \<Rightarrow> cancel_flag \<Rightarrow> string \<Rightarrow> (cg_error, subgraph) result option" where
  "get_type_hierarchy fuel q cancel i =
     (case q_node_by_id q i of
        Inl e \<Rightarrow> Some (Inl e)
      | Inr None \<Rightarrow> Some (Inr subgraph_default)
      | Inr (Some focal) \<Rightarrow>
          (case type_walk fuel q True cancel i
                  \<lparr>th_nodes = [(node_id focal, focal)], th_edges = [], th_visited = {}, th_ticks = 0\<rparr> of
             None \<Rightarrow> None
           | Some (Inl e) \<Rightarrow> Some (Inl e)
           | Some (Inr s) \<Rightarrow>
               map_option (map_ok (\<lambda>s. make_subgraph (th_nodes s) (th_edges s) i))
                 (type_walk fuel q False cancel i s)))"

section \<open>Usages, children, ancestors\<close>

text \<open>The edges whose fetched endpoint exists, each with that node.\<close>

fun refs_of :: "(edge \<Rightarrow> string) \<Rightarrow> (string, node) hash_map \<Rightarrow> edge list \<Rightarrow> node_ref list" where
  "refs_of endpoint found [] = []"
| "refs_of endpoint found (e # es) =
     (case map_of found (endpoint e) of
        None \<Rightarrow> refs_of endpoint found es
      | Some n \<Rightarrow> \<lparr>ref_node = n, ref_edge = e\<rparr> # refs_of endpoint found es)"

definition find_usages :: "queries \<Rightarrow> string \<Rightarrow> (cg_error, node_ref list) result" where
  "find_usages q i =
     and_then (q_incoming q i None) (\<lambda>es.
     if es = [] then Inr []
     else and_then (q_nodes_by_ids q (map edge_source es)) (\<lambda>sources.
          Inr (refs_of edge_source sources es)))"

definition get_children :: "queries \<Rightarrow> string \<Rightarrow> (cg_error, node list) result" where
  "get_children q i =
     and_then (q_outgoing q i (Some [EK_Contains])) (\<lambda>es.
     if es = [] then Inr []
     else and_then (q_nodes_by_ids q (map edge_target es)) (\<lambda>found.
          Inr (map ref_node (refs_of edge_target found es))))"

record ancestor_state =
  an_ancestors :: "node list"
  an_visited :: "string set"
  an_current :: string
  an_stopped :: bool

definition ancestor_iteration :: "queries \<Rightarrow> ancestor_state \<Rightarrow> (cg_error, ancestor_state) result" where
  "ancestor_iteration q s =
     (if an_current s \<in> an_visited s then Inr (s\<lparr>an_stopped := True\<rparr>)
      else
        let s = s\<lparr>an_visited := insert (an_current s) (an_visited s)\<rparr> in
        and_then (q_incoming q (an_current s) (Some [EK_Contains])) (\<lambda>es.
        case es of
          [] \<Rightarrow> Inr (s\<lparr>an_stopped := True\<rparr>)
        | e # _ \<Rightarrow>
            and_then (q_node_by_id q (edge_source e)) (\<lambda>parent.
            case parent of
              None \<Rightarrow> Inr (s\<lparr>an_stopped := True\<rparr>)
            | Some p \<Rightarrow> Inr (s\<lparr>an_current := node_id p, an_ancestors := an_ancestors s @ [p]\<rparr>))))"

definition get_ancestors :: "queries \<Rightarrow> string \<Rightarrow> (cg_error, node list) result option" where
  "get_ancestors q i =
     map_option (map_ok an_ancestors)
       (loop_while (\<lambda>s. \<not> an_stopped s) (ancestor_iteration q)
          \<lparr>an_ancestors = [], an_visited = {}, an_current = i, an_stopped = False\<rparr>)"

section \<open>Impact radius\<close>

record impact_state =
  im_nodes :: "(string, node) hash_map"
  im_edges :: "edge list"
  im_best :: "(string, nat) hash_map"
  im_queue :: "(string \<times> nat) list"
  im_ticks :: nat

definition is_container :: "node_kind \<Rightarrow> bool" where
  "is_container k \<longleftrightarrow>
     k \<in> {NK_Class, NK_Interface, NK_Struct, NK_Union, NK_Trait, NK_Protocol, NK_Module, NK_Enum}"

text \<open>Record reaching \<open>i\<close> at \<open>depth\<close>: the new map and whether that is shorter than before.\<close>

definition reach :: "(string, nat) hash_map \<Rightarrow> string \<Rightarrow> nat \<Rightarrow> bool \<times> (string, nat) hash_map" where
  "reach best i depth =
     (case map_of best i of
        Some shortest \<Rightarrow>
          if shortest \<le> depth then (False, best) else (True, hm_insert i depth best)
      | None \<Rightarrow> (True, hm_insert i depth best))"

text \<open>One edge to a member (\<open>front\<close>, at the same depth) or to a dependent (at the next depth).\<close>

definition impact_reach ::
    "bool \<Rightarrow> (edge \<Rightarrow> string) \<Rightarrow> (string, node) hash_map \<Rightarrow> nat \<Rightarrow> edge \<Rightarrow> impact_state \<Rightarrow> impact_state" where
  "impact_reach front endpoint found depth e s =
     (case map_of found (endpoint e) of
        None \<Rightarrow> s
      | Some n \<Rightarrow>
          (case reach (im_best s) (node_id n) depth of
             (False, best) \<Rightarrow> s
           | (True, best) \<Rightarrow>
               let s = s\<lparr>im_best := best\<rparr>;
                   s = (if hm_contains (node_id n) (im_nodes s) then s
                        else s\<lparr>im_nodes := hm_insert (node_id n) n (im_nodes s),
                               im_edges := im_edges s @ [e]\<rparr>)
               in s\<lparr>im_queue := (if front then (node_id n, depth) # im_queue s
                                 else im_queue s @ [(node_id n, depth)])\<rparr>))"

definition impact_members ::
    "queries \<Rightarrow> string \<Rightarrow> nat \<Rightarrow> impact_state \<Rightarrow> (cg_error, impact_state) result" where
  "impact_members q i depth s =
     and_then (q_outgoing q i (Some [EK_Contains])) (\<lambda>es.
     if es = [] then Inr s
     else and_then (q_nodes_by_ids q (map edge_target es)) (\<lambda>children.
          Inr (fold (impact_reach True edge_target children depth) es s)))"

definition impact_dependents ::
    "queries \<Rightarrow> string \<Rightarrow> nat \<Rightarrow> impact_state \<Rightarrow> (cg_error, impact_state) result" where
  "impact_dependents q i depth s =
     and_then (q_incoming q i None) (\<lambda>all.
     let es = filter (\<lambda>e. edge_kind_of e \<noteq> EK_Contains) all in
     if es = [] then Inr s
     else and_then (q_nodes_by_ids q (map edge_source es)) (\<lambda>sources.
          Inr (fold (impact_reach False edge_source sources (Suc depth)) es s)))"

definition impact_iteration ::
    "queries \<Rightarrow> cancel_flag \<Rightarrow> nat \<Rightarrow> impact_state \<Rightarrow> (cg_error, impact_state) result" where
  "impact_iteration q cancel max_depth s =
     (let i = fst (hd (im_queue s)); depth = snd (hd (im_queue s));
          s = s\<lparr>im_queue := tl (im_queue s)\<rparr> in
      and_then (check_cancel cancel (im_ticks s)) (\<lambda>t.
      let s = s\<lparr>im_ticks := t\<rparr> in
      if (case map_of (im_best s) i of Some shortest \<Rightarrow> shortest < depth | None \<Rightarrow> False)
         \<or> max_depth \<le> depth
      then Inr s
      else case map_of (im_nodes s) i of
          None \<Rightarrow> Inr s
        | Some n \<Rightarrow>
            and_then (if is_container (node_kind n) then impact_members q i depth s else Inr s)
              (\<lambda>s. impact_dependents q i depth s)))"

definition impact_start :: "node \<Rightarrow> impact_state" where
  "impact_start focal =
     \<lparr>im_nodes = [(node_id focal, focal)], im_edges = [], im_best = [(node_id focal, 0)],
      im_queue = [(node_id focal, 0)], im_ticks = 0\<rparr>"

definition get_impact_radius ::
    "queries \<Rightarrow> cancel_flag \<Rightarrow> string \<Rightarrow> nat \<Rightarrow> (cg_error, subgraph) result option" where
  "get_impact_radius q cancel i max_depth =
     (case q_node_by_id q i of
        Inl e \<Rightarrow> Some (Inl e)
      | Inr None \<Rightarrow> Some (Inr subgraph_default)
      | Inr (Some focal) \<Rightarrow>
          map_option (map_ok (\<lambda>s. make_subgraph (im_nodes s) (im_edges s) i))
            (loop_while (\<lambda>s. im_queue s \<noteq> []) (impact_iteration q cancel max_depth)
               (impact_start focal)))"

section \<open>Shortest path\<close>

record path_step =
  ps_node :: node
  ps_edge :: "edge option"

record path_state =
  fp_visited :: "string set"
  fp_came_from :: "(string, string \<times> edge) hash_map"
  fp_node_cache :: "(string, node) hash_map"
  fp_queue :: "string list"
  fp_ticks :: nat

text \<open>The loop of \<^verbatim>\<open>reconstruct_path\<close>, with the number of steps left; it builds the reversed path.\<close>

fun reconstruct_loop ::
    "nat \<Rightarrow> string \<Rightarrow> (string, string \<times> edge) hash_map \<Rightarrow> (string, node) hash_map \<Rightarrow> string \<Rightarrow>
     path_step list \<Rightarrow> path_step list" where
  "reconstruct_loop 0 from_id came_from cache current acc = acc"
| "reconstruct_loop (Suc steps) from_id came_from cache current acc =
     (case map_of cache current of
        None \<Rightarrow> acc
      | Some n \<Rightarrow>
          if current = from_id then acc @ [\<lparr>ps_node = n, ps_edge = None\<rparr>]
          else case map_of came_from current of
              None \<Rightarrow> acc
            | Some (parent, e) \<Rightarrow>
                reconstruct_loop steps from_id came_from (hm_remove current cache) parent
                  (acc @ [\<lparr>ps_node = n, ps_edge = Some e\<rparr>]))"

definition reconstruct_path ::
    "string \<Rightarrow> string \<Rightarrow> (string, string \<times> edge) hash_map \<Rightarrow> (string, node) hash_map \<Rightarrow>
     path_step list" where
  "reconstruct_path from_id to_id came_from cache =
     rev (reconstruct_loop (Suc (length came_from)) from_id came_from cache to_id [])"

definition path_edge ::
    "string \<Rightarrow> string \<Rightarrow> string \<Rightarrow> (string, node) hash_map \<Rightarrow> edge \<Rightarrow> path_state \<Rightarrow>
     ((cg_error, path_step list option) exit, path_state) result" where
  "path_edge from_id to_id i next_nodes e s =
     (let target = edge_target e in
      if target \<in> fp_visited s then Inr s
      else case map_of next_nodes target of
          None \<Rightarrow> Inr s
        | Some n \<Rightarrow>
            let s = s\<lparr>fp_visited := insert target (fp_visited s),
                      fp_node_cache := hm_insert target n (fp_node_cache s),
                      fp_came_from := hm_insert target (i, e) (fp_came_from s)\<rparr> in
            if target = to_id
            then Inl (Return (Some (reconstruct_path from_id to_id (fp_came_from s) (fp_node_cache s))))
            else Inr (s\<lparr>fp_queue := fp_queue s @ [target]\<rparr>))"

definition path_iteration ::
    "queries \<Rightarrow> cancel_flag \<Rightarrow> string \<Rightarrow> string \<Rightarrow> edge_kind list \<Rightarrow> path_state \<Rightarrow>
     ((cg_error, path_step list option) exit, path_state) result" where
  "path_iteration q cancel from_id to_id kinds s =
     (let i = hd (fp_queue s); s = s\<lparr>fp_queue := tl (fp_queue s)\<rparr> in
      and_then (fail_on_error (check_cancel cancel (fp_ticks s))) (\<lambda>t.
      let s = s\<lparr>fp_ticks := t\<rparr> in
      and_then (fail_on_error (q_outgoing q i (if kinds = [] then None else Some kinds))) (\<lambda>es.
      if es = [] then Inr s
      else
        let want = filter (\<lambda>x. x \<notin> fp_visited s) (map edge_target es) in
        and_then (fail_on_error (if want \<noteq> [] then q_nodes_by_ids q want else Inr [])) (\<lambda>next_nodes.
        for_each (path_edge from_id to_id i next_nodes) es s))))"

definition path_start :: "string \<Rightarrow> node \<Rightarrow> path_state" where
  "path_start from_id from_node =
     \<lparr>fp_visited = {from_id}, fp_came_from = [],
      fp_node_cache = [(node_id from_node, from_node)], fp_queue = [from_id], fp_ticks = 0\<rparr>"

definition find_path ::
    "queries \<Rightarrow> cancel_flag \<Rightarrow> string \<Rightarrow> string \<Rightarrow> edge_kind list \<Rightarrow>
     (cg_error, path_step list option) result option" where
  "find_path q cancel from_id to_id kinds =
     (case q_node_by_id q from_id of
        Inl e \<Rightarrow> Some (Inl e)
      | Inr from_node \<Rightarrow>
          (case q_node_by_id q to_id of
             Inl e \<Rightarrow> Some (Inl e)
           | Inr to_node \<Rightarrow>
               (case (from_node, to_node) of
                  (Some fn, Some tn) \<Rightarrow>
                    if from_id = to_id
                    then Some (Inr (Some [\<lparr>ps_node = fn, ps_edge = None\<rparr>]))
                    else finish_loop (\<lambda>s. None)
                           (loop_while (\<lambda>s. fp_queue s \<noteq> [])
                              (path_iteration q cancel from_id to_id kinds) (path_start from_id fn))
                | _ \<Rightarrow> Some (Inr None))))"

end
