(* ===== verification/Path_Search.thy ===== *)
theory Path_Search
  imports Traversal
begin

text \<open>
  Correctness of \<open>find_path\<close>: it returns, it answers \<^term>\<open>None\<close> exactly when the target cannot be
  reached, and the path it returns is a shortest one, made of stored edges of the requested
  kinds.
\<close>

section \<open>The specification\<close>

definition wanted_kinds :: "edge_kind list \<Rightarrow> edge_kind list option" where
  "wanted_kinds kinds = (if kinds = [] then None else Some kinds)"

text \<open>One step of a walk: a stored edge of a wanted kind to a stored node.\<close>

definition link ::
    "(string \<Rightarrow> node option) \<Rightarrow> edge set \<Rightarrow> edge_kind list \<Rightarrow> string \<Rightarrow> string \<Rightarrow> bool" where
  "link nodes edges kinds u v \<longleftrightarrow>
     nodes v \<noteq> None \<and>
     (\<exists>e\<in>edges. edge_source e = u \<and> edge_target e = v \<and>
                kind_matches (wanted_kinds kinds) (edge_kind_of e))"

definition joined :: "edge set \<Rightarrow> edge_kind list \<Rightarrow> path_step \<Rightarrow> path_step \<Rightarrow> bool" where
  "joined edges kinds a b \<longleftrightarrow>
     (\<exists>e\<in>edges. ps_edge b = Some e \<and> edge_source e = node_id (ps_node a) \<and>
                edge_target e = node_id (ps_node b) \<and>
                kind_matches (wanted_kinds kinds) (edge_kind_of e))"

definition is_path ::
    "(string \<Rightarrow> node option) \<Rightarrow> edge set \<Rightarrow> edge_kind list \<Rightarrow> string \<Rightarrow> string \<Rightarrow> path_step list \<Rightarrow> bool"
  where
  "is_path nodes edges kinds from_id to_id p \<longleftrightarrow>
     p \<noteq> [] \<and> ps_edge (hd p) = None \<and> node_id (ps_node (hd p)) = from_id \<and>
     node_id (ps_node (last p)) = to_id \<and>
     (\<forall>s\<in>set p. nodes (node_id (ps_node s)) = Some (ps_node s)) \<and>
     successively (joined edges kinds) p"

section \<open>The invariant\<close>

text \<open>\<open>l\<close> is the distance at which each visited node was discovered.\<close>

definition came_ok ::
    "edge set \<Rightarrow> edge_kind list \<Rightarrow> string \<Rightarrow> (string \<Rightarrow> nat) \<Rightarrow> string set \<Rightarrow>
     (string, string \<times> edge) hash_map \<Rightarrow> bool" where
  "came_ok edges kinds from_id l V cf \<longleftrightarrow>
     hm_wf cf \<and> dom (map_of cf) = V - {from_id} \<and> l from_id = 0 \<and>
     (\<forall>v p e. map_of cf v = Some (p, e) \<longrightarrow>
        p \<in> V \<and> l v = Suc (l p) \<and> e \<in> edges \<and> edge_source e = p \<and> edge_target e = v \<and>
        kind_matches (wanted_kinds kinds) (edge_kind_of e))"

definition path_base ::
    "(string \<Rightarrow> node option) \<Rightarrow> edge set \<Rightarrow> edge_kind list \<Rightarrow> string \<Rightarrow> (string \<Rightarrow> nat) \<Rightarrow> path_state \<Rightarrow> bool"
  where
  "path_base nodes edges kinds from_id l s \<longleftrightarrow>
     from_id \<in> fp_visited s \<and> fp_visited s \<subseteq> dom nodes \<and>
     set (fp_queue s) \<subseteq> fp_visited s \<and>
     map_of (fp_node_cache s) = nodes |` fp_visited s \<and>
     (\<forall>v\<in>fp_visited s. hops (link nodes edges kinds) from_id (l v) v) \<and>
     came_ok edges kinds from_id l (fp_visited s) (fp_came_from s)"

definition path_inv ::
    "(string \<Rightarrow> node option) \<Rightarrow> edge set \<Rightarrow> edge_kind list \<Rightarrow> string \<Rightarrow> string \<Rightarrow> (string \<Rightarrow> nat) \<Rightarrow>
     path_state \<Rightarrow> bool" where
  "path_inv nodes edges kinds from_id to_id l s \<longleftrightarrow>
     path_base nodes edges kinds from_id l s \<and> to_id \<notin> fp_visited s \<and>
     sorted (map l (fp_queue s)) \<and>
     (\<forall>x\<in>set (fp_queue s). \<forall>v\<in>fp_visited s. l v \<le> Suc (l x)) \<and>
     (\<forall>v\<in>fp_visited s - set (fp_queue s). \<forall>w. link nodes edges kinds v w \<longrightarrow>
        w \<in> fp_visited s \<and> l w \<le> Suc (l v))"

text \<open>While the edges of the popped node \<open>i\<close> are scanned, those in \<open>done\<close> lead to visited nodes.\<close>

definition path_scan ::
    "(string \<Rightarrow> node option) \<Rightarrow> edge set \<Rightarrow> edge_kind list \<Rightarrow> string \<Rightarrow> string \<Rightarrow> string \<Rightarrow> nat \<Rightarrow>
     (string \<Rightarrow> nat) \<Rightarrow> edge set \<Rightarrow> path_state \<Rightarrow> bool" where
  "path_scan nodes edges kinds from_id to_id i d l scanned s \<longleftrightarrow>
     path_base nodes edges kinds from_id l s \<and> to_id \<notin> fp_visited s \<and>
     i \<in> fp_visited s \<and> l i = d \<and>
     sorted (map l (fp_queue s)) \<and> (\<forall>x\<in>set (fp_queue s). d \<le> l x) \<and>
     (\<forall>v\<in>fp_visited s. l v \<le> Suc d) \<and>
     (\<forall>v\<in>fp_visited s - set (fp_queue s) - {i}. \<forall>w. link nodes edges kinds v w \<longrightarrow>
        w \<in> fp_visited s \<and> l w \<le> Suc (l v)) \<and>
     (\<forall>e\<in>scanned. nodes (edge_target e) \<noteq> None \<longrightarrow> edge_target e \<in> fp_visited s)"

definition path_measure :: "(string \<Rightarrow> node option) \<Rightarrow> path_state \<Rightarrow> nat" where
  "path_measure nodes s = 2 * card (dom nodes - fp_visited s) + length (fp_queue s)"

lemma path_scanD:
  assumes "path_scan nodes edges kinds from_id to_id i d l scanned s"
  shows "path_base nodes edges kinds from_id l s" "to_id \<notin> fp_visited s" "i \<in> fp_visited s" "l i = d"
    "sorted (map l (fp_queue s))" "\<And>x. x \<in> set (fp_queue s) \<Longrightarrow> d \<le> l x"
    "\<And>v. v \<in> fp_visited s \<Longrightarrow> l v \<le> Suc d"
    "\<And>v w. v \<in> fp_visited s \<Longrightarrow> v \<notin> set (fp_queue s) \<Longrightarrow> v \<noteq> i \<Longrightarrow> link nodes edges kinds v w \<Longrightarrow>
       w \<in> fp_visited s \<and> l w \<le> Suc (l v)"
    "\<And>e. e \<in> scanned \<Longrightarrow> nodes (edge_target e) \<noteq> None \<Longrightarrow> edge_target e \<in> fp_visited s"
  using assms unfolding path_scan_def by blast+

lemma path_scanI:
  assumes "path_base nodes edges kinds from_id l s" "to_id \<notin> fp_visited s" "i \<in> fp_visited s" "l i = d"
    "sorted (map l (fp_queue s))" "\<And>x. x \<in> set (fp_queue s) \<Longrightarrow> d \<le> l x"
    "\<And>v. v \<in> fp_visited s \<Longrightarrow> l v \<le> Suc d"
    "\<And>v w. v \<in> fp_visited s \<Longrightarrow> v \<notin> set (fp_queue s) \<Longrightarrow> v \<noteq> i \<Longrightarrow> link nodes edges kinds v w \<Longrightarrow>
       w \<in> fp_visited s \<and> l w \<le> Suc (l v)"
    "\<And>e. e \<in> scanned \<Longrightarrow> nodes (edge_target e) \<noteq> None \<Longrightarrow> edge_target e \<in> fp_visited s"
  shows "path_scan nodes edges kinds from_id to_id i d l scanned s"
  using assms unfolding path_scan_def by blast

lemma path_scan_more:
  assumes "path_scan nodes edges kinds from_id to_id i d l scanned s"
    and "nodes (edge_target e) \<noteq> None \<Longrightarrow> edge_target e \<in> fp_visited s"
  shows "path_scan nodes edges kinds from_id to_id i d l (insert e scanned) s"
proof -
  have "\<forall>e\<in>insert e scanned. nodes (edge_target e) \<noteq> None \<longrightarrow> edge_target e \<in> fp_visited s"
    using assms(2) path_scanD(9) [OF assms(1)] by blast
  with assms(1) show ?thesis unfolding path_scan_def by (elim conjE) (intro conjI; assumption)
qed

lemma path_invD:
  assumes "path_inv nodes edges kinds from_id to_id l s"
  shows "path_base nodes edges kinds from_id l s" "to_id \<notin> fp_visited s" "sorted (map l (fp_queue s))"
    "\<And>x v. x \<in> set (fp_queue s) \<Longrightarrow> v \<in> fp_visited s \<Longrightarrow> l v \<le> Suc (l x)"
    "\<And>v w. v \<in> fp_visited s \<Longrightarrow> v \<notin> set (fp_queue s) \<Longrightarrow> link nodes edges kinds v w \<Longrightarrow>
       w \<in> fp_visited s \<and> l w \<le> Suc (l v)"
  using assms unfolding path_inv_def by blast+

lemma path_baseD:
  assumes "path_base nodes edges kinds from_id l s"
  shows "from_id \<in> fp_visited s" "fp_visited s \<subseteq> dom nodes" "set (fp_queue s) \<subseteq> fp_visited s"
    "map_of (fp_node_cache s) = nodes |` fp_visited s"
    "\<And>v. v \<in> fp_visited s \<Longrightarrow> hops (link nodes edges kinds) from_id (l v) v"
    "came_ok edges kinds from_id l (fp_visited s) (fp_came_from s)" "l from_id = 0"
  using assms unfolding path_base_def came_ok_def by blast+

section \<open>Rebuilding the path\<close>

lemma came_ok_parent:
  assumes "came_ok edges kinds from_id l V cf" "v \<in> V" "v \<noteq> from_id"
  obtains p e where "map_of cf v = Some (p, e)" "p \<in> V" "l v = Suc (l p)" "e \<in> edges"
    "edge_source e = p" "edge_target e = v" "kind_matches (wanted_kinds kinds) (edge_kind_of e)"
proof -
  from assms have "v \<in> dom (map_of cf)" by (simp add: came_ok_def)
  then obtain p e where "map_of cf v = Some (p, e)" by auto
  with assms(1) show ?thesis unfolding came_ok_def by (blast intro: that)
qed

lemma came_ok_labels:
  assumes "came_ok edges kinds from_id l V cf" "v \<in> V" "from_id \<in> V" "j \<le> l v"
  shows "\<exists>u\<in>V. l u = j"
  using assms(2,4)
proof (induction "l v" arbitrary: v)
  case 0
  then show ?case by force
next
  case (Suc n)
  show ?case
  proof (cases "j = l v")
    case True
    with Suc.prems show ?thesis by blast
  next
    case False
    from Suc.hyps(2) assms(1) have "v \<noteq> from_id" by (auto simp: came_ok_def)
    with assms(1) Suc.prems(1) obtain p e where "p \<in> V" "l v = Suc (l p)"
      by (rule came_ok_parent)
    with Suc.hyps Suc.prems False show ?thesis by simp
  qed
qed

lemma came_ok_bound:
  assumes "came_ok edges kinds from_id l V cf" "v \<in> V" "from_id \<in> V" "finite V"
  shows "l v \<le> length cf"
proof -
  have "{0..l v} \<subseteq> l ` V"
    using came_ok_labels [OF assms(1-3)] by fastforce
  then have "Suc (l v) \<le> card (l ` V)"
    using assms(4) card_mono [of "l ` V" "{0..l v}"] by simp
  also have "\<dots> \<le> card V" using assms(4) by (rule card_image_le)
  also have "card V = Suc (card (V - {from_id}))"
    using assms(4,3) by (rule card.remove)
  also have "card (V - {from_id}) = length cf"
    using assms(1) hm_len [of cf] by (simp add: came_ok_def)
  finally show ?thesis by simp
qed

lemma reconstruct_loop_path:
  assumes cf: "came_ok edges kinds from_id l V cf"
    and keys: "\<And>i n. nodes i = Some n \<Longrightarrow> node_id n = i"
    and "v \<in> V" "V \<subseteq> dom nodes" "from_id \<in> V"
    and "\<And>u. u \<in> V \<Longrightarrow> l u \<le> l v \<Longrightarrow> map_of cache u = nodes u"
    and "l v < steps"
  shows "\<exists>p. reconstruct_loop steps from_id cf cache v acc = acc @ rev p \<and>
             is_path nodes edges kinds from_id v p \<and> length p = Suc (l v)"
  using assms(3-)
proof (induction steps arbitrary: v cache acc)
  case (Suc steps)
  from Suc.prems obtain n where n: "nodes v = Some n" by blast
  with Suc.prems have c: "map_of cache v = Some n" by simp
  from n keys have idn: "node_id n = v" by blast
  show ?case
  proof (cases "v = from_id")
    case True
    with cf have "l v = 0" by (simp add: came_ok_def)
    with True c n idn show ?thesis
      by (intro exI [of _ "[\<lparr>ps_node = n, ps_edge = None\<rparr>]"]) (simp add: is_path_def)
  next
    case False
    with cf Suc.prems(1) obtain u e where ue: "map_of cf v = Some (u, e)"
      and u: "u \<in> V" "l v = Suc (l u)" and e: "e \<in> edges" "edge_source e = u"
        "edge_target e = v" "kind_matches (wanted_kinds kinds) (edge_kind_of e)"
      by (rule came_ok_parent)
    let ?step = "\<lparr>ps_node = n, ps_edge = Some e\<rparr>"
    have "\<exists>p. reconstruct_loop steps from_id cf (hm_remove v cache) u (acc @ [?step]) =
          (acc @ [?step]) @ rev p \<and> is_path nodes edges kinds from_id u p \<and> length p = Suc (l u)"
    proof (rule Suc.IH)
      fix w assume "w \<in> V" "l w \<le> l u"
      with u Suc.prems show "map_of (hm_remove v cache) w = nodes w" by auto
    qed (use u Suc.prems in simp_all)
    then obtain p where p: "reconstruct_loop steps from_id cf (hm_remove v cache) u (acc @ [?step]) =
        (acc @ [?step]) @ rev p" "is_path nodes edges kinds from_id u p" "length p = Suc (l u)"
      by blast
    then have "is_path nodes edges kinds from_id v (p @ [?step])"
      using e idn n by (auto simp: is_path_def joined_def successively_append_iff)
    with p u False c ue show ?thesis
      by (intro exI [of _ "p @ [?step]"]) simp
  qed
qed simp

section \<open>The loop\<close>

context graph_store
begin

lemma path_found:
  assumes "path_base nodes edges kinds from_id l s" "to_id \<in> fp_visited s"
  shows "is_path nodes edges kinds from_id to_id
           (reconstruct_path from_id to_id (fp_came_from s) (fp_node_cache s))"
    and "length (reconstruct_path from_id to_id (fp_came_from s) (fp_node_cache s)) = Suc (l to_id)"
proof -
  from assms have b: "fp_visited s \<subseteq> dom nodes" "from_id \<in> fp_visited s"
      "came_ok edges kinds from_id l (fp_visited s) (fp_came_from s)"
      "map_of (fp_node_cache s) = nodes |` fp_visited s"
    by (simp_all add: path_base_def)
  have "finite (fp_visited s)" using b(1) finite_nodes by (rule finite_subset)
  then have "l to_id \<le> length (fp_came_from s)"
    using b assms(2) by (intro came_ok_bound)
  then have "\<exists>p. reconstruct_loop (Suc (length (fp_came_from s))) from_id (fp_came_from s)
      (fp_node_cache s) to_id [] = [] @ rev p \<and>
      is_path nodes edges kinds from_id to_id p \<and> length p = Suc (l to_id)"
    using assms(2) b by (intro reconstruct_loop_path [where V = "fp_visited s"] node_key) auto
  then show "is_path nodes edges kinds from_id to_id
           (reconstruct_path from_id to_id (fp_came_from s) (fp_node_cache s))"
    and "length (reconstruct_path from_id to_id (fp_came_from s) (fp_node_cache s)) = Suc (l to_id)"
    by (auto simp: reconstruct_path_def)
qed

text \<open>Every walk no longer than the current distance ends in a visited node.\<close>

lemma scan_covers:
  assumes "path_scan nodes edges kinds from_id to_id i d l scanned s"
    and "hops (link nodes edges kinds) from_id k w" and "k \<le> d"
  shows "w \<in> fp_visited s \<and> l w \<le> k"
  using assms(2,3)
proof (induction k w rule: hops.induct)
  case hops_0
  with assms(1) show ?case by (auto simp: path_scan_def path_base_def came_ok_def)
next
  case (hops_Suc k b c)
  then have b: "b \<in> fp_visited s" "l b \<le> k" by simp_all
  note D = path_scanD [OF assms(1)]
  have "b \<notin> set (fp_queue s)" using D(6) [of b] b hops_Suc.prems by force
  moreover have "b \<noteq> i" using D(4) b hops_Suc.prems by force
  ultimately have "c \<in> fp_visited s \<and> l c \<le> Suc (l b)"
    using D(8) b hops_Suc.hyps(2) by blast
  with b show ?case by simp
qed

lemma came_ok_add:
  assumes cf: "came_ok edges kinds from_id l V cf" and "i \<in> V" "l i = d" "from_id \<in> V"
    and e: "e \<in> edges" "edge_source e = i" "edge_target e = t"
      "kind_matches (wanted_kinds kinds) (edge_kind_of e)"
    and t: "t \<notin> V"
  shows "came_ok edges kinds from_id (l(t := Suc d)) (insert t V) (hm_insert t (i, e) cf)"
  unfolding came_ok_def
proof (intro conjI allI impI)
  fix v p e' assume v: "map_of (hm_insert t (i, e) cf) v = Some (p, e')"
  have "p \<in> insert t V \<and> (l(t := Suc d)) v = Suc ((l(t := Suc d)) p) \<and> e' \<in> edges \<and>
      edge_source e' = p \<and> edge_target e' = v \<and> kind_matches (wanted_kinds kinds) (edge_kind_of e')"
  proof (cases "v = t")
    case True
    with v assms show ?thesis by auto
  next
    case False
    with v have m: "map_of cf v = Some (p, e')" by simp
    then have "v \<in> dom (map_of cf)" by blast
    with cf have "v \<in> V" "v \<noteq> from_id" by (simp_all add: came_ok_def)
    have r: "p \<in> V \<and> l v = Suc (l p) \<and> e' \<in> edges \<and> edge_source e' = p \<and> edge_target e' = v \<and>
        kind_matches (wanted_kinds kinds) (edge_kind_of e')"
      using came_ok_parent [OF cf \<open>v \<in> V\<close> \<open>v \<noteq> from_id\<close>] m
      by (metis option.inject prod.inject)
    then have "p \<noteq> t" using t by blast
    with r False show ?thesis by simp
  qed
  then show "p \<in> insert t V" "(l(t := Suc d)) v = Suc ((l(t := Suc d)) p)" "e' \<in> edges"
      "edge_source e' = p" "edge_target e' = v" "kind_matches (wanted_kinds kinds) (edge_kind_of e')"
    by blast+
qed (use assms in \<open>auto simp: came_ok_def\<close>)

lemma scan_add:
  assumes sc: "path_scan nodes edges kinds from_id to_id i d l scanned s"
    and e: "e \<in> edges" "edge_source e = i" "kind_matches (wanted_kinds kinds) (edge_kind_of e)"
    and t: "edge_target e \<notin> fp_visited s" "nodes (edge_target e) = Some n"
  shows "path_base nodes edges kinds from_id (l(edge_target e := Suc d))
           (s\<lparr>fp_visited := insert (edge_target e) (fp_visited s),
              fp_node_cache := hm_insert (edge_target e) n (fp_node_cache s),
              fp_came_from := hm_insert (edge_target e) (i, e) (fp_came_from s)\<rparr>)"
proof -
  let ?t = "edge_target e"
  from sc have b: "path_base nodes edges kinds from_id l s" and i: "i \<in> fp_visited s" "l i = d"
    by (simp_all add: path_scan_def)
  from b have cf: "came_ok edges kinds from_id l (fp_visited s) (fp_came_from s)"
    and f: "from_id \<in> fp_visited s" by (simp_all add: path_base_def)
  have "link nodes edges kinds i ?t" using e t by (auto simp: link_def)
  with b i have h: "hops (link nodes edges kinds) from_id (Suc d) ?t"
    by (auto simp: path_base_def intro: hops_Suc)
  have "came_ok edges kinds from_id (l(?t := Suc d)) (insert ?t (fp_visited s))
          (hm_insert ?t (i, e) (fp_came_from s))"
    using cf i f e(1,2) refl e(3) t(1) by (rule came_ok_add)
  moreover have "map_of (hm_insert ?t n (fp_node_cache s)) = nodes |` insert ?t (fp_visited s)"
    using b t by (auto simp: path_base_def restrict_map_def fun_eq_iff)
  ultimately show ?thesis
    using b t h by (auto simp: path_base_def)
qed

lemma path_edge_step:
  assumes sc: "path_scan nodes edges kinds from_id to_id i d l scanned s"
    and e: "e \<in> edges" "edge_source e = i" "kind_matches (wanted_kinds kinds) (edge_kind_of e)"
    and m: "edge_target e \<notin> fp_visited s \<longrightarrow> map_of m (edge_target e) = nodes (edge_target e)"
  shows "(\<exists>s' l'. path_edge from_id to_id i m e s = Inr s' \<and>
            path_scan nodes edges kinds from_id to_id i d l' (insert e scanned) s' \<and>
            path_measure nodes s' \<le> path_measure nodes s \<and> fp_visited s \<subseteq> fp_visited s') \<or>
         (\<exists>p. path_edge from_id to_id i m e s = Inl (Return (Some p)) \<and>
            is_path nodes edges kinds from_id to_id p \<and>
            hop_distance (link nodes edges kinds) from_id (length p - 1) to_id)"
proof (cases "edge_target e \<in> fp_visited s \<or> nodes (edge_target e) = None")
  case True
  with m have "path_edge from_id to_id i m e s = Inr s"
    by (auto simp: path_edge_def Let_def)
  moreover have "path_scan nodes edges kinds from_id to_id i d l (insert e scanned) s"
    using sc True by (intro path_scan_more) blast+
  ultimately show ?thesis by blast
next
  case False
  then obtain n where t: "edge_target e \<notin> fp_visited s" "nodes (edge_target e) = Some n" by blast
  let ?t = "edge_target e" and ?l = "l(edge_target e := Suc d)"
  let ?s = "s\<lparr>fp_visited := insert ?t (fp_visited s),
              fp_node_cache := hm_insert ?t n (fp_node_cache s),
              fp_came_from := hm_insert ?t (i, e) (fp_came_from s)\<rparr>"
  note base = scan_add [OF sc e t]
  show ?thesis
  proof (cases "?t = to_id")
    case True
    let ?p = "reconstruct_path from_id to_id (fp_came_from ?s) (fp_node_cache ?s)"
    have "path_edge from_id to_id i m e s = Inl (Return (Some ?p))"
      using True t m by (simp add: path_edge_def Let_def)
    moreover from base True have p: "is_path nodes edges kinds from_id to_id ?p" "length ?p = Suc (Suc d)"
      using path_found [OF base, of to_id] by simp_all
    moreover have "hop_distance (link nodes edges kinds) from_id (Suc d) to_id"
    proof -
      have "Suc d \<le> k" if "hops (link nodes edges kinds) from_id k to_id" for k
      proof (rule ccontr)
        assume "\<not> Suc d \<le> k"
        then have "k \<le> d" by simp
        with scan_covers [OF sc that] have "to_id \<in> fp_visited s" by blast
        with path_scanD(2) [OF sc] show False by blast
      qed
      moreover have "hops (link nodes edges kinds) from_id (Suc d) to_id"
        using path_baseD(5) [OF base, of to_id] True by simp
      ultimately show ?thesis by (simp add: hop_distance_def)
    qed
    ultimately show ?thesis by auto
  next
    case False
    let ?s' = "?s\<lparr>fp_queue := fp_queue s @ [?t]\<rparr>"
    have "path_edge from_id to_id i m e s = Inr ?s'"
      using False t m by (simp add: path_edge_def Let_def)
    moreover have "path_scan nodes edges kinds from_id to_id i d ?l (insert e scanned) ?s'"
    proof (rule path_scanI)
      note D = path_scanD [OF sc]
      from D(1) have q: "set (fp_queue s) \<subseteq> fp_visited s" by (simp add: path_base_def)
      show "path_base nodes edges kinds from_id ?l ?s'" using base by (simp add: path_base_def)
      show "to_id \<notin> fp_visited ?s'" "i \<in> fp_visited ?s'" "?l i = d"
        using D(2,3,4) False t(1) by auto
      have "map ?l (fp_queue s) = map l (fp_queue s)" using t(1) q by auto
      moreover have "\<forall>x\<in>set (fp_queue s). l x \<le> Suc d" using D(7) q by blast
      moreover have "map ?l (fp_queue ?s') = map ?l (fp_queue s) @ [Suc d]" by simp
      ultimately show "sorted (map ?l (fp_queue ?s'))"
        using D(5) by (simp only: sorted_append) simp
      show "d \<le> ?l x" if "x \<in> set (fp_queue ?s')" for x using that D(6) by auto
      show "?l v \<le> Suc d" if "v \<in> fp_visited ?s'" for v using that D(7) by auto
      show "w \<in> fp_visited ?s' \<and> ?l w \<le> Suc (?l v)"
        if "v \<in> fp_visited ?s'" "v \<notin> set (fp_queue ?s')" "v \<noteq> i" "link nodes edges kinds v w" for v w
        using that D(8) [of v w] t(1) by auto
      show "edge_target e' \<in> fp_visited ?s'"
        if "e' \<in> insert e scanned" "nodes (edge_target e') \<noteq> None" for e'
        using that D(9) by auto
    qed
    moreover have "path_measure nodes ?s' \<le> path_measure nodes s"
    proof -
      have "dom nodes - insert ?t (fp_visited s) = (dom nodes - fp_visited s) - {?t}" by blast
      moreover have "?t \<in> dom nodes - fp_visited s" using t by blast
      moreover have "finite (dom nodes - fp_visited s)" using finite_nodes by blast
      ultimately have "Suc (card (dom nodes - insert ?t (fp_visited s))) = card (dom nodes - fp_visited s)"
        using card_Suc_Diff1 [of "dom nodes - fp_visited s" ?t] by (simp only:)
      then show ?thesis by (simp add: path_measure_def)
    qed
    ultimately show ?thesis by auto
  qed
qed

lemma path_edges_scan:
  assumes "path_scan nodes edges kinds from_id to_id i d l scanned s"
    and "\<forall>e\<in>set es. e \<in> edges \<and> edge_source e = i \<and>
           kind_matches (wanted_kinds kinds) (edge_kind_of e)"
    and "\<forall>e\<in>set es. edge_target e \<notin> fp_visited s \<longrightarrow>
           map_of m (edge_target e) = nodes (edge_target e)"
  shows "(\<exists>s' l'. for_each (path_edge from_id to_id i m) es s = Inr s' \<and>
            path_scan nodes edges kinds from_id to_id i d l' (set es \<union> scanned) s' \<and>
            path_measure nodes s' \<le> path_measure nodes s) \<or>
         (\<exists>p. for_each (path_edge from_id to_id i m) es s = Inl (Return (Some p)) \<and>
            is_path nodes edges kinds from_id to_id p \<and>
            hop_distance (link nodes edges kinds) from_id (length p - 1) to_id)"
  using assms
proof (induction es arbitrary: s l scanned)
  case Nil
  then show ?case by auto
next
  case (Cons e es)
  have e: "e \<in> edges" "edge_source e = i" "kind_matches (wanted_kinds kinds) (edge_kind_of e)"
    using Cons.prems(2) by simp_all
  have "edge_target e \<notin> fp_visited s \<longrightarrow> map_of m (edge_target e) = nodes (edge_target e)"
    using Cons.prems(3) by simp
  from path_edge_step [OF Cons.prems(1) e this]
  show ?case
  proof (elim disjE exE conjE)
    fix s' l' assume s': "path_edge from_id to_id i m e s = Inr s'"
      "path_scan nodes edges kinds from_id to_id i d l' (insert e scanned) s'"
      "path_measure nodes s' \<le> path_measure nodes s" "fp_visited s \<subseteq> fp_visited s'"
    have "\<forall>e\<in>set es. edge_target e \<notin> fp_visited s' \<longrightarrow>
           map_of m (edge_target e) = nodes (edge_target e)"
      using Cons.prems(3) s'(4) by auto
    moreover have "\<forall>e\<in>set es. e \<in> edges \<and> edge_source e = i \<and>
           kind_matches (wanted_kinds kinds) (edge_kind_of e)"
      using Cons.prems(2) by simp
    ultimately show ?thesis
      using Cons.IH [OF s'(2)] s'(1,3) by (simp add: Un_assoc) (meson le_trans)
  qed simp
qed

lemma path_pop:
  assumes inv: "path_inv nodes edges kinds from_id to_id l s" and q: "fp_queue s = i # rest"
  shows "path_scan nodes edges kinds from_id to_id i (l i) l {} (s\<lparr>fp_queue := rest, fp_ticks := t\<rparr>)"
proof (rule path_scanI)
  let ?s = "s\<lparr>fp_queue := rest, fp_ticks := t\<rparr>"
  note D = path_invD [OF inv] and B = path_baseD [OF path_invD(1) [OF inv]]
  show "path_base nodes edges kinds from_id l ?s" using D(1) q by (simp add: path_base_def)
  show "to_id \<notin> fp_visited ?s" using D(2) by simp
  show "i \<in> fp_visited ?s" using B(3) q by simp
  show "sorted (map l (fp_queue ?s))" using D(3) q by simp
  show "l i \<le> l x" if "x \<in> set (fp_queue ?s)" for x using D(3) q that by simp
  show "l v \<le> Suc (l i)" if "v \<in> fp_visited ?s" for v using D(4) [of i v] q that by simp
  show "w \<in> fp_visited ?s \<and> l w \<le> Suc (l v)"
    if "v \<in> fp_visited ?s" "v \<notin> set (fp_queue ?s)" "v \<noteq> i" "link nodes edges kinds v w" for v w
    using D(5) [of v w] q that by simp
qed simp_all

lemma path_scan_done:
  assumes sc: "path_scan nodes edges kinds from_id to_id i d l scanned s"
    and es: "{e \<in> edges. edge_source e = i \<and> kind_matches (wanted_kinds kinds) (edge_kind_of e)} \<subseteq> scanned"
  shows "path_inv nodes edges kinds from_id to_id l s"
proof -
  note D = path_scanD [OF sc]
  have "w \<in> fp_visited s \<and> l w \<le> Suc (l v)"
    if v: "v \<in> fp_visited s" "v \<notin> set (fp_queue s)" and vw: "link nodes edges kinds v w" for v w
  proof (cases "v = i")
    case True
    from vw True obtain e where "e \<in> scanned" "edge_target e = w" "nodes w \<noteq> None"
      using es by (auto simp: link_def)
    then have "w \<in> fp_visited s" using D(9) by blast
    with D(4,7) True show ?thesis by simp
  next
    case False
    with D(8) v vw show ?thesis by blast
  qed
  moreover have "\<forall>x\<in>set (fp_queue s). \<forall>v\<in>fp_visited s. l v \<le> Suc (l x)"
    using D(6,7) by (meson Suc_le_mono le_trans)
  ultimately show ?thesis using D(1,2,5) unfolding path_inv_def by blast
qed

lemma path_iteration_step:
  assumes inv: "path_inv nodes edges kinds from_id to_id l s" and ne: "fp_queue s \<noteq> []"
  shows "(\<exists>s'. path_iteration q no_cancel from_id to_id kinds s = Inr s' \<and>
            (\<exists>l'. path_inv nodes edges kinds from_id to_id l' s') \<and>
            (s', s) \<in> measure (path_measure nodes)) \<or>
         (\<exists>p. path_iteration q no_cancel from_id to_id kinds s = Inl (Return (Some p)) \<and>
            is_path nodes edges kinds from_id to_id p \<and>
            hop_distance (link nodes edges kinds) from_id (length p - 1) to_id)"
proof -
  from ne obtain i rest where iq: "fp_queue s = i # rest" by (cases "fp_queue s") auto
  let ?s = "s\<lparr>fp_queue := rest, fp_ticks := Suc (fp_ticks s)\<rparr>"
  note sc = path_pop [OF inv iq, of "Suc (fp_ticks s)"]
  have small: "path_measure nodes ?s < path_measure nodes s" using iq by (simp add: path_measure_def)
  obtain es where es: "q_outgoing q i (wanted_kinds kinds) = Inr es"
    "set es = {e \<in> edges. edge_source e = i \<and> kind_matches (wanted_kinds kinds) (edge_kind_of e)}"
    by (rule outgoingE)
  let ?want = "filter (\<lambda>x. x \<notin> fp_visited s) (map edge_target es)"
  have "\<exists>m. (if ?want \<noteq> [] then q_nodes_by_ids q ?want else Inr []) = Inr m \<and>
      (\<forall>e\<in>set es. edge_target e \<notin> fp_visited ?s \<longrightarrow> map_of m (edge_target e) = nodes (edge_target e))"
  proof (cases "?want = []")
    case True
    then show ?thesis by (auto simp: filter_empty_conv)
  next
    case False
    obtain m where "q_nodes_by_ids q ?want = Inr m" "map_of m = nodes |` set ?want"
      by (rule nodes_by_idsE)
    with False show ?thesis by (auto simp: restrict_map_def)
  qed
  then obtain m where m: "(if ?want \<noteq> [] then q_nodes_by_ids q ?want else Inr []) = Inr m"
    "\<forall>e\<in>set es. edge_target e \<notin> fp_visited ?s \<longrightarrow> map_of m (edge_target e) = nodes (edge_target e)"
    by blast
  have eq: "path_iteration q no_cancel from_id to_id kinds s =
      (if es = [] then Inr ?s else for_each (path_edge from_id to_id i m) es ?s)"
    using iq es(1) m(1) by (simp add: path_iteration_def Let_def wanted_kinds_def)
  have "\<forall>e\<in>set es. e \<in> edges \<and> edge_source e = i \<and> kind_matches (wanted_kinds kinds) (edge_kind_of e)"
    using es(2) by simp
  from path_edges_scan [OF sc this m(2)] show ?thesis
  proof (elim disjE exE conjE)
    fix s' l' assume s': "for_each (path_edge from_id to_id i m) es ?s = Inr s'"
      "path_scan nodes edges kinds from_id to_id i (l i) l' (set es \<union> {}) s'"
      "path_measure nodes s' \<le> path_measure nodes ?s"
    have "path_inv nodes edges kinds from_id to_id l' s'"
      using s'(2) es(2) by (intro path_scan_done [OF s'(2)]) simp
    moreover have "path_iteration q no_cancel from_id to_id kinds s = Inr s'"
      using eq s'(1) by (cases "es = []") simp_all
    ultimately show ?thesis using s'(3) small by auto
  next
    fix p assume p: "for_each (path_edge from_id to_id i m) es ?s = Inl (Return (Some p))"
      "is_path nodes edges kinds from_id to_id p"
      "hop_distance (link nodes edges kinds) from_id (length p - 1) to_id"
    then show ?thesis using eq by (cases "es = []") auto
  qed
qed

lemma path_inv_end:
  assumes "path_inv nodes edges kinds from_id to_id l s" "fp_queue s = []"
  shows "\<not> (link nodes edges kinds)\<^sup>*\<^sup>* from_id to_id"
proof -
  note D = path_invD [OF assms(1)]
  have "w \<in> fp_visited s" if "(link nodes edges kinds)\<^sup>*\<^sup>* from_id w" for w
    using that
  proof (induction rule: rtranclp_induct)
    case base
    show ?case by (rule path_baseD(1) [OF D(1)])
  next
    case (step v w)
    with D(5) [of v w] assms(2) show ?case by simp
  qed
  with D(2) show ?thesis by blast
qed

lemma path_start_inv:
  assumes "nodes from_id = Some fn" "from_id \<noteq> to_id"
  shows "path_inv nodes edges kinds from_id to_id (\<lambda>_. 0) (path_start from_id fn)"
  using assms node_key [OF assms(1)]
  by (auto simp: path_inv_def path_base_def path_start_def came_ok_def restrict_map_def fun_eq_iff
      intro: hops_0)

lemma find_path_spec:
  assumes f: "nodes from_id = Some fn" and t: "nodes to_id = Some tn"
  shows "\<exists>r. find_path q no_cancel from_id to_id kinds = Some (Inr r) \<and>
           (case r of
              None \<Rightarrow> \<not> (link nodes edges kinds)\<^sup>*\<^sup>* from_id to_id
            | Some p \<Rightarrow> is_path nodes edges kinds from_id to_id p \<and>
                hop_distance (link nodes edges kinds) from_id (length p - 1) to_id)"
proof (cases "from_id = to_id")
  case True
  with f t node_key [OF f] show ?thesis
    by (auto simp: find_path_def node_by_id is_path_def hop_distance_def intro: hops_0)
next
  case False
  let ?loop = "loop_while (\<lambda>s. fp_queue s \<noteq> []) (path_iteration q no_cancel from_id to_id kinds)
      (path_start from_id fn)"
  let ?Q = "\<lambda>x. \<exists>p. x = Return (Some p) \<and> is_path nodes edges kinds from_id to_id p \<and>
      hop_distance (link nodes edges kinds) from_id (length p - 1) to_id"
  have eq: "find_path q no_cancel from_id to_id kinds = finish_loop (\<lambda>s. None) ?loop"
    using f t False by (simp add: find_path_def node_by_id)
  have "(\<exists>s'. ?loop = Some (Inr s') \<and> (\<exists>l. path_inv nodes edges kinds from_id to_id l s') \<and>
           \<not> fp_queue s' \<noteq> []) \<or> (\<exists>e. ?loop = Some (Inl e) \<and> ?Q e)"
  proof (rule loop_while_total_exit [where r = "measure (path_measure nodes)"])
    show "\<exists>l. path_inv nodes edges kinds from_id to_id l (path_start from_id fn)"
      using path_start_inv [OF f False] by blast
  next
    fix s :: path_state
    assume "\<exists>l. path_inv nodes edges kinds from_id to_id l s" "fp_queue s \<noteq> []"
    then obtain l where "path_inv nodes edges kinds from_id to_id l s" by blast
    from path_iteration_step [OF this \<open>fp_queue s \<noteq> []\<close>]
    show "(\<exists>s'. path_iteration q no_cancel from_id to_id kinds s = Inr s' \<and>
            (\<exists>l. path_inv nodes edges kinds from_id to_id l s') \<and>
            (s', s) \<in> measure (path_measure nodes)) \<or>
          (\<exists>e. path_iteration q no_cancel from_id to_id kinds s = Inl e \<and> ?Q e)" by blast
  qed simp
  then show ?thesis
  proof (elim disjE exE conjE)
    fix s' l assume "?loop = Some (Inr s')" "path_inv nodes edges kinds from_id to_id l s'"
      "\<not> fp_queue s' \<noteq> []"
    with eq path_inv_end show ?thesis by auto
  qed (simp add: eq)
qed

end

end
