(* ===== verification/Store_Proofs.thy ===== *)
theory Store_Proofs
  imports Graph_Store Path_Search
begin

text \<open>
  What the store promises: rows and values round trip, every operation keeps the tables
  consistent and the cache coherent, a lookup through the cache is a lookup in the table, and
  the read side meets the contract \<open>graph_store\<close> of the traversals.
\<close>

section \<open>Round trips\<close>

text \<open>The positions of a node fit their \<^verbatim>\<open>u32\<close>; in Rust the type says so.\<close>

definition opt_fits :: "nat option \<Rightarrow> bool" where
  "opt_fits x = (case x of None \<Rightarrow> True | Some v \<Rightarrow> v < 2 ^ 32)"

definition node_fits :: "node \<Rightarrow> bool" where
  "node_fits n \<longleftrightarrow>
     node_start_line n < 2 ^ 32 \<and> node_end_line n < 2 ^ 32 \<and> node_start_column n < 2 ^ 32 \<and>
     node_end_column n < 2 ^ 32 \<and> opt_fits (node_start_byte n) \<and> opt_fits (node_end_byte n) \<and>
     opt_fits (node_size n)"

definition edge_fits :: "edge \<Rightarrow> bool" where
  "edge_fits e \<longleftrightarrow> opt_fits (edge_line e) \<and> opt_fits (edge_column e)"

text \<open>What a stored node reads back as: a missing qualified name becomes the name, a missing
  flag becomes \<^term>\<open>Some False\<close>, a missing time the time of the write.\<close>

definition stored_form :: "platform \<Rightarrow> node \<Rightarrow> node" where
  "stored_form p n =
     n\<lparr>node_qualified_name :=
         (if node_qualified_name n = [] then node_name n else node_qualified_name n),
       node_is_exported := Some (node_is_exported n = Some True),
       node_is_async := Some (node_is_async n = Some True),
       node_is_static := Some (node_is_static n = Some True),
       node_is_abstract := Some (node_is_abstract n = Some True),
       node_updated_at := (if node_updated_at n = 0 then now_ms p else node_updated_at n)\<rparr>"

lemma get_u32_int [simp]: "n < 2 ^ 32 \<Longrightarrow> get_u32 (int n) = Inr n"
proof -
  assume "n < 2 ^ 32"
  then have "int n < 2 ^ 32" by (metis of_nat_less_iff of_nat_numeral of_nat_power)
  then show ?thesis by (simp add: get_u32_def)
qed

lemma get_opt_u32_int [simp]: "opt_fits x \<Longrightarrow> get_opt_u32 (map_option int x) = Inr x"
  by (cases x) (simp_all add: opt_fits_def)

lemma parse_visibility_str [simp]: "parse_visibility (map_option visibility_str v) = v"
proof (cases v)
  case (Some w)
  then show ?thesis by (cases w) simp_all
qed simp

lemma address_roundtrip [simp]:
  "map_option word_of_int (map_option sint (a :: 64 word option)) = a"
  by (cases a) simp_all

lemma language_roundtrip [simp]: "language_or_unknown (language_as_str l) = l"
  by (simp add: language_or_unknown_def lang.parse_as_str)

lemma flag_int_one [simp]: "flag_int b = 1 \<longleftrightarrow> b = Some True"
  by (simp add: flag_int_def)

lemma platform_okD:
  assumes "platform_ok p"
  shows "mset (node_order p rs) = mset rs" "mset (edge_order p es) = mset es"
    "\<exists>t. to_json_strings p d = Inr t \<and> from_json_strings p t = Some d"
    "\<exists>t. to_json_metadata p m = Inr t \<and> from_json_metadata p t = Some m"
  using assms unfolding platform_ok_def by blast+

lemma opt_json_strings:
  assumes "platform_ok p"
  obtains t where "opt_json (to_json_strings p) d = Inr t" "Option.bind t (from_json_strings p) = d"
proof (cases d)
  case None
  then show ?thesis by (intro that [of None]) simp_all
next
  case (Some x)
  from platform_okD(3) [OF assms, of x] obtain t where
    "to_json_strings p x = Inr t" "from_json_strings p t = Some x" by blast
  with Some show ?thesis by (intro that [of "Some t"]) simp_all
qed

lemma opt_json_metadata:
  assumes "platform_ok p"
  obtains t where "opt_json (to_json_metadata p) d = Inr t" "Option.bind t (from_json_metadata p) = d"
proof (cases d)
  case None
  then show ?thesis by (intro that [of None]) simp_all
next
  case (Some x)
  from platform_okD(4) [OF assms, of x] obtain t where
    "to_json_metadata p x = Inr t" "from_json_metadata p t = Some x" by blast
  with Some show ?thesis by (intro that [of "Some t"]) simp_all
qed

lemma node_row_roundtrip:
  assumes "platform_ok p" and "node_fits n"
  obtains r where "node_to_row p n = Inr r" "node_from_row p r = Inr (stored_form p n)"
    "nr_id r = node_id n" "nr_file_path r = node_file_path n" "nr_name r = node_name n"
    "nr_kind r = node_kind_as_str (node_kind n)"
proof -
  obtain d where d: "opt_json (to_json_strings p) (node_decorators n) = Inr d"
      "Option.bind d (from_json_strings p) = node_decorators n"
    using opt_json_strings [OF assms(1)] .
  obtain t where t: "opt_json (to_json_strings p) (node_type_parameters n) = Inr t"
      "Option.bind t (from_json_strings p) = node_type_parameters n"
    using opt_json_strings [OF assms(1)] .
  from d(1) t(1) obtain r where r: "node_to_row p n = Inr r" by (simp add: node_to_row_def)
  with d(1) t(1) have fields: "nr_id r = node_id n" "nr_file_path r = node_file_path n"
    "nr_name r = node_name n" "nr_kind r = node_kind_as_str (node_kind n)"
    by (auto simp: node_to_row_def)
  have "Inr r = node_to_row p n" using r by simp
  then have "node_from_row p r = Inr (stored_form p n)"
    using assms(2) d t
    by (simp add: node_to_row_def node_from_row_def node_fits_def nk.parse_as_str stored_form_def comp_def)
  with r fields show ?thesis using that by blast
qed

lemma provenance_roundtrip [simp]:
  "Option.bind (map_option provenance_as_str v)
     (\<lambda>s. case provenance_from_str s of Inr v \<Rightarrow> Some v | Inl _ \<Rightarrow> None) = v"
  by (cases v) (simp_all add: prov.parse_as_str)

lemma edge_row_roundtrip:
  assumes "platform_ok p" and "edge_fits e"
  obtains r where "edge_to_row p e = Inr r" "edge_from_row p r = Inr e"
    "er_source r = edge_source e" "er_target r = edge_target e"
    "er_kind r = edge_kind_as_str (edge_kind_of e)"
proof -
  obtain t where t: "opt_json (to_json_metadata p) (edge_metadata e) = Inr t"
      "Option.bind t (from_json_metadata p) = edge_metadata e"
    using opt_json_metadata [OF assms(1)] .
  show ?thesis
  proof (rule that)
    show "edge_to_row p e = Inr
       \<lparr>er_source = edge_source e, er_target = edge_target e,
        er_kind = edge_kind_as_str (edge_kind_of e), er_metadata = t,
        er_line = map_option int (edge_line e), er_col = map_option int (edge_column e),
        er_provenance = map_option provenance_as_str (edge_provenance e)\<rparr>" (is "_ = Inr ?r")
      using t(1) by (simp add: edge_to_row_def)
    show "edge_from_row p ?r = Inr e"
      using assms(2) t(2)
      by (simp add: edge_from_row_def edge_fits_def ek.parse_as_str)
  qed simp_all
qed

lemma node_from_row_fields:
  assumes "node_from_row p r = Inr n"
  shows "node_id n = nr_id r" "node_file_path n = nr_file_path r" "node_name n = nr_name r"
    "node_kind_as_str (node_kind n) = nr_kind r"
proof -
  from assms obtain k where k: "map_err conv_err (node_kind_from_str (nr_kind r)) = Inr k"
      "node_kind n = k" "node_id n = nr_id r" "node_file_path n = nr_file_path r"
      "node_name n = nr_name r"
    unfolding node_from_row_def by (auto elim!: and_then_InrE)
  then show "node_id n = nr_id r" "node_file_path n = nr_file_path r" "node_name n = nr_name r"
    by simp_all
  from k(1) have "node_kind_from_str (nr_kind r) = Inr k"
    by (cases "node_kind_from_str (nr_kind r)") simp_all
  then show "node_kind_as_str (node_kind n) = nr_kind r" using k(2) by (simp add: nk.parse_iff)
qed

lemma edge_from_row_fields:
  assumes "edge_from_row p r = Inr e"
  shows "edge_source e = er_source r" "edge_target e = er_target r"
    "edge_kind_as_str (edge_kind_of e) = er_kind r"
proof -
  from assms obtain k where k: "map_err conv_err (edge_kind_from_str (er_kind r)) = Inr k"
      "edge_kind_of e = k" "edge_source e = er_source r" "edge_target e = er_target r"
    unfolding edge_from_row_def by (auto elim!: and_then_InrE)
  then show "edge_source e = er_source r" "edge_target e = er_target r" by simp_all
  from k(1) have "edge_kind_from_str (er_kind r) = Inr k"
    by (cases "edge_kind_from_str (er_kind r)") simp_all
  then show "edge_kind_as_str (edge_kind_of e) = er_kind r" using k(2) by (simp add: ek.parse_iff)
qed

section \<open>Consistent stores\<close>

definition db_ok :: "platform \<Rightarrow> db \<Rightarrow> bool" where
  "db_ok p d \<longleftrightarrow>
     distinct (map nr_id (tbl_nodes d)) \<and>
     (\<forall>r\<in>set (tbl_nodes d). \<exists>n. node_from_row p r = Inr n) \<and>
     (\<forall>r\<in>set (tbl_edges d). \<exists>e. edge_from_row p r = Inr e) \<and>
     (\<forall>r\<in>set (tbl_edges d). er_source r \<in> nr_id ` set (tbl_nodes d) \<and>
                            er_target r \<in> nr_id ` set (tbl_nodes d)) \<and>
     distinct (map edge_identity (tbl_edges d))"

definition stored_node :: "platform \<Rightarrow> db \<Rightarrow> string \<Rightarrow> node option" where
  "stored_node p d i =
     (case find (\<lambda>r. nr_id r = i) (tbl_nodes d) of
        None \<Rightarrow> None
      | Some r \<Rightarrow> (case node_from_row p r of Inr n \<Rightarrow> Some n | Inl _ \<Rightarrow> None))"

definition stored_edges :: "platform \<Rightarrow> db \<Rightarrow> edge set" where
  "stored_edges p d = {e. \<exists>r\<in>set (tbl_edges d). edge_from_row p r = Inr e}"

definition cache_ok :: "platform \<Rightarrow> db \<Rightarrow> node_lru \<Rightarrow> bool" where
  "cache_ok p d c \<longleftrightarrow> nl_ok c \<and> (\<forall>(i, n)\<in>set (nl_entries c). stored_node p d i = Some n)"

definition store_ok :: "platform \<Rightarrow> query_builder \<Rightarrow> bool" where
  "store_ok p s \<longleftrightarrow> db_ok p (qb_db s) \<and> cache_ok p (qb_db s) (qb_cache s)"

lemma db_okD:
  assumes "db_ok p d"
  shows "distinct (map nr_id (tbl_nodes d))"
    "\<And>r. r \<in> set (tbl_nodes d) \<Longrightarrow> \<exists>n. node_from_row p r = Inr n"
    "\<And>r. r \<in> set (tbl_edges d) \<Longrightarrow> \<exists>e. edge_from_row p r = Inr e"
    "\<And>r. r \<in> set (tbl_edges d) \<Longrightarrow> er_source r \<in> nr_id ` set (tbl_nodes d)"
    "\<And>r. r \<in> set (tbl_edges d) \<Longrightarrow> er_target r \<in> nr_id ` set (tbl_nodes d)"
    "distinct (map edge_identity (tbl_edges d))"
  using assms unfolding db_ok_def by blast+

lemma db_okI:
  assumes "distinct (map nr_id (tbl_nodes d))"
    "\<And>r. r \<in> set (tbl_nodes d) \<Longrightarrow> \<exists>n. node_from_row p r = Inr n"
    "\<And>r. r \<in> set (tbl_edges d) \<Longrightarrow> \<exists>e. edge_from_row p r = Inr e"
    "\<And>r. r \<in> set (tbl_edges d) \<Longrightarrow> er_source r \<in> nr_id ` set (tbl_nodes d)"
    "\<And>r. r \<in> set (tbl_edges d) \<Longrightarrow> er_target r \<in> nr_id ` set (tbl_nodes d)"
    "distinct (map edge_identity (tbl_edges d))"
  shows "db_ok p d"
  using assms unfolding db_ok_def by blast

lemma cache_okD:
  assumes "cache_ok p d c"
  shows "nl_ok c" "\<And>i n. (i, n) \<in> set (nl_entries c) \<Longrightarrow> stored_node p d i = Some n"
  using assms unfolding cache_ok_def by blast+

lemma cache_okI:
  assumes "nl_ok c" "\<And>i n. (i, n) \<in> set (nl_entries c) \<Longrightarrow> stored_node p d i = Some n"
  shows "cache_ok p d c"
  using assms unfolding cache_ok_def by blast

lemma store_okD:
  assumes "store_ok p s"
  shows "db_ok p (qb_db s)" "cache_ok p (qb_db s) (qb_cache s)"
  using assms unfolding store_ok_def by blast+

lemma same_id_row:
  assumes "distinct (map nr_id rs)" "r \<in> set rs" "r' \<in> set rs" "nr_id r = nr_id r'"
  shows "r = r'"
  using assms by (auto simp: distinct_map inj_on_def)

lemma find_by_id:
  assumes "distinct (map nr_id rs)" and "r \<in> set rs"
  shows "find (\<lambda>r'. nr_id r' = nr_id r) rs = Some r"
  using assms by (rule find_code)

lemma stored_node_row:
  assumes "db_ok p d" and "r \<in> set (tbl_nodes d)" and "node_from_row p r = Inr n"
  shows "stored_node p d (nr_id r) = Some n"
  using find_by_id [OF db_okD(1) [OF assms(1)] assms(2)] assms(3) by (simp add: stored_node_def)

lemma stored_node_SomeE:
  assumes "stored_node p d i = Some n"
  obtains r where "r \<in> set (tbl_nodes d)" "nr_id r = i" "node_from_row p r = Inr n"
proof -
  from assms obtain r where r: "find (\<lambda>r. nr_id r = i) (tbl_nodes d) = Some r"
    by (auto simp: stored_node_def split: option.splits)
  with assms have "node_from_row p r = Inr n"
    by (auto simp: stored_node_def split: sum.splits)
  with find_Some_holds [OF r] show ?thesis using that by blast
qed

lemma stored_node_None_iff:
  assumes "db_ok p d"
  shows "stored_node p d i = None \<longleftrightarrow> i \<notin> nr_id ` set (tbl_nodes d)"
proof
  assume n: "stored_node p d i = None"
  show "i \<notin> nr_id ` set (tbl_nodes d)"
  proof
    assume "i \<in> nr_id ` set (tbl_nodes d)"
    then obtain r where r: "r \<in> set (tbl_nodes d)" "nr_id r = i" by blast
    obtain x where "node_from_row p r = Inr x" using db_okD(2) [OF assms r(1)] ..
    from stored_node_row [OF assms r(1) this] r(2) n show False by simp
  qed
next
  assume "i \<notin> nr_id ` set (tbl_nodes d)"
  then show "stored_node p d i = None" by (cases "stored_node p d i") (auto elim: stored_node_SomeE)
qed

lemma stored_node_id: "stored_node p d i = Some n \<Longrightarrow> node_id n = i"
  by (auto elim!: stored_node_SomeE dest: node_from_row_fields(1))

lemma stored_node_finite: "finite (dom (stored_node p d))"
proof (rule finite_subset)
  show "dom (stored_node p d) \<subseteq> nr_id ` set (tbl_nodes d)"
    by (auto elim: stored_node_SomeE)
qed simp

section \<open>The cache stays coherent\<close>

lemma set_entries_touch: "distinct (map fst es) \<Longrightarrow> set (entries_touch k es) = set es"
proof (cases "map_of es k")
  case (Some v)
  assume d: "distinct (map fst es)"
  have "(k, v) \<in> set es" using Some by (rule map_of_SomeD)
  moreover have "fst e = k \<Longrightarrow> e \<in> set es \<Longrightarrow> e = (k, v)" for e
    using d Some map_of_is_SomeI [OF d, of "fst e" "snd e"] by (cases e) simp
  ultimately show ?thesis using Some by (auto simp: entries_touch_def)
qed (simp add: entries_touch_def)

lemma set_entries_put: "set (entries_put c k v es) \<subseteq> insert (k, v) {e \<in> set es. fst e \<noteq> k}"
  by (cases es) (auto simp: entries_put_def split: if_splits)

lemma cache_ok_touch:
  assumes "cache_ok p d c" shows "cache_ok p d (snd (nl_get_touch i c))"
proof -
  note ok = cache_okD(1) [OF assms]
  have "set (nl_entries (snd (nl_get_touch i c))) = set (nl_entries c)"
    using nl_get_abs(3) [OF ok] nl_entries_distinct [OF ok] by (simp add: set_entries_touch)
  then show ?thesis using nl_get_abs(2) [OF ok] cache_okD(2) [OF assms] by (intro cache_okI) auto
qed

lemma cache_ok_insert:
  assumes "cache_ok p d c" and "stored_node p d (node_id n) = Some n"
  shows "cache_ok p d (nl_insert n c)"
proof (rule cache_okI)
  note ok = cache_okD(1) [OF assms(1)]
  show "nl_ok (nl_insert n c)" using nl_insert_at_abs(1) [OF ok] by (simp add: nl_insert_def)
  fix i m assume "(i, m) \<in> set (nl_entries (nl_insert n c))"
  then have "(i, m) \<in> insert (node_id n, n) {e \<in> set (nl_entries c). fst e \<noteq> node_id n}"
    using nl_insert_at_abs(2) [OF ok] set_entries_put unfolding nl_insert_def by fastforce
  then show "stored_node p d i = Some m" using cache_okD(2) [OF assms(1)] assms(2) by auto
qed

lemma cache_ok_remove:
  assumes "cache_ok p d c" and "\<And>j. j \<noteq> i \<Longrightarrow> stored_node p d' j = stored_node p d j"
  shows "cache_ok p d' (nl_remove i c)"
  using nl_remove_abs [OF cache_okD(1) [OF assms(1)], of i] cache_okD(2) [OF assms(1)] assms(2)
  by (intro cache_okI) auto

lemma cache_ok_remove_same: "cache_ok p d c \<Longrightarrow> cache_ok p d (nl_remove i c)"
  by (rule cache_ok_remove) simp_all

lemma cache_ok_clear: "cache_ok p d (nl_clear c)"
  using nl_clear_abs by (intro cache_okI) auto

lemma cache_ok_new: "cache_ok p d (nl_new cap)"
  using nl_new_abs by (intro cache_okI) auto

lemma cache_ok_cong:
  assumes "cache_ok p d c" and "\<And>i. stored_node p d' i = stored_node p d i"
  shows "cache_ok p d' c"
  using cache_okD [OF assms(1)] assms(2) by (intro cache_okI) auto

section \<open>The statements keep the tables consistent\<close>

lemma db_ok_cong:
  assumes "tbl_nodes d' = tbl_nodes d" and "tbl_edges d' = tbl_edges d"
  shows "db_ok p d' \<longleftrightarrow> db_ok p d" and "stored_node p d' = stored_node p d"
    and "stored_edges p d' = stored_edges p d"
  by (simp_all add: db_ok_def stored_node_def stored_edges_def fun_eq_iff assms)

lemma insert_name_segments_tables [simp]:
  "tbl_nodes (insert_name_segments p name d) = tbl_nodes d"
  "tbl_edges (insert_name_segments p name d) = tbl_edges d"
proof -
  have "tbl_nodes (fold (sql_insert_segment name) xs d) = tbl_nodes d \<and>
        tbl_edges (fold (sql_insert_segment name) xs d) = tbl_edges d" for xs
    by (induction xs arbitrary: d) (simp_all add: sql_insert_segment_def)
  then show "tbl_nodes (insert_name_segments p name d) = tbl_nodes d"
    "tbl_edges (insert_name_segments p name d) = tbl_edges d"
    by (simp_all add: insert_name_segments_def)
qed

lemma index_name_tables [simp]:
  "tbl_nodes (index_name p n d) = tbl_nodes d" "tbl_edges (index_name p n d) = tbl_edges d"
  by (simp_all add: index_name_def)

lemma sql_delete_nodes_ok:
  assumes ok: "db_ok p d" shows "db_ok p (sql_delete_nodes P d)"
proof (rule db_okI)
  let ?d = "sql_delete_nodes P d"
  have n: "tbl_nodes ?d = filter (\<lambda>r. \<not> P r) (tbl_nodes d)"
    by (simp add: sql_delete_nodes_def Let_def)
  have e: "r \<in> set (tbl_edges d) \<and> er_source r \<notin> nr_id ` {r \<in> set (tbl_nodes d). P r} \<and>
      er_target r \<notin> nr_id ` {r \<in> set (tbl_nodes d). P r}" if "r \<in> set (tbl_edges ?d)" for r
    using that by (auto simp: sql_delete_nodes_def Let_def)
  show "distinct (map nr_id (tbl_nodes ?d))"
    unfolding n using db_okD(1) [OF ok] by (rule distinct_map_filter)
  show "\<exists>n. node_from_row p r = Inr n" if "r \<in> set (tbl_nodes ?d)" for r
    using that db_okD(2) [OF ok] unfolding n by auto
  show "\<exists>e. edge_from_row p r = Inr e" if "r \<in> set (tbl_edges ?d)" for r
    using e [OF that] db_okD(3) [OF ok] by blast
  show "er_source r \<in> nr_id ` set (tbl_nodes ?d)" if "r \<in> set (tbl_edges ?d)" for r
    using e [OF that] db_okD(4) [OF ok, of r] unfolding n by auto
  show "er_target r \<in> nr_id ` set (tbl_nodes ?d)" if "r \<in> set (tbl_edges ?d)" for r
    using e [OF that] db_okD(5) [OF ok, of r] unfolding n by auto
  show "distinct (map edge_identity (tbl_edges ?d))"
    using db_okD(6) [OF ok] by (simp add: sql_delete_nodes_def Let_def distinct_map_filter)
qed

lemma stored_node_delete:
  assumes ok: "db_ok p d"
  shows "stored_node p (sql_delete_nodes P d) i =
    (if \<exists>r\<in>set (tbl_nodes d). nr_id r = i \<and> P r then None else stored_node p d i)"
proof -
  let ?d = "sql_delete_nodes P d"
  have n: "set (tbl_nodes ?d) = {r \<in> set (tbl_nodes d). \<not> P r}"
    by (auto simp: sql_delete_nodes_def Let_def)
  show ?thesis
  proof (cases "\<exists>r\<in>set (tbl_nodes d). nr_id r = i \<and> P r")
    case True
    then obtain r where r: "r \<in> set (tbl_nodes d)" "nr_id r = i" "P r" by blast
    then have "i \<notin> nr_id ` set (tbl_nodes ?d)"
      using same_id_row [OF db_okD(1) [OF ok] r(1)] unfolding n by (metis (mono_tags, lifting) imageE mem_Collect_eq)
    with True show ?thesis using stored_node_None_iff [OF sql_delete_nodes_ok [OF ok]] by simp
  next
    case False
    show ?thesis
    proof (cases "stored_node p d i")
      case None
      then have "i \<notin> nr_id ` set (tbl_nodes ?d)"
        using stored_node_None_iff [OF ok, of i] unfolding n by auto
      then have "stored_node p ?d i = None"
        using stored_node_None_iff [OF sql_delete_nodes_ok [OF ok]] by blast
      with None show ?thesis by simp
    next
      case (Some m)
      then obtain r where r: "r \<in> set (tbl_nodes d)" "nr_id r = i" "node_from_row p r = Inr m"
        by (rule stored_node_SomeE)
      with False have "r \<in> set (tbl_nodes ?d)" unfolding n by blast
      from stored_node_row [OF sql_delete_nodes_ok [OF ok] this r(3)] r(2) Some False
      show ?thesis by simp
    qed
  qed
qed

lemma sql_replace_node_ok:
  assumes ok: "db_ok p d" and r: "node_from_row p r = Inr n"
  shows "db_ok p (sql_replace_node r d)"
    and "stored_node p (sql_replace_node r d) = (stored_node p d)(nr_id r \<mapsto> n)"
proof -
  let ?k = "sql_delete_nodes (\<lambda>r'. nr_id r' = nr_id r) d" and ?d = "sql_replace_node r d"
  note k = sql_delete_nodes_ok [OF ok, of "\<lambda>r'. nr_id r' = nr_id r"]
  have n: "tbl_nodes ?d = tbl_nodes ?k @ [r]" and e: "tbl_edges ?d = tbl_edges ?k"
    by (simp_all add: sql_replace_node_def Let_def)
  have new: "nr_id r \<notin> nr_id ` set (tbl_nodes ?k)"
    by (auto simp: sql_delete_nodes_def Let_def)
  show ok': "db_ok p ?d"
  proof (rule db_okI; (unfold n e)?)
    show "distinct (map nr_id (tbl_nodes ?k @ [r]))" using db_okD(1) [OF k] new by simp
    show "\<exists>n. node_from_row p r' = Inr n" if "r' \<in> set (tbl_nodes ?k @ [r])" for r'
      using that r db_okD(2) [OF k, of r'] by auto
    show "\<exists>e. edge_from_row p x = Inr e" if "x \<in> set (tbl_edges ?k)" for x
      using db_okD(3) [OF k that] .
    show "er_source x \<in> nr_id ` set (tbl_nodes ?k @ [r])" if "x \<in> set (tbl_edges ?k)" for x
      using db_okD(4) [OF k that] by simp
    show "er_target x \<in> nr_id ` set (tbl_nodes ?k @ [r])" if "x \<in> set (tbl_edges ?k)" for x
      using db_okD(5) [OF k that] by simp
    show "distinct (map edge_identity (tbl_edges ?k))" using db_okD(6) [OF k] .
  qed
  show "stored_node p ?d = (stored_node p d)(nr_id r \<mapsto> n)"
  proof
    fix i
    have "find (\<lambda>r. nr_id r = i) (rs @ [r]) = find (\<lambda>r. nr_id r = i) rs" if "i \<noteq> nr_id r" for rs
      using that by (induction rs) auto
    then have "stored_node p ?d i = stored_node p ?k i" if "i \<noteq> nr_id r"
      using that unfolding stored_node_def n by simp
    moreover have "stored_node p ?d (nr_id r) = Some n"
      using stored_node_row [OF ok' _ r] unfolding n by simp
    ultimately show "stored_node p ?d i = ((stored_node p d)(nr_id r \<mapsto> n)) i"
      using stored_node_delete [OF ok, of "\<lambda>r'. nr_id r' = nr_id r" i] by auto
  qed
qed

lemma sql_update_node_ok:
  assumes ok: "db_ok p d" and r: "node_from_row p r = Inr n"
  shows "db_ok p (sql_update_node r d)"
    and "stored_node p (sql_update_node r d) i =
      (if i = nr_id r \<and> stored_node p d i \<noteq> None then Some n else stored_node p d i)"
proof -
  let ?f = "\<lambda>r'. if nr_id r' = nr_id r then r else r'" and ?d = "sql_update_node r d"
  have n: "tbl_nodes ?d = map ?f (tbl_nodes d)" and e: "tbl_edges ?d = tbl_edges d"
    by (simp_all add: sql_update_node_def)
  have ids: "map nr_id (map ?f (tbl_nodes d)) = map nr_id (tbl_nodes d)" by simp
  then have idset: "nr_id ` set (map ?f (tbl_nodes d)) = nr_id ` set (tbl_nodes d)"
    by (metis set_map)
  show ok': "db_ok p ?d"
  proof (rule db_okI; (unfold n e ids idset)?)
    show "distinct (map nr_id (tbl_nodes d))" using db_okD(1) [OF ok] .
    show "\<exists>n. node_from_row p r' = Inr n" if "r' \<in> set (map ?f (tbl_nodes d))" for r'
      using that r db_okD(2) [OF ok] by (auto split: if_splits)
  qed (use db_okD(3-6) [OF ok] in blast)+
  show "stored_node p ?d i =
      (if i = nr_id r \<and> stored_node p d i \<noteq> None then Some n else stored_node p d i)"
  proof (cases "stored_node p d i")
    case None
    then have "i \<notin> nr_id ` set (tbl_nodes ?d)"
      using stored_node_None_iff [OF ok, of i] unfolding n idset by simp
    with None show ?thesis using stored_node_None_iff [OF ok', of i] by simp
  next
    case (Some m)
    then obtain x where x: "x \<in> set (tbl_nodes d)" "nr_id x = i" "node_from_row p x = Inr m"
      by (rule stored_node_SomeE)
    then have "?f x \<in> set (tbl_nodes ?d)"
      unfolding n using imageI [OF x(1), of ?f] by (simp only: set_map)
    from stored_node_row [OF ok' this, of "if nr_id x = nr_id r then n else m"] x r Some
    show ?thesis by (auto split: if_splits)
  qed
qed

lemma sql_insert_edge_ok:
  assumes ok: "db_ok p d" and r: "edge_from_row p r = Inr e" and ins: "sql_insert_edge r d = Inr d'"
  shows "db_ok p d'" and "stored_node p d' = stored_node p d"
    and "stored_edges p d' = stored_edges p d \<or> stored_edges p d' = insert e (stored_edges p d)"
proof -
  consider "d' = d"
    | "edge_identity r \<notin> edge_identity ` set (tbl_edges d)"
      "er_source r \<in> nr_id ` set (tbl_nodes d)" "er_target r \<in> nr_id ` set (tbl_nodes d)"
      "d' = d\<lparr>tbl_edges := tbl_edges d @ [r]\<rparr>"
    using ins unfolding sql_insert_edge_def by (auto split: if_splits)
  then have "db_ok p d' \<and> stored_node p d' = stored_node p d \<and>
      (stored_edges p d' = stored_edges p d \<or> stored_edges p d' = insert e (stored_edges p d))"
  proof cases
    case 2
    have "db_ok p d'"
    proof (rule db_okI)
      show "\<exists>e. edge_from_row p x = Inr e" if "x \<in> set (tbl_edges d')" for x
        using that 2 r db_okD(3) [OF ok, of x] by auto
      show "er_source x \<in> nr_id ` set (tbl_nodes d')" if "x \<in> set (tbl_edges d')" for x
        using that 2 db_okD(4) [OF ok, of x] by auto
      show "er_target x \<in> nr_id ` set (tbl_nodes d')" if "x \<in> set (tbl_edges d')" for x
        using that 2 db_okD(5) [OF ok, of x] by auto
      show "distinct (map edge_identity (tbl_edges d'))" using 2 db_okD(6) [OF ok] by simp
    qed (use 2 db_okD(1,2) [OF ok] in simp_all)
    moreover have "stored_node p d' = stored_node p d" using 2 by (simp add: stored_node_def fun_eq_iff)
    moreover have "stored_edges p d' = insert e (stored_edges p d)"
      using 2 r by (auto simp: stored_edges_def)
    ultimately show ?thesis by blast
  qed (use ok in simp)
  then show "db_ok p d'" and "stored_node p d' = stored_node p d"
    and "stored_edges p d' = stored_edges p d \<or> stored_edges p d' = insert e (stored_edges p d)"
    by blast+
qed

section \<open>Every operation keeps the store consistent\<close>

lemma insert_node_ok:
  assumes p: "platform_ok p" and ok: "store_ok p s" and fits: "node_fits n"
  shows "store_ok p (snd (insert_node p n s))"
    and "fst (insert_node p n s) = Inr ()"
    and "\<not> lacks_required n \<Longrightarrow> stored_node p (qb_db (snd (insert_node p n s))) =
      (stored_node p (qb_db s))(node_id n \<mapsto> stored_form p n)"
    and "lacks_required n \<Longrightarrow> snd (insert_node p n s) = s"
proof -
  obtain r where r: "node_to_row p n = Inr r" "node_from_row p r = Inr (stored_form p n)"
      "nr_id r = node_id n"
    using node_row_roundtrip [OF p fits] .
  note new = sql_replace_node_ok [OF store_okD(1) [OF ok] r(2), unfolded r(3)]
  let ?d = "index_name p n (sql_replace_node r (qb_db s))"
  have d: "db_ok p ?d" "stored_node p ?d = (stored_node p (qb_db s))(node_id n \<mapsto> stored_form p n)"
    using new by (simp_all add: db_ok_cong [of ?d "sql_replace_node r (qb_db s)"])
  have s': "snd (insert_node p n s) =
      \<lparr>qb_db = ?d, qb_cache = nl_remove (node_id n) (qb_cache s)\<rparr>" if "\<not> lacks_required n"
    using that r(1) by (simp add: insert_node_def)
  show "lacks_required n \<Longrightarrow> snd (insert_node p n s) = s" by (simp add: insert_node_def)
  show "fst (insert_node p n s) = Inr ()" using r(1) by (simp add: insert_node_def)
  show "\<not> lacks_required n \<Longrightarrow> stored_node p (qb_db (snd (insert_node p n s))) =
      (stored_node p (qb_db s))(node_id n \<mapsto> stored_form p n)" using s' d(2) by simp
  have "cache_ok p ?d (nl_remove (node_id n) (qb_cache s))"
    using store_okD(2) [OF ok] by (rule cache_ok_remove) (simp add: d(2))
  with s' d(1) show "store_ok p (snd (insert_node p n s))"
    using ok by (cases "lacks_required n") (simp_all add: store_ok_def insert_node_def)
qed

lemma update_node_ok:
  assumes p: "platform_ok p" and ok: "store_ok p s" and fits: "node_fits n"
  shows "store_ok p (snd (update_node p n s))"
    and "\<not> lacks_required n \<Longrightarrow> stored_node p (qb_db (snd (update_node p n s))) i =
      (if i = node_id n \<and> stored_node p (qb_db s) i \<noteq> None then Some (stored_form p n)
       else stored_node p (qb_db s) i)"
proof -
  obtain r where r: "node_to_row p n = Inr r" "node_from_row p r = Inr (stored_form p n)"
      "nr_id r = node_id n"
    using node_row_roundtrip [OF p fits] .
  note new = sql_update_node_ok [OF store_okD(1) [OF ok] r(2), unfolded r(3)]
  let ?d = "index_name p n (sql_update_node r (qb_db s))"
  have d: "db_ok p ?d" "stored_node p ?d i =
      (if i = node_id n \<and> stored_node p (qb_db s) i \<noteq> None then Some (stored_form p n)
       else stored_node p (qb_db s) i)" for i
    using new by (simp_all add: db_ok_cong [of ?d "sql_update_node r (qb_db s)"])
  have s': "snd (update_node p n s) =
      \<lparr>qb_db = ?d, qb_cache = nl_remove (node_id n) (qb_cache s)\<rparr>" if "\<not> lacks_required n"
    using that r(1) by (simp add: update_node_def)
  show "\<not> lacks_required n \<Longrightarrow> stored_node p (qb_db (snd (update_node p n s))) i =
      (if i = node_id n \<and> stored_node p (qb_db s) i \<noteq> None then Some (stored_form p n)
       else stored_node p (qb_db s) i)" using s' d(2) by simp
  have "cache_ok p ?d (nl_remove (node_id n) (qb_cache s))"
    using store_okD(2) [OF ok] by (rule cache_ok_remove) (simp add: d(2))
  moreover have "cache_ok p (qb_db s) (nl_remove (node_id n) (qb_cache s))"
    using store_okD(2) [OF ok] by (rule cache_ok_remove_same)
  ultimately show "store_ok p (snd (update_node p n s))"
    using ok s' d(1) by (cases "lacks_required n") (simp_all add: store_ok_def update_node_def)
qed

lemma delete_node_ok:
  assumes ok: "store_ok p s"
  shows "store_ok p (snd (delete_node i s))"
    and "stored_node p (qb_db (snd (delete_node i s))) = (stored_node p (qb_db s))(i := None)"
proof -
  note db = store_okD(1) [OF ok]
  let ?d = "sql_delete_nodes (\<lambda>r. nr_id r = i) (qb_db s)"
  have "stored_node p (qb_db s) i = None" if "\<not> (\<exists>r\<in>set (tbl_nodes (qb_db s)). nr_id r = i)"
    using that stored_node_None_iff [OF db, of i] by blast
  then have d: "stored_node p ?d = (stored_node p (qb_db s))(i := None)"
    using stored_node_delete [OF db] by (auto simp: fun_eq_iff)
  then show "stored_node p (qb_db (snd (delete_node i s))) = (stored_node p (qb_db s))(i := None)"
    by (simp add: delete_node_def)
  have "cache_ok p ?d (nl_remove i (qb_cache s))"
    using store_okD(2) [OF ok] by (rule cache_ok_remove) (simp add: d)
  with sql_delete_nodes_ok [OF db] show "store_ok p (snd (delete_node i s))"
    by (simp add: delete_node_def store_ok_def)
qed

lemma delete_nodes_by_file_ok:
  assumes ok: "store_ok p s"
  shows "store_ok p (snd (delete_nodes_by_file f s))"
    and "stored_node p (qb_db (snd (delete_nodes_by_file f s))) i =
      (case stored_node p (qb_db s) i of
         None \<Rightarrow> None | Some n \<Rightarrow> if node_file_path n = f then None else Some n)"
proof -
  note db = store_okD(1) [OF ok]
  let ?d = "sql_delete_nodes (\<lambda>r. nr_file_path r = f) (qb_db s)"
  have d: "stored_node p ?d i = (case stored_node p (qb_db s) i of
         None \<Rightarrow> None | Some n \<Rightarrow> if node_file_path n = f then None else Some n)" for i
  proof (cases "stored_node p (qb_db s) i")
    case None
    then show ?thesis by (simp add: stored_node_delete [OF db])
  next
    case (Some n)
    then obtain r where r: "r \<in> set (tbl_nodes (qb_db s))" "nr_id r = i" "node_from_row p r = Inr n"
      by (rule stored_node_SomeE)
    have "(\<exists>x\<in>set (tbl_nodes (qb_db s)). nr_id x = i \<and> nr_file_path x = f) \<longleftrightarrow> nr_file_path r = f"
      using same_id_row [OF db_okD(1) [OF db] r(1)] r(1,2) by metis
    with Some show ?thesis
      using node_from_row_fields(2) [OF r(3)] by (simp add: stored_node_delete [OF db])
  qed
  then show "stored_node p (qb_db (snd (delete_nodes_by_file f s))) i =
      (case stored_node p (qb_db s) i of
         None \<Rightarrow> None | Some n \<Rightarrow> if node_file_path n = f then None else Some n)"
    by (simp add: delete_nodes_by_file_def)
  note c = store_okD(2) [OF ok]
  have "cache_ok p ?d (nl_remove_by_file f (qb_cache s))"
  proof (rule cache_okI)
    show "nl_ok (nl_remove_by_file f (qb_cache s))"
      using nl_remove_by_file_abs(1) [OF cache_okD(1) [OF c]] .
    fix i n assume "(i, n) \<in> set (nl_entries (nl_remove_by_file f (qb_cache s)))"
    then have "(i, n) \<in> set (nl_entries (qb_cache s))" "node_file_path n \<noteq> f"
      using nl_remove_by_file_abs(2) [OF cache_okD(1) [OF c]] by auto
    with cache_okD(2) [OF c] show "stored_node p ?d i = Some n" by (simp add: d)
  qed
  with sql_delete_nodes_ok [OF db] show "store_ok p (snd (delete_nodes_by_file f s))"
    by (simp add: delete_nodes_by_file_def store_ok_def)
qed

lemma insert_edge_ok:
  assumes p: "platform_ok p" and ok: "store_ok p s" and fits: "edge_fits e"
  shows "store_ok p (snd (insert_edge p e s))"
    and "stored_node p (qb_db (snd (insert_edge p e s))) = stored_node p (qb_db s)"
    and "qb_cache (snd (insert_edge p e s)) = qb_cache s"
proof -
  obtain r where r: "edge_to_row p e = Inr r" "edge_from_row p r = Inr e"
    using edge_row_roundtrip [OF p fits] by metis
  have "store_ok p (snd (insert_edge p e s)) \<and>
        stored_node p (qb_db (snd (insert_edge p e s))) = stored_node p (qb_db s) \<and>
        qb_cache (snd (insert_edge p e s)) = qb_cache s"
  proof (cases "sql_insert_edge r (qb_db s)")
    case (Inl err)
    then show ?thesis using ok r(1) by (simp add: insert_edge_def)
  next
    case (Inr d)
    note new = sql_insert_edge_ok [OF store_okD(1) [OF ok] r(2) Inr]
    have "cache_ok p d (qb_cache s)"
      using store_okD(2) [OF ok] by (rule cache_ok_cong) (simp add: new(2))
    with Inr new r(1) show ?thesis by (simp add: insert_edge_def store_ok_def)
  qed
  then show "store_ok p (snd (insert_edge p e s))"
    and "stored_node p (qb_db (snd (insert_edge p e s))) = stored_node p (qb_db s)"
    and "qb_cache (snd (insert_edge p e s)) = qb_cache s" by blast+
qed

lemma for_all_keeps:
  assumes "I s" and "\<And>x s. x \<in> set xs \<Longrightarrow> I s \<Longrightarrow> I (snd (f x s))"
  shows "I (snd (for_all f xs s))"
  using assms
proof (induction xs arbitrary: s)
  case (Cons x xs)
  obtain r s' where f: "f x s = (r, s')" by fastforce
  with Cons.prems(2) [of x s] Cons.prems(1) have "I s'" by simp
  with Cons f show ?case by (cases r) simp_all
qed simp

lemma cache_ok_after_rollback:
  assumes "store_ok p s" and "store_ok p s'"
    and "\<And>i n. (i, n) \<in> set (nl_entries (qb_cache s')) \<Longrightarrow> (i, n) \<in> set (nl_entries (qb_cache s))"
  shows "store_ok p (s'\<lparr>qb_db := qb_db s\<rparr>)"
  using store_okD [OF assms(1)] cache_okD [OF store_okD(2) [OF assms(1)]]
    cache_okD(1) [OF store_okD(2) [OF assms(2)]] assms(3)
  by (auto simp: store_ok_def intro!: cache_okI)

text \<open>The operations run inside a transaction only drop cache entries, so a rollback leaves the
  cache coherent with the tables it restores.\<close>

definition drops_only :: "query_builder \<Rightarrow> query_builder \<Rightarrow> bool" where
  "drops_only s s' \<longleftrightarrow> set (nl_entries (qb_cache s')) \<subseteq> set (nl_entries (qb_cache s))"

lemma insert_node_drops:
  assumes "store_ok p s" shows "drops_only s (snd (insert_node p n s))"
  using nl_remove_abs(2) [OF cache_okD(1) [OF store_okD(2) [OF assms]], of "node_id n"]
  by (auto simp: drops_only_def insert_node_def Let_def split: sum.splits if_splits)

lemma insert_edge_drops: "drops_only s (snd (insert_edge p e s))"
  by (simp add: drops_only_def insert_edge_def split: sum.split)

lemma transaction_ok:
  assumes "store_ok p s" and "store_ok p (snd (f s))" and "drops_only s (snd (f s))"
  shows "store_ok p (snd (in_transaction f s))"
proof -
  obtain r s' where f: "f s = (r, s')" by fastforce
  then show ?thesis
    using assms cache_ok_after_rollback [OF assms(1), of s']
    by (cases r) (auto simp: in_transaction_def drops_only_def)
qed

lemma transaction_atomic:
  "fst (in_transaction f s) = Inl e \<Longrightarrow> qb_db (snd (in_transaction f s)) = qb_db s"
  by (auto simp: in_transaction_def split: prod.splits sum.splits)

lemma insert_nodes_ok:
  assumes p: "platform_ok p" and ok: "store_ok p s" and fits: "\<forall>n\<in>set ns. node_fits n"
  shows "store_ok p (snd (insert_nodes p ns s))"
proof -
  let ?I = "\<lambda>s'. store_ok p s' \<and> drops_only s s'"
  have "?I (snd (for_all (insert_node p) ns s))"
  proof (rule for_all_keeps)
    show "?I s" using ok by (simp add: drops_only_def)
    fix n s' assume "n \<in> set ns" "?I s'"
    with insert_node_ok(1) [OF p, of s' n] insert_node_drops [of p s' n] fits
    show "?I (snd (insert_node p n s'))" unfolding drops_only_def by blast
  qed
  then show ?thesis
    using transaction_ok [OF ok, of "for_all (insert_node p) ns"] by (simp add: insert_nodes_def)
qed

lemma insert_edges_ok:
  assumes p: "platform_ok p" and ok: "store_ok p s" and fits: "\<forall>e\<in>set es. edge_fits e"
  shows "store_ok p (snd (insert_edges p es s))"
proof (cases "es = []")
  case False
  let ?I = "\<lambda>s'. store_ok p s' \<and> drops_only s s'"
  have "?I (snd (for_all (insert_edge_if p ids) es s))" for ids
  proof (rule for_all_keeps)
    show "?I s" using ok by (simp add: drops_only_def)
    fix e s' assume "e \<in> set es" "?I s'"
    with insert_edge_ok(1) [OF p, of s' e] insert_edge_drops [of s' p e] fits
    show "?I (snd (insert_edge_if p ids e s'))" unfolding drops_only_def insert_edge_if_def by auto
  qed
  then show ?thesis
    using False transaction_ok [OF ok, of "insert_edges_body p es"]
    by (simp add: insert_edges_def insert_edges_body_def)
qed (use ok in \<open>simp add: insert_edges_def\<close>)

lemma delete_edges_by_source_ok:
  assumes ok: "store_ok p s" shows "store_ok p (snd (delete_edges_by_source i s))"
proof -
  let ?d = "(qb_db s)\<lparr>tbl_edges := filter (\<lambda>r. er_source r \<noteq> i) (tbl_edges (qb_db s))\<rparr>"
  note D = db_okD [OF store_okD(1) [OF ok]]
  have "db_ok p ?d"
    by (rule db_okI) (use D in \<open>simp_all add: distinct_map_filter\<close>)
  moreover have "cache_ok p ?d (qb_cache s)"
    using store_okD(2) [OF ok] by (rule cache_ok_cong) (simp add: stored_node_def)
  ultimately show ?thesis by (simp add: delete_edges_by_source_def store_ok_def)
qed

section \<open>Lookups\<close>

lemma set_node_order: "platform_ok p \<Longrightarrow> set (node_order p rs) = set rs"
  using platform_okD(1) by (metis set_mset_mset)

lemma set_edge_order: "platform_ok p \<Longrightarrow> set (edge_order p rs) = set rs"
  using platform_okD(2) by (metis set_mset_mset)

lemma get_node_by_id_ok:
  assumes p: "platform_ok p" and ok: "store_ok p s"
  shows "fst (get_node_by_id p i s) = Inr (stored_node p (qb_db s) i)"
    and "qb_db (snd (get_node_by_id p i s)) = qb_db s"
    and "store_ok p (snd (get_node_by_id p i s))"
proof -
  note db = store_okD(1) [OF ok] and c = store_okD(2) [OF ok]
  obtain hit c' where g: "nl_get_touch i (qb_cache s) = (hit, c')" by fastforce
  have c': "cache_ok p (qb_db s) c'" using cache_ok_touch [OF c, of i] g by simp
  have hit: "hit = map_of (nl_entries (qb_cache s)) i"
    using nl_get_abs(1) [OF cache_okD(1) [OF c], of i] g by simp
  have "fst (get_node_by_id p i s) = Inr (stored_node p (qb_db s) i) \<and>
    qb_db (snd (get_node_by_id p i s)) = qb_db s \<and> store_ok p (snd (get_node_by_id p i s))"
  proof (cases hit)
    case (Some n)
    with hit have "stored_node p (qb_db s) i = Some n"
      using cache_okD(2) [OF c] by (metis map_of_SomeD)
    with Some g c' db show ?thesis by (simp add: get_node_by_id_def store_ok_def)
  next
    case None
    let ?rows = "node_order p (filter (\<lambda>r. nr_id r = i) (tbl_nodes (qb_db s)))"
    have rows: "set ?rows = {r \<in> set (tbl_nodes (qb_db s)). nr_id r = i}"
      by (simp add: set_node_order [OF p])
    show ?thesis
    proof (cases ?rows)
      case Nil
      with rows have "stored_node p (qb_db s) i = None"
        using stored_node_None_iff [OF db, of i] by auto
      with Nil None g c' db show ?thesis by (simp add: get_node_by_id_def store_ok_def)
    next
      case (Cons r rest)
      with rows have r: "r \<in> set (tbl_nodes (qb_db s))" "nr_id r = i" by auto
      obtain n where n: "node_from_row p r = Inr n" using db_okD(2) [OF db r(1)] ..
      have st: "stored_node p (qb_db s) i = Some n" using stored_node_row [OF db r(1) n] r(2) by simp
      have "cache_ok p (qb_db s) (nl_insert n c')"
        using c' st stored_node_id [OF st] by (intro cache_ok_insert) simp_all
      with Cons None g db n st show ?thesis by (simp add: get_node_by_id_def store_ok_def)
    qed
  qed
  then show "fst (get_node_by_id p i s) = Inr (stored_node p (qb_db s) i)"
    and "qb_db (snd (get_node_by_id p i s)) = qb_db s"
    and "store_ok p (snd (get_node_by_id p i s))" by blast+
qed

lemma split_hits_ok:
  assumes "cache_ok p d c" and "map_of (nl_entries c) = hits"
    and "split_hits ids out misses c = (out', misses', c')"
  shows "cache_ok p d c' \<and>
    map_of out' = (\<lambda>i. if i \<in> set ids \<and> hits i \<noteq> None then stored_node p d i else map_of out i) \<and>
    set misses' = set misses \<union> {i \<in> set ids. hits i = None}"
  using assms
proof (induction ids arbitrary: out misses c)
  case (Cons i ids)
  note ok = cache_okD(1) [OF Cons.prems(1)]
  obtain hit c1 where g: "nl_get_touch i c = (hit, c1)" by fastforce
  have c1: "cache_ok p d c1" using cache_ok_touch [OF Cons.prems(1), of i] g by simp
  have hits: "map_of (nl_entries c1) = hits"
    using node_cache.get_same_values [OF ok, of i] g Cons.prems(2) by simp
  have hit: "hit = hits i" using nl_get_abs(1) [OF ok, of i] g Cons.prems(2) by simp
  show ?case
  proof (cases hit)
    case None
    with Cons.prems(3) g have "split_hits ids out (misses @ [i]) c1 = (out', misses', c')" by simp
    from Cons.IH [OF c1 hits this] None hit show ?thesis by (auto simp: fun_eq_iff)
  next
    case (Some n)
    with hit Cons.prems(2) have "(i, n) \<in> set (nl_entries c)" by (metis map_of_SomeD)
    then have n: "stored_node p d i = Some n" using cache_okD(2) [OF Cons.prems(1)] by blast
    from Some Cons.prems(3) g have "split_hits ids (hm_insert i n out) misses c1 = (out', misses', c')"
      by simp
    from Cons.IH [OF c1 hits this] Some hit n show ?thesis by (auto simp: fun_eq_iff)
  qed
qed auto

lemma load_rows_ok:
  assumes "store_ok p s" and "set rows \<subseteq> set (tbl_nodes (qb_db s))"
  shows "\<exists>out' s'. load_rows p rows out s = (Inr out', s') \<and> qb_db s' = qb_db s \<and> store_ok p s' \<and>
    map_of out' = (\<lambda>i. if i \<in> nr_id ` set rows then stored_node p (qb_db s) i else map_of out i)"
  using assms
proof (induction rows arbitrary: out s)
  case (Cons r rows)
  note db = store_okD(1) [OF Cons.prems(1)]
  have r: "r \<in> set (tbl_nodes (qb_db s))" using Cons.prems(2) by simp
  obtain n where n: "node_from_row p r = Inr n" using db_okD(2) [OF db r] ..
  have st: "stored_node p (qb_db s) (nr_id r) = Some n" using stored_node_row [OF db r n] .
  have id: "node_id n = nr_id r" using node_from_row_fields(1) [OF n] .
  let ?s = "s\<lparr>qb_cache := nl_insert n (qb_cache s)\<rparr>"
  have "cache_ok p (qb_db s) (nl_insert n (qb_cache s))"
    using store_okD(2) [OF Cons.prems(1)] st id by (intro cache_ok_insert) simp_all
  then have "store_ok p ?s" using db by (simp add: store_ok_def)
  from Cons.IH [OF this, of "hm_insert (node_id n) n out"] Cons.prems(2)
  obtain out' s' where "load_rows p rows (hm_insert (node_id n) n out) ?s = (Inr out', s')"
    "qb_db s' = qb_db s" "store_ok p s'"
    "map_of out' = (\<lambda>i. if i \<in> nr_id ` set rows then stored_node p (qb_db s) i
                        else map_of (hm_insert (node_id n) n out) i)" by (auto cong: if_cong)
  with n st id show ?case by (auto simp: fun_eq_iff)
qed auto

lemma load_chunks_ok:
  assumes "platform_ok p" and "store_ok p s"
  shows "\<exists>out' s'. load_chunks p cs out s = (Inr out', s') \<and> qb_db s' = qb_db s \<and> store_ok p s' \<and>
    map_of out' = (\<lambda>i. if i \<in> set (concat cs) \<and> stored_node p (qb_db s) i \<noteq> None
                        then stored_node p (qb_db s) i else map_of out i)"
  using assms(2)
proof (induction cs arbitrary: out s)
  case (Cons c cs)
  let ?rows = "node_order p (filter (\<lambda>r. nr_id r \<in> set c) (tbl_nodes (qb_db s)))"
  have rows: "set ?rows = {r \<in> set (tbl_nodes (qb_db s)). nr_id r \<in> set c}"
    by (simp add: set_node_order [OF assms(1)])
  then have ids: "nr_id ` set ?rows = {i \<in> set c. stored_node p (qb_db s) i \<noteq> None}"
    using stored_node_None_iff [OF store_okD(1) [OF Cons.prems]] by auto
  obtain out1 s1 where 1: "load_rows p ?rows out s = (Inr out1, s1)" "qb_db s1 = qb_db s" "store_ok p s1"
    "map_of out1 = (\<lambda>i. if i \<in> nr_id ` set ?rows then stored_node p (qb_db s) i else map_of out i)"
    using load_rows_ok [OF Cons.prems, of ?rows out] rows by auto
  from Cons.IH [OF 1(3), of out1] obtain out' s' where 2: "load_chunks p cs out1 s1 = (Inr out', s')"
    "qb_db s' = qb_db s1" "store_ok p s'"
    "map_of out' = (\<lambda>i. if i \<in> set (concat cs) \<and> stored_node p (qb_db s1) i \<noteq> None
                        then stored_node p (qb_db s1) i else map_of out1 i)" by blast
  from 1(1) 2(1) have "load_chunks p (c # cs) out s = (Inr out', s')" by simp
  moreover have "map_of out' = (\<lambda>i. if i \<in> set (concat (c # cs)) \<and> stored_node p (qb_db s) i \<noteq> None
                        then stored_node p (qb_db s) i else map_of out i)"
    using 2(4) unfolding 1(2,4) ids by (auto simp: fun_eq_iff)
  ultimately show ?case using 1(2) 2(2,3) by metis
qed simp

lemma concat_chunks: "0 < n \<Longrightarrow> concat (chunks n xs) = xs"
  by (induction n xs rule: chunks.induct) (subst chunks.simps, simp)

lemma chunk_bound: "c \<in> set (chunks n xs) \<Longrightarrow> length c \<le> n"
proof (induction n xs rule: chunks.induct)
  case (1 n xs)
  then show ?case by (subst (asm) (2) chunks.simps) (auto split: if_splits)
qed

lemma get_nodes_by_ids_ok:
  assumes p: "platform_ok p" and ok: "store_ok p s"
  shows "\<exists>m. fst (get_nodes_by_ids p ids s) = Inr m \<and> map_of m = stored_node p (qb_db s) |` set ids"
    and "qb_db (snd (get_nodes_by_ids p ids s)) = qb_db s"
    and "store_ok p (snd (get_nodes_by_ids p ids s))"
proof -
  note db = store_okD(1) [OF ok] and c = store_okD(2) [OF ok]
  let ?G = "get_nodes_by_ids p ids s" and ?N = "stored_node p (qb_db s)"
  let ?hits = "map_of (nl_entries (qb_cache s))"
  have "(\<exists>m. fst ?G = Inr m \<and> map_of m = ?N |` set ids) \<and> qb_db (snd ?G) = qb_db s \<and>
        store_ok p (snd ?G)"
  proof (cases "ids = []")
    case True
    then show ?thesis using ok by (simp add: get_nodes_by_ids_def)
  next
    case False
    obtain out misses c' where sp: "split_hits ids [] [] (qb_cache s) = (out, misses, c')"
      using prod_cases3 by blast
    from split_hits_ok [OF c refl sp] have c': "cache_ok p (qb_db s) c'"
      and out: "map_of out = (\<lambda>i. if i \<in> set ids \<and> ?hits i \<noteq> None then ?N i else None)"
      and misses: "set misses = {i \<in> set ids. ?hits i = None}" by (simp_all cong: if_cong)
    let ?s = "s\<lparr>qb_cache := c'\<rparr>"
    have s1: "store_ok p ?s" using db c' by (simp add: store_ok_def)
    show ?thesis
    proof (cases "misses = []")
      case True
      then have "map_of out = ?N |` set ids" using out misses by (auto simp: fun_eq_iff restrict_map_def)
      with True False sp s1 show ?thesis by (simp add: get_nodes_by_ids_def)
    next
      case mi: False
      let ?cs = "chunks SQLITE_PARAM_CHUNK_SIZE misses"
      have cs: "set (concat ?cs) = set misses"
        by (subst concat_chunks) (simp_all add: SQLITE_PARAM_CHUNK_SIZE_def)
      obtain out' s' where l: "load_chunks p ?cs out ?s = (Inr out', s')" "qb_db s' = qb_db ?s"
        "store_ok p s'" "map_of out' = (\<lambda>i. if i \<in> set (concat ?cs) \<and> stored_node p (qb_db ?s) i \<noteq> None
                        then stored_node p (qb_db ?s) i else map_of out i)"
        using load_chunks_ok [OF p s1, of ?cs out] by blast
      have "map_of out' = ?N |` set ids"
        using l(4) unfolding cs out misses by (auto simp: fun_eq_iff restrict_map_def)
      with False mi sp l(1-3) show ?thesis by (simp add: get_nodes_by_ids_def)
    qed
  qed
  then show "\<exists>m. fst ?G = Inr m \<and> map_of m = ?N |` set ids"
    and "qb_db (snd ?G) = qb_db s" and "store_ok p (snd ?G)" by blast+
qed

lemma collect_rows_ok:
  assumes "\<forall>r\<in>set rows. \<exists>x. f r = Inr x"
  shows "\<exists>xs. collect_rows f rows = Inr xs \<and> map f rows = map Inr xs"
  using assms
proof (induction rows)
  case (Cons r rows)
  then obtain x xs where "f r = Inr x" "collect_rows f rows = Inr xs" "map f rows = map Inr xs"
    by auto
  then show ?case by (intro exI [of _ "x # xs"]) simp
qed simp

lemma select_edges_ok:
  assumes p: "platform_ok p" and db: "db_ok p d"
  obtains es where "select_edges p P d = Inr es"
    "set es = {e. \<exists>r\<in>set (tbl_edges d). P r \<and> edge_from_row p r = Inr e}"
proof -
  let ?rows = "edge_order p (filter P (tbl_edges d))"
  have rows: "set ?rows = {r \<in> set (tbl_edges d). P r}" by (simp add: set_edge_order [OF p])
  then obtain es where es: "collect_rows (edge_from_row p) ?rows = Inr es"
      "map (edge_from_row p) ?rows = map Inr es"
    using collect_rows_ok [of ?rows "edge_from_row p"] db_okD(3) [OF db] by blast
  have img: "Inr ` set es = edge_from_row p ` set ?rows"
    using arg_cong [OF es(2), of set] by (simp only: set_map)
  have "e \<in> set es \<longleftrightarrow> (\<exists>r\<in>set ?rows. edge_from_row p r = Inr e)" for e
  proof
    assume "e \<in> set es"
    then have "(Inr e :: (cg_error, edge) result) \<in> Inr ` set es" by blast
    then have "Inr e \<in> edge_from_row p ` set ?rows" unfolding img .
    then obtain r where "r \<in> set ?rows" "Inr e = edge_from_row p r" by (rule imageE)
    then show "\<exists>r\<in>set ?rows. edge_from_row p r = Inr e" by metis
  next
    assume "\<exists>r\<in>set ?rows. edge_from_row p r = Inr e"
    then obtain r where r: "r \<in> set ?rows" "edge_from_row p r = Inr e" ..
    then have "edge_from_row p r \<in> Inr ` set es" unfolding img by blast
    then show "e \<in> set es" unfolding r(2) by blast
  qed
  then have sel: "set es = {e. \<exists>r\<in>set ?rows. edge_from_row p r = Inr e}" by blast
  show ?thesis
  proof (rule that)
    show "select_edges p P d = Inr es" using es(1) by (simp add: select_edges_def)
    show "set es = {e. \<exists>r\<in>set (tbl_edges d). P r \<and> edge_from_row p r = Inr e}"
      using sel unfolding rows by blast
  qed
qed

lemma kind_filter_matches:
  assumes "edge_from_row p r = Inr e"
  shows "kind_filter ks r \<longleftrightarrow> kind_matches ks (edge_kind_of e)"
proof (cases ks)
  case (Some l)
  have "er_kind r \<in> edge_kind_as_str ` set l \<longleftrightarrow> edge_kind_of e \<in> set l"
    using edge_from_row_fields(3) [OF assms] ek.as_str_inj by (metis imageE imageI)
  with Some show ?thesis by (cases l) (simp_all add: kind_filter_def)
qed (simp add: kind_filter_def)

text \<open>Selected edges in terms of the edges themselves.\<close>

lemma select_edges_where:
  assumes "platform_ok p" and "db_ok p d"
    and "\<And>r e. edge_from_row p r = Inr e \<Longrightarrow> P r \<longleftrightarrow> Q e"
  shows "\<exists>es. select_edges p P d = Inr es \<and> set es = {e \<in> stored_edges p d. Q e}"
proof -
  obtain es where "select_edges p P d = Inr es"
      "set es = {e. \<exists>r\<in>set (tbl_edges d). P r \<and> edge_from_row p r = Inr e}"
    using select_edges_ok [OF assms(1,2)] .
  with assms(3) show ?thesis by (auto simp: stored_edges_def)
qed

section \<open>The contract of the traversals\<close>

lemma store_is_graph_store:
  assumes p: "platform_ok p" and ok: "store_ok p s"
  shows "graph_store (store_queries p s) (stored_node p (qb_db s)) (stored_edges p (qb_db s))"
proof
  note db = store_okD(1) [OF ok]
  note fields = edge_from_row_fields(1,2)
  fix i ids ks
  show "q_node_by_id (store_queries p s) i = Inr (stored_node p (qb_db s) i)"
    using get_node_by_id_ok(1) [OF p ok] by (simp add: store_queries_def)
  show "\<exists>m. q_nodes_by_ids (store_queries p s) ids = Inr m \<and> map_of m = stored_node p (qb_db s) |` set ids"
    using get_nodes_by_ids_ok(1) [OF p ok] by (simp add: store_queries_def)
  show "\<exists>es. q_outgoing (store_queries p s) i ks = Inr es \<and>
      set es = {e \<in> stored_edges p (qb_db s). edge_source e = i \<and> kind_matches ks (edge_kind_of e)}"
    using select_edges_where [OF p db, of "\<lambda>r. er_source r = i \<and> kind_filter ks r \<and> (None \<noteq> None \<longrightarrow> er_provenance r = None)"
        "\<lambda>e. edge_source e = i \<and> kind_matches ks (edge_kind_of e)"]
    by (simp add: store_queries_def get_outgoing_edges_def kind_filter_matches fields)
  show "\<exists>es. q_incoming (store_queries p s) i ks = Inr es \<and>
      set es = {e \<in> stored_edges p (qb_db s). edge_target e = i \<and> kind_matches ks (edge_kind_of e)}"
    using select_edges_where [OF p db, of "\<lambda>r. er_target r = i \<and> kind_filter ks r"
        "\<lambda>e. edge_target e = i \<and> kind_matches ks (edge_kind_of e)"]
    by (simp add: store_queries_def get_incoming_edges_def kind_filter_matches fields)
  show "\<exists>es. q_outgoing_many (store_queries p s) ids ks = Inr es \<and>
      set es = {e \<in> stored_edges p (qb_db s). edge_source e \<in> set ids \<and> kind_matches ks (edge_kind_of e)}"
    using select_edges_where [OF p db, of "\<lambda>r. er_source r \<in> set ids \<and> kind_filter ks r"
        "\<lambda>e. edge_source e \<in> set ids \<and> kind_matches ks (edge_kind_of e)"]
    by (cases "ids = []") (simp_all add: store_queries_def get_outgoing_edges_for_sources_def
        kind_filter_matches fields)
  show "\<exists>es. q_incoming_many (store_queries p s) ids ks = Inr es \<and>
      set es = {e \<in> stored_edges p (qb_db s). edge_target e \<in> set ids \<and> kind_matches ks (edge_kind_of e)}"
    using select_edges_where [OF p db, of "\<lambda>r. er_target r \<in> set ids \<and> kind_filter ks r"
        "\<lambda>e. edge_target e \<in> set ids \<and> kind_matches ks (edge_kind_of e)"]
    by (cases "ids = []") (simp_all add: store_queries_def get_incoming_edges_for_targets_def
        kind_filter_matches fields)
  show "node_id n = i" if "stored_node p (qb_db s) i = Some n" for n
    using stored_node_id [OF that] .
  show "finite (dom (stored_node p (qb_db s)))" by (rule stored_node_finite)
qed

section \<open>Batches of edges\<close>

text \<open>Two edges with one identity: what the unique index compares.\<close>

definition same_identity :: "edge \<Rightarrow> edge \<Rightarrow> bool" where
  "same_identity e e' \<longleftrightarrow>
     edge_source e = edge_source e' \<and> edge_target e = edge_target e' \<and>
     edge_kind_of e = edge_kind_of e' \<and> edge_line e = edge_line e' \<and> edge_column e = edge_column e'"

lemma if_null_inj: "if_null (map_option int x) = if_null (map_option int y) \<longleftrightarrow> x = y"
  by (cases x; cases y) (simp_all add: if_null_def)

lemma get_opt_u32_inv: "get_opt_u32 x = Inr v \<Longrightarrow> x = map_option int v"
  by (cases x) (auto simp: get_u32_def split: if_splits)

lemma edge_from_row_identity:
  assumes "edge_from_row p r = Inr e"
  shows "edge_identity r = (edge_source e, edge_target e, edge_kind_as_str (edge_kind_of e),
    if_null (map_option int (edge_line e)), if_null (map_option int (edge_column e)))"
proof -
  from assms have "get_opt_u32 (er_line r) = Inr (edge_line e)" "get_opt_u32 (er_col r) = Inr (edge_column e)"
    unfolding edge_from_row_def by (auto elim!: and_then_InrE)
  then show ?thesis
    using edge_from_row_fields [OF assms] get_opt_u32_inv
    unfolding edge_identity_def by metis
qed

lemma same_identity_iff:
  assumes "edge_from_row p r = Inr e" and "edge_from_row p r' = Inr e'"
  shows "edge_identity r = edge_identity r' \<longleftrightarrow> same_identity e e'"
  using ek.as_str_inj
  by (auto simp: edge_from_row_identity [OF assms(1)] edge_from_row_identity [OF assms(2)]
      same_identity_def if_null_inj)

lemma insert_edge_stored:
  assumes p: "platform_ok p" and ok: "store_ok p s" and fits: "edge_fits e"
    and ends: "stored_node p (qb_db s) (edge_source e) \<noteq> None"
      "stored_node p (qb_db s) (edge_target e) \<noteq> None"
  shows "fst (insert_edge p e s) = Inr ()"
    and "stored_edges p (qb_db (snd (insert_edge p e s))) =
      (if \<exists>e'\<in>stored_edges p (qb_db s). same_identity e e' then stored_edges p (qb_db s)
       else insert e (stored_edges p (qb_db s)))"
proof -
  obtain r where r: "edge_to_row p e = Inr r" "edge_from_row p r = Inr e"
    "er_source r = edge_source e" "er_target r = edge_target e"
    using edge_row_roundtrip [OF p fits] by metis
  note db = store_okD(1) [OF ok]
  have ids: "er_source r \<in> nr_id ` set (tbl_nodes (qb_db s))" "er_target r \<in> nr_id ` set (tbl_nodes (qb_db s))"
    using ends stored_node_None_iff [OF db] r(3,4) by auto
  have dup: "edge_identity r \<in> edge_identity ` set (tbl_edges (qb_db s)) \<longleftrightarrow>
      (\<exists>e'\<in>stored_edges p (qb_db s). same_identity e e')"
  proof
    assume "edge_identity r \<in> edge_identity ` set (tbl_edges (qb_db s))"
    then obtain r' where r': "r' \<in> set (tbl_edges (qb_db s))" "edge_identity r = edge_identity r'" by blast
    obtain e' where e': "edge_from_row p r' = Inr e'" using db_okD(3) [OF db r'(1)] ..
    with r' same_identity_iff [OF r(2) e'] show "\<exists>e'\<in>stored_edges p (qb_db s). same_identity e e'"
      unfolding stored_edges_def by blast
  next
    assume "\<exists>e'\<in>stored_edges p (qb_db s). same_identity e e'"
    then obtain r' e' where "r' \<in> set (tbl_edges (qb_db s))" "edge_from_row p r' = Inr e'" "same_identity e e'"
      unfolding stored_edges_def by blast
    with same_identity_iff [OF r(2)] show "edge_identity r \<in> edge_identity ` set (tbl_edges (qb_db s))"
      by blast
  qed
  show "fst (insert_edge p e s) = Inr ()"
    using r(1) ids by (simp add: insert_edge_def sql_insert_edge_def)
  show "stored_edges p (qb_db (snd (insert_edge p e s))) =
      (if \<exists>e'\<in>stored_edges p (qb_db s). same_identity e e' then stored_edges p (qb_db s)
       else insert e (stored_edges p (qb_db s)))"
  proof (cases "edge_identity r \<in> edge_identity ` set (tbl_edges (qb_db s))")
    case True
    then show ?thesis using dup r(1) by (simp add: insert_edge_def sql_insert_edge_def)
  next
    case False
    have "stored_edges p (d\<lparr>tbl_edges := tbl_edges d @ [r]\<rparr>) = insert e (stored_edges p d)" for d
      using r(2) by (auto simp: stored_edges_def)
    with False dup r(1) ids show ?thesis by (simp add: insert_edge_def sql_insert_edge_def)
  qed
qed

lemma set_push_all:
  assumes "set ids = seen"
  shows "set (fst (fold push_new xs (ids, seen))) = seen \<union> set xs"
  using assms
proof (induction xs arbitrary: ids seen)
  case (Cons x xs)
  then show ?case using Cons.IH [of "ids @ [x]" "insert x seen"] Cons.IH [of ids seen] by auto
qed simp

lemma endpoint_ids_set: "set (endpoint_ids es) = edge_source ` set es \<union> edge_target ` set es"
proof -
  let ?ends = "\<lambda>es. concat (map (\<lambda>e. [edge_source e, edge_target e]) es)"
  have "fold (\<lambda>e s. push_new (edge_target e) (push_new (edge_source e) s)) es s = fold push_new (?ends es) s"
    for s by (induction es arbitrary: s) simp_all
  then have "set (endpoint_ids es) = set (?ends es)"
    by (simp add: endpoint_ids_def set_push_all)
  then show ?thesis by auto
qed

lemma get_existing_node_ids_set:
  assumes p: "platform_ok p" and db: "db_ok p d"
  shows "get_existing_node_ids p ids d = {i \<in> set ids. stored_node p d i \<noteq> None}"
proof -
  let ?u = "fst (fold push_new ids ([], {}))"
  have "fold (\<lambda>chunk out.
            out \<union> set (map nr_id (node_order p (filter (\<lambda>r. nr_id r \<in> set chunk) (tbl_nodes d))))) cs out =
        out \<union> {i \<in> set (concat cs). stored_node p d i \<noteq> None}" for cs out
  proof (induction cs arbitrary: out)
    case (Cons c cs)
    have "set (map nr_id (node_order p (filter (\<lambda>r. nr_id r \<in> set c) (tbl_nodes d)))) =
        {i \<in> set c. stored_node p d i \<noteq> None}"
      using stored_node_None_iff [OF db] by (auto simp: set_node_order [OF p])
    then show ?case using Cons.IH by auto
  qed simp
  moreover have "set (concat (chunks SQLITE_PARAM_CHUNK_SIZE ?u)) = set ids"
    by (subst concat_chunks) (simp_all add: SQLITE_PARAM_CHUNK_SIZE_def set_push_all)
  ultimately show ?thesis
    unfolding get_existing_node_ids_def Let_def by (simp only: Un_empty_left)
qed

definition both_stored :: "platform \<Rightarrow> db \<Rightarrow> edge \<Rightarrow> bool" where
  "both_stored p d e \<longleftrightarrow>
     stored_node p d (edge_source e) \<noteq> None \<and> stored_node p d (edge_target e) \<noteq> None"

text \<open>One pass over the batch: nothing but storable edges is added, and each of them is there
  afterwards, itself or one with its identity.\<close>

lemma insert_edges_pass:
  assumes p: "platform_ok p" and ok: "store_ok p s" and fits: "\<forall>e\<in>set es. edge_fits e"
    and ids: "\<forall>e\<in>set es. (edge_source e \<in> ids \<and> edge_target e \<in> ids) \<longleftrightarrow> both_stored p (qb_db s) e"
  shows "\<exists>s'. for_all (insert_edge_if p ids) es s = (Inr (), s') \<and> store_ok p s' \<and>
    stored_node p (qb_db s') = stored_node p (qb_db s) \<and>
    stored_edges p (qb_db s) \<subseteq> stored_edges p (qb_db s') \<and>
    stored_edges p (qb_db s') \<subseteq> stored_edges p (qb_db s) \<union> {e \<in> set es. both_stored p (qb_db s) e} \<and>
    (\<forall>e\<in>set es. both_stored p (qb_db s) e \<longrightarrow>
       (\<exists>e'\<in>stored_edges p (qb_db s'). same_identity e e'))"
  using ok fits ids
proof (induction es arbitrary: s)
  case Nil
  then show ?case by simp
next
  case (Cons e es)
  define s1 where "s1 = snd (insert_edge_if p ids e s)"
  have one: "insert_edge_if p ids e s = (Inr (), s1) \<and> store_ok p s1 \<and>
    stored_node p (qb_db s1) = stored_node p (qb_db s) \<and>
    stored_edges p (qb_db s) \<subseteq> stored_edges p (qb_db s1) \<and>
    stored_edges p (qb_db s1) \<subseteq> stored_edges p (qb_db s) \<union> (if both_stored p (qb_db s) e then {e} else {}) \<and>
    (both_stored p (qb_db s) e \<longrightarrow> (\<exists>e'\<in>stored_edges p (qb_db s1). same_identity e e'))"
  proof (cases "both_stored p (qb_db s) e")
    case False
    with Cons.prems(3) have "insert_edge_if p ids e s = (Inr (), s)" by (auto simp: insert_edge_if_def)
    then show ?thesis using False Cons.prems(1) by (simp add: s1_def)
  next
    case True
    with Cons.prems(3) have eq: "insert_edge_if p ids e s = insert_edge p e s"
      by (simp add: insert_edge_if_def)
    have fits: "edge_fits e" using Cons.prems(2) by simp
    have ends: "stored_node p (qb_db s) (edge_source e) \<noteq> None" "stored_node p (qb_db s) (edge_target e) \<noteq> None"
      using True by (simp_all add: both_stored_def)
    note ins = insert_edge_stored [OF p Cons.prems(1) fits ends]
    have "same_identity e e" by (simp add: same_identity_def)
    then show ?thesis
      using ins insert_edge_ok(1,2) [OF p Cons.prems(1) fits] True
      unfolding s1_def eq by (cases "insert_edge p e s") (auto split: if_splits)
  qed
  have "\<forall>e\<in>set es. (edge_source e \<in> ids \<and> edge_target e \<in> ids) \<longleftrightarrow> both_stored p (qb_db s1) e"
    using one Cons.prems(3) by (simp add: both_stored_def)
  with Cons.IH [of s1] one Cons.prems(2) obtain s' where
    IH: "for_all (insert_edge_if p ids) es s1 = (Inr (), s')" "store_ok p s'"
      "stored_node p (qb_db s') = stored_node p (qb_db s1)"
      "stored_edges p (qb_db s1) \<subseteq> stored_edges p (qb_db s')"
      "stored_edges p (qb_db s') \<subseteq> stored_edges p (qb_db s1) \<union> {e \<in> set es. both_stored p (qb_db s1) e}"
      "\<forall>e\<in>set es. both_stored p (qb_db s1) e \<longrightarrow> (\<exists>e'\<in>stored_edges p (qb_db s'). same_identity e e')"
    by auto
  have same: "both_stored p (qb_db s1) = both_stored p (qb_db s)"
    using one by (simp add: both_stored_def fun_eq_iff)
  have "for_all (insert_edge_if p ids) (e # es) s = (Inr (), s')" using one IH(1) by simp
  moreover have "stored_edges p (qb_db s') \<subseteq>
      stored_edges p (qb_db s) \<union> {x \<in> set (e # es). both_stored p (qb_db s) x}"
    using one IH(5) unfolding same by (auto split: if_splits)
  moreover have "\<forall>x\<in>set (e # es). both_stored p (qb_db s) x \<longrightarrow>
      (\<exists>e'\<in>stored_edges p (qb_db s'). same_identity x e')"
    using one IH(4,6) unfolding same by auto
  ultimately show ?case using one IH(2-4) by auto
qed

lemma insert_edges_spec:
  assumes p: "platform_ok p" and ok: "store_ok p s" and fits: "\<forall>e\<in>set es. edge_fits e"
  shows "\<exists>s'. insert_edges p es s = (Inr (), s') \<and> store_ok p s' \<and>
    stored_node p (qb_db s') = stored_node p (qb_db s) \<and>
    stored_edges p (qb_db s) \<subseteq> stored_edges p (qb_db s') \<and>
    stored_edges p (qb_db s') \<subseteq> stored_edges p (qb_db s) \<union> {e \<in> set es. both_stored p (qb_db s) e} \<and>
    (\<forall>e\<in>set es. both_stored p (qb_db s) e \<longrightarrow>
       (\<exists>e'\<in>stored_edges p (qb_db s'). same_identity e e'))"
proof (cases "es = []")
  case True
  then show ?thesis using ok by (simp add: insert_edges_def)
next
  case False
  let ?ids = "get_existing_node_ids p (endpoint_ids es) (qb_db s)"
  have "\<forall>e\<in>set es. (edge_source e \<in> ?ids \<and> edge_target e \<in> ?ids) \<longleftrightarrow> both_stored p (qb_db s) e"
    by (auto simp: get_existing_node_ids_set [OF p store_okD(1) [OF ok]] endpoint_ids_set both_stored_def)
  from insert_edges_pass [OF p ok fits this] False show ?thesis
    by (auto simp: insert_edges_def insert_edges_body_def in_transaction_def Let_def)
qed

section \<open>Every reachable store is consistent\<close>

datatype store_op =
    Op_InsertNode node | Op_InsertNodes "node list" | Op_UpdateNode node | Op_DeleteNode string
  | Op_DeleteNodesByFile string | Op_ClearCache | Op_InsertEdge edge | Op_InsertEdges "edge list"
  | Op_DeleteEdgesBySource string | Op_GetNodeById string | Op_GetNodesByIds "string list"

fun exec_op :: "platform \<Rightarrow> store_op \<Rightarrow> query_builder \<Rightarrow> query_builder" where
  "exec_op p (Op_InsertNode n) s = snd (insert_node p n s)"
| "exec_op p (Op_InsertNodes ns) s = snd (insert_nodes p ns s)"
| "exec_op p (Op_UpdateNode n) s = snd (update_node p n s)"
| "exec_op p (Op_DeleteNode i) s = snd (delete_node i s)"
| "exec_op p (Op_DeleteNodesByFile f) s = snd (delete_nodes_by_file f s)"
| "exec_op p Op_ClearCache s = snd (clear_cache s)"
| "exec_op p (Op_InsertEdge e) s = snd (insert_edge p e s)"
| "exec_op p (Op_InsertEdges es) s = snd (insert_edges p es s)"
| "exec_op p (Op_DeleteEdgesBySource i) s = snd (delete_edges_by_source i s)"
| "exec_op p (Op_GetNodeById i) s = snd (get_node_by_id p i s)"
| "exec_op p (Op_GetNodesByIds ids) s = snd (get_nodes_by_ids p ids s)"

fun op_fits :: "store_op \<Rightarrow> bool" where
  "op_fits (Op_InsertNode n) = node_fits n"
| "op_fits (Op_InsertNodes ns) = (\<forall>n\<in>set ns. node_fits n)"
| "op_fits (Op_UpdateNode n) = node_fits n"
| "op_fits (Op_InsertEdge e) = edge_fits e"
| "op_fits (Op_InsertEdges es) = (\<forall>e\<in>set es. edge_fits e)"
| "op_fits _ = True"

inductive reachable_store :: "platform \<Rightarrow> query_builder \<Rightarrow> bool" for p where
  opened: "reachable_store p (query_builder_new empty_db)"
| stepped: "reachable_store p s \<Longrightarrow> op_fits op \<Longrightarrow> reachable_store p (exec_op p op s)"

lemma new_store_ok: "store_ok p (query_builder_new empty_db)"
  by (simp add: store_ok_def query_builder_new_def empty_db_def db_ok_def cache_ok_new)

lemma clear_cache_ok: "store_ok p s \<Longrightarrow> store_ok p (snd (clear_cache s))"
  by (simp add: store_ok_def clear_cache_def cache_ok_clear)

lemma exec_op_ok:
  assumes "platform_ok p" and "store_ok p s" and "op_fits op"
  shows "store_ok p (exec_op p op s)"
  using assms
  by (cases op)
     (simp_all add: insert_node_ok(1) insert_nodes_ok update_node_ok(1) delete_node_ok(1)
       delete_nodes_by_file_ok(1) clear_cache_ok insert_edge_ok(1) insert_edges_ok
       delete_edges_by_source_ok get_node_by_id_ok(3) get_nodes_by_ids_ok(3))

lemma reachable_ok:
  assumes "platform_ok p" and "reachable_store p s" shows "store_ok p s"
  using assms(2)
proof (induction rule: reachable_store.induct)
  case opened
  show ?case by (rule new_store_ok)
next
  case (stepped s op)
  then show ?case using exec_op_ok [OF assms(1)] by blast
qed

end
