(* ===== verification/Impact.thy ===== *)
theory Impact
  imports Traversal
begin

text \<open>
  Correctness of \<open>get_impact_radius\<close>: the walk returns, and the nodes it returns are exactly those
  a 0-1 walk of at most \<open>max_depth\<close> hops reaches, members of a container at no cost and dependents
  at one hop each. The queue discipline is not needed for that: the walk corrects the label of a
  node whenever a shorter route turns up, and each correction makes the sum of the labels smaller.
\<close>

section \<open>The specification\<close>

definition member_of :: "(string \<Rightarrow> node option) \<Rightarrow> edge set \<Rightarrow> string \<Rightarrow> string \<Rightarrow> bool" where
  "member_of nodes edges u v \<longleftrightarrow>
     nodes v \<noteq> None \<and> (\<exists>n. nodes u = Some n \<and> is_container (node_kind n)) \<and>
     (\<exists>e\<in>edges. edge_source e = u \<and> edge_target e = v \<and> edge_kind_of e = EK_Contains)"

definition dependent_of :: "(string \<Rightarrow> node option) \<Rightarrow> edge set \<Rightarrow> string \<Rightarrow> string \<Rightarrow> bool" where
  "dependent_of nodes edges u v \<longleftrightarrow>
     nodes v \<noteq> None \<and>
     (\<exists>e\<in>edges. edge_target e = u \<and> edge_source e = v \<and> edge_kind_of e \<noteq> EK_Contains)"

inductive impacted ::
    "(string \<Rightarrow> node option) \<Rightarrow> edge set \<Rightarrow> nat \<Rightarrow> string \<Rightarrow> nat \<Rightarrow> string \<Rightarrow> bool"
  for nodes edges max_depth start where
  focal: "impacted nodes edges max_depth start 0 start"
| member: "impacted nodes edges max_depth start d u \<Longrightarrow> d < max_depth \<Longrightarrow>
    member_of nodes edges u v \<Longrightarrow> impacted nodes edges max_depth start d v"
| dependent: "impacted nodes edges max_depth start d u \<Longrightarrow> d < max_depth \<Longrightarrow>
    dependent_of nodes edges u v \<Longrightarrow> impacted nodes edges max_depth start (Suc d) v"

lemma impacted_bound: "impacted nodes edges m start d v \<Longrightarrow> d \<le> m"
  by (induction rule: impacted.induct) simp_all

section \<open>The invariant\<close>

definition closed_at ::
    "(string \<Rightarrow> node option) \<Rightarrow> edge set \<Rightarrow> (string \<Rightarrow> nat option) \<Rightarrow> string \<Rightarrow> nat \<Rightarrow> bool" where
  "closed_at nodes edges B u b \<longleftrightarrow>
     (\<forall>w. member_of nodes edges u w \<longrightarrow> (\<exists>c\<le>b. B w = Some c)) \<and>
     (\<forall>w. dependent_of nodes edges u w \<longrightarrow> (\<exists>c\<le>Suc b. B w = Some c))"

definition improves :: "(string \<Rightarrow> nat option) \<Rightarrow> (string \<Rightarrow> nat option) \<Rightarrow> bool" where
  "improves B B' \<longleftrightarrow> (\<forall>v b. B v = Some b \<longrightarrow> (\<exists>c\<le>b. B' v = Some c))"

definition impact_base ::
    "(string \<Rightarrow> node option) \<Rightarrow> edge set \<Rightarrow> nat \<Rightarrow> string \<Rightarrow> impact_state \<Rightarrow> bool" where
  "impact_base nodes edges m start s \<longleftrightarrow>
     map_of (im_nodes s) = nodes |` dom (map_of (im_best s)) \<and>
     (\<forall>v b. map_of (im_best s) v = Some b \<longrightarrow> impacted nodes edges m start b v \<and> nodes v \<noteq> None) \<and>
     (\<forall>(v, d)\<in>set (im_queue s). \<exists>b\<le>d. map_of (im_best s) v = Some b) \<and>
     map_of (im_best s) start = Some 0 \<and> set (im_edges s) \<subseteq> edges"

text \<open>Every labelled node below the bound waits in the queue or has its neighbours labelled; the
  node being expanded, if any, is exempt.\<close>

definition impact_scan ::
    "(string \<Rightarrow> node option) \<Rightarrow> edge set \<Rightarrow> nat \<Rightarrow> string \<Rightarrow> (string \<times> nat) set \<Rightarrow> impact_state \<Rightarrow> bool" where
  "impact_scan nodes edges m start exempt s \<longleftrightarrow>
     impact_base nodes edges m start s \<and>
     (\<forall>v b. map_of (im_best s) v = Some b \<longrightarrow> b < m \<longrightarrow>
        (v, b) \<in> set (im_queue s) \<or> (v, b) \<in> exempt \<or> closed_at nodes edges (map_of (im_best s)) v b)"

definition label_weight :: "nat \<Rightarrow> (string \<Rightarrow> nat option) \<Rightarrow> string \<Rightarrow> nat" where
  "label_weight m B v = (case B v of None \<Rightarrow> Suc m | Some b \<Rightarrow> b)"

definition impact_measure :: "(string \<Rightarrow> node option) \<Rightarrow> nat \<Rightarrow> impact_state \<Rightarrow> nat" where
  "impact_measure nodes m s = (\<Sum>v\<in>dom nodes. label_weight m (map_of (im_best s)) v)"

lemma improves_refl [simp]: "improves B B"
  by (auto simp: improves_def)

lemma improves_trans: "improves A B \<Longrightarrow> improves B C \<Longrightarrow> improves A C"
  unfolding improves_def by (meson le_trans)

lemma improvesD: "improves B B' \<Longrightarrow> B v = Some b \<Longrightarrow> \<exists>c\<le>b. B' v = Some c"
  unfolding improves_def by blast

lemma closed_at_improves:
  assumes "closed_at nodes edges B u b" and "improves B B'"
  shows "closed_at nodes edges B' u b"
  using assms unfolding closed_at_def by (meson improvesD le_trans)

lemma impact_baseD:
  assumes "impact_base nodes edges m start s"
  shows "map_of (im_nodes s) = nodes |` dom (map_of (im_best s))"
    "\<And>v b. map_of (im_best s) v = Some b \<Longrightarrow> impacted nodes edges m start b v"
    "\<And>v b. map_of (im_best s) v = Some b \<Longrightarrow> nodes v \<noteq> None"
    "\<And>v d. (v, d) \<in> set (im_queue s) \<Longrightarrow> \<exists>b\<le>d. map_of (im_best s) v = Some b"
    "map_of (im_best s) start = Some 0" "set (im_edges s) \<subseteq> edges"
  using assms unfolding impact_base_def by blast+

lemma impact_baseI:
  assumes "map_of (im_nodes s) = nodes |` dom (map_of (im_best s))"
    "\<And>v b. map_of (im_best s) v = Some b \<Longrightarrow> impacted nodes edges m start b v"
    "\<And>v b. map_of (im_best s) v = Some b \<Longrightarrow> nodes v \<noteq> None"
    "\<And>v d. (v, d) \<in> set (im_queue s) \<Longrightarrow> \<exists>b\<le>d. map_of (im_best s) v = Some b"
    "map_of (im_best s) start = Some 0" "set (im_edges s) \<subseteq> edges"
  shows "impact_base nodes edges m start s"
  using assms unfolding impact_base_def by blast

lemma impact_scanD:
  assumes "impact_scan nodes edges m start ex s"
  shows "impact_base nodes edges m start s"
    "\<And>v b. map_of (im_best s) v = Some b \<Longrightarrow> b < m \<Longrightarrow>
       (v, b) \<in> set (im_queue s) \<or> (v, b) \<in> ex \<or> closed_at nodes edges (map_of (im_best s)) v b"
  using assms unfolding impact_scan_def by blast+

lemma impact_scanI:
  assumes "impact_base nodes edges m start s"
    "\<And>v b. map_of (im_best s) v = Some b \<Longrightarrow> b < m \<Longrightarrow>
       (v, b) \<in> set (im_queue s) \<or> (v, b) \<in> ex \<or> closed_at nodes edges (map_of (im_best s)) v b"
  shows "impact_scan nodes edges m start ex s"
  using assms unfolding impact_scan_def by blast

section \<open>Reaching a node\<close>

context graph_store
begin

text \<open>What one call of \<open>impact_reach\<close> does to a scan: nothing, or a better label for the endpoint,
  with the endpoint in the queue.\<close>

lemma impact_reach_step:
  assumes sc: "impact_scan nodes edges m start ex s" and e: "e \<in> edges" and "d \<le> m"
    and imp: "nodes (endpoint e) \<noteq> None \<longrightarrow> impacted nodes edges m start d (endpoint e)"
    and f: "map_of found (endpoint e) = nodes (endpoint e)"
  shows "impact_scan nodes edges m start ex (impact_reach front endpoint found d e s) \<and>
    improves (map_of (im_best s)) (map_of (im_best (impact_reach front endpoint found d e s))) \<and>
    (nodes (endpoint e) \<noteq> None \<longrightarrow>
       (\<exists>c\<le>d. map_of (im_best (impact_reach front endpoint found d e s)) (endpoint e) = Some c)) \<and>
    (impact_reach front endpoint found d e s = s \<or>
     impact_measure nodes m (impact_reach front endpoint found d e s) < impact_measure nodes m s)"
proof -
  let ?w = "endpoint e" and ?B = "map_of (im_best s)"
  let ?s' = "impact_reach front endpoint found d e s"
  note base = impact_baseD [OF impact_scanD(1) [OF sc]]
  show ?thesis
  proof (cases "nodes ?w")
    case None
    then have "?s' = s" using f by (simp add: impact_reach_def)
    with None sc show ?thesis by simp
  next
    case (Some n)
    have id: "node_id n = ?w" using node_key [OF Some] .
    show ?thesis
    proof (cases "\<exists>c\<le>d. ?B ?w = Some c")
      case True
      then obtain c where c: "c \<le> d" "?B ?w = Some c" by blast
      then have "?s' = s" using f Some id by (simp add: impact_reach_def reach_def)
      with sc True show ?thesis by simp
    next
      case False
      let ?B' = "?B(?w \<mapsto> d)"
      from False have "reach (im_best s) ?w d = (True, hm_insert ?w d (im_best s))"
        by (cases "?B ?w") (auto simp: reach_def)
      then have best: "map_of (im_best ?s') = ?B'"
        and queue: "set (im_queue ?s') = insert (?w, d) (set (im_queue s))"
        and nds: "map_of (im_nodes ?s') = (map_of (im_nodes s))(?w \<mapsto> n)"
        and eds: "set (im_edges ?s') \<subseteq> insert e (set (im_edges s))"
        using f Some id base(1)
        by (auto simp: impact_reach_def Let_def hm_contains_iff restrict_map_def fun_eq_iff split: if_splits)
      have gt: "d < b" if "?B ?w = Some b" for b using False that by (meson not_le)
      have imps: "improves ?B ?B'"
        using gt by (auto simp: improves_def intro: less_imp_le)
      have "start \<noteq> ?w" using False base(5) by auto
      have b': "impact_base nodes edges m start ?s'"
      proof (rule impact_baseI; (unfold best queue nds)?)
        show "(map_of (im_nodes s))(?w \<mapsto> n) = nodes |` dom ?B'"
          using base(1) Some by (auto simp: restrict_map_def fun_eq_iff)
        show "impacted nodes edges m start b v" if "?B' v = Some b" for v b
          using that imp Some base(2) [of v b] by (auto split: if_splits)
        show "nodes v \<noteq> None" if "?B' v = Some b" for v b
          using that Some base(3) [of v b] by (auto split: if_splits)
        show "\<exists>b\<le>x. ?B' v = Some b" if "(v, x) \<in> insert (?w, d) (set (im_queue s))" for v x
          using that base(4) [of v x] improvesD [OF imps, of v] by (auto split: if_splits)
        show "?B' start = Some 0" using \<open>start \<noteq> ?w\<close> base(5) by simp
        show "set (im_edges ?s') \<subseteq> edges" using eds e base(6) by blast
      qed
      have "impact_scan nodes edges m start ex ?s'"
      proof (rule impact_scanI [OF b'], unfold best queue)
        fix v b assume v: "?B' v = Some b" "b < m"
        show "(v, b) \<in> insert (?w, d) (set (im_queue s)) \<or> (v, b) \<in> ex \<or> closed_at nodes edges ?B' v b"
        proof (cases "v = ?w")
          case True
          with v show ?thesis by simp
        next
          case False
          with v impact_scanD(2) [OF sc, of v b] closed_at_improves [OF _ imps, of nodes edges v b]
          show ?thesis by auto
        qed
      qed
      moreover have "impact_measure nodes m ?s' < impact_measure nodes m s"
        unfolding impact_measure_def best
      proof (rule sum_strict_mono_ex1)
        show "finite (dom nodes)" by (rule finite_nodes)
        show "\<forall>v\<in>dom nodes. label_weight m ?B' v \<le> label_weight m ?B v"
          using gt \<open>d \<le> m\<close> by (auto simp: label_weight_def intro: less_imp_le split: option.split)
        show "\<exists>v\<in>dom nodes. label_weight m ?B' v < label_weight m ?B v"
          using gt \<open>d \<le> m\<close> Some by (intro bexI [of _ ?w]) (auto simp: label_weight_def split: option.split)
      qed
      ultimately show ?thesis using imps best by simp
    qed
  qed
qed

lemma impact_reach_fold:
  assumes "impact_scan nodes edges m start ex s" and "\<forall>e\<in>set es. e \<in> edges" and "d \<le> m"
    and "\<forall>e\<in>set es. nodes (endpoint e) \<noteq> None \<longrightarrow> impacted nodes edges m start d (endpoint e)"
    and "\<forall>e\<in>set es. map_of found (endpoint e) = nodes (endpoint e)"
  shows "impact_scan nodes edges m start ex (fold (impact_reach front endpoint found d) es s) \<and>
    improves (map_of (im_best s)) (map_of (im_best (fold (impact_reach front endpoint found d) es s))) \<and>
    (\<forall>e\<in>set es. nodes (endpoint e) \<noteq> None \<longrightarrow>
       (\<exists>c\<le>d. map_of (im_best (fold (impact_reach front endpoint found d) es s)) (endpoint e) = Some c)) \<and>
    (fold (impact_reach front endpoint found d) es s = s \<or>
     impact_measure nodes m (fold (impact_reach front endpoint found d) es s) < impact_measure nodes m s)"
  using assms
proof (induction es arbitrary: s)
  case (Cons e es)
  let ?s1 = "impact_reach front endpoint found d e s"
  let ?s2 = "fold (impact_reach front endpoint found d) es ?s1"
  have e: "e \<in> edges" "nodes (endpoint e) \<noteq> None \<longrightarrow> impacted nodes edges m start d (endpoint e)"
    "map_of found (endpoint e) = nodes (endpoint e)" using Cons.prems by simp_all
  note one = impact_reach_step [where front = front and endpoint = endpoint and found = found,
      OF Cons.prems(1) e(1) Cons.prems(3) e(2,3)]
  have rest: "\<forall>e\<in>set es. e \<in> edges"
    "\<forall>e\<in>set es. nodes (endpoint e) \<noteq> None \<longrightarrow> impacted nodes edges m start d (endpoint e)"
    "\<forall>e\<in>set es. map_of found (endpoint e) = nodes (endpoint e)" using Cons.prems by simp_all
  note IH = Cons.IH [OF one [THEN conjunct1] rest(1) Cons.prems(3) rest(2,3)]
  have "nodes (endpoint e) \<noteq> None \<longrightarrow> (\<exists>c\<le>d. map_of (im_best ?s2) (endpoint e) = Some c)"
  proof
    assume "nodes (endpoint e) \<noteq> None"
    with one obtain c where c: "c \<le> d" "map_of (im_best ?s1) (endpoint e) = Some c" by blast
    from improvesD [OF IH [THEN conjunct2, THEN conjunct1] c(2)]
    obtain c' where "c' \<le> c" "map_of (im_best ?s2) (endpoint e) = Some c'" by blast
    with c(1) show "\<exists>c\<le>d. map_of (im_best ?s2) (endpoint e) = Some c" by (meson le_trans)
  qed
  moreover have "?s2 = s \<or> impact_measure nodes m ?s2 < impact_measure nodes m s"
    using one IH by (metis less_trans)
  moreover have "improves (map_of (im_best s)) (map_of (im_best ?s2))"
    using one IH improves_trans by blast
  ultimately show ?case using IH by (simp only: fold_simps list.set) blast
qed simp

section \<open>One node\<close>

lemma impact_members_step:
  assumes sc: "impact_scan nodes edges m start ex s" and i: "impacted nodes edges m start d i"
    and "d < m" and n: "nodes i = Some n" "is_container (node_kind n)"
  shows "\<exists>s'. impact_members q i d s = Inr s' \<and> impact_scan nodes edges m start ex s' \<and>
    improves (map_of (im_best s)) (map_of (im_best s')) \<and>
    (\<forall>w. member_of nodes edges i w \<longrightarrow> (\<exists>c\<le>d. map_of (im_best s') w = Some c)) \<and>
    (s' = s \<or> impact_measure nodes m s' < impact_measure nodes m s)"
proof -
  obtain es where es: "q_outgoing q i (Some [EK_Contains]) = Inr es"
    "set es = {e \<in> edges. edge_source e = i \<and> kind_matches (Some [EK_Contains]) (edge_kind_of e)}"
    by (rule outgoingE)
  then have mem: "e \<in> set es \<longleftrightarrow> e \<in> edges \<and> edge_source e = i \<and> edge_kind_of e = EK_Contains" for e
    by simp
  have members: "member_of nodes edges i w \<longleftrightarrow> nodes w \<noteq> None \<and> (\<exists>e\<in>set es. edge_target e = w)" for w
    using n mem by (auto simp: member_of_def)
  obtain found where f: "q_nodes_by_ids q (map edge_target es) = Inr found"
    "map_of found = nodes |` set (map edge_target es)" by (rule nodes_by_idsE)
  have fold: "\<forall>e\<in>set es. e \<in> edges"
    "\<forall>e\<in>set es. nodes (edge_target e) \<noteq> None \<longrightarrow> impacted nodes edges m start d (edge_target e)"
    "\<forall>e\<in>set es. map_of found (edge_target e) = nodes (edge_target e)"
    using mem f(2) members impacted.member [OF i \<open>d < m\<close>] by auto
  have "d \<le> m" using \<open>d < m\<close> by simp
  note F = impact_reach_fold [where front = True and endpoint = edge_target and found = found,
      OF sc fold(1) this fold(2,3)]
  show ?thesis
  proof (cases "es = []")
    case True
    with es(1) sc members show ?thesis by (simp add: impact_members_def)
  next
    case False
    with es(1) f(1) F members show ?thesis by (auto simp: impact_members_def)
  qed
qed

lemma impact_dependents_step:
  assumes sc: "impact_scan nodes edges m start ex s" and i: "impacted nodes edges m start d i"
    and "d < m"
  shows "\<exists>s'. impact_dependents q i d s = Inr s' \<and> impact_scan nodes edges m start ex s' \<and>
    improves (map_of (im_best s)) (map_of (im_best s')) \<and>
    (\<forall>w. dependent_of nodes edges i w \<longrightarrow> (\<exists>c\<le>Suc d. map_of (im_best s') w = Some c)) \<and>
    (s' = s \<or> impact_measure nodes m s' < impact_measure nodes m s)"
proof -
  obtain all where all: "q_incoming q i None = Inr all"
    "set all = {e \<in> edges. edge_target e = i \<and> kind_matches None (edge_kind_of e)}"
    by (rule incomingE)
  define es where "es = filter (\<lambda>e. edge_kind_of e \<noteq> EK_Contains) all"
  have mem: "e \<in> set es \<longleftrightarrow> e \<in> edges \<and> edge_target e = i \<and> edge_kind_of e \<noteq> EK_Contains" for e
    using all(2) by (auto simp: es_def)
  have deps: "dependent_of nodes edges i w \<longleftrightarrow> nodes w \<noteq> None \<and> (\<exists>e\<in>set es. edge_source e = w)" for w
    using mem by (auto simp: dependent_of_def)
  obtain found where f: "q_nodes_by_ids q (map edge_source es) = Inr found"
    "map_of found = nodes |` set (map edge_source es)" by (rule nodes_by_idsE)
  have fold: "\<forall>e\<in>set es. e \<in> edges"
    "\<forall>e\<in>set es. nodes (edge_source e) \<noteq> None \<longrightarrow> impacted nodes edges m start (Suc d) (edge_source e)"
    "\<forall>e\<in>set es. map_of found (edge_source e) = nodes (edge_source e)"
    using mem f(2) deps impacted.dependent [OF i \<open>d < m\<close>] by auto
  have "Suc d \<le> m" using \<open>d < m\<close> by simp
  note F = impact_reach_fold [where front = False and endpoint = edge_source and found = found,
      OF sc fold(1) this fold(2,3)]
  show ?thesis
  proof (cases "es = []")
    case True
    with all(1) sc deps show ?thesis by (simp add: impact_dependents_def es_def [symmetric])
  next
    case False
    with all(1) f(1) F deps show ?thesis by (auto simp: impact_dependents_def es_def [symmetric])
  qed
qed

lemma impact_iteration_step:
  assumes inv: "impact_scan nodes edges m start {} s" and q: "im_queue s \<noteq> []"
  shows "\<exists>s'. impact_iteration q no_cancel m s = Inr s' \<and> impact_scan nodes edges m start {} s' \<and>
    (s', s) \<in> measures [impact_measure nodes m, length \<circ> im_queue]"
proof -
  obtain i d rest where qs: "im_queue s = (i, d) # rest" using q by (cases "im_queue s") auto
  define s0 where "s0 = s\<lparr>im_queue := rest, im_ticks := Suc (im_ticks s)\<rparr>"
  note base = impact_baseD [OF impact_scanD(1) [OF inv]]
  obtain b where b: "b \<le> d" "map_of (im_best s) i = Some b" using base(4) [of i d] qs by auto
  have s0: "impact_base nodes edges m start s0"
    by (rule impact_baseI) (use base qs in \<open>auto simp: s0_def\<close>)
  have kept: "(v, c) \<in> set (im_queue s0) \<or> (v, c) = (i, d) \<or> closed_at nodes edges (map_of (im_best s0)) v c"
    if "map_of (im_best s0) v = Some c" "c < m" for v c
    using impact_scanD(2) [OF inv, of v c] that qs by (auto simp: s0_def)
  have m0: "impact_measure nodes m s0 = impact_measure nodes m s" "length (im_queue s0) < length (im_queue s)"
    using qs by (simp_all add: s0_def impact_measure_def)
  have unf: "impact_iteration q no_cancel m s =
      (if b < d \<or> m \<le> d then Inr s0
       else case map_of (im_nodes s0) i of
           None \<Rightarrow> Inr s0
         | Some n \<Rightarrow> and_then (if is_container (node_kind n) then impact_members q i d s0 else Inr s0)
              (\<lambda>s. impact_dependents q i d s))"
    using qs b by (simp add: impact_iteration_def check_cancel_def no_cancel_def s0_def Let_def
        cong: option.case_cong if_cong)
  show ?thesis
  proof (cases "b < d \<or> m \<le> d")
    case True
    have "impact_scan nodes edges m start {} s0"
      using True b kept by (intro impact_scanI [OF s0]) (fastforce simp: s0_def)
    with True unf m0 show ?thesis by simp
  next
    case False
    then have bd: "b = d" "d < m" using b by simp_all
    have i: "impacted nodes edges m start d i" using base(2) b bd by simp
    obtain n where n: "nodes i = Some n" using base(3) b by blast
    then have nd: "map_of (im_nodes s0) i = Some n"
      using base(1) b by (auto simp: s0_def restrict_map_def)
    have scan: "impact_scan nodes edges m start {(i, d)} s0"
      using kept by (intro impact_scanI [OF s0]) blast
    have "\<exists>s1. (if is_container (node_kind n) then impact_members q i d s0 else Inr s0) = Inr s1 \<and>
      impact_scan nodes edges m start {(i, d)} s1 \<and> improves (map_of (im_best s0)) (map_of (im_best s1)) \<and>
      (\<forall>w. member_of nodes edges i w \<longrightarrow> (\<exists>c\<le>d. map_of (im_best s1) w = Some c)) \<and>
      (s1 = s0 \<or> impact_measure nodes m s1 < impact_measure nodes m s0)"
    proof (cases "is_container (node_kind n)")
      case True
      with impact_members_step [OF scan i bd(2) n True] show ?thesis by simp
    next
      case no: False
      then have "\<not> member_of nodes edges i w" for w using n by (simp add: member_of_def)
      with no scan show ?thesis by simp
    qed
    then obtain s1 where s1: "(if is_container (node_kind n) then impact_members q i d s0 else Inr s0) = Inr s1"
      "impact_scan nodes edges m start {(i, d)} s1"
      "\<forall>w. member_of nodes edges i w \<longrightarrow> (\<exists>c\<le>d. map_of (im_best s1) w = Some c)"
      "s1 = s0 \<or> impact_measure nodes m s1 < impact_measure nodes m s0" by blast
    obtain s2 where s2: "impact_dependents q i d s1 = Inr s2" "impact_scan nodes edges m start {(i, d)} s2"
      "improves (map_of (im_best s1)) (map_of (im_best s2))"
      "\<forall>w. dependent_of nodes edges i w \<longrightarrow> (\<exists>c\<le>Suc d. map_of (im_best s2) w = Some c)"
      "s2 = s1 \<or> impact_measure nodes m s2 < impact_measure nodes m s1"
      using impact_dependents_step [OF s1(2) i bd(2)] by blast
    have closed: "closed_at nodes edges (map_of (im_best s2)) i d"
      unfolding closed_at_def using s1(3) s2(4) improvesD [OF s2(3)] by (meson le_trans)
    have "impact_scan nodes edges m start {} s2"
      using impact_scanD [OF s2(2)] closed by (intro impact_scanI) blast+
    moreover have "s2 = s0 \<or> impact_measure nodes m s2 < impact_measure nodes m s"
      using s1(4) s2(5) m0(1) by auto
    ultimately show ?thesis using unf False nd s1(1) s2(1) m0 by auto
  qed
qed

section \<open>The whole walk\<close>

lemma impact_complete:
  assumes inv: "impact_scan nodes edges m start {} s" and q: "im_queue s = []"
    and "impacted nodes edges m start d v"
  shows "\<exists>c\<le>d. map_of (im_best s) v = Some c"
  using assms(3)
proof (induction d v rule: impacted.induct)
  case focal
  show ?case using impact_baseD(5) [OF impact_scanD(1) [OF inv]] by simp
next
  case (member d u v)
  then obtain c where c: "c \<le> d" "map_of (im_best s) u = Some c" by blast
  with impact_scanD(2) [OF inv, of u c] q member.hyps have "closed_at nodes edges (map_of (im_best s)) u c"
    by simp
  with member.hyps c show ?case unfolding closed_at_def by (meson le_trans)
next
  case (dependent d u v)
  then obtain c where c: "c \<le> d" "map_of (im_best s) u = Some c" by blast
  with impact_scanD(2) [OF inv, of u c] q dependent.hyps have "closed_at nodes edges (map_of (im_best s)) u c"
    by simp
  with dependent.hyps c show ?case unfolding closed_at_def by (meson le_trans Suc_le_mono)
qed

lemma get_impact_radius_spec:
  assumes f: "nodes start = Some n"
  shows "\<exists>g. get_impact_radius q no_cancel start m = Some (Inr g) \<and>
    map_of (sg_nodes g) = nodes |` {v. \<exists>d. impacted nodes edges m start d v} \<and>
    set (sg_edges g) \<subseteq> edges \<and> sg_roots g = [start]"
proof -
  have id: "node_id n = start" using node_key [OF f] .
  have start: "impact_scan nodes edges m start {} (impact_start n)"
    using f id by (intro impact_scanI impact_baseI)
      (auto simp: impact_start_def restrict_map_def fun_eq_iff intro: impacted.focal split: if_splits)
  have "\<exists>s'. loop_while (\<lambda>s. im_queue s \<noteq> []) (impact_iteration q no_cancel m) (impact_start n) =
      Some (Inr s') \<and> impact_scan nodes edges m start {} s' \<and> \<not> im_queue s' \<noteq> []"
    by (rule loop_while_total [where r = "measures [impact_measure nodes m, length \<circ> im_queue]"])
       (use start impact_iteration_step in auto)
  then obtain s where s: "loop_while (\<lambda>s. im_queue s \<noteq> []) (impact_iteration q no_cancel m) (impact_start n) =
      Some (Inr s)" "impact_scan nodes edges m start {} s" "im_queue s = []" by blast
  note base = impact_baseD [OF impact_scanD(1) [OF s(2)]]
  have "dom (map_of (im_best s)) = {v. \<exists>d. impacted nodes edges m start d v}"
    using base(2) impact_complete [OF s(2,3)] by blast
  then show ?thesis
    using s(1) f base(1,6) by (simp add: get_impact_radius_def node_by_id make_subgraph_def)
qed

end

end
