(* ===== verification/Layers.thy ===== *)
theory Layers
  imports Traversal
begin

text \<open>
  Correctness of \<open>traverse_relation_layers\<close>, hence of \<open>get_callers\<close> and \<open>get_callees\<close>: they
  return every node within \<open>max_depth\<close> relation edges of the start once, nearest first, each
  with an edge it was reached by.
\<close>

section \<open>The specification\<close>

text \<open>One relation edge, from \<open>u\<close> to \<open>v\<close> against (\<open>inc\<close>) or along its direction.\<close>

definition relation_step ::
    "(string \<Rightarrow> node option) \<Rightarrow> edge set \<Rightarrow> bool \<Rightarrow> edge_kind list \<Rightarrow> string \<Rightarrow> string \<Rightarrow> bool" where
  "relation_step nodes edges inc kinds u v \<longleftrightarrow>
     nodes v \<noteq> None \<and>
     (\<exists>e\<in>edges. (if inc then edge_target e else edge_source e) = u \<and> layer_next inc e = v \<and>
                kind_matches (Some kinds) (edge_kind_of e))"

definition hop_count :: "('a \<Rightarrow> 'a \<Rightarrow> bool) \<Rightarrow> 'a \<Rightarrow> 'a \<Rightarrow> nat" where
  "hop_count R a v = (LEAST k. hops R a k v)"

definition ref_id :: "node_ref \<Rightarrow> string" where
  "ref_id r = node_id (ref_node r)"

definition ref_ok ::
    "(string \<Rightarrow> node option) \<Rightarrow> edge set \<Rightarrow> bool \<Rightarrow> edge_kind list \<Rightarrow> node_ref \<Rightarrow> bool" where
  "ref_ok nodes edges inc kinds r \<longleftrightarrow>
     nodes (ref_id r) = Some (ref_node r) \<and> ref_edge r \<in> edges \<and>
     layer_next inc (ref_edge r) = ref_id r \<and> kind_matches (Some kinds) (edge_kind_of (ref_edge r))"

section \<open>Layers of equal distance\<close>

lemma hop_distance_count: "hop_distance R a k v \<Longrightarrow> hop_count R a v = k"
  unfolding hop_distance_def hop_count_def by (intro Least_equality) blast+

lemma hops_distance: "hops R a k v \<Longrightarrow> \<exists>j\<le>k. hop_distance R a j v"
proof -
  assume "hops R a k v"
  then have "hops R a (hop_count R a v) v" "hop_count R a v \<le> k"
    unfolding hop_count_def by (fact LeastI, fact Least_le)
  moreover have "\<forall>j. hops R a j v \<longrightarrow> hop_count R a v \<le> j"
    unfolding hop_count_def by (simp add: Least_le)
  ultimately show ?thesis unfolding hop_distance_def by blast
qed

lemma within_hops_distance: "within_hops R a k v \<longleftrightarrow> (\<exists>j\<le>k. hop_distance R a j v)"
  unfolding within_hops_def using hops_distance by (metis hop_distance_def le_trans)

lemma within_hops_Suc: "within_hops R a (Suc k) v \<longleftrightarrow> within_hops R a k v \<or> hop_distance R a (Suc k) v"
  unfolding within_hops_distance by (metis le_Suc_eq)

lemma within_zero: "within_hops R a 0 v \<longleftrightarrow> v = a"
  by (auto simp: within_hops_def hops_zero_iff)

lemma distance_zero: "hop_distance R a 0 v \<longleftrightarrow> v = a"
  by (auto simp: hop_distance_def hops_zero_iff)

lemma next_layer:
  "hop_distance R a (Suc k) v \<longleftrightarrow> (\<exists>u. hop_distance R a k u \<and> R u v) \<and> \<not> within_hops R a k v"
proof
  assume v: "hop_distance R a (Suc k) v"
  then obtain u where u: "hops R a k u" "R u v" by (auto simp: hop_distance_def elim: hops_SucE)
  have "k \<le> j" if "hops R a j u" for j
    using v hops_Suc [OF that u(2)] unfolding hop_distance_def by fastforce
  with u have "hop_distance R a k u" by (simp add: hop_distance_def)
  moreover have "\<not> within_hops R a k v"
    using v unfolding within_hops_def hop_distance_def by fastforce
  ultimately show "(\<exists>u. hop_distance R a k u \<and> R u v) \<and> \<not> within_hops R a k v" using u(2) by blast
next
  assume "(\<exists>u. hop_distance R a k u \<and> R u v) \<and> \<not> within_hops R a k v"
  then obtain u where u: "hop_distance R a k u" "R u v" "\<not> within_hops R a k v" by blast
  then have "hops R a (Suc k) v" by (auto simp: hop_distance_def intro: hops_Suc)
  moreover have "Suc k \<le> j" if "hops R a j v" for j
    using u(3) that unfolding within_hops_def by (meson not_less_eq_eq)
  ultimately show "hop_distance R a (Suc k) v" by (simp add: hop_distance_def)
qed

lemma empty_layer_stops:
  assumes "\<And>v. \<not> hop_distance R a (Suc k) v" and "k \<le> j"
  shows "within_hops R a j v \<longleftrightarrow> within_hops R a k v"
proof -
  have "\<not> hop_distance R a (Suc k + i) v" for i v
  proof (induction i arbitrary: v)
    case (Suc i)
    then show ?case using next_layer [of R a "Suc k + i" v] by simp
  qed (use assms(1) in simp)
  then have none: "\<not> hop_distance R a n v" if "k < n" for n v
    using that by (metis Suc_leI le_add_diff_inverse)
  then show ?thesis
    using assms(2) unfolding within_hops_distance by (meson le_trans not_le)
qed

section \<open>The two loops of a layer\<close>

lemma set_layer_ids:
  "set (layer_ids inc V es acc) = set acc \<union> {layer_next inc e |e. e \<in> set es \<and> layer_next inc e \<notin> V}"
  by (induction inc V es acc rule: layer_ids.induct) auto

text \<open>What the second loop emits: each fetched, unvisited endpoint once.\<close>

definition emitted :: "bool \<Rightarrow> (string \<Rightarrow> node option) \<Rightarrow> edge list \<Rightarrow> string set \<Rightarrow> node_ref list \<Rightarrow> bool" where
  "emitted inc found es V rs \<longleftrightarrow>
     distinct (map ref_id rs) \<and> ref_id ` set rs \<inter> V = {} \<and>
     (\<forall>r\<in>set rs. ref_edge r \<in> set es \<and> layer_next inc (ref_edge r) = ref_id r \<and>
                 found (ref_id r) = Some (ref_node r)) \<and>
     (\<forall>e\<in>set es. layer_next inc e \<in> V \<or> found (layer_next inc e) = None \<or>
                 layer_next inc e \<in> ref_id ` set rs)"

lemma emittedD:
  assumes "emitted inc found es V rs"
  shows "distinct (map ref_id rs)" "ref_id ` set rs \<inter> V = {}"
    "\<And>r. r \<in> set rs \<Longrightarrow> ref_edge r \<in> set es" "\<And>r. r \<in> set rs \<Longrightarrow> layer_next inc (ref_edge r) = ref_id r"
    "\<And>r. r \<in> set rs \<Longrightarrow> found (ref_id r) = Some (ref_node r)"
    "\<And>e. e \<in> set es \<Longrightarrow> layer_next inc e \<notin> V \<Longrightarrow> found (layer_next inc e) \<noteq> None \<Longrightarrow>
       layer_next inc e \<in> ref_id ` set rs"
  using assms by (auto simp: emitted_def)

lemma emittedI:
  assumes "distinct (map ref_id rs)" "ref_id ` set rs \<inter> V = {}"
    "\<And>r. r \<in> set rs \<Longrightarrow> ref_edge r \<in> set es" "\<And>r. r \<in> set rs \<Longrightarrow> layer_next inc (ref_edge r) = ref_id r"
    "\<And>r. r \<in> set rs \<Longrightarrow> found (ref_id r) = Some (ref_node r)"
    "\<And>e. e \<in> set es \<Longrightarrow> layer_next inc e \<notin> V \<Longrightarrow> found (layer_next inc e) \<noteq> None \<Longrightarrow>
       layer_next inc e \<in> ref_id ` set rs"
  shows "emitted inc found es V rs"
  using assms unfolding emitted_def by blast

lemma layer_emit_spec:
  assumes "\<And>i n. map_of m i = Some n \<Longrightarrow> node_id n = i"
  shows "\<exists>rs. layer_emit inc m es V res fr = (V \<union> ref_id ` set rs, res @ rs, fr @ map ref_id rs) \<and>
    emitted inc (map_of m) es V rs"
proof (induction es arbitrary: V res fr)
  case Nil
  then show ?case by (intro exI [of _ "[]"]) (simp add: emitted_def)
next
  case (Cons e es)
  let ?v = "layer_next inc e"
  show ?case
  proof (cases "?v \<in> V \<or> map_of m ?v = None")
    case True
    obtain rs where rs: "layer_emit inc m es V res fr = (V \<union> ref_id ` set rs, res @ rs, fr @ map ref_id rs)"
      "emitted inc (map_of m) es V rs" using Cons.IH by blast
    have "layer_emit inc m (e # es) V res fr = layer_emit inc m es V res fr" using True by (auto simp: Let_def)
    moreover have "emitted inc (map_of m) (e # es) V rs"
      using emittedD [OF rs(2)] True by (intro emittedI) auto
    ultimately show ?thesis using rs(1) by auto
  next
    case False
    then obtain n where n: "?v \<notin> V" "map_of m ?v = Some n" by blast
    let ?r = "\<lparr>ref_node = n, ref_edge = e\<rparr>"
    have id: "ref_id ?r = ?v" using assms [OF n(2)] by (simp add: ref_id_def)
    obtain rs where rs: "layer_emit inc m es (insert ?v V) (res @ [?r]) (fr @ [?v]) =
        (insert ?v V \<union> ref_id ` set rs, (res @ [?r]) @ rs, (fr @ [?v]) @ map ref_id rs)"
      "emitted inc (map_of m) es (insert ?v V) rs" using Cons.IH by blast
    have "emitted inc (map_of m) (e # es) V (?r # rs)"
    proof (rule emittedI)
      show "distinct (map ref_id (?r # rs))" using emittedD(1,2) [OF rs(2)] id by auto
      show "ref_id ` set (?r # rs) \<inter> V = {}" using emittedD(2) [OF rs(2)] id n(1) by auto
      show "ref_edge r \<in> set (e # es)" if "r \<in> set (?r # rs)" for r
        using that emittedD(3) [OF rs(2), of r] by auto
      show "layer_next inc (ref_edge r) = ref_id r" if "r \<in> set (?r # rs)" for r
        using that emittedD(4) [OF rs(2), of r] id by auto
      show "map_of m (ref_id r) = Some (ref_node r)" if "r \<in> set (?r # rs)" for r
        using that emittedD(5) [OF rs(2), of r] id n(2) by auto
      show "layer_next inc x \<in> ref_id ` set (?r # rs)"
        if "x \<in> set (e # es)" "layer_next inc x \<notin> V" "map_of m (layer_next inc x) \<noteq> None" for x
        using that emittedD(6) [OF rs(2), of x] id by (cases "layer_next inc x = ?v") auto
    qed
    moreover have "layer_emit inc m (e # es) V res fr =
        (V \<union> ref_id ` set (?r # rs), res @ (?r # rs), fr @ map ref_id (?r # rs))"
      using n rs(1) id by (simp add: Let_def)
    ultimately show ?thesis by blast
  qed
qed

section \<open>The walk\<close>

definition layer_inv ::
    "(string \<Rightarrow> node option) \<Rightarrow> edge set \<Rightarrow> bool \<Rightarrow> edge_kind list \<Rightarrow> string \<Rightarrow> layer_state \<Rightarrow> bool" where
  "layer_inv nodes edges inc kinds start s \<longleftrightarrow>
     (let R = relation_step nodes edges inc kinds; k = ly_depth s in
      ly_visited s = {v. within_hops R start k v} \<and>
      set (ly_frontier s) = {v. hop_distance R start k v} \<and>
      (ly_stopped s \<longrightarrow> (\<forall>v. \<not> hop_distance R start (Suc k) v)) \<and>
      distinct (map ref_id (ly_result s)) \<and>
      ref_id ` set (ly_result s) = {v. within_hops R start k v} - {start} \<and>
      sorted (map (hop_count R start \<circ> ref_id) (ly_result s)) \<and>
      (\<forall>r\<in>set (ly_result s). ref_ok nodes edges inc kinds r))"

lemma layer_invD:
  fixes nodes edges inc kinds
  defines "R \<equiv> relation_step nodes edges inc kinds"
  assumes "layer_inv nodes edges inc kinds start s"
  shows "ly_visited s = {v. within_hops R start (ly_depth s) v}"
    "set (ly_frontier s) = {v. hop_distance R start (ly_depth s) v}"
    "ly_stopped s \<Longrightarrow> \<not> hop_distance R start (Suc (ly_depth s)) v"
    "distinct (map ref_id (ly_result s))"
    "ref_id ` set (ly_result s) = {v. within_hops R start (ly_depth s) v} - {start}"
    "sorted (map (hop_count R start \<circ> ref_id) (ly_result s))"
    "\<And>r. r \<in> set (ly_result s) \<Longrightarrow> ref_ok nodes edges inc kinds r"
  using assms(2) unfolding layer_inv_def Let_def R_def by blast+

lemma layer_invI:
  fixes nodes edges inc kinds
  defines "R \<equiv> relation_step nodes edges inc kinds"
  assumes "ly_visited s = {v. within_hops R start (ly_depth s) v}"
    "set (ly_frontier s) = {v. hop_distance R start (ly_depth s) v}"
    "\<And>v. ly_stopped s \<Longrightarrow> \<not> hop_distance R start (Suc (ly_depth s)) v"
    "distinct (map ref_id (ly_result s))"
    "ref_id ` set (ly_result s) = {v. within_hops R start (ly_depth s) v} - {start}"
    "sorted (map (hop_count R start \<circ> ref_id) (ly_result s))"
    "\<And>r. r \<in> set (ly_result s) \<Longrightarrow> ref_ok nodes edges inc kinds r"
  shows "layer_inv nodes edges inc kinds start s"
  using assms(2-) unfolding layer_inv_def Let_def R_def by blast

context graph_store
begin

lemma layer_edges:
  obtains es where "(if inc then q_incoming_many q ids (Some kinds) else q_outgoing_many q ids (Some kinds)) = Inr es"
    "set es = {e \<in> edges. (if inc then edge_target e else edge_source e) \<in> set ids \<and>
                kind_matches (Some kinds) (edge_kind_of e)}"
  using incoming_many [of ids "Some kinds"] outgoing_many [of ids "Some kinds"] by (cases inc) auto

lemma layer_iteration_step:
  assumes inv: "layer_inv nodes edges inc kinds start s" and run: "layer_running m s"
  shows "\<exists>s'. layer_iteration q no_cancel inc kinds s = Inr s' \<and>
    layer_inv nodes edges inc kinds start s' \<and> ly_depth s' \<le> m \<and>
    (s', s) \<in> measure (\<lambda>s. if ly_stopped s then 0 else Suc (m - ly_depth s))"
proof -
  let ?R = "relation_step nodes edges inc kinds" and ?k = "ly_depth s"
  note D = layer_invD [OF inv]
  have run': "\<not> ly_stopped s" "?k < m" using run by (simp_all add: layer_running_def)
  obtain es where es: "(if inc then q_incoming_many q (ly_frontier s) (Some kinds)
        else q_outgoing_many q (ly_frontier s) (Some kinds)) = Inr es"
    "set es = {e \<in> edges. (if inc then edge_target e else edge_source e) \<in> set (ly_frontier s) \<and>
                kind_matches (Some kinds) (edge_kind_of e)}" using layer_edges .
  have front: "(\<exists>u. hop_distance ?R start ?k u \<and> ?R u v) \<longleftrightarrow>
      nodes v \<noteq> None \<and> (\<exists>e\<in>set es. layer_next inc e = v)" for v
    unfolding es(2) D(2) relation_step_def by blast
  define ids where "ids = layer_ids inc (ly_visited s) es []"
  have ids: "set ids = {layer_next inc e |e. e \<in> set es \<and> layer_next inc e \<notin> ly_visited s}"
    by (simp add: ids_def set_layer_ids)
  have layer: "hop_distance ?R start (Suc ?k) v \<longleftrightarrow> nodes v \<noteq> None \<and> v \<in> set ids" for v
    unfolding next_layer front ids D(1) by blast
  have unf: "layer_iteration q no_cancel inc kinds s =
      (let s = s\<lparr>ly_ticks := Suc (ly_ticks s)\<rparr> in
       if es = [] \<or> ids = [] then Inr (s\<lparr>ly_stopped := True\<rparr>)
       else and_then (q_nodes_by_ids q ids) (\<lambda>next_nodes.
         case layer_emit inc next_nodes es (ly_visited s) (ly_result s) [] of
           (visited, result, frontier) \<Rightarrow>
             Inr (s\<lparr>ly_visited := visited, ly_result := result, ly_frontier := frontier,
                    ly_depth := Suc (ly_depth s)\<rparr>)))"
    using es(1) by (simp add: layer_iteration_def check_cancel_def no_cancel_def ids_def Let_def)
  show ?thesis
  proof (cases "es = [] \<or> ids = []")
    case True
    let ?s' = "s\<lparr>ly_ticks := Suc (ly_ticks s), ly_stopped := True\<rparr>"
    have "set ids = {}" using True ids by auto
    then have "layer_inv nodes edges inc kinds start ?s'"
      using D layer by (intro layer_invI) auto
    with True unf run' show ?thesis by (intro exI [of _ ?s']) simp
  next
    case False
    obtain found where f: "q_nodes_by_ids q ids = Inr found" "map_of found = nodes |` set ids"
      by (rule nodes_by_idsE)
    have key: "node_id n = i" if "map_of found i = Some n" for i n
      using that f(2) node_key by (auto simp: restrict_map_def split: if_splits)
    obtain rs where rs: "layer_emit inc found es (ly_visited s) (ly_result s) [] =
        (ly_visited s \<union> ref_id ` set rs, ly_result s @ rs, map ref_id rs)"
      "emitted inc (map_of found) es (ly_visited s) rs"
      using layer_emit_spec [of found inc es "ly_visited s" "ly_result s" "[]"] key by auto
    note E = emittedD [OF rs(2)]
    have found: "nodes (ref_id r) = Some (ref_node r)" "ref_id r \<in> set ids" if "r \<in> set rs" for r
      using E(5) [OF that] f(2) by (auto simp: restrict_map_def split: if_splits)
    have new: "ref_id ` set rs = {v. hop_distance ?R start (Suc ?k) v}"
    proof (intro equalityI subsetI)
      fix v assume "v \<in> ref_id ` set rs"
      then show "v \<in> {v. hop_distance ?R start (Suc ?k) v}" using layer found by auto
    next
      fix v assume "v \<in> {v. hop_distance ?R start (Suc ?k) v}"
      then have v: "nodes v \<noteq> None" "v \<in> set ids" using layer by blast+
      from v(2) obtain e where e: "e \<in> set es" "layer_next inc e = v" "v \<notin> ly_visited s"
        unfolding ids by auto
      have "map_of found v \<noteq> None" using v f(2) by simp
      with E(6) [of e] e show "v \<in> ref_id ` set rs" by blast
    qed
    let ?s' = "s\<lparr>ly_ticks := Suc (ly_ticks s), ly_visited := ly_visited s \<union> ref_id ` set rs,
        ly_result := ly_result s @ rs, ly_frontier := map ref_id rs, ly_depth := Suc ?k\<rparr>"
    have "layer_inv nodes edges inc kinds start ?s'"
    proof (rule layer_invI)
      show "ly_visited ?s' = {v. within_hops ?R start (ly_depth ?s') v}"
        using D(1) new by (auto simp: within_hops_Suc)
      show "set (ly_frontier ?s') = {v. hop_distance ?R start (ly_depth ?s') v}" using new by simp
      show "\<not> hop_distance ?R start (Suc (ly_depth ?s')) v" if "ly_stopped ?s'" for v
        using that run' by simp
      show "distinct (map ref_id (ly_result ?s'))"
        using D(1,4,5) E(1,2) by auto
      show "ref_id ` set (ly_result ?s') = {v. within_hops ?R start (ly_depth ?s') v} - {start}"
      proof -
        have "start \<notin> ref_id ` set rs" using E(2) D(1) within_zero [of ?R start start]
          unfolding within_hops_def by blast
        then show ?thesis using D(5) new by (auto simp: within_hops_Suc image_Un)
      qed
      show "sorted (map (hop_count ?R start \<circ> ref_id) (ly_result ?s'))"
      proof -
        let ?c = "hop_count ?R start \<circ> ref_id"
        have fresh: "?c r = Suc ?k" if "r \<in> set rs" for r
          using that new hop_distance_count [of ?R start "Suc ?k" "ref_id r"] by auto
        have old: "?c r \<le> ?k" if "r \<in> set (ly_result s)" for r
        proof -
          have "within_hops ?R start ?k (ref_id r)" using that D(5) by blast
          then obtain j where "j \<le> ?k" "hop_distance ?R start j (ref_id r)"
            unfolding within_hops_distance by blast
          then show ?thesis using hop_distance_count [of ?R start j "ref_id r"] by simp
        qed
        have "map ?c rs = replicate (length rs) (Suc ?k)"
          using fresh by (simp add: map_eq_conv flip: map_replicate_const)
        moreover have "\<forall>x\<in>set (map ?c (ly_result s)). x \<le> Suc ?k" using old by (auto intro: le_SucI)
        ultimately have "sorted (map ?c (ly_result s) @ map ?c rs)"
          using D(6) by (simp add: sorted_append del: map_map)
        then show ?thesis by simp
      qed
      show "ref_ok nodes edges inc kinds r" if "r \<in> set (ly_result ?s')" for r
      proof (cases "r \<in> set rs")
        case True
        then have "ref_edge r \<in> edges" "kind_matches (Some kinds) (edge_kind_of (ref_edge r))"
          using E(3) [OF True] es(2) by auto
        then show ?thesis using E(4) [OF True] found(1) [OF True] by (simp add: ref_ok_def)
      qed (use that D(7) in simp)
    qed
    moreover have "layer_iteration q no_cancel inc kinds s = Inr ?s'"
      using unf False f(1) rs(1) by simp
    ultimately show ?thesis using run' by (intro exI [of _ ?s']) auto
  qed
qed

text \<open>Every node within \<open>max_depth\<close> hops but the start, once, nearest first.\<close>

lemma relation_layers_spec:
  fixes inc kinds
  defines "R \<equiv> relation_step nodes edges inc kinds"
  assumes "dir = (if inc then Incoming else Outgoing)"
  shows "\<exists>rs. traverse_relation_layers q no_cancel start m dir kinds = Some (Inr rs) \<and>
    distinct (map ref_id rs) \<and>
    ref_id ` set rs = {v. v \<noteq> start \<and> within_hops R start m v} \<and>
    sorted (map (hop_count R start \<circ> ref_id) rs) \<and>
    (\<forall>r\<in>set rs. ref_ok nodes edges inc kinds r)"
proof (cases "m = 0")
  case True
  then show ?thesis by (auto simp: traverse_relation_layers_def within_zero)
next
  case False
  let ?s0 = "\<lparr>ly_result = [], ly_visited = {start}, ly_frontier = [start], ly_depth = 0,
              ly_stopped = False, ly_ticks = 0\<rparr>"
  let ?I = "\<lambda>s. layer_inv nodes edges inc kinds start s \<and> ly_depth s \<le> m"
  let ?loop = "loop_while (layer_running m) (layer_iteration q no_cancel inc kinds) ?s0"
  have init: "?I ?s0"
    by (intro conjI layer_invI) (auto simp: within_zero distance_zero)
  have "\<exists>s. ?loop = Some (Inr s) \<and> ?I s \<and> \<not> layer_running m s"
    by (rule loop_while_total [where r = "measure (\<lambda>s. if ly_stopped s then 0 else Suc (m - ly_depth s))"])
       (use init layer_iteration_step in blast)+
  then obtain s where s: "?loop = Some (Inr s)" "layer_inv nodes edges inc kinds start s"
    "ly_depth s \<le> m" "\<not> layer_running m s" by blast
  note D = layer_invD [OF s(2), folded R_def]
  have "within_hops R start m v \<longleftrightarrow> within_hops R start (ly_depth s) v" for v
  proof (cases "ly_depth s = m")
    case False
    with s(3,4) have "ly_stopped s \<or> ly_frontier s = []" by (auto simp: layer_running_def)
    then have "\<not> hop_distance R start (Suc (ly_depth s)) v" for v
      using D(2,3) next_layer [of R start "ly_depth s" v] by auto
    then show ?thesis using empty_layer_stops s(3) by metis
  qed simp
  then have "ref_id ` set (ly_result s) = {v. v \<noteq> start \<and> within_hops R start m v}"
    using D(5) by auto
  moreover have "traverse_relation_layers q no_cancel start m dir kinds = Some (Inr (ly_result s))"
    using False s(1) assms(2) by (cases inc) (simp_all add: traverse_relation_layers_def)
  ultimately show ?thesis using D(4,6,7) by blast
qed

end

end
