(* ===== verification/Breadth_First.thy ===== *)
theory Breadth_First
  imports Traversal
begin

text \<open>
  Correctness of \<open>traverse_bfs\<close>: it returns, everything it returns lies within the depth bound and
  passes the filters, and as long as the node limit was not reached nothing that does is missing.
\<close>

section \<open>The specification\<close>

fun touches :: "direction \<Rightarrow> string \<Rightarrow> edge \<Rightarrow> bool" where
  "touches Outgoing u e = (edge_source e = u)"
| "touches Incoming u e = (edge_target e = u)"
| "touches Both u e = (edge_source e = u \<or> edge_target e = u)"

definition edge_wanted :: "resolved_options \<Rightarrow> edge \<Rightarrow> bool" where
  "edge_wanted opts e \<longleftrightarrow> ro_edge_kinds opts = [] \<or> edge_kind_of e \<in> set (ro_edge_kinds opts)"

text \<open>One step of the traversal: along a wanted edge to a stored node of an allowed kind.\<close>

definition bfs_link ::
    "(string \<Rightarrow> node option) \<Rightarrow> edge set \<Rightarrow> resolved_options \<Rightarrow> string \<Rightarrow> string \<Rightarrow> bool" where
  "bfs_link nodes edges opts u v \<longleftrightarrow>
     (\<exists>n. nodes v = Some n \<and> node_kind_allowed opts n) \<and>
     (\<exists>e\<in>edges. touches (ro_direction opts) u e \<and> edge_wanted opts e \<and> other_endpoint e u = v)"

definition in_depth :: "resolved_options \<Rightarrow> nat \<Rightarrow> bool" where
  "in_depth opts k \<longleftrightarrow> (case ro_max_depth opts of None \<Rightarrow> True | Some m \<Rightarrow> k \<le> m)"

definition bfs_target ::
    "(string \<Rightarrow> node option) \<Rightarrow> edge set \<Rightarrow> resolved_options \<Rightarrow> string \<Rightarrow> string \<Rightarrow> bool" where
  "bfs_target nodes edges opts start v \<longleftrightarrow>
     v = start \<and> ro_include_start opts \<or>
     v \<noteq> start \<and> (\<exists>k. in_depth opts k \<and> hops (bfs_link nodes edges opts) start k v)"

lemma in_depth_Suc: "in_depth opts (Suc d) \<longleftrightarrow> \<not> depth_reached opts d"
  by (auto simp: in_depth_def depth_reached_def not_le Suc_le_eq split: option.split)

lemma in_depth_mono: "in_depth opts k \<Longrightarrow> j \<le> k \<Longrightarrow> in_depth opts j"
  by (auto simp: in_depth_def split: option.splits)

section \<open>The invariant\<close>

definition step_ok ::
    "(string \<Rightarrow> node option) \<Rightarrow> edge set \<Rightarrow> resolved_options \<Rightarrow> string \<Rightarrow> traversal_step \<Rightarrow> bool" where
  "step_ok nodes edges opts start x \<longleftrightarrow>
     nodes (node_id (step_node x)) = Some (step_node x) \<and>
     hops (bfs_link nodes edges opts) start (step_depth x) (node_id (step_node x)) \<and>
     (\<forall>e. step_edge x = Some e \<longrightarrow> e \<in> edges)"

definition bfs_covered :: "(string \<Rightarrow> nat) \<Rightarrow> bfs_state \<Rightarrow> nat \<Rightarrow> string \<Rightarrow> bool" where
  "bfs_covered l s d w \<longleftrightarrow>
     w \<in> bfs_visited s \<and> l w \<le> d \<or>
     (\<exists>x\<in>set (bfs_queue s). node_id (step_node x) = w \<and> step_depth x \<le> d)"

text \<open>\<open>l\<close> is the depth at which a visited node was taken from the queue, \<open>lo\<close> the depth of the
  node taken last, \<open>ex\<close> a node whose neighbours are still being added.\<close>

definition bfs_scan ::
    "(string \<Rightarrow> node option) \<Rightarrow> edge set \<Rightarrow> resolved_options \<Rightarrow> string \<Rightarrow> (string \<Rightarrow> nat) \<Rightarrow> nat \<Rightarrow>
     string set \<Rightarrow> bfs_state \<Rightarrow> bool" where
  "bfs_scan nodes edges opts start l lo ex s \<longleftrightarrow>
     (\<forall>v\<in>bfs_visited s. hops (bfs_link nodes edges opts) start (l v) v \<and> nodes v \<noteq> None \<and> l v \<le> lo \<and>
        (v \<noteq> start \<longrightarrow> v \<in> dom (map_of (bfs_nodes s)))) \<and>
     (\<forall>x\<in>set (bfs_queue s). step_ok nodes edges opts start x \<and> lo \<le> step_depth x \<and>
        step_depth x \<le> Suc lo \<and>
        (node_id (step_node x) \<noteq> start \<longrightarrow> node_id (step_node x) \<in> dom (map_of (bfs_nodes s))) \<and>
        (node_id (step_node x) \<in> bfs_visited s \<longrightarrow> l (node_id (step_node x)) \<le> step_depth x)) \<and>
     sorted (map step_depth (bfs_queue s)) \<and>
     map_of (bfs_nodes s) = nodes |` dom (map_of (bfs_nodes s)) \<and>
     dom (map_of (bfs_nodes s)) \<subseteq> {v. bfs_target nodes edges opts start v} \<and>
     (ro_include_start opts \<longrightarrow> start \<in> dom (map_of (bfs_nodes s))) \<and>
     set (bfs_edges s) \<subseteq> edges \<and>
     bfs_covered l s 0 start \<and>
     (\<forall>v\<in>bfs_visited s - ex. \<not> depth_reached opts (l v) \<longrightarrow>
        (\<forall>w. bfs_link nodes edges opts v w \<longrightarrow> bfs_covered l s (Suc (l v)) w))"

lemma bfs_scanD:
  assumes "bfs_scan nodes edges opts start l lo ex s"
  shows "\<And>v. v \<in> bfs_visited s \<Longrightarrow> hops (bfs_link nodes edges opts) start (l v) v"
    "\<And>v. v \<in> bfs_visited s \<Longrightarrow> nodes v \<noteq> None" "\<And>v. v \<in> bfs_visited s \<Longrightarrow> l v \<le> lo"
    "\<And>v. v \<in> bfs_visited s \<Longrightarrow> v \<noteq> start \<Longrightarrow> v \<in> dom (map_of (bfs_nodes s))"
    "\<And>x. x \<in> set (bfs_queue s) \<Longrightarrow> step_ok nodes edges opts start x"
    "\<And>x. x \<in> set (bfs_queue s) \<Longrightarrow> lo \<le> step_depth x"
    "\<And>x. x \<in> set (bfs_queue s) \<Longrightarrow> step_depth x \<le> Suc lo"
    "\<And>x. x \<in> set (bfs_queue s) \<Longrightarrow> node_id (step_node x) \<noteq> start \<Longrightarrow>
       node_id (step_node x) \<in> dom (map_of (bfs_nodes s))"
    "\<And>x. x \<in> set (bfs_queue s) \<Longrightarrow> node_id (step_node x) \<in> bfs_visited s \<Longrightarrow>
       l (node_id (step_node x)) \<le> step_depth x"
    "sorted (map step_depth (bfs_queue s))"
    "map_of (bfs_nodes s) = nodes |` dom (map_of (bfs_nodes s))"
    "dom (map_of (bfs_nodes s)) \<subseteq> {v. bfs_target nodes edges opts start v}"
    "ro_include_start opts \<Longrightarrow> start \<in> dom (map_of (bfs_nodes s))"
    "set (bfs_edges s) \<subseteq> edges" "bfs_covered l s 0 start"
    "\<And>v w. v \<in> bfs_visited s \<Longrightarrow> v \<notin> ex \<Longrightarrow> \<not> depth_reached opts (l v) \<Longrightarrow> bfs_link nodes edges opts v w \<Longrightarrow>
       bfs_covered l s (Suc (l v)) w"
  using assms unfolding bfs_scan_def by blast+

lemma bfs_scanI:
  assumes "\<And>v. v \<in> bfs_visited s \<Longrightarrow> hops (bfs_link nodes edges opts) start (l v) v"
    "\<And>v. v \<in> bfs_visited s \<Longrightarrow> nodes v \<noteq> None" "\<And>v. v \<in> bfs_visited s \<Longrightarrow> l v \<le> lo"
    "\<And>v. v \<in> bfs_visited s \<Longrightarrow> v \<noteq> start \<Longrightarrow> v \<in> dom (map_of (bfs_nodes s))"
    "\<And>x. x \<in> set (bfs_queue s) \<Longrightarrow> step_ok nodes edges opts start x"
    "\<And>x. x \<in> set (bfs_queue s) \<Longrightarrow> lo \<le> step_depth x"
    "\<And>x. x \<in> set (bfs_queue s) \<Longrightarrow> step_depth x \<le> Suc lo"
    "\<And>x. x \<in> set (bfs_queue s) \<Longrightarrow> node_id (step_node x) \<noteq> start \<Longrightarrow>
       node_id (step_node x) \<in> dom (map_of (bfs_nodes s))"
    "\<And>x. x \<in> set (bfs_queue s) \<Longrightarrow> node_id (step_node x) \<in> bfs_visited s \<Longrightarrow>
       l (node_id (step_node x)) \<le> step_depth x"
    "sorted (map step_depth (bfs_queue s))"
    "map_of (bfs_nodes s) = nodes |` dom (map_of (bfs_nodes s))"
    "dom (map_of (bfs_nodes s)) \<subseteq> {v. bfs_target nodes edges opts start v}"
    "ro_include_start opts \<Longrightarrow> start \<in> dom (map_of (bfs_nodes s))"
    "set (bfs_edges s) \<subseteq> edges" "bfs_covered l s 0 start"
    "\<And>v w. v \<in> bfs_visited s \<Longrightarrow> v \<notin> ex \<Longrightarrow> \<not> depth_reached opts (l v) \<Longrightarrow> bfs_link nodes edges opts v w \<Longrightarrow>
       bfs_covered l s (Suc (l v)) w"
  shows "bfs_scan nodes edges opts start l lo ex s"
  unfolding bfs_scan_def by (intro conjI ballI allI impI assms; (erule DiffE)?; simp?)

lemma bfs_scan_close:
  assumes sc: "bfs_scan nodes edges opts start l lo ex s"
    and "\<And>v w. v \<in> bfs_visited s \<Longrightarrow> v \<in> ex \<Longrightarrow> \<not> depth_reached opts (l v) \<Longrightarrow>
      bfs_link nodes edges opts v w \<Longrightarrow> bfs_covered l s (Suc (l v)) w"
  shows "bfs_scan nodes edges opts start l lo {} s"
proof -
  have "\<forall>v\<in>bfs_visited s - {}. \<not> depth_reached opts (l v) \<longrightarrow>
      (\<forall>w. bfs_link nodes edges opts v w \<longrightarrow> bfs_covered l s (Suc (l v)) w)"
    using assms(2) bfs_scanD(16) [OF sc] by blast
  with sc show ?thesis unfolding bfs_scan_def by (elim conjE) (intro conjI; assumption)
qed

lemma bfs_covered_grow:
  assumes "bfs_covered l s d w" and "bfs_visited s' = bfs_visited s"
    and "set (bfs_queue s) \<subseteq> set (bfs_queue s')"
  shows "bfs_covered l s' d w"
  using assms unfolding bfs_covered_def by blast

definition bfs_measure :: "(string \<Rightarrow> node option) \<Rightarrow> bfs_state \<Rightarrow> nat" where
  "bfs_measure nodes s = card (dom nodes - bfs_visited s)"

section \<open>Adding the neighbours of a node\<close>

context graph_store
begin

lemma adjacent_edges:
  obtains adj where "get_adjacent_edges q i (ro_direction opts) (ro_edge_kinds opts) = Inr adj"
    "set adj = {e \<in> edges. touches (ro_direction opts) i e \<and> edge_wanted opts e}"
proof -
  define ks where "ks = (if ro_edge_kinds opts = [] then None else Some (ro_edge_kinds opts))"
  have w: "kind_matches ks (edge_kind_of e) = edge_wanted opts e" for e
    by (auto simp: ks_def edge_wanted_def kind_matches_nonempty)
  obtain o' where o': "q_outgoing q i ks = Inr o'"
    "set o' = {e \<in> edges. edge_source e = i \<and> kind_matches ks (edge_kind_of e)}" by (rule outgoingE)
  obtain i' where i': "q_incoming q i ks = Inr i'"
    "set i' = {e \<in> edges. edge_target e = i \<and> kind_matches ks (edge_kind_of e)}" by (rule incomingE)
  show ?thesis
  proof (cases "ro_direction opts")
    case Outgoing
    with o' w that [of o'] show ?thesis by (simp add: ks_def)
  next
    case Incoming
    with i' w that [of i'] show ?thesis by (simp add: ks_def)
  next
    case Both
    with o' i' w that [of "o' @ i'"] show ?thesis by (auto simp: ks_def [symmetric])
  qed
qed

lemma fetched_neighbors:
  obtains found where "fetch_neighbors q i adj visited = Inr found"
    "\<forall>e\<in>set adj. other_endpoint e i \<notin> visited \<longrightarrow> map_of found (other_endpoint e i) = nodes (other_endpoint e i)"
proof -
  let ?want = "filter (\<lambda>x. x \<notin> visited) (map (\<lambda>e. other_endpoint e i) adj)"
  obtain found where f: "q_nodes_by_ids q ?want = Inr found" "map_of found = nodes |` set ?want"
    by (rule nodes_by_idsE)
  show ?thesis
  proof (cases "?want = []")
    case True
    then have "\<forall>e\<in>set adj. other_endpoint e i \<in> visited" by (auto simp: filter_empty_conv)
    with True that [of "[]"] show ?thesis by (simp add: fetch_neighbors_def)
  next
    case False
    with f that [of found] show ?thesis by (simp add: fetch_neighbors_def restrict_map_def)
  qed
qed

lemma bfs_neighbor_step:
  assumes sc: "bfs_scan nodes edges opts start l d {i} s" and i: "i \<in> bfs_visited s" "l i = d"
    and n0: "node_id n0 = i" and depth: "\<not> depth_reached opts d"
    and e: "e \<in> edges" "touches (ro_direction opts) i e" "edge_wanted opts e"
    and f: "other_endpoint e i \<notin> bfs_visited s \<Longrightarrow> map_of found (other_endpoint e i) = nodes (other_endpoint e i)"
  shows "bfs_scan nodes edges opts start l d {i} (bfs_neighbor opts n0 d found e s) \<and>
    bfs_visited (bfs_neighbor opts n0 d found e s) = bfs_visited s \<and>
    set (bfs_queue s) \<subseteq> set (bfs_queue (bfs_neighbor opts n0 d found e s)) \<and>
    (bfs_link nodes edges opts i (other_endpoint e i) \<longrightarrow>
       bfs_covered l (bfs_neighbor opts n0 d found e s) (Suc d) (other_endpoint e i))"
proof -
  let ?w = "other_endpoint e i" and ?s' = "bfs_neighbor opts n0 d found e s"
  note D = bfs_scanD [OF sc]
  show ?thesis
  proof (cases "?w \<in> bfs_visited s")
    case True
    then have "?s' = s" by (simp add: bfs_neighbor_def n0 Let_def)
    moreover have "bfs_covered l s (Suc d) ?w" using True D(3) [OF True] by (simp add: bfs_covered_def)
    ultimately show ?thesis using sc by simp
  next
    case new: False
    show ?thesis
    proof (cases "\<exists>n. nodes ?w = Some n \<and> node_kind_allowed opts n")
      case False
      then have "?s' = s" "\<not> bfs_link nodes edges opts i ?w"
        using f [OF new] by (auto simp: bfs_neighbor_def bfs_link_def n0 Let_def split: option.split)
      then show ?thesis using sc by simp
    next
      case True
      then obtain n where n: "nodes ?w = Some n" "node_kind_allowed opts n" by blast
      have id: "node_id n = ?w" using node_key [OF n(1)] .
      let ?x = "\<lparr>step_node = n, step_edge = Some e, step_depth = Suc d\<rparr>"
      have s': "?s' = s\<lparr>bfs_nodes := hm_insert ?w n (bfs_nodes s), bfs_queue := bfs_queue s @ [?x]\<rparr>"
        using new n f [OF new] id by (simp add: bfs_neighbor_def n0 Let_def)
      have link: "bfs_link nodes edges opts i ?w" using n e by (auto simp: bfs_link_def)
      have hop: "hops (bfs_link nodes edges opts) start (Suc d) ?w"
        using hops_Suc [OF D(1) [OF i(1)] link] i(2) by simp
      have st: "start \<in> bfs_visited s"
      proof -
        have "start = i" if "x \<in> set (bfs_queue s)" "step_depth x \<le> 0" for x
          using that D(6) [of x] D(1) [OF i(1)] i(2) by (simp add: hops_zero_iff)
        then show ?thesis using D(15) i(1) unfolding bfs_covered_def by blast
      qed
      with new have ws: "?w \<noteq> start" by blast
      have dom': "dom (map_of (bfs_nodes ?s')) = insert ?w (dom (map_of (bfs_nodes s)))" by (simp add: s')
      have q': "set (bfs_queue ?s') = insert ?x (set (bfs_queue s))" by (simp add: s')
      have v': "bfs_visited ?s' = bfs_visited s" by (simp add: s')
      have grow: "bfs_covered l s k v \<Longrightarrow> bfs_covered l ?s' k v" for k v
        by (erule bfs_covered_grow) (simp_all add: v' q' subset_insertI)
      have "bfs_scan nodes edges opts start l d {i} ?s'"
      proof (rule bfs_scanI)
        show "\<And>v. v \<in> bfs_visited ?s' \<Longrightarrow> hops (bfs_link nodes edges opts) start (l v) v"
          "\<And>v. v \<in> bfs_visited ?s' \<Longrightarrow> nodes v \<noteq> None" "\<And>v. v \<in> bfs_visited ?s' \<Longrightarrow> l v \<le> d"
          unfolding v' by (fact D(1-3))+
        show "\<And>v. v \<in> bfs_visited ?s' \<Longrightarrow> v \<noteq> start \<Longrightarrow> v \<in> dom (map_of (bfs_nodes ?s'))"
          using D(4) unfolding v' dom' by blast
        have x: "step_ok nodes edges opts start ?x" using n id hop e by (simp add: step_ok_def)
        then show "\<And>x. x \<in> set (bfs_queue ?s') \<Longrightarrow> step_ok nodes edges opts start x"
          using D(5) unfolding q' by blast
        show "\<And>x. x \<in> set (bfs_queue ?s') \<Longrightarrow> d \<le> step_depth x" using D(6) unfolding q' by auto
        show "\<And>x. x \<in> set (bfs_queue ?s') \<Longrightarrow> step_depth x \<le> Suc d" using D(7) unfolding q' by auto
        show "\<And>x. x \<in> set (bfs_queue ?s') \<Longrightarrow> node_id (step_node x) \<noteq> start \<Longrightarrow>
            node_id (step_node x) \<in> dom (map_of (bfs_nodes ?s'))"
          using D(8) id unfolding q' dom' by auto
        show "\<And>x. x \<in> set (bfs_queue ?s') \<Longrightarrow> node_id (step_node x) \<in> bfs_visited ?s' \<Longrightarrow>
            l (node_id (step_node x)) \<le> step_depth x"
          using D(9) id new unfolding q' v' by auto
        show "sorted (map step_depth (bfs_queue ?s'))" using D(7,10) by (auto simp: s' sorted_append)
        show "map_of (bfs_nodes ?s') = nodes |` dom (map_of (bfs_nodes ?s'))"
        proof -
          have "map_of (bfs_nodes ?s') = (nodes |` dom (map_of (bfs_nodes s)))(?w \<mapsto> n)"
            using D(11) by (simp add: s')
          then show ?thesis unfolding dom' using n(1) by (auto simp: restrict_map_def fun_eq_iff)
        qed
        have "in_depth opts (Suc d)" using depth in_depth_Suc by blast
        then have "bfs_target nodes edges opts start ?w" using ws hop by (auto simp: bfs_target_def)
        then show "dom (map_of (bfs_nodes ?s')) \<subseteq> {v. bfs_target nodes edges opts start v}"
          using D(12) unfolding dom' by blast
        show "ro_include_start opts \<Longrightarrow> start \<in> dom (map_of (bfs_nodes ?s'))" using D(13) unfolding dom' by blast
        show "set (bfs_edges ?s') \<subseteq> edges" using D(14) by (simp add: s')
        show "bfs_covered l ?s' 0 start" using D(15) grow by blast
        show "\<And>v w. v \<in> bfs_visited ?s' \<Longrightarrow> v \<notin> {i} \<Longrightarrow> \<not> depth_reached opts (l v) \<Longrightarrow>
            bfs_link nodes edges opts v w \<Longrightarrow> bfs_covered l ?s' (Suc (l v)) w"
          using D(16) grow unfolding v' by blast
      qed
      moreover have "bfs_covered l ?s' (Suc d) ?w" unfolding bfs_covered_def q' using id by auto
      ultimately show ?thesis using v' q' by blast
    qed
  qed
qed

lemma bfs_neighbors_fold:
  assumes "bfs_scan nodes edges opts start l d {i} s" and "i \<in> bfs_visited s" "l i = d"
    and n0: "node_id n0 = i" and depth: "\<not> depth_reached opts d"
    and "\<forall>e\<in>set es. e \<in> edges \<and> touches (ro_direction opts) i e \<and> edge_wanted opts e"
    and "\<forall>e\<in>set es. other_endpoint e i \<notin> bfs_visited s \<longrightarrow>
           map_of found (other_endpoint e i) = nodes (other_endpoint e i)"
  shows "bfs_scan nodes edges opts start l d {i} (fold (bfs_neighbor opts n0 d found) es s) \<and>
    bfs_visited (fold (bfs_neighbor opts n0 d found) es s) = bfs_visited s \<and>
    set (bfs_queue s) \<subseteq> set (bfs_queue (fold (bfs_neighbor opts n0 d found) es s)) \<and>
    (\<forall>e\<in>set es. bfs_link nodes edges opts i (other_endpoint e i) \<longrightarrow>
       bfs_covered l (fold (bfs_neighbor opts n0 d found) es s) (Suc d) (other_endpoint e i))"
  using assms(1-3,6,7)
proof (induction es arbitrary: s)
  case (Cons e es)
  let ?s1 = "bfs_neighbor opts n0 d found e s"
  have e: "e \<in> edges" "touches (ro_direction opts) i e" "edge_wanted opts e"
    "other_endpoint e i \<notin> bfs_visited s \<Longrightarrow> map_of found (other_endpoint e i) = nodes (other_endpoint e i)"
    using Cons.prems(4,5) by simp_all
  note one = bfs_neighbor_step [where found = found, OF Cons.prems(1-3) n0 depth e]
  have s1: "bfs_scan nodes edges opts start l d {i} ?s1" "i \<in> bfs_visited ?s1"
    "\<forall>e\<in>set es. other_endpoint e i \<notin> bfs_visited ?s1 \<longrightarrow>
       map_of found (other_endpoint e i) = nodes (other_endpoint e i)"
    using one Cons.prems(2,5) by simp_all
  have es: "\<forall>e\<in>set es. e \<in> edges \<and> touches (ro_direction opts) i e \<and> edge_wanted opts e"
    using Cons.prems(4) by simp
  note IH = Cons.IH [OF s1(1,2) Cons.prems(3) es s1(3)]
  have "bfs_link nodes edges opts i (other_endpoint e i) \<longrightarrow>
      bfs_covered l (fold (bfs_neighbor opts n0 d found) es ?s1) (Suc d) (other_endpoint e i)"
    using one IH bfs_covered_grow by blast
  moreover have "set (bfs_queue s) \<subseteq> set (bfs_queue (fold (bfs_neighbor opts n0 d found) es ?s1))"
    using one IH by (meson subset_trans)
  ultimately show ?case using one IH by simp
qed simp

section \<open>One iteration\<close>

lemma bfs_expand_step:
  assumes sc: "bfs_scan nodes edges opts start l d {i} s" and i: "i \<in> bfs_visited s" "l i = d"
    and n0: "node_id n0 = i" and depth: "\<not> depth_reached opts d"
  shows "\<exists>s'. bfs_expand q opts n0 d s = Inr s' \<and> bfs_scan nodes edges opts start l d {} s' \<and>
    bfs_visited s' = bfs_visited s"
proof -
  obtain adj where adj: "get_adjacent_edges q i (ro_direction opts) (ro_edge_kinds opts) = Inr adj"
    "set adj = {e \<in> edges. touches (ro_direction opts) i e \<and> edge_wanted opts e}"
    by (rule adjacent_edges)
  define es where "es = sort_key (\<lambda>e. edge_priority (edge_kind_of e)) adj"
  have es: "set es = set adj" by (simp add: es_def)
  obtain found where f: "fetch_neighbors q i es (bfs_visited s) = Inr found"
    "\<forall>e\<in>set es. other_endpoint e i \<notin> bfs_visited s \<longrightarrow> map_of found (other_endpoint e i) = nodes (other_endpoint e i)"
    by (rule fetched_neighbors)
  have wanted: "\<forall>e\<in>set es. e \<in> edges \<and> touches (ro_direction opts) i e \<and> edge_wanted opts e"
    using adj(2) es by blast
  let ?s' = "fold (bfs_neighbor opts n0 d found) es s"
  note F = bfs_neighbors_fold [OF sc i n0 depth wanted f(2)]
  have "bfs_covered l ?s' (Suc d) w" if "bfs_link nodes edges opts i w" for w
  proof -
    from that obtain e where "e \<in> set es" "other_endpoint e i = w"
      unfolding bfs_link_def es adj(2) by blast
    with F that show ?thesis by blast
  qed
  with i(2) have "bfs_scan nodes edges opts start l d {} ?s'"
    by (intro bfs_scan_close [OF F [THEN conjunct1]]) auto
  moreover have "bfs_expand q opts n0 d s = Inr ?s'"
    using adj(1) f(1) n0 by (simp add: bfs_expand_def es_def Let_def)
  ultimately show ?thesis using F by blast
qed

lemma bfs_iteration_step:
  assumes inv: "bfs_scan nodes edges opts start l lo {} s" and run: "bfs_running opts s"
  shows "\<exists>s' l' lo'. bfs_iteration q opts no_cancel s = Inr s' \<and>
    bfs_scan nodes edges opts start l' lo' {} s' \<and>
    (s', s) \<in> measures [bfs_measure nodes, length \<circ> bfs_queue]"
proof -
  obtain x rest where qs: "bfs_queue s = x # rest"
    using run by (cases "bfs_queue s") (auto simp: bfs_running_def)
  let ?i = "node_id (step_node x)" and ?d = "step_depth x"
  note D = bfs_scanD [OF inv]
  have x: "x \<in> set (bfs_queue s)" using qs by simp
  have dx: "lo \<le> ?d" "?d \<le> Suc lo" using D(6,7) [OF x] .
  have rest: "?d \<le> step_depth y" "step_depth y \<le> Suc ?d" "y \<in> set (bfs_queue s)" if "y \<in> set rest" for y
    using that D(10) D(7) [of y] qs dx by auto
  have ok: "step_ok nodes edges opts start x" using D(5) [OF x] .
  define s0 where "s0 = s\<lparr>bfs_queue := rest, bfs_ticks := Suc (bfs_ticks s)\<rparr>"
  show ?thesis
  proof (cases "?i \<in> bfs_visited s")
    case True
    have cov: "bfs_covered l s0 k w" if "bfs_covered l s k w" for k w
      using that True D(9) [OF x True] qs by (auto simp: bfs_covered_def s0_def)
    have "bfs_scan nodes edges opts start l ?d {} s0"
    proof (rule bfs_scanI)
      show "\<And>v. v \<in> bfs_visited s0 \<Longrightarrow> l v \<le> ?d" using D(3) dx(1) by (force simp: s0_def)
      show "\<And>y. y \<in> set (bfs_queue s0) \<Longrightarrow> ?d \<le> step_depth y" using rest(1) by (simp add: s0_def)
      show "\<And>y. y \<in> set (bfs_queue s0) \<Longrightarrow> step_depth y \<le> Suc ?d" using rest(2) by (simp add: s0_def)
      show "sorted (map step_depth (bfs_queue s0))" using D(10) qs by (simp add: s0_def)
      show "bfs_covered l s0 0 start" using D(15) cov by blast
      show "\<And>v w. v \<in> bfs_visited s0 \<Longrightarrow> v \<notin> {} \<Longrightarrow> \<not> depth_reached opts (l v) \<Longrightarrow>
          bfs_link nodes edges opts v w \<Longrightarrow> bfs_covered l s0 (Suc (l v)) w"
        using D(16) cov by (simp add: s0_def)
      show "map_of (bfs_nodes s0) = nodes |` dom (map_of (bfs_nodes s0))" using D(11) by (simp add: s0_def)
    qed (use D rest(3) in \<open>auto simp: s0_def\<close>)
    moreover have "bfs_iteration q opts no_cancel s = Inr s0"
      using True qs by (simp add: bfs_iteration_def s0_def Let_def)
    moreover have "(s0, s) \<in> measures [bfs_measure nodes, length \<circ> bfs_queue]"
      using qs by (simp add: s0_def bfs_measure_def)
    ultimately show ?thesis by blast
  next
    case False
    let ?l = "l(?i := ?d)"
    define s1 where "s1 = s0\<lparr>bfs_visited := insert ?i (bfs_visited s0),
        bfs_edges := bfs_edges s0 @ (case step_edge x of None \<Rightarrow> [] | Some e \<Rightarrow> [e])\<rparr>"
    have fields: "bfs_visited s1 = insert ?i (bfs_visited s)" "bfs_queue s1 = rest" "bfs_nodes s1 = bfs_nodes s"
      "bfs_edges s1 = bfs_edges s @ (case step_edge x of None \<Rightarrow> [] | Some e \<Rightarrow> [e])"
      by (simp_all add: s1_def s0_def)
    have lv: "?l v = l v" if "v \<in> bfs_visited s" for v using that False by auto
    have cov: "bfs_covered ?l s1 k w" if "bfs_covered l s k w" for k w
      using that False qs by (auto simp: bfs_covered_def fields)
    have scan: "bfs_scan nodes edges opts start ?l ?d {?i} s1"
    proof (rule bfs_scanI)
      show "hops (bfs_link nodes edges opts) start (?l v) v" if "v \<in> bfs_visited s1" for v
        using that D(1) ok by (auto simp: fields step_ok_def)
      show "nodes v \<noteq> None" if "v \<in> bfs_visited s1" for v
        using that D(2) ok by (auto simp: fields step_ok_def)
      show "?l v \<le> ?d" if "v \<in> bfs_visited s1" for v
        using that D(3) [of v] dx by (auto simp: fields)
      show "v \<in> dom (map_of (bfs_nodes s1))" if "v \<in> bfs_visited s1" "v \<noteq> start" for v
        using that D(4) [of v] D(8) [OF x] unfolding fields by auto
      show "step_ok nodes edges opts start y" if "y \<in> set (bfs_queue s1)" for y
        using that D(5) rest(3) by (simp add: fields)
      show "?d \<le> step_depth y" if "y \<in> set (bfs_queue s1)" for y using that rest(1) by (simp add: fields)
      show "step_depth y \<le> Suc ?d" if "y \<in> set (bfs_queue s1)" for y using that rest(2) by (simp add: fields)
      show "node_id (step_node y) \<in> dom (map_of (bfs_nodes s1))"
        if "y \<in> set (bfs_queue s1)" "node_id (step_node y) \<noteq> start" for y
        using that D(8) [of y] rest(3) unfolding fields by blast
      show "?l (node_id (step_node y)) \<le> step_depth y"
        if "y \<in> set (bfs_queue s1)" "node_id (step_node y) \<in> bfs_visited s1" for y
        using that D(9) [of y] rest(1,3) by (auto simp: fields)
      show "sorted (map step_depth (bfs_queue s1))" using D(10) qs by (simp add: fields)
      show "map_of (bfs_nodes s1) = nodes |` dom (map_of (bfs_nodes s1))" using D(11) by (simp add: fields)
      show "dom (map_of (bfs_nodes s1)) \<subseteq> {v. bfs_target nodes edges opts start v}"
        using D(12) by (simp add: fields)
      show "ro_include_start opts \<Longrightarrow> start \<in> dom (map_of (bfs_nodes s1))" using D(13) by (simp add: fields)
      show "set (bfs_edges s1) \<subseteq> edges" using D(14) ok by (auto simp: fields step_ok_def split: option.split)
      show "bfs_covered ?l s1 0 start" using D(15) cov by blast
      show "bfs_covered ?l s1 (Suc (?l v)) w" if "v \<in> bfs_visited s1" "v \<notin> {?i}"
          "\<not> depth_reached opts (?l v)" "bfs_link nodes edges opts v w" for v w
        using that D(16) [of v w] cov by (auto simp: fields)
    qed
    have "?i \<in> dom nodes" using ok by (auto simp: step_ok_def)
    then have meas: "bfs_measure nodes s1 < bfs_measure nodes s"
      unfolding bfs_measure_def fields using False finite_nodes
      by (intro psubset_card_mono) auto
    have unf: "bfs_iteration q opts no_cancel s =
        (if depth_reached opts ?d then Inr s1 else bfs_expand q opts (step_node x) ?d s1)"
      using False qs by (simp add: bfs_iteration_def s1_def s0_def Let_def)
    show ?thesis
    proof (cases "depth_reached opts ?d")
      case True
      then have "bfs_scan nodes edges opts start ?l ?d {} s1"
        by (intro bfs_scan_close [OF scan]) simp
      with True unf meas show ?thesis by (intro exI [of _ s1] exI [of _ ?l] exI [of _ ?d]) simp
    next
      case go: False
      obtain s' where s': "bfs_expand q opts (step_node x) ?d s1 = Inr s'"
        "bfs_scan nodes edges opts start ?l ?d {} s'" "bfs_visited s' = bfs_visited s1"
        using bfs_expand_step [OF scan _ _ refl go] by (auto simp: fields)
      have "bfs_measure nodes s' < bfs_measure nodes s" using meas s'(3) by (simp add: bfs_measure_def)
      with go unf s' show ?thesis by (intro exI [of _ s'] exI [of _ ?l] exI [of _ ?d]) simp
    qed
  qed
qed

section \<open>The whole traversal\<close>

lemma bfs_complete:
  assumes inv: "bfs_scan nodes edges opts start l lo {} s" and q: "bfs_queue s = []"
    and "hops (bfs_link nodes edges opts) start k v" and "in_depth opts k"
  shows "v \<in> bfs_visited s \<and> l v \<le> k"
  using assms(3,4)
proof (induction k v rule: hops.induct)
  case hops_0
  show ?case using bfs_scanD(15) [OF inv] q by (simp add: bfs_covered_def)
next
  case (hops_Suc k u w)
  then have u: "u \<in> bfs_visited s" "l u \<le> k" using in_depth_mono by fastforce+
  have "in_depth opts (Suc (l u))" using hops_Suc.prems u(2) in_depth_mono by fastforce
  then have "bfs_covered l s (Suc (l u)) w"
    using bfs_scanD(16) [OF inv u(1) _ _ hops_Suc.hyps(2)] in_depth_Suc by simp
  with q u(2) show ?case by (auto simp: bfs_covered_def)
qed

lemma traverse_bfs_spec:
  fixes options
  defines "opts \<equiv> resolve options"
  assumes f: "nodes start = Some n"
  shows "\<exists>g. traverse_bfs q no_cancel start options = Some (Inr g) \<and> sg_roots g = [start] \<and>
    set (sg_edges g) \<subseteq> edges \<and>
    map_of (sg_nodes g) = nodes |` dom (map_of (sg_nodes g)) \<and>
    dom (map_of (sg_nodes g)) \<subseteq> {v. bfs_target nodes edges opts start v} \<and>
    (length (sg_nodes g) < ro_limit opts \<longrightarrow>
       dom (map_of (sg_nodes g)) = {v. bfs_target nodes edges opts start v})"
proof -
  have id: "node_id n = start" using node_key [OF f] .
  let ?I = "\<lambda>s. \<exists>l lo. bfs_scan nodes edges opts start l lo {} s"
  have "bfs_scan nodes edges opts start (\<lambda>_. 0) 0 {} (bfs_start opts n)"
    by (rule bfs_scanI)
       (auto simp: bfs_start_def id f step_ok_def bfs_target_def bfs_covered_def restrict_map_def
         fun_eq_iff intro: hops_0 split: if_splits)
  then have init: "?I (bfs_start opts n)" by blast
  have "\<exists>s. loop_while (bfs_running opts) (bfs_iteration q opts no_cancel) (bfs_start opts n) = Some (Inr s) \<and>
      ?I s \<and> \<not> bfs_running opts s"
  proof (rule loop_while_total [where r = "measures [bfs_measure nodes, length \<circ> bfs_queue]"])
    show "?I (bfs_start opts n)" by (rule init)
    fix s assume "?I s" "bfs_running opts s"
    with bfs_iteration_step show "\<exists>s'. bfs_iteration q opts no_cancel s = Inr s' \<and> ?I s' \<and>
        (s', s) \<in> measures [bfs_measure nodes, length \<circ> bfs_queue]" by blast
  qed simp
  then obtain s l lo where
    s: "loop_while (bfs_running opts) (bfs_iteration q opts no_cancel) (bfs_start opts n) = Some (Inr s)"
      "bfs_scan nodes edges opts start l lo {} s" "\<not> bfs_running opts s" by blast
  note D = bfs_scanD [OF s(2)]
  have "{v. bfs_target nodes edges opts start v} \<subseteq> dom (map_of (bfs_nodes s))"
    if "length (bfs_nodes s) < ro_limit opts"
  proof
    fix v assume "v \<in> {v. bfs_target nodes edges opts start v}"
    moreover have "bfs_queue s = []" using that s(3) by (simp add: bfs_running_def)
    ultimately show "v \<in> dom (map_of (bfs_nodes s))"
      using bfs_complete [OF s(2)] D(4,13) unfolding bfs_target_def by blast
  qed
  then show ?thesis
    using s(1) f D(11,12,14)
    by (simp add: traverse_bfs_def opts_def [symmetric] node_by_id make_subgraph_def Let_def) blast
qed

end

end
