(* ===== verification/Sample_Platform.thy ===== *)
theory Sample_Platform
  imports Store_Proofs Impact Layers Breadth_First
begin

text \<open>
  A concrete instance of everything the store takes as an argument, on which the examples are
  evaluated and which shows that the documented behaviour asked of it can be met: rows in
  table order, and a prefix code in the place of the JSON text.
\<close>

section \<open>A prefix code for texts, lists and JSON values\<close>

fun enc_str :: "string \<Rightarrow> string" where
  "enc_str [] = ''.''"
| "enc_str (c # s) = CHR ''+'' # c # enc_str s"

fun dec_str :: "string \<Rightarrow> (string \<times> string) option" where
  "dec_str (a # b # s) =
     (if a = CHR ''+'' then map_option (\<lambda>(t, r). (b # t, r)) (dec_str s)
      else if a = CHR ''.'' then Some ([], b # s) else None)"
| "dec_str [a] = (if a = CHR ''.'' then Some ([], []) else None)"
| "dec_str [] = None"

lemma dec_enc_str [simp]: "dec_str (enc_str s @ r) = Some (s, r)"
proof (induction s)
  case Nil
  show ?case by (cases r) simp_all
qed simp

text \<open>A list is a \<open>+\<close> and a code for each member, and a closing dot; the fuel bounds the
  number of members.\<close>

fun enc_list :: "('a \<Rightarrow> string) \<Rightarrow> 'a list \<Rightarrow> string" where
  "enc_list e [] = ''.''"
| "enc_list e (x # xs) = CHR ''+'' # e x @ enc_list e xs"

fun dec_list :: "nat \<Rightarrow> (string \<Rightarrow> ('a \<times> string) option) \<Rightarrow> string \<Rightarrow> ('a list \<times> string) option" where
  "dec_list 0 d s = None"
| "dec_list (Suc n) d [] = None"
| "dec_list (Suc n) d (a # s) =
     (if a = CHR ''.'' then Some ([], s)
      else case d s of
          None \<Rightarrow> None
        | Some (x, s) \<Rightarrow> map_option (\<lambda>(xs, r). (x # xs, r)) (dec_list n d s))"

lemma dec_enc_list:
  assumes "\<And>x r. x \<in> set xs \<Longrightarrow> d (e x @ r) = Some (x, r)" and "length xs < n"
  shows "dec_list n d (enc_list e xs @ r) = Some (xs, r)"
  using assms
proof (induction xs arbitrary: n)
  case Nil
  then show ?case by (cases n) simp_all
next
  case (Cons x xs)
  then obtain k where "n = Suc k" by (cases n) simp_all
  with Cons show ?case by simp
qed

lemma enc_list_length: "length xs < length (enc_list e xs)"
  by (induction xs) simp_all

fun enc_pair :: "('b \<Rightarrow> string) \<Rightarrow> string \<times> 'b \<Rightarrow> string" where
  "enc_pair e (k, v) = enc_str k @ e v"

definition dec_pair :: "(string \<Rightarrow> ('b \<times> string) option) \<Rightarrow> string \<Rightarrow> ((string \<times> 'b) \<times> string) option" where
  "dec_pair d s = Option.bind (dec_str s) (\<lambda>(k, s). map_option (\<lambda>(v, r). ((k, v), r)) (d s))"

definition enc_strings :: "string list \<Rightarrow> string" where
  "enc_strings = enc_list enc_str"

definition dec_strings :: "string \<Rightarrow> string list option" where
  "dec_strings s = map_option fst (dec_list (length s) dec_str s)"

lemma dec_enc_strings: "dec_strings (enc_strings d) = Some d"
  using dec_enc_list [of d dec_str enc_str "length (enc_strings d)" "[]"] enc_list_length [of d enc_str]
  by (simp add: dec_strings_def enc_strings_def)

lemma enc_list_cong [fundef_cong]:
  assumes "xs = ys" and "\<And>x. x \<in> set ys \<Longrightarrow> e x = e' x"
  shows "enc_list e xs = enc_list e' ys"
  using assms(2) unfolding assms(1) by (induction ys) simp_all

fun enc_json :: "json \<Rightarrow> string" where
  "enc_json JNull = ''n''"
| "enc_json (JBool b) = (if b then ''t'' else ''f'')"
| "enc_json (JNumber t) = CHR ''d'' # enc_str t"
| "enc_json (JString t) = CHR ''s'' # enc_str t"
| "enc_json (JArray js) = CHR ''a'' # enc_list enc_json js"
| "enc_json (JObject m) = CHR ''o'' # enc_list (\<lambda>(k, v). enc_str k @ enc_json v) m"

fun dec_json :: "nat \<Rightarrow> string \<Rightarrow> (json \<times> string) option" where
  "dec_json 0 s = None"
| "dec_json (Suc n) [] = None"
| "dec_json (Suc n) (a # s) =
     (if a = CHR ''n'' then Some (JNull, s)
      else if a = CHR ''t'' then Some (JBool True, s)
      else if a = CHR ''f'' then Some (JBool False, s)
      else if a = CHR ''d'' then map_option (\<lambda>(t, r). (JNumber t, r)) (dec_str s)
      else if a = CHR ''s'' then map_option (\<lambda>(t, r). (JString t, r)) (dec_str s)
      else if a = CHR ''a''
      then map_option (\<lambda>(t, r). (JArray t, r)) (dec_list (Suc (length s)) (\<lambda>s. dec_json n s) s)
      else if a = CHR ''o''
      then map_option (\<lambda>(t, r). (JObject t, r))
             (dec_list (Suc (length s)) (dec_pair (\<lambda>s. dec_json n s)) s)
      else None)"

lemma enc_list_member: "x \<in> set xs \<Longrightarrow> length (e x) < length (enc_list e xs)"
  by (induction xs) auto

lemma enc_list_fuel: "length xs < Suc (length (enc_list e xs @ r))"
  using enc_list_length [of xs e] by simp

lemma dec_enc_json: "length (enc_json j) \<le> n \<Longrightarrow> dec_json n (enc_json j @ r) = Some (j, r)"
proof (induction j arbitrary: n r)
  case (JArray js)
  then obtain k where n: "n = Suc k" by (cases n) auto
  have "dec_json k (enc_json x @ r') = Some (x, r')" if "x \<in> set js" for x r'
    using JArray enc_list_member [OF that, of enc_json] that n by auto
  then have "dec_list (Suc (length (enc_list enc_json js @ r))) (\<lambda>s. dec_json k s)
      (enc_list enc_json js @ r) = Some (js, r)"
    by (intro dec_enc_list enc_list_fuel) simp_all
  then show ?case using n by simp
next
  case (JObject m)
  let ?e = "\<lambda>(k, v). enc_str k @ enc_json v"
  obtain k where n: "n = Suc k" using JObject.prems by (cases n) auto
  have "dec_pair (\<lambda>s. dec_json k s) (?e x @ r') = Some (x, r')" if x: "x \<in> set m" for x r'
  proof -
    obtain key v where kv: "x = (key, v)" by (cases x)
    have "length (enc_json v) \<le> k"
      using enc_list_member [OF x, of ?e] JObject.prems n kv by simp
    then have "dec_json k (enc_json v @ r') = Some (v, r')"
      using JObject.IH [of x v] x kv by (simp add: snds.simps)
    then show ?thesis by (simp add: kv dec_pair_def)
  qed
  then have "dec_list (Suc (length (enc_list ?e m @ r))) (dec_pair (\<lambda>s. dec_json k s))
      (enc_list ?e m @ r) = Some (m, r)"
    by (intro dec_enc_list enc_list_fuel) simp_all
  then show ?case using n by simp
next
  case JNull
  then obtain k where "n = Suc k" by (cases n) (simp_all split: if_splits)
  then show ?case by simp
next
  case (JBool b)
  then obtain k where "n = Suc k" by (cases n) (simp_all split: if_splits)
  then show ?case by simp
next
  case (JNumber t)
  then obtain k where "n = Suc k" by (cases n) (simp_all split: if_splits)
  then show ?case by simp
next
  case (JString t)
  then obtain k where "n = Suc k" by (cases n) (simp_all split: if_splits)
  then show ?case by simp
qed

definition enc_metadata :: "metadata \<Rightarrow> string" where
  "enc_metadata m = enc_json (JObject m)"

definition dec_metadata :: "string \<Rightarrow> metadata option" where
  "dec_metadata s = (case dec_json (length s) s of Some (JObject m, _) \<Rightarrow> Some m | _ \<Rightarrow> None)"

lemma dec_enc_metadata: "dec_metadata (enc_metadata m) = Some m"
  using dec_enc_json [of "JObject m" "length (enc_metadata m)" "[]"]
  by (simp add: dec_metadata_def enc_metadata_def del: enc_json.simps)

section \<open>The platform\<close>

definition sample_platform :: platform where
  "sample_platform =
     \<lparr>to_json_strings = (\<lambda>d. Inr (enc_strings d)), from_json_strings = dec_strings,
      to_json_metadata = (\<lambda>m. Inr (enc_metadata m)), from_json_metadata = dec_metadata,
      now_ms = 1700000000000, node_order = (\<lambda>rs. rs), edge_order = (\<lambda>rs. rs), chars = ascii\<rparr>"

lemma sample_platform_ok: "platform_ok sample_platform"
  by (simp add: platform_ok_def sample_platform_def dec_enc_strings dec_enc_metadata)

section \<open>The type of consistent stores\<close>

typedef checked_store = "{(p, s). platform_ok p \<and> store_ok p s}"
  using sample_platform_ok new_store_ok by blast

definition checked_queries :: "checked_store \<Rightarrow> queries" where
  "checked_queries x = (case Rep_checked_store x of (p, s) \<Rightarrow> store_queries p s)"

definition checked_nodes :: "checked_store \<Rightarrow> string \<Rightarrow> node option" where
  "checked_nodes x = (case Rep_checked_store x of (p, s) \<Rightarrow> stored_node p (qb_db s))"

definition checked_edges :: "checked_store \<Rightarrow> edge set" where
  "checked_edges x = (case Rep_checked_store x of (p, s) \<Rightarrow> stored_edges p (qb_db s))"

text \<open>Every consistent store meets the contract of the traversals.\<close>

interpretation st: graph_store "checked_queries x" "checked_nodes x" "checked_edges x" for x
proof -
  obtain p s where x: "Rep_checked_store x = (p, s)" by fastforce
  then have "platform_ok p" "store_ok p s" using Rep_checked_store [of x] by simp_all
  then show "graph_store (checked_queries x) (checked_nodes x) (checked_edges x)"
    using store_is_graph_store by (simp add: checked_queries_def checked_nodes_def checked_edges_def x)
qed

lemma checkedE:
  assumes "platform_ok p" and "store_ok p s"
  obtains x where "checked_queries x = store_queries p s" "checked_nodes x = stored_node p (qb_db s)"
    "checked_edges x = stored_edges p (qb_db s)"
  using assms Abs_checked_store_inverse [of "(p, s)"]
  by (intro that [of "Abs_checked_store (p, s)"])
     (simp_all add: checked_queries_def checked_nodes_def checked_edges_def)

section \<open>A small store\<close>

text \<open>Two functions and a method in one file and a class in another; two calls and a containment.
  The node \<^verbatim>\<open>b\<close> is in the cache.\<close>

definition sample_row :: "string \<Rightarrow> node_kind \<Rightarrow> string \<Rightarrow> node_row" where
  "sample_row i kind f =
     \<lparr>nr_id = i, nr_kind = node_kind_as_str kind, nr_name = i, nr_qualified_name = i,
      nr_file_path = f, nr_language = ''rust'', nr_start_line = 1, nr_end_line = 2,
      nr_start_column = 0, nr_end_column = 0, nr_start_byte = None, nr_end_byte = None,
      nr_address = None, nr_size = None, nr_docstring = None, nr_signature = None,
      nr_return_type = None, nr_visibility = None, nr_is_exported = 0, nr_is_async = 0,
      nr_is_static = 0, nr_is_abstract = 0, nr_decorators = None, nr_type_parameters = None,
      nr_updated_at = 7\<rparr>"

definition sample_node :: "string \<Rightarrow> node_kind \<Rightarrow> string \<Rightarrow> node" where
  "sample_node i kind f =
     (node_new i kind i i f Lang_Rust 1 2)
       \<lparr>node_is_exported := Some False, node_is_async := Some False, node_is_static := Some False,
        node_is_abstract := Some False, node_updated_at := 7\<rparr>"

definition sample_edge_row :: "string \<Rightarrow> string \<Rightarrow> edge_kind \<Rightarrow> edge_row" where
  "sample_edge_row a b kind =
     \<lparr>er_source = a, er_target = b, er_kind = edge_kind_as_str kind, er_metadata = None,
      er_line = None, er_col = None, er_provenance = None\<rparr>"

definition sample_db :: db where
  "sample_db =
     \<lparr>tbl_nodes =
        [sample_row ''a'' NK_Function ''m.rs'', sample_row ''b'' NK_Function ''m.rs'',
         sample_row ''c'' NK_Method ''m.rs'', sample_row ''K'' NK_Class ''k.rs''],
      tbl_edges =
        [sample_edge_row ''a'' ''b'' EK_Calls, sample_edge_row ''b'' ''c'' EK_Calls,
         sample_edge_row ''K'' ''c'' EK_Contains],
      tbl_segments = []\<rparr>"

definition sample_store :: query_builder where
  "sample_store =
     \<lparr>qb_db = sample_db, qb_cache = nl_insert (sample_node ''b'' NK_Function ''m.rs'') (nl_new 1000)\<rparr>"

lemma sample_node_simps [simp]:
  "node_id (sample_node i kind f) = i" "node_kind (sample_node i kind f) = kind"
  "node_file_path (sample_node i kind f) = f"
  by (simp_all add: sample_node_def node_new_def)

lemma edge_new_simps [simp]:
  "edge_source (edge_new a b kind) = a" "edge_target (edge_new a b kind) = b"
  "edge_kind_of (edge_new a b kind) = kind"
  by (simp_all add: edge_new_def)

lemma sample_row_read:
  "node_from_row sample_platform (sample_row i kind f) = Inr (sample_node i kind f)"
  by (simp add: node_from_row_def sample_row_def nk.parse_as_str get_u32_def sample_node_def
      node_new_def language_or_unknown_def language_from_str_def LANGUAGES_def)

lemma sample_edge_row_read:
  "edge_from_row sample_platform (sample_edge_row a b kind) = Inr (edge_new a b kind)"
  by (simp add: edge_from_row_def sample_edge_row_def ek.parse_as_str edge_new_def)

lemma sample_stored:
  "stored_node sample_platform sample_db =
     [''a'' \<mapsto> sample_node ''a'' NK_Function ''m.rs'', ''b'' \<mapsto> sample_node ''b'' NK_Function ''m.rs'',
      ''c'' \<mapsto> sample_node ''c'' NK_Method ''m.rs'', ''K'' \<mapsto> sample_node ''K'' NK_Class ''k.rs'']"
proof
  fix i
  have id: "nr_id (sample_row i kind f) = i" for i kind f by (simp add: sample_row_def)
  show "stored_node sample_platform sample_db i =
     [''a'' \<mapsto> sample_node ''a'' NK_Function ''m.rs'', ''b'' \<mapsto> sample_node ''b'' NK_Function ''m.rs'',
      ''c'' \<mapsto> sample_node ''c'' NK_Method ''m.rs'', ''K'' \<mapsto> sample_node ''K'' NK_Class ''k.rs''] i"
    by (auto simp: stored_node_def sample_db_def id sample_row_read)
qed

lemma sample_stored_edges:
  "stored_edges sample_platform sample_db =
     {edge_new ''a'' ''b'' EK_Calls, edge_new ''b'' ''c'' EK_Calls, edge_new ''K'' ''c'' EK_Contains}"
  by (auto simp: stored_edges_def sample_db_def sample_edge_row_read)

lemma sample_db_ok: "db_ok sample_platform sample_db"
  by (simp add: db_ok_def sample_db_def sample_row_read sample_edge_row_read)
     (simp add: sample_row_def sample_edge_row_def edge_identity_def)

lemma sample_store_db [simp]: "qb_db sample_store = sample_db"
  by (simp add: sample_store_def)

lemma sample_store_ok: "store_ok sample_platform sample_store"
proof -
  have "cache_ok sample_platform sample_db
      (nl_insert (sample_node ''b'' NK_Function ''m.rs'') (nl_new 1000))"
    by (rule cache_ok_insert [OF cache_ok_new]) (simp add: sample_stored sample_node_def node_new_def)
  with sample_db_ok show ?thesis by (simp add: store_ok_def sample_store_def)
qed

end
