(* ===== verification/Store_Properties.thy ===== *)
theory Store_Properties
  imports Sample_Platform
begin

text \<open>
  The properties of the store and of \<^verbatim>\<open>find_path\<close> on it, each with an instance on the sample store.
\<close>

section \<open>Helpers\<close>

lemma stored_edges_endpoints:
  assumes "db_ok p d" and "e \<in> stored_edges p d"
  shows "stored_node p d (edge_source e) \<noteq> None" "stored_node p d (edge_target e) \<noteq> None"
proof -
  from assms(2) obtain r where r: "r \<in> set (tbl_edges d)" "edge_from_row p r = Inr e"
    by (auto simp: stored_edges_def)
  show "stored_node p d (edge_source e) \<noteq> None"
    using db_okD(4) [OF assms(1) r(1)] stored_node_None_iff [OF assms(1)] edge_from_row_fields(1) [OF r(2)]
    by auto
  show "stored_node p d (edge_target e) \<noteq> None"
    using db_okD(5) [OF assms(1) r(1)] stored_node_None_iff [OF assms(1)] edge_from_row_fields(2) [OF r(2)]
    by auto
qed

lemma stored_edges_delete:
  "stored_edges p (sql_delete_nodes P d) =
     {e \<in> stored_edges p d. \<forall>r\<in>set (tbl_nodes d). P r \<longrightarrow> edge_source e \<noteq> nr_id r \<and> edge_target e \<noteq> nr_id r}"
proof -
  have gone: "i \<notin> set (map nr_id (filter P (tbl_nodes d))) \<longleftrightarrow>
      (\<forall>r\<in>set (tbl_nodes d). P r \<longrightarrow> i \<noteq> nr_id r)" for i by auto
  have "tbl_edges (sql_delete_nodes P d) = filter (\<lambda>e.
      (\<forall>r\<in>set (tbl_nodes d). P r \<longrightarrow> er_source e \<noteq> nr_id r) \<and>
      (\<forall>r\<in>set (tbl_nodes d). P r \<longrightarrow> er_target e \<noteq> nr_id r)) (tbl_edges d)"
    unfolding sql_delete_nodes_def Let_def gone by simp
  then have rows: "r \<in> set (tbl_edges (sql_delete_nodes P d)) \<longleftrightarrow> r \<in> set (tbl_edges d) \<and>
      (\<forall>x\<in>set (tbl_nodes d). P x \<longrightarrow> er_source r \<noteq> nr_id x \<and> er_target r \<noteq> nr_id x)" for r
    by auto
  show ?thesis
    by (auto simp: stored_edges_def rows edge_from_row_fields(1,2))
qed

lemma insert_node_edges:
  assumes p: "platform_ok p" and fits: "node_fits n" and req: "\<not> lacks_required n"
  shows "stored_edges p (qb_db (snd (insert_node p n s))) =
    {e \<in> stored_edges p (qb_db s). \<forall>r\<in>set (tbl_nodes (qb_db s)). nr_id r = node_id n \<longrightarrow>
       edge_source e \<noteq> node_id n \<and> edge_target e \<noteq> node_id n}"
proof -
  obtain r where r: "node_to_row p n = Inr r" "nr_id r = node_id n"
    using node_row_roundtrip [OF p fits] by metis
  have "stored_edges p (index_name p n (sql_replace_node r d)) = stored_edges p (sql_delete_nodes (\<lambda>r'. nr_id r' = nr_id r) d)"
    for d by (simp add: stored_edges_def sql_replace_node_def Let_def)
  with r req show ?thesis by (simp add: insert_node_def stored_edges_delete)
qed

lemma cache_bound_step:
  assumes "nl_ok c" and "0 < nl_cap c" and "length (nl_entries c) \<le> nl_cap c"
  shows "length (nl_entries (snd (nl_get_touch i c))) \<le> nl_cap c"
    and "length (nl_entries (nl_insert n c)) \<le> nl_cap c"
    and "length (nl_entries (nl_remove i c)) \<le> nl_cap c"
    and "length (nl_entries (nl_remove_by_file f c)) \<le> nl_cap c"
proof -
  show "length (nl_entries (snd (nl_get_touch i c))) \<le> nl_cap c"
  proof (cases "map_of (nl_entries c) i")
    case None
    then show ?thesis using assms by (simp add: nl_get_abs(3) entries_touch_def)
  next
    case (Some v)
    then have "(i, v) \<in> set (nl_entries c)" by (rule map_of_SomeD)
    then have "length (filter (\<lambda>e. fst e \<noteq> i) (nl_entries c)) < length (nl_entries c)"
      by (intro length_filter_less [of "(i, v)"]) auto
    with Some assms show ?thesis by (simp add: nl_get_abs(3) entries_touch_def)
  qed
  show "length (nl_entries (nl_insert n c)) \<le> nl_cap c"
    using node_cache.put_bound [OF assms, of "node_id n" n] by (simp add: nl_insert_def)
  show "length (nl_entries (nl_remove i c)) \<le> nl_cap c"
    using assms by (simp add: nl_remove_abs(2) le_trans [OF length_filter_le])
  show "length (nl_entries (nl_remove_by_file f c)) \<le> nl_cap c"
    using assms by (simp add: nl_remove_by_file_abs(2) le_trans [OF length_filter_le])
qed

section \<open>The store\<close>

text \<open>C3. Whatever sequence of inserts, updates, deletes and lookups is run on a newly opened
  store: node ids stay unique, every row can be read back, no edge dangles, no two edges share
  an identity, and the cache holds nothing but what the table holds.\<close>

theorem store_stays_consistent:
  assumes "platform_ok p" and "reachable_store p s"
  shows "store_ok p s"
  using assms by (rule reachable_ok)

theorem store_stays_consistent_witness:
  "store_ok sample_platform
     (exec_op sample_platform (Op_InsertNode (sample_node ''a'' NK_Function ''m.rs''))
        (query_builder_new empty_db))"
  by (rule store_stays_consistent [OF sample_platform_ok reachable_store.stepped [OF reachable_store.opened]])
     (simp add: sample_node_def node_new_def node_fits_def opt_fits_def)

text \<open>C7. A lookup by id through the cache answers what a lookup through an empty cache answers, the
  row of the table, and a lookup never changes the tables.\<close>

theorem lookup_ignores_cache:
  assumes "platform_ok p" and "store_ok p s"
  shows "fst (get_node_by_id p i s) = fst (get_node_by_id p i (query_builder_new (qb_db s))) \<and>
    fst (get_node_by_id p i s) = Inr (stored_node p (qb_db s) i) \<and>
    qb_db (snd (get_node_by_id p i s)) = qb_db s"
proof -
  have "store_ok p (query_builder_new (qb_db s))"
    using store_okD(1) [OF assms(2)] by (simp add: store_ok_def query_builder_new_def cache_ok_new)
  with get_node_by_id_ok(1) [OF assms(1) this] get_node_by_id_ok(1,2) [OF assms]
  show ?thesis by (simp add: query_builder_new_def)
qed

theorem lookup_ignores_cache_witness:
  "fst (get_node_by_id sample_platform ''b'' sample_store) =
     Inr (Some (sample_node ''b'' NK_Function ''m.rs''))"
  by (rule lookup_ignores_cache [OF sample_platform_ok sample_store_ok,
        THEN conjunct2, THEN conjunct1, THEN trans]) (simp add: sample_stored)

text \<open>C8. The batched lookup, with its cache hits and its chunks of 500 ids, returns exactly the
  requested ids that are stored, each with its row.\<close>

theorem batch_lookup_correct:
  assumes "platform_ok p" and "store_ok p s"
  shows "\<exists>m. fst (get_nodes_by_ids p ids s) = Inr m \<and>
    map_of m = stored_node p (qb_db s) |` set ids \<and> store_ok p (snd (get_nodes_by_ids p ids s))"
  using get_nodes_by_ids_ok [OF assms] by blast

theorem batch_lookup_correct_witness:
  "\<exists>m. fst (get_nodes_by_ids sample_platform [''b'', ''x''] sample_store) = Inr m \<and>
     map_of m ''b'' = Some (sample_node ''b'' NK_Function ''m.rs'') \<and> map_of m ''x'' = None"
  using batch_lookup_correct [OF sample_platform_ok sample_store_ok, of "[''b'', ''x'']"]
  by (auto simp: sample_stored)

text \<open>C9. A node that was inserted is read back as itself with its defaults filled in, every other
  node is untouched, and what the cache held of the old one is gone. Re-inserting a node drops the
  edges at it, since replacing its row deletes the old row.\<close>

theorem insert_then_lookup:
  assumes p: "platform_ok p" and ok: "store_ok p s" and fits: "node_fits n" and req: "\<not> lacks_required n"
  shows "fst (insert_node p n s) = Inr () \<and>
    fst (get_node_by_id p i (snd (insert_node p n s))) =
      Inr (if i = node_id n then Some (stored_form p n) else stored_node p (qb_db s) i) \<and>
    stored_edges p (qb_db (snd (insert_node p n s))) =
      {e \<in> stored_edges p (qb_db s). edge_source e \<noteq> node_id n \<and> edge_target e \<noteq> node_id n}"
proof -
  note ins = insert_node_ok [OF p ok fits]
  have "node_id n \<in> nr_id ` set (tbl_nodes (qb_db s))"
    if "e \<in> stored_edges p (qb_db s)" "edge_source e = node_id n \<or> edge_target e = node_id n" for e
    using stored_edges_endpoints [OF store_okD(1) [OF ok] that(1)] that(2)
      stored_node_None_iff [OF store_okD(1) [OF ok]] by auto
  note there = this
  have "stored_edges p (qb_db (snd (insert_node p n s))) =
      {e \<in> stored_edges p (qb_db s). edge_source e \<noteq> node_id n \<and> edge_target e \<noteq> node_id n}"
    unfolding insert_node_edges [OF p fits req] by (rule Collect_cong) (metis there imageE)
  then show ?thesis
    using ins(2,3) req get_node_by_id_ok(1) [OF p ins(1)] by simp
qed

theorem insert_then_lookup_witness:
  "fst (get_node_by_id sample_platform ''b''
      (snd (insert_node sample_platform (node_new ''b'' NK_File ''n'' [] ''f'' Lang_C 3 4) sample_store))) =
     Inr (Some (stored_form sample_platform (node_new ''b'' NK_File ''n'' [] ''f'' Lang_C 3 4))) \<and>
   stored_edges sample_platform (qb_db
      (snd (insert_node sample_platform (node_new ''b'' NK_File ''n'' [] ''f'' Lang_C 3 4) sample_store))) =
     {edge_new ''K'' ''c'' EK_Contains}"
proof -
  let ?n = "node_new ''b'' NK_File ''n'' [] ''f'' Lang_C 3 4"
  have n: "node_fits ?n" "\<not> lacks_required ?n" "node_id ?n = ''b''"
    by (simp_all add: node_new_def node_fits_def opt_fits_def lacks_required_def)
  have "{e \<in> stored_edges sample_platform sample_db. edge_source e \<noteq> ''b'' \<and> edge_target e \<noteq> ''b''} =
      {edge_new ''K'' ''c'' EK_Contains}"
    unfolding sample_stored_edges by (auto simp: edge_new_def)
  with insert_then_lookup [OF sample_platform_ok sample_store_ok n(1,2), of "''b''"] n(3)
  show ?thesis by simp
qed

text \<open>C10. Deleting a file's nodes removes all of them, from the tables and from the cache, leaves every
  other node alone and leaves no edge at a deleted node.\<close>

theorem delete_file_complete:
  assumes ok: "store_ok p s"
  shows "store_ok p (snd (delete_nodes_by_file f s)) \<and>
    stored_node p (qb_db (snd (delete_nodes_by_file f s))) i =
      (case stored_node p (qb_db s) i of
         None \<Rightarrow> None | Some n \<Rightarrow> if node_file_path n = f then None else Some n) \<and>
    stored_edges p (qb_db (snd (delete_nodes_by_file f s))) =
      {e \<in> stored_edges p (qb_db s). \<forall>n.
         stored_node p (qb_db s) (edge_source e) = Some n \<or> stored_node p (qb_db s) (edge_target e) = Some n
           \<longrightarrow> node_file_path n \<noteq> f}"
proof -
  note db = store_okD(1) [OF ok]
  have "(\<exists>r\<in>set (tbl_nodes (qb_db s)). nr_file_path r = f \<and> i = nr_id r) \<longleftrightarrow>
      (\<exists>n. stored_node p (qb_db s) i = Some n \<and> node_file_path n = f)" for i
  proof
    assume "\<exists>r\<in>set (tbl_nodes (qb_db s)). nr_file_path r = f \<and> i = nr_id r"
    then obtain r where r: "r \<in> set (tbl_nodes (qb_db s))" "nr_file_path r = f" "i = nr_id r" by blast
    obtain n where n: "node_from_row p r = Inr n" using db_okD(2) [OF db r(1)] ..
    from stored_node_row [OF db r(1) n] node_from_row_fields(2) [OF n] r
    show "\<exists>n. stored_node p (qb_db s) i = Some n \<and> node_file_path n = f" by simp
  next
    assume "\<exists>n. stored_node p (qb_db s) i = Some n \<and> node_file_path n = f"
    then show "\<exists>r\<in>set (tbl_nodes (qb_db s)). nr_file_path r = f \<and> i = nr_id r"
      by (metis stored_node_SomeE node_from_row_fields(2))
  qed
  note gone = this
  have "stored_edges p (qb_db (snd (delete_nodes_by_file f s))) =
      {e \<in> stored_edges p (qb_db s). \<forall>n.
         stored_node p (qb_db s) (edge_source e) = Some n \<or> stored_node p (qb_db s) (edge_target e) = Some n
           \<longrightarrow> node_file_path n \<noteq> f}" (is "?L = ?R")
  proof -
    have "?L = {e \<in> stored_edges p (qb_db s).
        \<not> (\<exists>r\<in>set (tbl_nodes (qb_db s)). nr_file_path r = f \<and> edge_source e = nr_id r) \<and>
        \<not> (\<exists>r\<in>set (tbl_nodes (qb_db s)). nr_file_path r = f \<and> edge_target e = nr_id r)}"
      by (simp add: delete_nodes_by_file_def stored_edges_delete) blast
    also have "\<dots> = ?R" unfolding gone by blast
    finally show ?thesis .
  qed
  with delete_nodes_by_file_ok [OF ok] show ?thesis by blast
qed

theorem delete_file_complete_witness:
  "stored_node sample_platform (qb_db (snd (delete_nodes_by_file ''k.rs'' sample_store))) ''K'' = None \<and>
   stored_edges sample_platform (qb_db (snd (delete_nodes_by_file ''k.rs'' sample_store))) =
     {edge_new ''a'' ''b'' EK_Calls, edge_new ''b'' ''c'' EK_Calls}"
proof -
  have K: "stored_node sample_platform sample_db ''K'' = Some (sample_node ''K'' NK_Class ''k.rs'')"
      "node_file_path (sample_node ''K'' NK_Class ''k.rs'') = ''k.rs''"
    by (simp_all add: sample_stored sample_node_def node_new_def)
  define keep where "keep e \<longleftrightarrow> (\<forall>n. stored_node sample_platform sample_db (edge_source e) = Some n \<or>
      stored_node sample_platform sample_db (edge_target e) = Some n \<longrightarrow> node_file_path n \<noteq> ''k.rs'')" for e :: edge
  have "keep (edge_new ''a'' ''b'' EK_Calls)" "keep (edge_new ''b'' ''c'' EK_Calls)"
    "\<not> keep (edge_new ''K'' ''c'' EK_Contains)"
    by (auto simp: keep_def sample_stored)
  then have "{e \<in> stored_edges sample_platform sample_db. keep e} =
      {edge_new ''a'' ''b'' EK_Calls, edge_new ''b'' ''c'' EK_Calls}"
    unfolding sample_stored_edges by blast
  note edges = this
  note del = delete_file_complete [OF sample_store_ok, of "''k.rs''" "''K''", unfolded sample_store_db]
  show ?thesis
  proof
    show "stored_node sample_platform (qb_db (snd (delete_nodes_by_file ''k.rs'' sample_store))) ''K'' = None"
      by (rule del [THEN conjunct2, THEN conjunct1, THEN trans]) (simp add: K)
    show "stored_edges sample_platform (qb_db (snd (delete_nodes_by_file ''k.rs'' sample_store))) =
        {edge_new ''a'' ''b'' EK_Calls, edge_new ''b'' ''c'' EK_Calls}"
      by (rule del [THEN conjunct2, THEN conjunct2, THEN trans]) (rule edges [unfolded keep_def])
  qed
qed

text \<open>C5. Storing a batch of edges never fails: the edges whose two ends are stored are there
  afterwards (themselves or an edge with the same identity), nothing else is added and nothing is
  lost.\<close>

theorem insert_edges_correct:
  assumes "platform_ok p" and "store_ok p s" and "\<forall>e\<in>set es. edge_fits e"
  shows "\<exists>s'. insert_edges p es s = (Inr (), s') \<and> store_ok p s' \<and>
    stored_node p (qb_db s') = stored_node p (qb_db s) \<and>
    stored_edges p (qb_db s) \<subseteq> stored_edges p (qb_db s') \<and>
    stored_edges p (qb_db s') \<subseteq> stored_edges p (qb_db s) \<union> {e \<in> set es. both_stored p (qb_db s) e} \<and>
    (\<forall>e\<in>set es. both_stored p (qb_db s) e \<longrightarrow>
       (\<exists>e'\<in>stored_edges p (qb_db s'). same_identity e e'))"
  using assms by (rule insert_edges_spec)

theorem insert_edges_correct_witness:
  "\<exists>s'. insert_edges sample_platform [edge_new ''c'' ''a'' EK_Calls, edge_new ''a'' ''gone'' EK_Calls] sample_store =
     (Inr (), s') \<and>
     stored_edges sample_platform (qb_db s') = insert (edge_new ''c'' ''a'' EK_Calls) (stored_edges sample_platform sample_db)"
proof -
  let ?es = "[edge_new ''c'' ''a'' EK_Calls, edge_new ''a'' ''gone'' EK_Calls]"
  have fits: "\<forall>e\<in>set ?es. edge_fits e" by (simp add: edge_fits_def edge_new_def opt_fits_def)
  have both: "both_stored sample_platform sample_db (edge_new ''c'' ''a'' EK_Calls)"
    "\<not> both_stored sample_platform sample_db (edge_new ''a'' ''gone'' EK_Calls)"
    by (simp_all add: both_stored_def sample_stored edge_new_def)
  obtain s' where s': "insert_edges sample_platform ?es sample_store = (Inr (), s')"
    "stored_edges sample_platform sample_db \<subseteq> stored_edges sample_platform (qb_db s')"
    "stored_edges sample_platform (qb_db s') \<subseteq> insert (edge_new ''c'' ''a'' EK_Calls) (stored_edges sample_platform sample_db)"
    "\<exists>e'\<in>stored_edges sample_platform (qb_db s'). same_identity (edge_new ''c'' ''a'' EK_Calls) e'"
    using insert_edges_correct [OF sample_platform_ok sample_store_ok fits] both by auto
  have "e' = edge_new ''c'' ''a'' EK_Calls"
    if "e' \<in> insert (edge_new ''c'' ''a'' EK_Calls) (stored_edges sample_platform sample_db)"
      "same_identity (edge_new ''c'' ''a'' EK_Calls) e'" for e'
    using that unfolding sample_stored_edges same_identity_def by (fastforce simp: edge_new_def)
  then have "edge_new ''c'' ''a'' EK_Calls \<in> stored_edges sample_platform (qb_db s')" using s'(3,4) by blast
  with s' show ?thesis by blast
qed

end
