(* ===== verification/Traversal_Properties.thy ===== *)
theory Traversal_Properties
  imports Store_Properties
begin

text \<open>
  The properties of the traversals on the store: the lemmas of \<^verbatim>\<open>Path_Search\<close>, \<^verbatim>\<open>Impact\<close>,
  \<^verbatim>\<open>Layers\<close> and \<^verbatim>\<open>Breadth_First\<close>, stated over the stored rows through the interpretation of
  \<open>graph_store\<close>.
\<close>

text \<open>C1. \<^verbatim>\<open>find_path\<close> on a consistent store returns; it answers no path exactly when the target cannot
  be reached over edges of the requested kinds, and otherwise a shortest path made of stored nodes
  and stored edges of those kinds.\<close>

theorem find_path_shortest:
  assumes "platform_ok p" and "store_ok p s"
    and "stored_node p (qb_db s) from_id = Some fn" and "stored_node p (qb_db s) to_id = Some tn"
  shows "\<exists>r. find_path (store_queries p s) no_cancel from_id to_id kinds = Some (Inr r) \<and>
    (case r of
       None \<Rightarrow> \<not> (link (stored_node p (qb_db s)) (stored_edges p (qb_db s)) kinds)\<^sup>*\<^sup>* from_id to_id
     | Some path \<Rightarrow>
         is_path (stored_node p (qb_db s)) (stored_edges p (qb_db s)) kinds from_id to_id path \<and>
         hop_distance (link (stored_node p (qb_db s)) (stored_edges p (qb_db s)) kinds)
           from_id (length path - 1) to_id)"
proof -
  obtain x where x: "checked_queries x = store_queries p s" "checked_nodes x = stored_node p (qb_db s)"
    "checked_edges x = stored_edges p (qb_db s)" using checkedE [OF assms(1,2)] .
  from st.find_path_spec [of x, unfolded x, OF assms(3,4)] show ?thesis .
qed

theorem find_path_shortest_witness:
  "\<exists>r. find_path (store_queries sample_platform sample_store) no_cancel ''a'' ''c'' [] = Some (Inr r) \<and>
    (case r of
       None \<Rightarrow> \<not> (link (stored_node sample_platform sample_db) (stored_edges sample_platform sample_db) [])\<^sup>*\<^sup>* ''a'' ''c''
     | Some path \<Rightarrow>
         is_path (stored_node sample_platform sample_db) (stored_edges sample_platform sample_db) [] ''a'' ''c'' path \<and>
         hop_distance (link (stored_node sample_platform sample_db) (stored_edges sample_platform sample_db) [])
           ''a'' (length path - 1) ''c'')"
  by (rule find_path_shortest [OF sample_platform_ok sample_store_ok, unfolded sample_store_db])
     (simp_all add: sample_stored)



text \<open>\<^verbatim>\<open>get_callers\<close> and \<^verbatim>\<open>get_callees\<close>.\<close>

lemma callers_exact:
  assumes "platform_ok p" and "store_ok p s"
  shows "\<exists>rs. get_callers (store_queries p s) no_cancel start m = Some (Inr rs) \<and>
    distinct (map ref_id rs) \<and>
    ref_id ` set rs = {v. v \<noteq> start \<and>
      within_hops (relation_step (stored_node p (qb_db s)) (stored_edges p (qb_db s)) True RELATION_EDGE_KINDS)
        start m v} \<and>
    sorted (map (hop_count (relation_step (stored_node p (qb_db s)) (stored_edges p (qb_db s))
      True RELATION_EDGE_KINDS) start \<circ> ref_id) rs) \<and>
    (\<forall>r\<in>set rs. ref_ok (stored_node p (qb_db s)) (stored_edges p (qb_db s)) True RELATION_EDGE_KINDS r)"
proof -
  obtain x where x: "checked_queries x = store_queries p s" "checked_nodes x = stored_node p (qb_db s)"
    "checked_edges x = stored_edges p (qb_db s)" using checkedE [OF assms] .
  have "Incoming = (if True then Incoming else Outgoing)" by simp
  from st.relation_layers_spec [of _ True x, unfolded x, OF this] show ?thesis
    unfolding get_callers_def .
qed

lemma callees_exact:
  assumes "platform_ok p" and "store_ok p s"
  shows "\<exists>rs. get_callees (store_queries p s) no_cancel start m = Some (Inr rs) \<and>
    distinct (map ref_id rs) \<and>
    ref_id ` set rs = {v. v \<noteq> start \<and>
      within_hops (relation_step (stored_node p (qb_db s)) (stored_edges p (qb_db s)) False RELATION_EDGE_KINDS)
        start m v} \<and>
    sorted (map (hop_count (relation_step (stored_node p (qb_db s)) (stored_edges p (qb_db s))
      False RELATION_EDGE_KINDS) start \<circ> ref_id) rs) \<and>
    (\<forall>r\<in>set rs. ref_ok (stored_node p (qb_db s)) (stored_edges p (qb_db s)) False RELATION_EDGE_KINDS r)"
proof -
  obtain x where x: "checked_queries x = store_queries p s" "checked_nodes x = stored_node p (qb_db s)"
    "checked_edges x = stored_edges p (qb_db s)" using checkedE [OF assms] .
  have "Outgoing = (if False then Incoming else Outgoing)" by simp
  from st.relation_layers_spec [of _ False x, unfolded x, OF this] show ?thesis
    unfolding get_callees_def .
qed

text \<open>What both promise of the references they return.\<close>

definition relation_exact :: "platform \<Rightarrow> query_builder \<Rightarrow> bool \<Rightarrow> string \<Rightarrow> nat \<Rightarrow> node_ref list \<Rightarrow> bool" where
  "relation_exact p s incoming start m rs \<longleftrightarrow>
     (let step = relation_step (stored_node p (qb_db s)) (stored_edges p (qb_db s)) incoming RELATION_EDGE_KINDS in
      distinct (map ref_id rs) \<and> ref_id ` set rs = {v. v \<noteq> start \<and> within_hops step start m v} \<and>
      sorted (map (hop_count step start \<circ> ref_id) rs) \<and>
      (\<forall>r\<in>set rs. ref_ok (stored_node p (qb_db s)) (stored_edges p (qb_db s)) incoming RELATION_EDGE_KINDS r))"

text \<open>C6. \<^verbatim>\<open>get_callers\<close> returns every node that reaches the given one over at most \<open>max_depth\<close> calls,
  references or imports, except the node itself: each once, nearest first, and each with a stored
  edge it was reached by; and \<^verbatim>\<open>get_callees\<close> likewise every node reached from the given one.\<close>

theorem call_relations_exact:
  assumes "platform_ok p" and "store_ok p s"
  shows "(\<exists>rs. get_callers (store_queries p s) no_cancel start m = Some (Inr rs) \<and> relation_exact p s True start m rs) \<and>
    (\<exists>rs. get_callees (store_queries p s) no_cancel start m = Some (Inr rs) \<and> relation_exact p s False start m rs)"
  using callers_exact [OF assms, of start m] callees_exact [OF assms, of start m] unfolding relation_exact_def Let_def by blast

theorem call_relations_exact_witness:
  "(\<exists>rs. get_callers (store_queries sample_platform sample_store) no_cancel ''c'' 2 = Some (Inr rs) \<and>
     relation_exact sample_platform sample_store True ''c'' 2 rs) \<and>
   (\<exists>rs. get_callees (store_queries sample_platform sample_store) no_cancel ''c'' 2 = Some (Inr rs) \<and>
     relation_exact sample_platform sample_store False ''c'' 2 rs)"
  by (rule call_relations_exact [OF sample_platform_ok sample_store_ok])

text \<open>C4. \<^verbatim>\<open>traverse_bfs\<close> returns; every node of the result is the start or lies within the depth bound
  along wanted edges and allowed nodes, every edge is stored, and when the result stays below the
  node limit no such node is missing.\<close>

theorem bfs_sound_and_complete:
  assumes "platform_ok p" and "store_ok p s" and "stored_node p (qb_db s) start = Some n"
  shows "\<exists>g. traverse_bfs (store_queries p s) no_cancel start options = Some (Inr g) \<and> sg_roots g = [start] \<and>
    set (sg_edges g) \<subseteq> stored_edges p (qb_db s) \<and>
    map_of (sg_nodes g) = stored_node p (qb_db s) |` dom (map_of (sg_nodes g)) \<and>
    dom (map_of (sg_nodes g)) \<subseteq>
      {v. bfs_target (stored_node p (qb_db s)) (stored_edges p (qb_db s)) (resolve options) start v} \<and>
    (length (sg_nodes g) < ro_limit (resolve options) \<longrightarrow>
       dom (map_of (sg_nodes g)) =
         {v. bfs_target (stored_node p (qb_db s)) (stored_edges p (qb_db s)) (resolve options) start v})"
proof -
  obtain x where x: "checked_queries x = store_queries p s" "checked_nodes x = stored_node p (qb_db s)"
    "checked_edges x = stored_edges p (qb_db s)" using checkedE [OF assms(1,2)] .
  from st.traverse_bfs_spec [of x, unfolded x, OF assms(3)] show ?thesis .
qed

theorem bfs_sound_and_complete_witness:
  "\<exists>g. traverse_bfs (store_queries sample_platform sample_store) no_cancel ''a'' traversal_options_default =
     Some (Inr g) \<and> set (sg_edges g) \<subseteq> stored_edges sample_platform sample_db"
  using bfs_sound_and_complete [OF sample_platform_ok sample_store_ok, of "''a''" _ traversal_options_default]
  by (auto simp: sample_stored)

end
