(* ===== verification/Query_Syntax.thy ===== *)
theory Query_Syntax
  imports Prelude
begin

text \<open>
  The data of the query language of the analysis crate: the kinds of its graph
  (\<^verbatim>\<open>nodes.rs\<close>, \<^verbatim>\<open>edges.rs\<close>), the label patterns (\<^verbatim>\<open>label_reachability.rs\<close>), and the tokens,
  operations and expressions of \<^verbatim>\<open>dsl/syntax/ast.rs\<close>. A Rust string is the list of its UTF-8 bytes,
  one character each; a \<^verbatim>\<open>usize\<close> has 64 bits.
\<close>

section \<open>Kinds\<close>

datatype analysis_node_kind =
  AN_Function | AN_Struct | AN_Enum | AN_Module | AN_Trait | AN_EnumVariant | AN_Field
| AN_TypeAlias | AN_Constant | AN_Interface

datatype analysis_edge_kind =
  AE_Calls | AE_UnresolvedCall string | AE_UsesType | AE_References | AE_Contains | AE_Implements
| AE_ExternalCall string string | AE_Extends | AE_Returns | AE_TypeOf

definition valid_for :: "analysis_edge_kind \<Rightarrow> analysis_node_kind \<Rightarrow> analysis_node_kind \<Rightarrow> bool" where
  "valid_for kind source target = (case kind of
     AE_Calls \<Rightarrow> source = AN_Function \<and> target = AN_Function
   | AE_UnresolvedCall _ \<Rightarrow> source = AN_Function
   | AE_UsesType \<Rightarrow> source = AN_Function \<and>
       target \<in> {AN_Struct, AN_Enum, AN_Trait, AN_Interface, AN_TypeAlias}
   | AE_References \<Rightarrow> True
   | AE_Contains \<Rightarrow> source \<in> {AN_Module, AN_Struct, AN_Enum, AN_Trait, AN_Interface}
   | AE_Implements \<Rightarrow> source \<in> {AN_Struct, AN_Enum} \<and> target \<in> {AN_Trait, AN_Interface}
   | AE_ExternalCall _ _ \<Rightarrow> source = AN_Function
   | AE_Extends \<Rightarrow> True
   | AE_Returns \<Rightarrow> source = AN_Function
   | AE_TypeOf \<Rightarrow> True)"

datatype closure_direction = CD_Outgoing | CD_Incoming

section \<open>Label patterns\<close>

datatype edge_matcher = Exactly analysis_edge_kind | Any

text \<open>The comparison of discriminants: two kinds of the same variant, whatever their payload.\<close>

fun edge_kind_label :: "analysis_edge_kind \<Rightarrow> string" where
  "edge_kind_label AE_Calls = ''Calls''"
| "edge_kind_label (AE_UnresolvedCall _) = ''UnresolvedCall''"
| "edge_kind_label AE_UsesType = ''UsesType''"
| "edge_kind_label AE_References = ''References''"
| "edge_kind_label AE_Contains = ''Contains''"
| "edge_kind_label AE_Implements = ''Implements''"
| "edge_kind_label (AE_ExternalCall _ _) = ''ExternalCall''"
| "edge_kind_label AE_Extends = ''Extends''"
| "edge_kind_label AE_Returns = ''Returns''"
| "edge_kind_label AE_TypeOf = ''TypeOf''"

fun same_discriminant :: "analysis_edge_kind \<Rightarrow> analysis_edge_kind \<Rightarrow> bool" where
  "same_discriminant AE_Calls k = (k = AE_Calls)"
| "same_discriminant (AE_UnresolvedCall _) k = (case k of AE_UnresolvedCall _ \<Rightarrow> True | _ \<Rightarrow> False)"
| "same_discriminant AE_UsesType k = (k = AE_UsesType)"
| "same_discriminant AE_References k = (k = AE_References)"
| "same_discriminant AE_Contains k = (k = AE_Contains)"
| "same_discriminant AE_Implements k = (k = AE_Implements)"
| "same_discriminant (AE_ExternalCall _ _) k = (case k of AE_ExternalCall _ _ \<Rightarrow> True | _ \<Rightarrow> False)"
| "same_discriminant AE_Extends k = (k = AE_Extends)"
| "same_discriminant AE_Returns k = (k = AE_Returns)"
| "same_discriminant AE_TypeOf k = (k = AE_TypeOf)"

fun matches :: "edge_matcher \<Rightarrow> analysis_edge_kind \<Rightarrow> bool" where
  "matches Any kind = True"
| "matches (Exactly k) kind = same_discriminant k kind"

datatype rep = One | Star | Plus

record pattern_atom =
  pa_matcher :: edge_matcher
  pa_rep :: rep

definition atom_one :: "analysis_edge_kind \<Rightarrow> pattern_atom" where
  "atom_one kind = \<lparr>pa_matcher = Exactly kind, pa_rep = One\<rparr>"

definition atom_star :: "analysis_edge_kind \<Rightarrow> pattern_atom" where
  "atom_star kind = \<lparr>pa_matcher = Exactly kind, pa_rep = Star\<rparr>"

definition atom_plus :: "analysis_edge_kind \<Rightarrow> pattern_atom" where
  "atom_plus kind = \<lparr>pa_matcher = Exactly kind, pa_rep = Plus\<rparr>"

definition atom_any :: "rep \<Rightarrow> pattern_atom" where
  "atom_any rep = \<lparr>pa_matcher = Any, pa_rep = rep\<rparr>"

record pattern_parse_error =
  pe_atom :: string
  pe_reason :: string

definition edge_kind_from_label :: "string \<Rightarrow> analysis_edge_kind option" where
  "edge_kind_from_label label =
     (if label = ''Calls'' then Some AE_Calls
      else if label = ''UnresolvedCall'' then Some (AE_UnresolvedCall [])
      else if label = ''UsesType'' then Some AE_UsesType
      else if label = ''References'' then Some AE_References
      else if label = ''Contains'' then Some AE_Contains
      else if label = ''Implements'' then Some AE_Implements
      else if label = ''ExternalCall'' then Some (AE_ExternalCall [] [])
      else if label = ''Extends'' then Some AE_Extends
      else if label = ''Returns'' then Some AE_Returns
      else if label = ''TypeOf'' then Some AE_TypeOf
      else None)"

section \<open>Tokens\<close>

datatype token =
  T_Pipe | T_Fn | T_Type | T_Callers | T_Callees | T_Depth | T_Filter | T_Show | T_Taint
| T_Preconditions | T_Kind | T_Equals | T_LParen | T_RParen | T_Union | T_Intersect | T_Diff
| T_Path | T_Paths | T_Where | T_Intermediate | T_Via | T_Arrow | T_Entrypoints | T_Since
| T_Hot | T_Scc | T_Dominators | T_Dominates | T_Of | T_TraitImpls | T_Dispatch | T_Cluster
| T_By | T_Affected | T_MultiPath | T_LBrace | T_RBrace | T_Comma | T_Untested | T_PossibleTypes
| T_CoChanges | T_Communities | T_Complexity | T_Cfg | T_Dataflow | T_Reachable
| T_String string | T_Number nat | T_Ident string

section \<open>Operations and expressions\<close>

datatype projection = Fields | Signature | Body

datatype dsl_op =
  SelectFn string | SelectType string | Callers | Callees | Depth nat | Filter analysis_node_kind
| Show projection | Taint string | Preconditions | Since nat | Hot nat | Scc | Dispatch
| ClusterByType | Affected (affected_depth: nat) (affected_since_rev: nat) | Untested
| PossibleTypes | CoChanges | Communities | Complexity | Cfg | Dataflow
| ReachableVia (via_pattern: "pattern_atom list") (via_direction: closure_direction)

datatype set_op = SetUnion | SetIntersect | SetDiff

datatype path_mode = Shortest | AllSimple

datatype entrypoint_kind = Main | PublicApi | Test | Bench | FfiExport

datatype expr =
  Pipe "dsl_op list"
| PathQuery (path_mode: path_mode) (path_from: expr) (path_to: expr)
    (path_intermediate_kind: "analysis_node_kind option") (path_via_edge: "analysis_edge_kind option")
    (path_max_depth: "nat option")
| Entrypoints "entrypoint_kind option"
| SetOp (setop_op: set_op) (setop_left: expr) (setop_right: expr)
| DominatorsOf expr
| DominatesOf expr
| TraitImplsOf expr
| PipeFrom (pipe_base: expr) (pipe_ops: "dsl_op list")
| MultiPath (multi_sources: "expr list") (multi_to: expr) (multi_max_depth: "nat option")

section \<open>Errors\<close>

text \<open>
  A function of the lexer or the parser leaves with the \<^verbatim>\<open>ParseError\<close> of the source, with the panic
  of an index out of range, or, for the fuel of the recursive parser only, unfinished.
\<close>

datatype query_error = ParseError (error_position: nat) (error_message: string) | Index_panic | Unfinished

text \<open>The text of an error message: a quoted word, a list of words.\<close>

definition quoted :: "string \<Rightarrow> string" where
  "quoted s = CHR 0x27 # s @ [CHR 0x27]"

definition arrow_char :: string where
  "arrow_char = [CHR 0xE2, CHR 0x86, CHR 0x92]"

end
