(* ===== verification/Contracts.thy ===== *)
theory Contracts
  imports Prelude
begin

text \<open>
  What the hand-written parsers share: \<open>yields\<close>, the contract of a fallible function on both its
  outcomes, with the rule that composes contracts along \<open>and_then\<close>; the indexing of a slice that may
  run past its end; the loops that advance an index while a test holds.
\<close>

section \<open>Contracts of fallible functions\<close>

definition yields :: "('e, 'a) result \<Rightarrow> ('a \<Rightarrow> bool) \<Rightarrow> ('e \<Rightarrow> bool) \<Rightarrow> bool" where
  "yields r Q E = (case r of Inr x \<Rightarrow> Q x | Inl e \<Rightarrow> E e)"

lemma yields_simps [simp]:
  "yields (Inr x) Q E = Q x"
  "yields (Inl e) Q E = E e"
  by (simp_all add: yields_def)

lemma yields_and_then:
  assumes "yields r P E" and "\<And>x. P x \<Longrightarrow> yields (f x) Q E"
  shows "yields (and_then r f) Q E"
  using assms by (cases r) simp_all

lemma yields_map_ok: "yields (map_ok f r) Q E = yields r (\<lambda>x. Q (f x)) E"
  by (cases r) simp_all

lemma yields_mono:
  assumes "yields r P F" and "\<And>x. P x \<Longrightarrow> Q x" and "\<And>e. F e \<Longrightarrow> E e"
  shows "yields r Q E"
  using assms by (cases r) simp_all

lemma yields_Inr: "yields r Q E \<Longrightarrow> r = Inr x \<Longrightarrow> Q x"
  by simp

lemma yields_Inl: "yields r Q E \<Longrightarrow> r = Inl e \<Longrightarrow> E e"
  by simp

section \<open>Slices\<close>

text \<open>\<^verbatim>\<open>xs.get(i)\<close>; a guarded \<^verbatim>\<open>i < xs.len() && xs[i] == x\<close> is \<open>get_at xs i = Some x\<close>.\<close>

definition get_at :: "'a list \<Rightarrow> nat \<Rightarrow> 'a option" where
  "get_at xs i = (if i < length xs then Some (xs ! i) else None)"

lemma get_at_None: "get_at xs i = None \<longleftrightarrow> length xs \<le> i"
  by (simp add: get_at_def)

lemma get_at_SomeD: "get_at xs i = Some x \<Longrightarrow> i < length xs \<and> xs ! i = x"
  by (simp add: get_at_def split: if_splits)

lemma get_at_bound: "get_at xs i = Some x \<Longrightarrow> i < length xs"
  by (simp add: get_at_SomeD)

lemma get_at_drop: "get_at xs i = (case drop i xs of [] \<Rightarrow> None | x # _ \<Rightarrow> Some x)"
  by (cases "i < length xs") (simp_all add: get_at_def Cons_nth_drop_Suc [symmetric])

lemma get_at_suffix: "drop i xs = x # rest \<Longrightarrow> get_at xs i = Some x"
  by (simp add: get_at_drop)

lemma drop_suffix: "drop i xs = ys @ rest \<Longrightarrow> drop (i + length ys) xs = rest"
  by (metis add.commute append_eq_conv_conj drop_drop)

lemma drop_suffix_Suc: "drop i xs = y # rest \<Longrightarrow> drop (Suc i) xs = rest"
  using drop_suffix [of i xs "[y]" rest] by simp

lemma drop_length: "drop i xs = ys \<Longrightarrow> ys \<noteq> [] \<Longrightarrow> length xs = i + length ys"
  by (metis drop_all le_add_diff_inverse length_drop linorder_le_cases)

section \<open>Scanning\<close>

function scan :: "('a \<Rightarrow> bool) \<Rightarrow> 'a list \<Rightarrow> nat \<Rightarrow> nat" where
  "scan P xs pos = (if pos < length xs \<and> P (xs ! pos) then scan P xs (Suc pos) else pos)"
  by pat_completeness auto
termination by (relation "measure (\<lambda>(P, xs, pos). length xs - pos)") auto

declare scan.simps [simp del]

lemma scan_takeWhile: "scan P xs pos = pos + length (takeWhile P (drop pos xs))"
proof (induction P xs pos rule: scan.induct)
  case (1 P xs pos)
  show ?case
  proof (cases "pos < length xs")
    case True
    then have "drop pos xs = xs ! pos # drop (Suc pos) xs" by (simp add: Cons_nth_drop_Suc)
    then show ?thesis using 1 True by (subst scan.simps) simp
  next
    case False
    then show ?thesis by (subst scan.simps) simp
  qed
qed

lemma scan_ge: "pos \<le> scan P xs pos"
  by (simp add: scan_takeWhile)

lemma scan_bound: "pos \<le> length xs \<Longrightarrow> scan P xs pos \<le> length xs"
proof -
  assume "pos \<le> length xs"
  moreover have "length (takeWhile P (drop pos xs)) \<le> length (drop pos xs)"
    by (rule length_takeWhile_le)
  ultimately show ?thesis by (simp add: scan_takeWhile)
qed

lemma scan_suffix:
  assumes "drop pos xs = w @ rest" and "\<forall>x\<in>set w. P x" and "rest = [] \<or> \<not> P (hd rest)"
  shows "scan P xs pos = pos + length w"
proof -
  have "takeWhile P rest = []" using assms(3) by (cases rest) auto
  then show ?thesis using assms(1,2) by (simp add: scan_takeWhile takeWhile_append2)
qed

lemma scan_stop: "get_at xs (scan P xs pos) = Some x \<Longrightarrow> \<not> P x"
proof (induction P xs pos rule: scan.induct)
  case (1 P xs pos)
  then show ?case by (subst (asm) (2) scan.simps) (auto split: if_splits dest: get_at_SomeD)
qed

text \<open>The slice \<^verbatim>\<open>&xs[from..to]\<close> of an index range that lies within the list.\<close>

definition bytes_between :: "'a list \<Rightarrow> nat \<Rightarrow> nat \<Rightarrow> 'a list" where
  "bytes_between xs from to = take (to - from) (drop from xs)"

lemma bytes_between_suffix:
  "drop from xs = w @ rest \<Longrightarrow> bytes_between xs from (from + length w) = w"
  by (simp add: bytes_between_def)

lemma bytes_between_scan: "bytes_between xs pos (scan P xs pos) = takeWhile P (drop pos xs)"
  by (simp add: bytes_between_def scan_takeWhile takeWhile_eq_take [symmetric])

end
