(* ===== verification/Query_Lexer.thy ===== *)
theory Query_Lexer
  imports Query_Syntax Contracts
begin

text \<open>
  \<^verbatim>\<open>dsl/syntax/lexer.rs\<close>: the text of a query as tokens. The lexer works on the bytes of the text;
  every index it slices at stands before or after an ASCII byte. Every pass advances, so the loop ends,
  and every token it pushes is well formed.
\<close>

section \<open>The lexer\<close>

definition ascii_whitespace :: "char \<Rightarrow> bool" where
  "ascii_whitespace c \<longleftrightarrow> c \<in> {CHR '' '', CHR 0x09, CHR 0x0A, CHR 0x0C, CHR 0x0D}"

definition ascii_digit_char :: "char \<Rightarrow> bool" where
  "ascii_digit_char c \<longleftrightarrow> c \<in> set ''0123456789''"

definition ascii_letter :: "char \<Rightarrow> bool" where
  "ascii_letter c \<longleftrightarrow> c \<in> set ''abcdefghijklmnopqrstuvwxyzABCDEFGHIJKLMNOPQRSTUVWXYZ''"

definition word_start :: "char \<Rightarrow> bool" where
  "word_start c \<longleftrightarrow> ascii_letter c \<or> c = CHR ''_''"

definition word_char :: "char \<Rightarrow> bool" where
  "word_char c \<longleftrightarrow> ascii_letter c \<or> ascii_digit_char c \<or> c = CHR ''_''"

text \<open>\<^verbatim>\<open>str::parse::<usize>\<close> on a string of digits, and a byte printed as a \<^verbatim>\<open>char\<close>.\<close>

definition digits_value :: "string \<Rightarrow> nat" where
  "digits_value s = foldl (\<lambda>n c. 10 * n + (of_char c - 48)) 0 s"

definition latin1_char :: "char \<Rightarrow> string" where
  "latin1_char c = (let n = (of_char c :: nat) in
     if n < 128 then [c] else [char_of (192 + n div 64), char_of (128 + n mod 64)])"

text \<open>The words of the keyword table; \<^verbatim>\<open>fn\<close> and \<^verbatim>\<open>type\<close> come with their argument.\<close>

definition word_tokens :: "(string \<times> token) list" where
  "word_tokens =
     [(''callers'', T_Callers), (''callees'', T_Callees), (''depth'', T_Depth), (''filter'', T_Filter),
      (''show'', T_Show), (''taint'', T_Taint), (''preconditions'', T_Preconditions),
      (''kind'', T_Kind), (''union'', T_Union), (''intersect'', T_Intersect), (''diff'', T_Diff),
      (''path'', T_Path), (''paths'', T_Paths), (''where'', T_Where),
      (''intermediate'', T_Intermediate), (''via'', T_Via), (''entrypoints'', T_Entrypoints),
      (''since'', T_Since), (''hot'', T_Hot), (''scc'', T_Scc), (''dominators'', T_Dominators),
      (''dominates'', T_Dominates), (''of'', T_Of), (''trait_impls'', T_TraitImpls),
      (''dispatch'', T_Dispatch), (''cluster'', T_Cluster), (''by'', T_By),
      (''affected'', T_Affected), (''multi_path'', T_MultiPath), (''untested'', T_Untested),
      (''possible_types'', T_PossibleTypes), (''co_changes'', T_CoChanges),
      (''communities'', T_Communities), (''complexity'', T_Complexity), (''cfg'', T_Cfg),
      (''dataflow'', T_Dataflow), (''reachable'', T_Reachable)]"

definition lex_string :: "string \<Rightarrow> nat \<Rightarrow> (query_error, token list \<times> nat) result" where
  "lex_string input pos =
     (let content_start = Suc pos; end_pos = scan (\<lambda>c. c \<noteq> CHR 0x22) input content_start in
      if length input \<le> end_pos then Inl (ParseError pos ''unterminated string literal'')
      else Inr ([T_String (bytes_between input content_start end_pos)], Suc end_pos))"

definition lex_number :: "string \<Rightarrow> nat \<Rightarrow> (query_error, token list \<times> nat) result" where
  "lex_number input pos =
     (let end_pos = scan ascii_digit_char input pos; num_str = bytes_between input pos end_pos in
      if digits_value num_str < 2 ^ 64 then Inr ([T_Number (digits_value num_str)], end_pos)
      else Inl (ParseError pos (''invalid number: '' @ num_str)))"

definition lex_selector :: "string \<Rightarrow> string \<Rightarrow> nat \<Rightarrow> (query_error, token list \<times> nat) result" where
  "lex_selector input word pos =
     (let kw_token = (if word = ''fn'' then T_Fn else T_Type); peek = scan ascii_whitespace input pos in
      if get_at input peek \<noteq> Some (CHR ''('') then
        if word = ''type'' then Inr ([T_Ident ''type''], pos)
        else Inl (ParseError pos (''expected '' @ quoted ''('' @ '' after '' @ quoted word))
      else
        let pos = scan ascii_whitespace input (Suc peek) in
        if get_at input pos \<noteq> Some (CHR 0x22) then
          Inl (ParseError pos (''expected string argument for '' @ quoted word))
        else
          let content_start = Suc pos; pos = scan (\<lambda>c. c \<noteq> CHR 0x22) input content_start in
          if length input \<le> pos then Inl (ParseError (content_start - 1) ''unterminated string literal'')
          else
            let content = bytes_between input content_start pos;
                pos = scan ascii_whitespace input (Suc pos) in
            if get_at input pos \<noteq> Some (CHR '')'') then
              Inl (ParseError pos (''expected '' @ quoted '')'' @ '' after string in '' @
                quoted (word @ ''(...)'')))
            else Inr ([kw_token, T_String content], Suc pos))"

definition lex_word :: "string \<Rightarrow> nat \<Rightarrow> (query_error, token list \<times> nat) result" where
  "lex_word input start =
     (let pos = scan word_char input start; word = bytes_between input start pos in
      if word = ''fn'' \<or> word = ''type'' then lex_selector input word pos
      else case map_of word_tokens word of
        Some t \<Rightarrow> Inr ([t], pos)
      | None \<Rightarrow> Inr ([T_Ident word], pos))"

text \<open>One pass of the loop at a byte of the text: the tokens it pushes and the next position.\<close>

definition lex_step :: "string \<Rightarrow> nat \<Rightarrow> (query_error, token list \<times> nat) result" where
  "lex_step input pos =
     (let c = input ! pos in
      if ascii_whitespace c then Inr ([], Suc pos)
      else if pos + 2 < length input \<and> c = CHR 0xE2 \<and> input ! (pos + 1) = CHR 0x86 \<and>
              input ! (pos + 2) = CHR 0x92 then Inr ([T_Arrow], pos + 3)
      else if c = CHR ''|'' then Inr ([T_Pipe], Suc pos)
      else if c = CHR ''='' then Inr ([T_Equals], Suc pos)
      else if c = CHR ''('' then Inr ([T_LParen], Suc pos)
      else if c = CHR '')'' then Inr ([T_RParen], Suc pos)
      else if c = CHR 0x5C then Inr ([T_Diff], Suc pos)
      else if c = CHR ''{'' then Inr ([T_LBrace], Suc pos)
      else if c = CHR ''}'' then Inr ([T_RBrace], Suc pos)
      else if c = CHR '','' then Inr ([T_Comma], Suc pos)
      else if c = CHR ''-'' \<and> get_at input (Suc pos) = Some (CHR ''>'') then Inr ([T_Arrow], pos + 2)
      else if c = CHR 0x22 then lex_string input pos
      else if ascii_digit_char c then lex_number input pos
      else if word_start c then lex_word input pos
      else Inl (ParseError pos (''unexpected character: '' @ quoted (latin1_char c))))"

subsection \<open>Every pass advances and pushes well-formed tokens\<close>

definition token_ok :: "token \<Rightarrow> bool" where
  "token_ok t = (case t of
     T_String s \<Rightarrow> CHR 0x22 \<notin> set s
   | T_Number n \<Rightarrow> n < 2 ^ 64
   | T_Ident s \<Rightarrow> s \<noteq> [] \<and> word_start (hd s) \<and> (\<forall>c\<in>set s. word_char c) \<and>
       s \<noteq> ''fn'' \<and> map_of word_tokens s = None
   | _ \<Rightarrow> True)"

definition error_within :: "nat \<Rightarrow> query_error \<Rightarrow> bool" where
  "error_within n e = (case e of ParseError p m \<Rightarrow> p \<le> n | _ \<Rightarrow> False)"

lemma error_within_simps [simp]:
  "error_within n (ParseError p m) = (p \<le> n)"
  "\<not> error_within n Index_panic" "\<not> error_within n Unfinished"
  by (simp_all add: error_within_def)

abbreviation lex_step_ok :: "string \<Rightarrow> nat \<Rightarrow> (query_error, token list \<times> nat) result \<Rightarrow> bool" where
  "lex_step_ok input pos r \<equiv> yields r
     (\<lambda>(ts, pos'). pos < pos' \<and> pos' \<le> length input \<and> (\<forall>t\<in>set ts. token_ok t))
     (error_within (length input))"

lemma token_ok_string: "token_ok (T_String (takeWhile (\<lambda>c. c \<noteq> CHR 0x22) s))"
  by (auto simp: token_ok_def dest: set_takeWhileD)

lemma keyword_tokens_ok: "map_of word_tokens w = Some t \<Longrightarrow> token_ok t"
  by (drule map_of_SomeD) (auto simp: word_tokens_def token_ok_def)

lemma lex_string_ok: "pos < length input \<Longrightarrow> lex_step_ok input pos (lex_string input pos)"
  using scan_ge [of "Suc pos"]
  by (auto simp: lex_string_def Let_def bytes_between_scan token_ok_string Suc_le_eq not_le
      intro: less_trans [OF lessI] le_less_trans)

lemma lex_number_ok:
  assumes "pos < length input" and "ascii_digit_char (input ! pos)"
  shows "lex_step_ok input pos (lex_number input pos)"
proof -
  have "pos < scan ascii_digit_char input pos" "scan ascii_digit_char input pos \<le> length input"
    using assms scan_ge [of "Suc pos" ascii_digit_char input] scan_bound [of pos input ascii_digit_char]
    by (simp_all add: scan.simps [of ascii_digit_char input pos])
  then show ?thesis using assms by (auto simp: lex_number_def Let_def token_ok_def)
qed

lemma lex_selector_ok:
  assumes "start < pos" and "pos \<le> length input"
  shows "lex_step_ok input start (lex_selector input word pos)"
proof -
  let ?ws = "scan ascii_whitespace input" and ?str = "scan (\<lambda>c. c \<noteq> CHR 0x22) input"
  have ge: "n \<le> scan P input n" for P n by (rule scan_ge)
  have bound: "n \<le> length input \<Longrightarrow> scan P input n \<le> length input" for P n by (rule scan_bound)
  have type_ok: "token_ok (T_Ident ''type'')"
    by (simp add: token_ok_def word_start_def word_char_def ascii_letter_def word_tokens_def)
  have "token_ok (if word = ''fn'' then T_Fn else T_Type)" by (simp add: token_ok_def)
  moreover have "?ws pos \<le> length input" using bound assms by blast
  moreover have "?ws (Suc (?ws pos)) \<le> length input" if "get_at input (?ws pos) = Some c" for c
    using bound get_at_bound [OF that] by (simp add: Suc_le_eq)
  moreover have "?ws (Suc (?str (Suc p))) \<le> length input" if "\<not> length input \<le> ?str (Suc p)" for p
    using bound that by (simp add: Suc_le_eq not_le)
  moreover have "start < Suc (?ws (Suc (?str (Suc (?ws (Suc (?ws pos)))))))"
    using assms(1) ge [of pos ascii_whitespace] ge [of "Suc (?ws pos)" ascii_whitespace]
      ge [of "Suc (?ws (Suc (?ws pos)))" "\<lambda>c. c \<noteq> CHR 0x22"]
      ge [of "Suc (?str (Suc (?ws (Suc (?ws pos)))))" ascii_whitespace] by linarith
  ultimately show ?thesis using assms type_ok
    by (auto simp: lex_selector_def Let_def bytes_between_scan token_ok_string Suc_le_eq
        dest: get_at_bound)
qed

lemma word_start_char: "word_start c \<Longrightarrow> word_char c"
  by (auto simp: word_start_def word_char_def)

lemma lex_word_ok:
  assumes "pos < length input" and "word_start (input ! pos)"
  shows "lex_step_ok input pos (lex_word input pos)"
proof -
  let ?stop = "scan word_char input pos" and ?word = "takeWhile word_char (drop pos input)"
  have advance: "pos < ?stop" "?stop \<le> length input"
    using assms scan_ge [of "Suc pos" word_char input] scan_bound [of pos input word_char]
    by (simp_all add: scan.simps [of word_char input pos] word_start_char)
  have "drop pos input = input ! pos # drop (Suc pos) input" using assms(1) by (simp add: Cons_nth_drop_Suc)
  then have "?word = input ! pos # takeWhile word_char (drop (Suc pos) input)"
    using assms(2) by (simp add: word_start_char)
  then have "?word \<noteq> []" "word_start (hd ?word)" using assms(2) by simp_all
  moreover have "\<forall>c\<in>set ?word. word_char c" by (auto dest: set_takeWhileD)
  ultimately have "token_ok (T_Ident ?word)" if "?word \<noteq> ''fn''" "map_of word_tokens ?word = None"
    using that by (simp add: token_ok_def)
  with advance show ?thesis
    by (auto simp: lex_word_def Let_def bytes_between_scan lex_selector_ok keyword_tokens_ok
        split: option.splits)
qed

lemma lex_step_ok:
  assumes "pos < length input"
  shows "lex_step_ok input pos (lex_step input pos)"
proof -
  have single: "lex_step_ok input pos (Inr ([t], Suc pos))" if "token_ok t" for t
    using assms that by simp
  have plain: "token_ok T_Pipe" "token_ok T_Equals" "token_ok T_LParen" "token_ok T_RParen" "token_ok T_Diff"
    "token_ok T_LBrace" "token_ok T_RBrace" "token_ok T_Comma" "token_ok T_Arrow"
    by (simp_all add: token_ok_def)
  have "lex_step_ok input pos (Inr ([T_Arrow], pos + 2))" if "get_at input (Suc pos) = Some c" for c
    using get_at_bound [OF that] plain by simp
  moreover have "lex_step_ok input pos (Inr ([], Suc pos))" using assms by simp
  ultimately show ?thesis
    using assms lex_string_ok lex_number_ok lex_word_ok plain
    unfolding lex_step_def Let_def
    by (auto simp del: yields_simps intro!: single) (simp_all add: plain)
qed

function lex_loop :: "string \<Rightarrow> nat \<Rightarrow> token list \<Rightarrow> (query_error, token list) result" where
  "lex_loop input pos tokens =
     (if pos < length input
      then and_then (lex_step input pos) (\<lambda>(new, pos'). lex_loop input pos' (tokens @ new))
      else Inr tokens)"
  by pat_completeness auto
termination
proof (relation "measure (\<lambda>(input, pos, tokens). length input - pos)")
  fix input :: string and pos tokens x new pos'
  assume "pos < length input" "lex_step input pos = Inr x" "(new, pos') = x"
  with lex_step_ok [of pos input] show "((input, pos', tokens @ new), input, pos, tokens)
      \<in> measure (\<lambda>(input, pos, tokens). length input - pos)" by auto
qed simp

declare lex_loop.simps [simp del]

definition lex :: "string \<Rightarrow> (query_error, token list) result" where
  "lex input = lex_loop input 0 []"

lemma lex_loop_ok:
  assumes "\<forall>t\<in>set tokens. token_ok t"
  shows "yields (lex_loop input pos tokens) (\<lambda>ts. \<forall>t\<in>set ts. token_ok t)
     (error_within (length input))"
  using assms
proof (induction input pos tokens rule: lex_loop.induct)
  case (1 input pos tokens)
  show ?case
  proof (cases "pos < length input")
    case True
    show ?thesis
    proof (cases "lex_step input pos")
      case (Inr r)
      obtain new pos' where r: "r = (new, pos')" by fastforce
      then have "\<forall>t\<in>set (tokens @ new). token_ok t" using lex_step_ok [OF True] Inr "1.prems" by auto
      from "1.IH" [OF True Inr r [symmetric] this] show ?thesis
        using True Inr r by (simp add: lex_loop.simps [of input pos])
    qed (use lex_step_ok [OF True] True in \<open>simp add: lex_loop.simps [of input pos]\<close>)
  next
    case False
    with 1 show ?thesis by (simp add: lex_loop.simps [of input pos])
  qed
qed

end
