(* ===== verification/Label_Patterns.thy ===== *)
theory Label_Patterns
  imports Query_Syntax
begin

text \<open>
  The textual form of label patterns (\<^verbatim>\<open>label_reachability.rs\<close>): the parser and the formatter, and
  what the parser makes of a formatted pattern. The split at white space is the one of the Rust
  standard library, on the UTF-8 bytes of the text.
\<close>

section \<open>White space\<close>

text \<open>The number of bytes of the white-space character a text starts with, none for other texts.\<close>

definition white_width :: "string \<Rightarrow> nat" where
  "white_width s = (case s of
     [] \<Rightarrow> 0
   | c # r \<Rightarrow>
      if c \<in> {CHR 0x09, CHR 0x0A, CHR 0x0B, CHR 0x0C, CHR 0x0D, CHR '' ''} then 1
      else if c = CHR 0xC2 \<and> take 1 r \<in> {[CHR 0x85], [CHR 0xA0]} then 2
      else if c = CHR 0xE1 \<and> take 2 r = [CHR 0x9A, CHR 0x80] then 3
      else if c = CHR 0xE2 \<and> (take 1 r = [CHR 0x80] \<and> take 1 (drop 1 r) \<in>
          {[CHR 0x80], [CHR 0x81], [CHR 0x82], [CHR 0x83], [CHR 0x84], [CHR 0x85], [CHR 0x86], [CHR 0x87],
           [CHR 0x88], [CHR 0x89], [CHR 0x8A], [CHR 0xA8], [CHR 0xA9], [CHR 0xAF]} \<or>
          take 2 r = [CHR 0x81, CHR 0x9F]) then 3
      else if c = CHR 0xE3 \<and> take 2 r = [CHR 0x80, CHR 0x80] then 3
      else 0)"

function split_from :: "string \<Rightarrow> string \<Rightarrow> string list" where
  "split_from word [] = (if word = [] then [] else [word])"
| "split_from word (c # s) =
     (if white_width (c # s) = 0 then split_from (word @ [c]) s
      else (if word = [] then [] else [word]) @ split_from [] (drop (white_width (c # s)) (c # s)))"
  by pat_completeness auto
termination by (relation "measure (\<lambda>(word, s). length s)") auto

definition split_whitespace :: "string \<Rightarrow> string list" where
  "split_whitespace s = split_from [] s"

section \<open>Parsing and formatting\<close>

definition to_ascii_lowercase :: "char \<Rightarrow> char" where
  "to_ascii_lowercase c =
     (if 65 \<le> (of_char c :: nat) \<and> of_char c \<le> (90 :: nat) then char_of (of_char c + 32 :: nat) else c)"

definition eq_ignore_ascii_case :: "string \<Rightarrow> string \<Rightarrow> bool" where
  "eq_ignore_ascii_case s t \<longleftrightarrow> map to_ascii_lowercase s = map to_ascii_lowercase t"

definition labelled_atom :: "string \<Rightarrow> string \<Rightarrow> rep \<Rightarrow> (pattern_parse_error, pattern_atom) result" where
  "labelled_atom raw label rep =
     (if label = [] then
        Inl \<lparr>pe_atom = raw, pe_reason = ''repetition suffix without an edge label''\<rparr>
      else if eq_ignore_ascii_case label ''any'' then Inr \<lparr>pa_matcher = Any, pa_rep = rep\<rparr>
      else case edge_kind_from_label label of
        Some kind \<Rightarrow> Inr \<lparr>pa_matcher = Exactly kind, pa_rep = rep\<rparr>
      | None \<Rightarrow> Inl \<lparr>pe_atom = raw, pe_reason = ''unknown edge label '' @ quoted label @
          ''. Valid: Calls, UnresolvedCall, UsesType, References, Contains, Implements, '' @
          ''ExternalCall, Extends, Returns, TypeOf, any''\<rparr>)"

definition parse_pattern_atom :: "string \<Rightarrow> (pattern_parse_error, pattern_atom) result" where
  "parse_pattern_atom raw =
     (if raw \<noteq> [] \<and> last raw = CHR ''*'' then labelled_atom raw (butlast raw) Star
      else if raw \<noteq> [] \<and> last raw = CHR ''+'' then labelled_atom raw (butlast raw) Plus
      else labelled_atom raw raw One)"

definition parse_pattern :: "string \<Rightarrow> (pattern_parse_error, pattern_atom list) result" where
  "parse_pattern input =
     for_each (\<lambda>raw atoms. map_ok (\<lambda>atom. atoms @ [atom]) (parse_pattern_atom raw)) (split_whitespace input) []"

text \<open>The \<^verbatim>\<open>Display\<close> of the error.\<close>

definition pattern_error_text :: "pattern_parse_error \<Rightarrow> string" where
  "pattern_error_text e = ''invalid pattern atom '' @ quoted (pe_atom e) @ '': '' @ pe_reason e"

definition atom_text :: "pattern_atom \<Rightarrow> string" where
  "atom_text atom =
     (case pa_matcher atom of Any \<Rightarrow> ''any'' | Exactly kind \<Rightarrow> edge_kind_label kind) @
     (case pa_rep atom of One \<Rightarrow> '''' | Star \<Rightarrow> ''*'' | Plus \<Rightarrow> ''+'')"

fun join :: "string \<Rightarrow> string list \<Rightarrow> string" where
  "join sep [] = []"
| "join sep [s] = s"
| "join sep (s # t # ts) = s @ sep @ join sep (t # ts)"

definition format_pattern :: "pattern_atom list \<Rightarrow> string" where
  "format_pattern pattern = join '' '' (map atom_text pattern)"

section \<open>What the parser makes of a formatted pattern\<close>

text \<open>The text of a kind does not show its payload; the parser reads it with an empty one.\<close>

definition erase_kind :: "analysis_edge_kind \<Rightarrow> analysis_edge_kind" where
  "erase_kind k = (case k of AE_UnresolvedCall _ \<Rightarrow> AE_UnresolvedCall [] | AE_ExternalCall _ _ \<Rightarrow> AE_ExternalCall [] [] | _ \<Rightarrow> k)"

definition erase_atom :: "pattern_atom \<Rightarrow> pattern_atom" where
  "erase_atom a = a\<lparr>pa_matcher := (case pa_matcher a of Any \<Rightarrow> Any | Exactly k \<Rightarrow> Exactly (erase_kind k))\<rparr>"

definition erased_atom :: "pattern_atom \<Rightarrow> bool" where
  "erased_atom a \<longleftrightarrow> erase_atom a = a"

lemma map_erase_atom: "\<forall>a\<in>set as. erased_atom a \<Longrightarrow> map erase_atom as = as"
  by (induction as) (simp_all add: erased_atom_def)

definition plain_char :: "char \<Rightarrow> bool" where
  "plain_char c \<longleftrightarrow> c \<notin> {CHR 0x09, CHR 0x0A, CHR 0x0B, CHR 0x0C, CHR 0x0D, CHR '' '', CHR 0xC2, CHR 0xE1, CHR 0xE2, CHR 0xE3}"

lemma white_width_plain: "plain_char c \<Longrightarrow> white_width (c # s) = 0"
  by (simp add: plain_char_def white_width_def)

lemma white_width_space: "white_width (CHR '' '' # s) = 1"
  by (simp add: white_width_def)

lemma split_from_word:
  assumes "\<forall>c\<in>set w. plain_char c"
  shows "split_from v (w @ s) = split_from (v @ w) s"
  using assms by (induction w arbitrary: v) (simp_all add: white_width_plain)

lemma split_from_join:
  assumes "\<forall>w\<in>set ws. w \<noteq> [] \<and> (\<forall>c\<in>set w. plain_char c)"
  shows "split_from [] (join '' '' ws) = ws"
  using assms
proof (induction "'' ''" ws rule: join.induct)
  case (2 s)
  then show ?case using split_from_word [of s "[]" "[]"] by simp
next
  case (3 s t ts)
  then show ?case using split_from_word [of s "[]"] by (simp add: white_width_space)
qed simp

lemma edge_kind_label_chars:
  "edge_kind_label k \<noteq> []" "\<forall>c\<in>set (edge_kind_label k). plain_char c"
  "last (edge_kind_label k) \<noteq> CHR ''*''" "last (edge_kind_label k) \<noteq> CHR ''+''"
  "\<not> eq_ignore_ascii_case (edge_kind_label k) ''any''" "edge_kind_from_label (edge_kind_label k) = Some (erase_kind k)"
  by (cases k; simp add: plain_char_def eq_ignore_ascii_case_def to_ascii_lowercase_def edge_kind_from_label_def erase_kind_def)+

lemma atom_text_chars: "atom_text a \<noteq> [] \<and> (\<forall>c\<in>set (atom_text a). plain_char c)"
proof -
  have "\<forall>c\<in>set ''any*+''. plain_char c" by (simp add: plain_char_def)
  then show ?thesis
    using edge_kind_label_chars(1,2)
    by (auto simp: atom_text_def split: edge_matcher.splits rep.splits)
qed

lemma any_text: "eq_ignore_ascii_case ''any'' ''any''"
  by (simp add: eq_ignore_ascii_case_def)

lemma parse_atom_text: "parse_pattern_atom (atom_text a) = Inr (erase_atom a)"
proof (cases "pa_matcher a")
  case Any
  then show ?thesis using any_text
    by (cases a; cases "pa_rep a") (simp_all add: atom_text_def parse_pattern_atom_def labelled_atom_def erase_atom_def)
next
  case (Exactly k)
  then show ?thesis using edge_kind_label_chars [of k]
    by (cases a; cases "pa_rep a") (simp_all add: atom_text_def parse_pattern_atom_def labelled_atom_def erase_atom_def butlast_append)
qed

lemma parse_format_pattern: "parse_pattern (format_pattern pattern) = Inr (map erase_atom pattern)"
proof -
  have split: "split_whitespace (format_pattern pattern) = map atom_text pattern"
    unfolding split_whitespace_def format_pattern_def by (rule split_from_join) (use atom_text_chars in auto)
  have "for_each (\<lambda>raw atoms. map_ok (\<lambda>atom. atoms @ [atom]) (parse_pattern_atom raw)) (map atom_text pattern) as =
      Inr (as @ map erase_atom pattern)" for as
    by (induction pattern arbitrary: as) (simp_all add: parse_atom_text)
  then show ?thesis by (simp add: parse_pattern_def split)
qed

end
