(* ===== verification/Query_Parser.thy ===== *)
theory Query_Parser
  imports Query_Lexer Label_Patterns
begin

text \<open>
  The parser of the query language (\<^verbatim>\<open>dsl/syntax/parser/\<close>). Every function takes the tokens and a
  position and returns its value with the position after it, or an error; a position that is read
  without a test (\<^verbatim>\<open>tokens[*pos]\<close>) may panic. \<open>dbg\<close> is the text \<^verbatim>\<open>{:?}\<close> prints for a token.
\<close>

type_synonym 'a parsed = "(query_error, 'a \<times> nat) result"

section \<open>Shared steps\<close>

text \<open>\<^verbatim>\<open>if *pos >= tokens.len() || tokens[*pos] != t { return Err(..) } *pos += 1\<close>.\<close>

definition expect :: "token \<Rightarrow> string \<Rightarrow> token list \<Rightarrow> nat \<Rightarrow> (query_error, nat) result" where
  "expect t message tokens pos =
     (if get_at tokens pos = Some t then Inr (Suc pos) else Inl (ParseError pos message))"

text \<open>A number, a string, an identifier at the position.\<close>

definition number_at :: "string \<Rightarrow> string \<Rightarrow> token list \<Rightarrow> nat \<Rightarrow> nat parsed" where
  "number_at missing wrong tokens pos = (case get_at tokens pos of
     None \<Rightarrow> Inl (ParseError pos missing)
   | Some (T_Number n) \<Rightarrow> Inr (n, Suc pos)
   | Some _ \<Rightarrow> Inl (ParseError pos wrong))"

definition string_at :: "string \<Rightarrow> string \<Rightarrow> token list \<Rightarrow> nat \<Rightarrow> string parsed" where
  "string_at missing wrong tokens pos = (case get_at tokens pos of
     None \<Rightarrow> Inl (ParseError pos missing)
   | Some (T_String s) \<Rightarrow> Inr (s, Suc pos)
   | Some _ \<Rightarrow> Inl (ParseError pos wrong))"

definition ident_at :: "string \<Rightarrow> string \<Rightarrow> token list \<Rightarrow> nat \<Rightarrow> string parsed" where
  "ident_at missing wrong tokens pos = (case get_at tokens pos of
     None \<Rightarrow> Inl (ParseError pos missing)
   | Some (T_Ident s) \<Rightarrow> Inr (s, Suc pos)
   | Some _ \<Rightarrow> Inl (ParseError pos wrong))"

section \<open>Names of kinds\<close>

definition parse_node_kind :: "string \<Rightarrow> nat \<Rightarrow> (query_error, analysis_node_kind) result" where
  "parse_node_kind s pos =
     (if s = ''Function'' then Inr AN_Function
      else if s = ''Struct'' then Inr AN_Struct
      else if s = ''Enum'' then Inr AN_Enum
      else if s = ''Module'' then Inr AN_Module
      else if s = ''Trait'' then Inr AN_Trait
      else if s = ''EnumVariant'' then Inr AN_EnumVariant
      else if s = ''Field'' then Inr AN_Field
      else if s = ''TypeAlias'' then Inr AN_TypeAlias
      else if s = ''Constant'' then Inr AN_Constant
      else if s = ''Interface'' then Inr AN_Interface
      else Inl (ParseError pos (''unknown node kind '' @ quoted s @
        ''. Valid kinds: Function, Struct, Enum, Module, Trait, EnumVariant, Field, TypeAlias, Constant, Interface'')))"

definition parse_projection :: "string \<Rightarrow> nat \<Rightarrow> (query_error, projection) result" where
  "parse_projection s pos =
     (if s = ''fields'' then Inr Fields
      else if s = ''signature'' then Inr Signature
      else if s = ''body'' then Inr Body
      else Inl (ParseError pos (''unknown projection '' @ quoted s @
        ''. Valid projections: fields, signature, body'')))"

definition parse_edge_kind :: "string \<Rightarrow> nat \<Rightarrow> (query_error, analysis_edge_kind) result" where
  "parse_edge_kind s pos =
     (if s = ''Calls'' then Inr AE_Calls
      else if s = ''UnresolvedCall'' then Inr (AE_UnresolvedCall [])
      else if s = ''UsesType'' then Inr AE_UsesType
      else if s = ''References'' then Inr AE_References
      else if s = ''Contains'' then Inr AE_Contains
      else if s = ''Implements'' then Inr AE_Implements
      else if s = ''ExternalCall'' then Inr (AE_ExternalCall [] [])
      else if s = ''Extends'' then Inr AE_Extends
      else if s = ''Returns'' then Inr AE_Returns
      else if s = ''TypeOf'' then Inr AE_TypeOf
      else Inl (ParseError pos (''unknown edge kind '' @ quoted s @
        ''. Valid: Calls, UnresolvedCall, UsesType, References, Contains, Implements, ExternalCall, '' @
        ''Extends, Returns, TypeOf'')))"

definition parse_entrypoint_kind :: "string \<Rightarrow> nat \<Rightarrow> (query_error, entrypoint_kind) result" where
  "parse_entrypoint_kind s pos =
     (if s = ''Main'' then Inr Main
      else if s = ''PublicApi'' then Inr PublicApi
      else if s = ''Test'' then Inr Test
      else if s = ''Bench'' then Inr Bench
      else if s = ''FfiExport'' then Inr FfiExport
      else Inl (ParseError pos (''unknown entrypoint kind '' @ quoted s @
        ''. Valid: Main, PublicApi, Test, Bench, FfiExport'')))"

section \<open>Operations\<close>

definition parse_string_arg :: "string \<Rightarrow> token list \<Rightarrow> nat \<Rightarrow> string parsed" where
  "parse_string_arg op_name tokens pos =
     (let message = ''expected string after '' @ quoted op_name in
      string_at message message tokens (Suc pos))"

definition parse_select_fn :: "token list \<Rightarrow> nat \<Rightarrow> dsl_op parsed" where
  "parse_select_fn tokens pos = map_ok (\<lambda>(s, pos). (SelectFn s, pos)) (parse_string_arg ''fn'' tokens pos)"

definition parse_select_type :: "token list \<Rightarrow> nat \<Rightarrow> dsl_op parsed" where
  "parse_select_type tokens pos = map_ok (\<lambda>(s, pos). (SelectType s, pos)) (parse_string_arg ''type'' tokens pos)"

definition parse_taint :: "token list \<Rightarrow> nat \<Rightarrow> dsl_op parsed" where
  "parse_taint tokens pos = map_ok (\<lambda>(s, pos). (Taint s, pos)) (parse_string_arg ''taint'' tokens pos)"

definition number_after :: "string \<Rightarrow> token list \<Rightarrow> nat \<Rightarrow> nat parsed" where
  "number_after word tokens pos =
     (let message = ''expected number after '' @ quoted word in number_at message message tokens (Suc pos))"

definition parse_depth :: "token list \<Rightarrow> nat \<Rightarrow> dsl_op parsed" where
  "parse_depth tokens pos = map_ok (\<lambda>(n, pos). (Depth n, pos)) (number_after ''depth'' tokens pos)"

definition parse_since :: "token list \<Rightarrow> nat \<Rightarrow> dsl_op parsed" where
  "parse_since tokens pos = map_ok (\<lambda>(n, pos). (Since n, pos)) (number_after ''since'' tokens pos)"

definition parse_hot :: "token list \<Rightarrow> nat \<Rightarrow> dsl_op parsed" where
  "parse_hot tokens pos = map_ok (\<lambda>(n, pos). (Hot n, pos)) (number_after ''hot'' tokens pos)"

definition parse_filter :: "token list \<Rightarrow> nat \<Rightarrow> dsl_op parsed" where
  "parse_filter tokens pos =
     and_then (expect T_Kind (''expected '' @ quoted ''kind'' @ '' after '' @ quoted ''filter'') tokens (Suc pos)) (\<lambda>pos.
     and_then (expect T_Equals (''expected '' @ quoted ''='' @ '' after '' @ quoted ''filter kind'') tokens pos) (\<lambda>pos.
     and_then (ident_at (''expected node kind after '' @ quoted ''filter kind='')
         (''expected node kind (Function, Struct, Enum, Module, Trait) after '' @ quoted ''filter kind='') tokens pos) (\<lambda>(s, pos').
     map_ok (\<lambda>kind. (Filter kind, pos')) (parse_node_kind s pos))))"

definition parse_show :: "token list \<Rightarrow> nat \<Rightarrow> dsl_op parsed" where
  "parse_show tokens pos =
     (let message = ''expected projection (fields, signature, body) after '' @ quoted ''show'' in
      and_then (ident_at message message tokens (Suc pos)) (\<lambda>(s, pos').
      map_ok (\<lambda>projection. (Show projection, pos')) (parse_projection s (Suc pos))))"

definition parse_reachable :: "token list \<Rightarrow> nat \<Rightarrow> dsl_op parsed" where
  "parse_reachable tokens pos =
     and_then (expect T_Via (''expected '' @ quoted ''via'' @ '' after '' @ quoted ''reachable'') tokens (Suc pos)) (\<lambda>pos.
     and_then (string_at (''expected pattern string after '' @ quoted ''reachable via'')
         (''expected pattern string (e.g. '' @ CHR 0x22 # ''Contains Calls+'' @ CHR 0x22 # '') after '' @ quoted ''reachable via'')
         tokens pos) (\<lambda>(s, pos').
     case parse_pattern s of
       Inl e \<Rightarrow> Inl (ParseError pos (pattern_error_text e))
     | Inr pattern \<Rightarrow>
        (case get_at tokens pos' of
           Some (T_Ident d) \<Rightarrow>
             if d = ''incoming'' then Inr (ReachableVia pattern CD_Incoming, Suc pos')
             else if d = ''outgoing'' then Inr (ReachableVia pattern CD_Outgoing, Suc pos')
             else Inl (ParseError pos' (''unknown direction '' @ quoted d @ '' after '' @
               quoted (''reachable via '' @ CHR 0x22 # ''...'' @ [CHR 0x22]) @ ''. Valid: incoming, outgoing (default)''))
         | _ \<Rightarrow> Inr (ReachableVia pattern CD_Outgoing, pos'))))"

definition parse_cluster :: "token list \<Rightarrow> nat \<Rightarrow> dsl_op parsed" where
  "parse_cluster tokens pos =
     and_then (expect T_By (''expected '' @ quoted ''by'' @ '' after '' @ quoted ''cluster'') tokens (Suc pos)) (\<lambda>pos.
     if get_at tokens pos = Some T_Type \<or> get_at tokens pos = Some (T_Ident ''type'')
     then Inr (ClusterByType, Suc pos)
     else Inl (ParseError pos (''expected '' @ quoted ''type'' @ '' after '' @ quoted ''cluster by'')))"

definition parse_affected :: "token list \<Rightarrow> nat \<Rightarrow> dsl_op parsed" where
  "parse_affected tokens pos =
     and_then (number_at (''expected number after '' @ quoted ''affected'')
         (''expected number (depth) after '' @ quoted ''affected'') tokens (Suc pos)) (\<lambda>(depth, pos).
     and_then (expect T_Since (''expected '' @ quoted ''since'' @ '' after '' @ quoted ''affected N'') tokens pos) (\<lambda>pos.
     and_then (number_at (''expected number (revision) after '' @ quoted ''affected N since'')
         (''expected number after '' @ quoted ''affected N since'') tokens pos) (\<lambda>(since_rev, pos).
     Inr (Affected depth since_rev, pos))))"

definition parse_op :: "(token \<Rightarrow> string) \<Rightarrow> token list \<Rightarrow> nat \<Rightarrow> dsl_op parsed" where
  "parse_op dbg tokens pos = (case get_at tokens pos of
     None \<Rightarrow> Inl Index_panic
   | Some T_Fn \<Rightarrow> parse_select_fn tokens pos
   | Some T_Type \<Rightarrow> parse_select_type tokens pos
   | Some T_Callers \<Rightarrow> Inr (Callers, Suc pos)
   | Some T_Callees \<Rightarrow> Inr (Callees, Suc pos)
   | Some T_Depth \<Rightarrow> parse_depth tokens pos
   | Some T_Filter \<Rightarrow> parse_filter tokens pos
   | Some T_Show \<Rightarrow> parse_show tokens pos
   | Some T_Taint \<Rightarrow> parse_taint tokens pos
   | Some T_Preconditions \<Rightarrow> Inr (Preconditions, Suc pos)
   | Some T_Since \<Rightarrow> parse_since tokens pos
   | Some T_Hot \<Rightarrow> parse_hot tokens pos
   | Some T_Scc \<Rightarrow> Inr (Scc, Suc pos)
   | Some T_Dispatch \<Rightarrow> Inr (Dispatch, Suc pos)
   | Some T_Untested \<Rightarrow> Inr (Untested, Suc pos)
   | Some T_PossibleTypes \<Rightarrow> Inr (PossibleTypes, Suc pos)
   | Some T_CoChanges \<Rightarrow> Inr (CoChanges, Suc pos)
   | Some T_Communities \<Rightarrow> Inr (Communities, Suc pos)
   | Some T_Complexity \<Rightarrow> Inr (Complexity, Suc pos)
   | Some T_Cfg \<Rightarrow> Inr (Cfg, Suc pos)
   | Some T_Dataflow \<Rightarrow> Inr (Dataflow, Suc pos)
   | Some T_Reachable \<Rightarrow> parse_reachable tokens pos
   | Some T_Cluster \<Rightarrow> parse_cluster tokens pos
   | Some T_Affected \<Rightarrow> parse_affected tokens pos
   | Some (T_Ident s) \<Rightarrow> Inl (ParseError pos (''unknown operation '' @ quoted s @
       ''. Valid operations: fn, type, callers, callees, depth, filter, show, taint, preconditions, since, '' @
       ''hot, scc, dispatch, cluster, affected, co_changes, reachable''))
   | Some t \<Rightarrow> Inl (ParseError pos (''unexpected token '' @ dbg t @ ''. Expected an operation '' @
       ''(fn, type, callers, callees, depth, filter, show, taint, preconditions, since, '' @
       ''hot, scc, dispatch, cluster, affected, co_changes, reachable)'')))"

section \<open>Every operation is read within the tokens\<close>

definition tokens_ok :: "token list \<Rightarrow> bool" where
  "tokens_ok tokens \<longleftrightarrow> (\<forall>t\<in>set tokens. token_ok t)"

definition string_ok :: "string \<Rightarrow> bool" where
  "string_ok s \<longleftrightarrow> CHR 0x22 \<notin> set s"

definition number_ok :: "nat \<Rightarrow> bool" where
  "number_ok n \<longleftrightarrow> n < 2 ^ 64"

text \<open>The operations the parser builds: their strings have no quote, their numbers fit, their
  patterns carry no payload.\<close>

definition op_ok :: "dsl_op \<Rightarrow> bool" where
  "op_ok op = (case op of
     SelectFn s \<Rightarrow> string_ok s
   | SelectType s \<Rightarrow> string_ok s
   | Taint s \<Rightarrow> string_ok s
   | Depth n \<Rightarrow> number_ok n
   | Since n \<Rightarrow> number_ok n
   | Hot n \<Rightarrow> number_ok n
   | Affected d r \<Rightarrow> number_ok d \<and> number_ok r
   | ReachableVia pattern _ \<Rightarrow> \<forall>a\<in>set pattern. erased_atom a
   | _ \<Rightarrow> True)"

text \<open>Read from \<open>pos\<close>: the position moves on and stays within the tokens, as does the position of
  an error; a value read from well-formed tokens satisfies \<open>Q\<close>.\<close>

abbreviation reads :: "token list \<Rightarrow> nat \<Rightarrow> ('a \<Rightarrow> bool) \<Rightarrow> 'a parsed \<Rightarrow> bool" where
  "reads tokens pos Q r \<equiv> yields r
     (\<lambda>(x, pos'). pos < pos' \<and> pos' \<le> length tokens \<and> (tokens_ok tokens \<longrightarrow> Q x))
     (error_within (length tokens))"

lemma tokens_ok_at: "tokens_ok tokens \<Longrightarrow> get_at tokens pos = Some t \<Longrightarrow> token_ok t"
  by (auto simp: tokens_ok_def dest: get_at_SomeD)

lemma expect_reads:
  "pos \<le> length tokens \<Longrightarrow> yields (expect t m tokens pos) (\<lambda>pos'. pos' = Suc pos \<and> Suc pos \<le> length tokens)
     (error_within (length tokens))"
  by (auto simp: expect_def dest: get_at_bound)

lemma number_at_reads: "pos \<le> length tokens \<Longrightarrow> reads tokens pos number_ok (number_at m w tokens pos)"
  by (auto simp: number_at_def number_ok_def token_ok_def split: option.splits token.splits
      dest: get_at_bound tokens_ok_at)

lemma string_at_reads: "pos \<le> length tokens \<Longrightarrow> reads tokens pos string_ok (string_at m w tokens pos)"
  by (auto simp: string_at_def string_ok_def token_ok_def split: option.splits token.splits
      dest: get_at_bound tokens_ok_at)

lemma ident_at_reads: "pos \<le> length tokens \<Longrightarrow> reads tokens pos (\<lambda>_. True) (ident_at m w tokens pos)"
  by (auto simp: ident_at_def split: option.splits token.splits dest: get_at_bound)

lemma kind_errors:
  "parse_node_kind s pos = Inl e \<Longrightarrow> error_within n e = (pos \<le> n)"
  "parse_projection s pos = Inl e \<Longrightarrow> error_within n e = (pos \<le> n)"
  "parse_edge_kind s pos = Inl e \<Longrightarrow> error_within n e = (pos \<le> n)"
  "parse_entrypoint_kind s pos = Inl e \<Longrightarrow> error_within n e = (pos \<le> n)"
  by (auto simp: parse_node_kind_def parse_projection_def parse_edge_kind_def parse_entrypoint_kind_def
      split: if_splits)

lemma parse_edge_kind_erased: "parse_edge_kind s pos = Inr k \<Longrightarrow> erase_kind k = k"
  by (auto simp: parse_edge_kind_def erase_kind_def split: if_splits)

lemma reads_map:
  assumes "reads tokens pos P r" and "\<And>x. P x \<Longrightarrow> Q (f x)" and "pos' \<le> pos"
  shows "reads tokens pos' Q (map_ok (\<lambda>(x, p). (f x, p)) r)"
  using assms by (cases r) auto

lemma parse_string_arg_reads: "pos < length tokens \<Longrightarrow> reads tokens (Suc pos) string_ok (parse_string_arg w tokens pos)"
  by (simp add: parse_string_arg_def Let_def string_at_reads)

lemma number_after_reads: "pos < length tokens \<Longrightarrow> reads tokens (Suc pos) number_ok (number_after w tokens pos)"
  by (simp add: number_after_def Let_def number_at_reads)

lemma yields_map_iff:
  "yields (map_ok f r) Q E \<longleftrightarrow> (\<forall>x. r = Inr x \<longrightarrow> Q (f x)) \<and> (\<forall>e. r = Inl e \<longrightarrow> E e)"
  by (cases r) simp_all

lemma parse_filter_reads:
  "pos < length tokens \<Longrightarrow> reads tokens pos op_ok (parse_filter tokens pos)"
  by (auto simp: parse_filter_def expect_def ident_at_def yields_map_iff op_ok_def kind_errors
      split: option.splits token.splits dest: get_at_bound)

lemma parse_show_reads:
  "pos < length tokens \<Longrightarrow> reads tokens pos op_ok (parse_show tokens pos)"
  by (auto simp: parse_show_def Let_def ident_at_def yields_map_iff op_ok_def kind_errors
      split: option.splits token.splits dest: get_at_bound)

lemma edge_kind_from_label_erased: "edge_kind_from_label label = Some k \<Longrightarrow> erase_kind k = k"
  by (auto simp: edge_kind_from_label_def erase_kind_def split: if_splits)

lemma labelled_atom_erased: "labelled_atom raw label rep = Inr a \<Longrightarrow> erased_atom a"
  by (auto simp: labelled_atom_def erase_atom_def erased_atom_def dest: edge_kind_from_label_erased
      split: if_split_asm option.split_asm)

lemma parse_pattern_atom_erased: "parse_pattern_atom s = Inr a \<Longrightarrow> erased_atom a"
  by (auto simp: parse_pattern_atom_def dest: labelled_atom_erased split: if_split_asm)

lemma parse_pattern_erased:
  assumes "parse_pattern s = Inr as"
  shows "\<forall>a\<in>set as. erased_atom a"
proof -
  let ?step = "\<lambda>raw atoms. map_ok (\<lambda>atom. atoms @ [atom]) (parse_pattern_atom raw)"
  have "\<forall>a\<in>set as'. erased_atom a" if "for_each ?step ws as = Inr as'" "\<forall>a\<in>set as. erased_atom a" for ws as as'
    using that
  proof (induction ws arbitrary: as)
    case (Cons w ws)
    from Cons.prems(1) obtain a where a: "parse_pattern_atom w = Inr a" "for_each ?step ws (as @ [a]) = Inr as'"
      by (cases "parse_pattern_atom w") simp_all
    with Cons.IH [OF a(2)] Cons.prems(2) parse_pattern_atom_erased [OF a(1)] show ?case by simp
  qed simp
  from this [of "split_whitespace s" "[]"] assms show ?thesis by (simp add: parse_pattern_def)
qed

lemma parse_reachable_reads:
  "pos < length tokens \<Longrightarrow> reads tokens pos op_ok (parse_reachable tokens pos)"
  by (auto simp: parse_reachable_def expect_def string_at_def op_ok_def
      split: option.splits token.splits sum.splits dest: get_at_bound parse_pattern_erased)

lemma parse_cluster_reads:
  "pos < length tokens \<Longrightarrow> reads tokens pos op_ok (parse_cluster tokens pos)"
  by (auto simp: parse_cluster_def expect_def op_ok_def dest: get_at_bound)

lemma parse_affected_reads:
  assumes "pos < length tokens"
  shows "reads tokens pos op_ok (parse_affected tokens pos)"
proof -
  have "number_ok n" if "tokens_ok tokens" "get_at tokens p = Some (T_Number n)" for p n
    using tokens_ok_at [OF that] by (simp add: token_ok_def number_ok_def)
  then show ?thesis using assms
    by (auto simp: parse_affected_def expect_def number_at_def op_ok_def
        split: option.splits token.splits dest: get_at_bound)
qed

lemma parse_arg_reads:
  assumes "pos < length tokens"
  shows "reads tokens pos op_ok (parse_select_fn tokens pos)" "reads tokens pos op_ok (parse_select_type tokens pos)"
    "reads tokens pos op_ok (parse_taint tokens pos)" "reads tokens pos op_ok (parse_depth tokens pos)"
    "reads tokens pos op_ok (parse_since tokens pos)" "reads tokens pos op_ok (parse_hot tokens pos)"
  unfolding parse_select_fn_def parse_select_type_def parse_taint_def parse_depth_def parse_since_def parse_hot_def
  by (rule reads_map [OF parse_string_arg_reads [OF assms]] reads_map [OF number_after_reads [OF assms]];
      simp add: op_ok_def)+

lemma parse_op_reads:
  assumes "pos < length tokens"
  shows "reads tokens pos op_ok (parse_op dbg tokens pos)"
proof -
  have "get_at tokens pos = Some (tokens ! pos)" "Suc pos \<le> length tokens" using assms by (simp_all add: get_at_def)
  then show ?thesis
    by (cases "tokens ! pos")
       (simp_all add: parse_op_def parse_arg_reads [OF assms] parse_filter_reads [OF assms]
         parse_show_reads [OF assms] parse_reachable_reads [OF assms] parse_cluster_reads [OF assms]
         parse_affected_reads [OF assms], simp_all add: op_ok_def assms less_imp_le)
qed

lemma parse_op_panic: "parse_op dbg tokens pos = Inl Index_panic \<longleftrightarrow> length tokens \<le> pos"
  using parse_op_reads [of pos tokens dbg] by (cases "pos < length tokens") (auto simp: parse_op_def get_at_def)

end
