(* ===== verification/Query_Expressions.thy ===== *)
theory Query_Expressions
  imports Query_Parser
begin

text \<open>
  The pipe chains of the parser and its recursive part: the legacy entry points, set algebra, path
  queries and selectors (\<^verbatim>\<open>parser/legacy.rs\<close>, \<^verbatim>\<open>expr.rs\<close>, \<^verbatim>\<open>path.rs\<close>, \<^verbatim>\<open>selectors.rs\<close>). The
  functions that call each other take fuel; one unit more than there are tokens is enough
  (\<open>parse_atom_contract\<close>), so that the entry point never runs out.
\<close>

section \<open>Pipe chains\<close>

definition after_pipe :: string where
  "after_pipe = ''expected operation after '' @ quoted ''|''"

function parse_loop :: "(token \<Rightarrow> string) \<Rightarrow> token list \<Rightarrow> nat \<Rightarrow> dsl_op list \<Rightarrow> (query_error, dsl_op list) result" where
  "parse_loop dbg tokens pos ops =
     (if length tokens \<le> pos then Inr ops
      else and_then (parse_op dbg tokens pos) (\<lambda>(op, pos').
        case get_at tokens pos' of
          None \<Rightarrow> parse_loop dbg tokens pos' (ops @ [op])
        | Some t \<Rightarrow>
            if t = T_Pipe then
              if length tokens \<le> Suc pos' then Inl (ParseError (Suc pos') after_pipe)
              else parse_loop dbg tokens (Suc pos') (ops @ [op])
            else Inl (ParseError pos' (''expected '' @ quoted ''|'' @ '' or end of query, found '' @ dbg t))))"
  by pat_completeness auto

lemma parse_op_advances:
  assumes "parse_op dbg tokens pos = Inr (op, pos')"
  shows "pos < pos'" "pos' \<le> length tokens"
proof -
  have "pos < length tokens" using assms by (cases "pos < length tokens") (simp_all add: parse_op_def get_at_def)
  from yields_Inr [OF parse_op_reads [OF this] assms] show "pos < pos'" "pos' \<le> length tokens" by simp_all
qed

termination parse_loop
  by (relation "measure (\<lambda>(dbg, tokens, pos, ops). length tokens - pos)") (auto dest: parse_op_advances)

declare parse_loop.simps [simp del]

definition parse :: "(token \<Rightarrow> string) \<Rightarrow> token list \<Rightarrow> (query_error, dsl_op list) result" where
  "parse dbg tokens =
     (if tokens = [] then Inl (ParseError 0 ''empty query'')
      else and_then (parse_loop dbg tokens 0 []) (\<lambda>ops.
        if ops = [] then Inl (ParseError 0 ''empty query'') else Inr ops))"

definition parse_query :: "(token \<Rightarrow> string) \<Rightarrow> string \<Rightarrow> (query_error, dsl_op list) result" where
  "parse_query dbg input = and_then (lex input) (parse dbg)"

definition chain_stops :: "token set" where
  "chain_stops = {T_Union, T_Intersect, T_Diff, T_RParen, T_RBrace, T_Comma, T_Arrow, T_Where, T_Via, T_Of}"

function pipe_chain_loop :: "(token \<Rightarrow> string) \<Rightarrow> token list \<Rightarrow> nat \<Rightarrow> dsl_op list \<Rightarrow> dsl_op list parsed" where
  "pipe_chain_loop dbg tokens pos ops =
     (case get_at tokens pos of
        None \<Rightarrow> Inr (ops, pos)
      | Some t \<Rightarrow>
          if t \<in> chain_stops then Inr (ops, pos)
          else and_then (parse_op dbg tokens pos) (\<lambda>(op, pos').
            if get_at tokens pos' = Some T_Pipe then
              if length tokens \<le> Suc pos' then Inl (ParseError (Suc pos') after_pipe)
              else pipe_chain_loop dbg tokens (Suc pos') (ops @ [op])
            else Inr (ops @ [op], pos')))"
  by pat_completeness auto
termination
  by (relation "measure (\<lambda>(dbg, tokens, pos, ops). length tokens - pos)")
     (auto dest: parse_op_advances get_at_bound)

declare pipe_chain_loop.simps [simp del]

definition parse_pipe_chain_atom :: "(token \<Rightarrow> string) \<Rightarrow> token list \<Rightarrow> nat \<Rightarrow> dsl_op list parsed" where
  "parse_pipe_chain_atom dbg tokens start =
     and_then (pipe_chain_loop dbg tokens start []) (\<lambda>(ops, pos).
     if ops = [] then Inl (ParseError start ''expected pipe-chain operator'') else Inr (ops, pos))"

function trailing_ops :: "(token \<Rightarrow> string) \<Rightarrow> token list \<Rightarrow> nat \<Rightarrow> dsl_op list \<Rightarrow> dsl_op list parsed" where
  "trailing_ops dbg tokens pos ops =
     (if get_at tokens pos = Some T_Pipe then
        and_then (parse_op dbg tokens (Suc pos)) (\<lambda>(op, pos'). trailing_ops dbg tokens pos' (ops @ [op]))
      else Inr (ops, pos))"
  by pat_completeness auto
termination
  by (relation "measure (\<lambda>(dbg, tokens, pos, ops). length tokens - pos)")
     (fastforce dest: parse_op_advances get_at_bound)+

declare trailing_ops.simps [simp del]

section \<open>Qualifiers and selectors\<close>

function path_qualifiers :: "token list \<Rightarrow> nat \<Rightarrow> analysis_node_kind option \<Rightarrow> analysis_edge_kind option \<Rightarrow> nat option \<Rightarrow>
    (analysis_node_kind option \<times> analysis_edge_kind option \<times> nat option) parsed" where
  "path_qualifiers tokens pos intermediate_kind via_edge max_depth =
     (case get_at tokens pos of
        Some T_Where \<Rightarrow>
          and_then (expect T_Intermediate (''expected '' @ quoted ''intermediate'' @ '' after '' @ quoted ''where'') tokens (Suc pos)) (\<lambda>p.
          and_then (expect T_Kind (''expected '' @ quoted ''kind'' @ '' after '' @ quoted ''where intermediate'') tokens p) (\<lambda>p.
          and_then (expect T_Equals (''expected '' @ quoted ''='' @ '' after '' @ quoted ''where intermediate kind'') tokens p) (\<lambda>p.
          and_then (ident_at ''expected node kind'' ''expected node kind identifier'' tokens p) (\<lambda>(s, p').
          and_then (parse_node_kind s p) (\<lambda>kind.
          path_qualifiers tokens p' (Some kind) via_edge max_depth)))))
      | Some T_Via \<Rightarrow>
          and_then (ident_at (''expected edge kind after '' @ quoted ''via'') ''expected edge kind identifier'' tokens (Suc pos)) (\<lambda>(s, p').
          and_then (parse_edge_kind s (Suc pos)) (\<lambda>edge.
          path_qualifiers tokens p' intermediate_kind (Some edge) max_depth))
      | Some T_Depth \<Rightarrow>
          and_then (number_after ''depth'' tokens pos) (\<lambda>(n, p').
          path_qualifiers tokens p' intermediate_kind via_edge (Some n))
      | _ \<Rightarrow> Inr ((intermediate_kind, via_edge, max_depth), pos))"
  by pat_completeness auto

lemma expect_Inr: "expect t m tokens pos = Inr p \<Longrightarrow> p = Suc pos \<and> get_at tokens pos = Some t"
  by (simp add: expect_def split: if_splits)

lemma ident_at_Inr: "ident_at m w tokens pos = Inr (s, p) \<Longrightarrow> p = Suc pos \<and> get_at tokens pos = Some (T_Ident s)"
  by (auto simp: ident_at_def split: option.splits token.splits)

lemma number_after_Inr:
  "number_after w tokens pos = Inr (n, p) \<Longrightarrow> p = Suc (Suc pos) \<and> get_at tokens (Suc pos) = Some (T_Number n)"
  by (auto simp: number_after_def number_at_def Let_def split: option.splits token.splits)

termination path_qualifiers
  by (relation "measure (\<lambda>(tokens, pos, _). length tokens - pos)")
     (auto dest!: expect_Inr ident_at_Inr number_after_Inr dest: get_at_bound)

declare path_qualifiers.simps [simp del]

definition parse_entrypoint_query :: "token list \<Rightarrow> nat \<Rightarrow> expr parsed" where
  "parse_entrypoint_query tokens pos =
     (if get_at tokens (Suc pos) = Some T_Kind then
        and_then (expect T_Equals (''expected '' @ quoted ''='' @ '' after '' @ quoted ''kind'') tokens (Suc (Suc pos))) (\<lambda>p.
        and_then (ident_at ''expected entrypoint kind'' ''expected entrypoint kind identifier'' tokens p) (\<lambda>(s, p').
        map_ok (\<lambda>kind. (Entrypoints (Some kind), p')) (parse_entrypoint_kind s p)))
      else Inr (Entrypoints None, Suc pos))"

definition arrow_expected :: string where
  "arrow_expected = ''expected '' @ quoted ''->'' @ '' or '' @ quoted arrow_char"

definition optional_depth :: "token list \<Rightarrow> nat \<Rightarrow> nat option parsed" where
  "optional_depth tokens pos =
     (if get_at tokens pos = Some T_Depth then map_ok (\<lambda>(n, p). (Some n, p)) (number_after ''depth'' tokens pos)
      else Inr (None, pos))"

section \<open>The recursive functions\<close>

fun set_op_of :: "token \<Rightarrow> set_op option" where
  "set_op_of T_Union = Some SetUnion"
| "set_op_of T_Intersect = Some SetIntersect"
| "set_op_of T_Diff = Some SetDiff"
| "set_op_of _ = None"

text \<open>
  Every function below reads sub-expressions with \<open>atom\<close>, which stands for the recursive call of
  \<open>parse_atom\<close>; \<open>parse_atom\<close> then ties the knot, with one unit of fuel per level of nesting. A loop
  takes one unit per pass.
\<close>

primrec parse_set_ops :: "(nat \<Rightarrow> expr parsed) \<Rightarrow> token list \<Rightarrow> nat \<Rightarrow> expr \<Rightarrow> nat \<Rightarrow> expr parsed" where
  "parse_set_ops atom tokens 0 left pos = Inl Unfinished"
| "parse_set_ops atom tokens (Suc k) left pos =
     (case Option.bind (get_at tokens pos) set_op_of of
        None \<Rightarrow> Inr (left, pos)
      | Some op \<Rightarrow> and_then (atom (Suc pos)) (\<lambda>(right, pos).
          parse_set_ops atom tokens k (SetOp op left right) pos))"

definition parse_expr_inner :: "(nat \<Rightarrow> expr parsed) \<Rightarrow> token list \<Rightarrow> nat \<Rightarrow> nat \<Rightarrow> expr parsed" where
  "parse_expr_inner atom tokens k pos =
     and_then (atom pos) (\<lambda>(left, pos). parse_set_ops atom tokens k left pos)"

definition parse_path_query :: "(nat \<Rightarrow> expr parsed) \<Rightarrow> token list \<Rightarrow> nat \<Rightarrow> expr parsed" where
  "parse_path_query atom tokens pos =
     and_then (case get_at tokens pos of
         None \<Rightarrow> Inl Index_panic
       | Some t \<Rightarrow> if t = T_Path then Inr Shortest else if t = T_Paths then Inr AllSimple
           else Inl (ParseError pos (''expected '' @ quoted ''path'' @ '' or '' @ quoted ''paths''))) (\<lambda>mode.
     and_then (atom (Suc pos)) (\<lambda>(source, pos).
     and_then (expect T_Arrow (arrow_expected @ '' between path endpoints'') tokens pos) (\<lambda>pos.
     and_then (atom pos) (\<lambda>(target, pos).
     map_ok (\<lambda>((intermediate_kind, via_edge, max_depth), pos).
         (PathQuery mode source target intermediate_kind via_edge max_depth, pos))
       (path_qualifiers tokens pos None None None)))))"

definition parse_dominators_query :: "(nat \<Rightarrow> expr parsed) \<Rightarrow> token list \<Rightarrow> nat \<Rightarrow> expr parsed" where
  "parse_dominators_query atom tokens pos =
     and_then (expect T_Of (''expected '' @ quoted ''of'' @ '' after '' @ quoted ''dominators'') tokens (Suc pos)) (\<lambda>pos.
     map_ok (\<lambda>(inner, pos). (DominatorsOf inner, pos)) (atom pos))"

definition parse_dominates_query :: "(nat \<Rightarrow> expr parsed) \<Rightarrow> token list \<Rightarrow> nat \<Rightarrow> expr parsed" where
  "parse_dominates_query atom tokens pos = map_ok (\<lambda>(inner, pos). (DominatesOf inner, pos)) (atom (Suc pos))"

definition parse_trait_impls_query :: "(nat \<Rightarrow> expr parsed) \<Rightarrow> token list \<Rightarrow> nat \<Rightarrow> expr parsed" where
  "parse_trait_impls_query atom tokens pos =
     and_then (expect T_Of (''expected '' @ quoted ''of'' @ '' after '' @ quoted ''trait_impls'') tokens (Suc pos)) (\<lambda>pos.
     map_ok (\<lambda>(inner, pos). (TraitImplsOf inner, pos)) (atom pos))"

primrec multi_path_sources :: "(nat \<Rightarrow> expr parsed) \<Rightarrow> token list \<Rightarrow> nat \<Rightarrow> expr list \<Rightarrow> nat \<Rightarrow> expr list parsed" where
  "multi_path_sources atom tokens 0 sources pos = Inl Unfinished"
| "multi_path_sources atom tokens (Suc k) sources pos =
     (if length tokens \<le> pos
      then Inl (ParseError pos (''unterminated source list: expected '' @ quoted '','' @ '' or '' @ quoted ''}''))
      else if get_at tokens pos = Some T_RBrace then Inr (sources, Suc pos)
      else and_then (atom pos) (\<lambda>(item, pos).
        if get_at tokens pos = Some T_Comma then multi_path_sources atom tokens k (sources @ [item]) (Suc pos)
        else if get_at tokens pos = Some T_RBrace then Inr (sources @ [item], Suc pos)
        else Inl (ParseError pos (''expected '' @ quoted '','' @ '' or '' @ quoted ''}'' @ '' in multi_path source list''))))"

definition parse_multi_path_query :: "(nat \<Rightarrow> expr parsed) \<Rightarrow> token list \<Rightarrow> nat \<Rightarrow> nat \<Rightarrow> expr parsed" where
  "parse_multi_path_query atom tokens k pos =
     and_then (expect T_LBrace (''expected '' @ quoted ''{'' @ '' after '' @ quoted ''multi_path'' @ '' to open the source list'')
       tokens (Suc pos)) (\<lambda>pos.
     and_then (multi_path_sources atom tokens k [] pos) (\<lambda>(sources, pos).
     if sources = [] then Inl (ParseError pos ''multi_path requires at least one source'')
     else and_then (expect T_Arrow (arrow_expected @ '' after multi_path source list'') tokens pos) (\<lambda>pos.
       and_then (atom pos) (\<lambda>(target, pos).
       map_ok (\<lambda>(max_depth, pos). (MultiPath sources target max_depth, pos)) (optional_depth tokens pos)))))"

definition parse_group :: "(nat \<Rightarrow> expr parsed) \<Rightarrow> token list \<Rightarrow> nat \<Rightarrow> nat \<Rightarrow> expr parsed" where
  "parse_group atom tokens k pos =
     and_then (parse_expr_inner atom tokens k (Suc pos)) (\<lambda>(inner, pos).
     map_ok (\<lambda>pos. (inner, pos)) (expect T_RParen (''expected '' @ quoted '')'' @ '' to close group'') tokens pos))"

definition absorb_pipe :: "(token \<Rightarrow> string) \<Rightarrow> token list \<Rightarrow> expr \<Rightarrow> nat \<Rightarrow> expr parsed" where
  "absorb_pipe dbg tokens base pos =
     (if get_at tokens pos = Some T_Pipe
      then map_ok (\<lambda>(ops, pos). (PipeFrom base ops, pos)) (trailing_ops dbg tokens pos [])
      else Inr (base, pos))"

definition parse_atom_inner :: "(token \<Rightarrow> string) \<Rightarrow> (nat \<Rightarrow> expr parsed) \<Rightarrow> token list \<Rightarrow> nat \<Rightarrow> nat \<Rightarrow> expr parsed" where
  "parse_atom_inner dbg atom tokens k pos =
     (case get_at tokens pos of
        None \<Rightarrow> Inl (ParseError pos ''expected expression'')
      | Some t \<Rightarrow>
         if t \<in> {T_LParen, T_Path, T_Paths, T_Entrypoints, T_Dominators, T_Dominates, T_TraitImpls, T_MultiPath} then
           and_then
             (if t = T_LParen then parse_group atom tokens k pos
              else if t = T_Path \<or> t = T_Paths then parse_path_query atom tokens pos
              else if t = T_Entrypoints then parse_entrypoint_query tokens pos
              else if t = T_Dominators then parse_dominators_query atom tokens pos
              else if t = T_Dominates then parse_dominates_query atom tokens pos
              else if t = T_TraitImpls then parse_trait_impls_query atom tokens pos
              else parse_multi_path_query atom tokens k pos)
             (\<lambda>(base, pos). absorb_pipe dbg tokens base pos)
         else map_ok (\<lambda>(ops, pos). (Pipe ops, pos)) (parse_pipe_chain_atom dbg tokens pos))"

primrec parse_atom :: "(token \<Rightarrow> string) \<Rightarrow> token list \<Rightarrow> nat \<Rightarrow> nat \<Rightarrow> expr parsed" where
  "parse_atom dbg tokens 0 pos = Inl Unfinished"
| "parse_atom dbg tokens (Suc k) pos = parse_atom_inner dbg (parse_atom dbg tokens k) tokens k pos"

definition parse_fuel :: "token list \<Rightarrow> nat" where
  "parse_fuel tokens = Suc (length tokens)"

definition debug_list :: "(token \<Rightarrow> string) \<Rightarrow> token list \<Rightarrow> string" where
  "debug_list dbg ts = ''['' @ join '', '' (map dbg ts) @ '']''"

definition parse_expr_tokens :: "(token \<Rightarrow> string) \<Rightarrow> token list \<Rightarrow> (query_error, expr) result" where
  "parse_expr_tokens dbg tokens =
     (if tokens = [] then Inl (ParseError 0 ''empty query'')
      else and_then (parse_expr_inner (parse_atom dbg tokens (parse_fuel tokens)) tokens (parse_fuel tokens) 0) (\<lambda>(expr, pos).
        if pos < length tokens
        then Inl (ParseError pos (''trailing tokens after expression: '' @ debug_list dbg (drop pos tokens)))
        else Inr expr))"

definition parse_expr :: "(token \<Rightarrow> string) \<Rightarrow> string \<Rightarrow> (query_error, expr) result" where
  "parse_expr dbg input = and_then (lex input) (parse_expr_tokens dbg)"

end
