(* ===== verification/Query_Contract.thy ===== *)
theory Query_Contract
  imports Query_Expressions
begin

text \<open>
  The contract of the query parser: on every list of tokens it returns, with an expression of the
  well-formed ones, with an error whose position lies within the tokens, or, when the last token is a
  pipe, with the panic of an index out of range. The lemmas follow the functions one by one; the
  recursion is by the fuel, one unit of which covers one level of nesting or one pass of a loop.
\<close>

section \<open>The contract of the parser\<close>

definition option_ok :: "('a \<Rightarrow> bool) \<Rightarrow> 'a option \<Rightarrow> bool" where
  "option_ok P v = (case v of None \<Rightarrow> True | Some x \<Rightarrow> P x)"

lemma option_ok_simps [simp]: "option_ok P None" "option_ok P (Some x) = P x"
  by (simp_all add: option_ok_def)

definition erased_kind :: "analysis_edge_kind \<Rightarrow> bool" where
  "erased_kind k \<longleftrightarrow> erase_kind k = k"

definition ops_ok :: "dsl_op list \<Rightarrow> bool" where
  "ops_ok ops \<longleftrightarrow> (\<forall>op\<in>set ops. op_ok op)"

lemma ops_ok_simps [simp]:
  "ops_ok []" "ops_ok (op # ops) = (op_ok op \<and> ops_ok ops)" "ops_ok (ops @ ops') = (ops_ok ops \<and> ops_ok ops')"
  by (auto simp: ops_ok_def)

text \<open>The expressions the parser builds.\<close>

fun expr_ok :: "expr \<Rightarrow> bool" where
  "expr_ok (Pipe ops) = (ops \<noteq> [] \<and> ops_ok ops)"
| "expr_ok (PathQuery mode source target intermediate_kind via_edge max_depth) =
     (expr_ok source \<and> expr_ok target \<and> option_ok erased_kind via_edge \<and> option_ok number_ok max_depth)"
| "expr_ok (Entrypoints kind) = True"
| "expr_ok (SetOp op left right) = (expr_ok left \<and> expr_ok right)"
| "expr_ok (DominatorsOf e) = expr_ok e"
| "expr_ok (DominatesOf e) = expr_ok e"
| "expr_ok (TraitImplsOf e) = expr_ok e"
| "expr_ok (PipeFrom base ops) = (expr_ok base \<and> ops \<noteq> [] \<and> ops_ok ops)"
| "expr_ok (MultiPath sources target max_depth) =
     (sources \<noteq> [] \<and> (\<forall>s\<in>set sources. expr_ok s) \<and> expr_ok target \<and> option_ok number_ok max_depth)"

text \<open>The errors of the parser: one with a position within the tokens, or the panic at the end of a
  query whose last token is a pipe.\<close>

definition query_error_ok :: "token list \<Rightarrow> query_error \<Rightarrow> bool" where
  "query_error_ok tokens e \<longleftrightarrow>
     error_within (length tokens) e \<or> e = Index_panic \<and> tokens \<noteq> [] \<and> last tokens = T_Pipe"

lemma query_error_ok_simps [simp]:
  "query_error_ok tokens (ParseError p m) = (p \<le> length tokens)" "\<not> query_error_ok tokens Unfinished"
  "query_error_ok tokens Index_panic \<longleftrightarrow> tokens \<noteq> [] \<and> last tokens = T_Pipe"
  by (simp_all add: query_error_ok_def)

abbreviation parses :: "token list \<Rightarrow> nat \<Rightarrow> ('a \<Rightarrow> bool) \<Rightarrow> 'a parsed \<Rightarrow> bool" where
  "parses tokens pos Q r \<equiv> yields r
     (\<lambda>(x, pos'). pos \<le> pos' \<and> pos' \<le> length tokens \<and> (tokens_ok tokens \<longrightarrow> Q x))
     (query_error_ok tokens)"

lemma reads_parses:
  assumes "reads tokens p Q r" and "pos \<le> Suc p"
  shows "parses tokens pos Q r"
  using assms by (cases r) (auto simp: query_error_ok_def)

lemma parses_mono:
  assumes "parses tokens p P r" and "pos \<le> p" and "\<And>x. P x \<Longrightarrow> Q x"
  shows "parses tokens pos Q r"
  using assms by (cases r) auto

lemma pipe_chain_loop_parses:
  assumes "pos \<le> length tokens"
  shows "yields (pipe_chain_loop dbg tokens pos ops)
    (\<lambda>(ops', p). pos \<le> p \<and> p \<le> length tokens \<and> (p = pos \<longrightarrow> ops' = ops) \<and> (tokens_ok tokens \<longrightarrow> ops_ok ops \<longrightarrow> ops_ok ops'))
    (query_error_ok tokens)" (is "?P pos ops")
  using assms
proof (induction dbg tokens pos ops rule: pipe_chain_loop.induct)
  case (1 dbg tokens pos ops)
  note unfold = pipe_chain_loop.simps [of dbg tokens pos]
  show ?case
  proof (cases "get_at tokens pos")
    case (Some t)
    note op = parse_op_reads [OF get_at_bound [OF Some], of dbg]
    show ?thesis
    proof (cases "t \<in> chain_stops \<or> (\<exists>e. parse_op dbg tokens pos = Inl e)")
      case True
      then show ?thesis using Some op "1.prems" by (auto simp: unfold query_error_ok_def)
    next
      case False
      then obtain x where x: "parse_op dbg tokens pos = Inr x" by (cases "parse_op dbg tokens pos") auto
      obtain op' pos' where xp: "x = (op', pos')" by fastforce
      have adv: "pos < pos'" "pos' \<le> length tokens" "tokens_ok tokens \<Longrightarrow> op_ok op'" using op x xp by auto
      show ?thesis
      proof (cases "get_at tokens pos' = Some T_Pipe \<and> Suc pos' < length tokens")
        case True
        note IH = "1.IH" [OF Some _ x xp [symmetric]]
        show ?thesis using Some False x xp True adv IH
          by (cases "pipe_chain_loop dbg tokens (Suc pos') (ops @ [op'])") (auto simp: unfold)
      next
        case stop: False
        then show ?thesis using Some False x xp adv get_at_bound [of tokens pos' T_Pipe] by (auto simp: unfold)
      qed
    qed
  qed (use "1.prems" in \<open>simp add: pipe_chain_loop.simps\<close>)
qed

lemma parse_pipe_chain_atom_parses:
  assumes "pos \<le> length tokens"
  shows "parses tokens (Suc pos) (\<lambda>ops. ops \<noteq> [] \<and> ops_ok ops) (parse_pipe_chain_atom dbg tokens pos)"
  using pipe_chain_loop_parses [OF assms, of dbg "[]"] assms
  by (cases "pipe_chain_loop dbg tokens pos []") (auto simp: parse_pipe_chain_atom_def le_less)

lemma trailing_ops_parses:
  assumes "pos \<le> length tokens"
  shows "yields (trailing_ops dbg tokens pos ops)
    (\<lambda>(ops', p). pos \<le> p \<and> p \<le> length tokens \<and> (tokens_ok tokens \<longrightarrow> ops_ok ops \<longrightarrow> ops_ok ops') \<and>
       (ops \<noteq> [] \<or> get_at tokens pos = Some T_Pipe \<longrightarrow> ops' \<noteq> []))
    (query_error_ok tokens)"
  using assms
proof (induction dbg tokens pos ops rule: trailing_ops.induct)
  case (1 dbg tokens pos ops)
  note unfold = trailing_ops.simps [of dbg tokens pos]
  show ?case
  proof (cases "get_at tokens pos = Some T_Pipe")
    case True
    note bound = get_at_SomeD [OF True]
    show ?thesis
    proof (cases "Suc pos < length tokens")
      case in_range: True
      note op = parse_op_reads [OF in_range, of dbg]
      show ?thesis
      proof (cases "parse_op dbg tokens (Suc pos)")
        case (Inl e)
        then show ?thesis using op True by (simp add: unfold query_error_ok_def)
      next
        case (Inr x)
        obtain op' pos' where xp: "x = (op', pos')" by fastforce
        have adv: "Suc pos < pos'" "pos' \<le> length tokens" "tokens_ok tokens \<Longrightarrow> op_ok op'" using op Inr xp by auto
        show ?thesis using True Inr xp adv "1.IH" [OF True Inr xp [symmetric]]
          by (cases "trailing_ops dbg tokens pos' (ops @ [op'])") (auto simp: unfold)
      qed
    next
      case False
      then have "parse_op dbg tokens (Suc pos) = Inl Index_panic" by (simp add: parse_op_panic)
      moreover have "length tokens - 1 = pos" "tokens \<noteq> []" using bound False by auto
      moreover from this have "last tokens = T_Pipe" using bound by (simp add: last_conv_nth)
      ultimately show ?thesis using True by (simp add: unfold)
    qed
  qed (use "1.prems" in \<open>simp add: unfold\<close>)
qed

lemma absorb_pipe_parses:
  assumes "pos \<le> length tokens" and "tokens_ok tokens \<longrightarrow> expr_ok base"
  shows "parses tokens pos expr_ok (absorb_pipe dbg tokens base pos)"
  using assms trailing_ops_parses [OF assms(1), of dbg "[]"]
  by (cases "trailing_ops dbg tokens pos []") (auto simp: absorb_pipe_def)

lemma yields_bind:
  assumes "yields r P E" and "\<And>x. r = Inr x \<Longrightarrow> P x \<Longrightarrow> yields (f x) Q E"
  shows "yields (and_then r f) Q E"
  using assms by (cases r) simp_all

lemma expect_parses:
  "pos \<le> length tokens \<Longrightarrow> yields (expect t m tokens pos) (\<lambda>p. p = Suc pos \<and> p \<le> length tokens) (query_error_ok tokens)"
  by (auto simp: expect_def dest: get_at_bound)

lemma ident_at_parses:
  "pos \<le> length tokens \<Longrightarrow> yields (ident_at m w tokens pos) (\<lambda>(s, p). p = Suc pos \<and> p \<le> length tokens) (query_error_ok tokens)"
  by (auto simp: ident_at_def split: option.splits token.splits dest: get_at_bound)

lemma kind_parses:
  "pos \<le> length tokens \<Longrightarrow> yields (parse_node_kind s pos) (\<lambda>_. True) (query_error_ok tokens)"
  "pos \<le> length tokens \<Longrightarrow> yields (parse_edge_kind s pos) erased_kind (query_error_ok tokens)"
  "pos \<le> length tokens \<Longrightarrow> yields (parse_entrypoint_kind s pos) (\<lambda>_. True) (query_error_ok tokens)"
  by (cases "parse_node_kind s pos", simp_all add: kind_errors query_error_ok_def)
     (cases "parse_edge_kind s pos", simp_all add: kind_errors query_error_ok_def erased_kind_def parse_edge_kind_erased,
      cases "parse_entrypoint_kind s pos", simp_all add: kind_errors query_error_ok_def)

lemma number_after_parses:
  assumes "pos < length tokens"
  shows "yields (number_after w tokens pos)
    (\<lambda>(n, p). pos < p \<and> p \<le> length tokens \<and> (tokens_ok tokens \<longrightarrow> number_ok n)) (query_error_ok tokens)"
  using number_after_reads [OF assms, of w]
  by (cases "number_after w tokens pos") (auto simp: query_error_ok_def)

lemma path_qualifiers_parses:
  assumes "pos \<le> length tokens" and "option_ok erased_kind v" and "tokens_ok tokens \<longrightarrow> option_ok number_ok d"
  shows "parses tokens pos (\<lambda>(i, v, d). option_ok erased_kind v \<and> option_ok number_ok d) (path_qualifiers tokens pos i v d)"
  using assms
proof (induction tokens pos i v d rule: path_qualifiers.induct)
  case (1 tokens pos i v d)
  note unfold = path_qualifiers.simps [of tokens pos]
  let ?Q = "\<lambda>(i, v, d). option_ok erased_kind v \<and> option_ok number_ok d"
  have later: "parses tokens pos ?Q (path_qualifiers tokens p i' v' d')"
    if "parses tokens p ?Q (path_qualifiers tokens p i' v' d')" "pos < p" for p i' v' d'
    using that by (cases "path_qualifiers tokens p i' v' d'") auto
  consider "get_at tokens pos = Some T_Where" | "get_at tokens pos = Some T_Via" | "get_at tokens pos = Some T_Depth"
    | "get_at tokens pos \<noteq> Some T_Where" "get_at tokens pos \<noteq> Some T_Via" "get_at tokens pos \<noteq> Some T_Depth" by blast
  then show ?case
  proof cases
    case 4
    then show ?thesis using "1.prems" by (auto simp: unfold split: option.splits token.splits)
  next
    case at: 3
    show ?thesis unfolding unfold at option.case token.case
    proof (rule yields_bind [OF number_after_parses [OF get_at_bound [OF at]]])
      fix x assume x: "number_after ''depth'' tokens pos = Inr x"
        "case x of (n, p) \<Rightarrow> pos < p \<and> p \<le> length tokens \<and> (tokens_ok tokens \<longrightarrow> number_ok n)"
      obtain n p where xp: "x = (n, p)" by fastforce
      from "1.IH"(1) [OF at refl x(1) xp [symmetric]] x xp "1.prems"(2) later [of p]
      show "parses tokens pos ?Q (case x of (n, p') \<Rightarrow> path_qualifiers tokens p' i v (Some n))" by simp
    qed
  next
    case at: 2
    note bound = get_at_bound [OF at]
    show ?thesis unfolding unfold at option.case token.case
    proof (rule yields_bind [OF ident_at_parses])
      show "Suc pos \<le> length tokens" using bound by simp
      fix x assume x: "ident_at (''expected edge kind after '' @ quoted ''via'') ''expected edge kind identifier'' tokens (Suc pos) = Inr x"
        "case x of (s, p) \<Rightarrow> p = Suc (Suc pos) \<and> p \<le> length tokens"
      obtain s p where xp: "x = (s, p)" by fastforce
      have "parses tokens pos ?Q (and_then (parse_edge_kind s (Suc pos)) (\<lambda>edge. path_qualifiers tokens p i (Some edge) d))"
      proof (rule yields_bind [OF kind_parses(2)])
        show "Suc pos \<le> length tokens" using bound by simp
        fix k assume "parse_edge_kind s (Suc pos) = Inr k" "erased_kind k"
        with "1.IH"(3) [OF at refl x(1) xp [symmetric] this(1)] x xp "1.prems"(3) later [of p]
        show "parses tokens pos ?Q (path_qualifiers tokens p i (Some k) d)" by simp
      qed
      then show "parses tokens pos ?Q (case x of (s, p') \<Rightarrow> and_then (parse_edge_kind s (Suc pos))
          (\<lambda>edge. path_qualifiers tokens p' i (Some edge) d))" using xp by simp
    qed
  next
    case at: 1
    note bound = get_at_bound [OF at]
    show ?thesis unfolding unfold at option.case token.case
      apply (rule yields_bind [OF expect_parses], use bound in simp)
      apply (rule yields_bind [OF expect_parses], simp)
      apply (rule yields_bind [OF expect_parses], simp)
      apply (rule yields_bind [OF ident_at_parses], simp)
      subgoal premises prems for p1 p2 p3 x
      proof -
        obtain s p where xp: "x = (s, p)" by fastforce
        have "parses tokens pos ?Q (and_then (parse_node_kind s p3) (\<lambda>kind. path_qualifiers tokens p (Some kind) v d))"
        proof (rule yields_bind [OF kind_parses(1)])
          show "p3 \<le> length tokens" using prems by simp
          fix k assume "parse_node_kind s p3 = Inr k"
          with "1.IH"(2) [OF at refl prems(1,3,5,7) xp [symmetric] this(1)] prems xp "1.prems"(2,3) later [of p]
          show "parses tokens pos ?Q (path_qualifiers tokens p (Some k) v d)" by simp
        qed
        then show ?thesis using xp by simp
      qed
      done
  qed
qed

subsection \<open>The recursive functions, given the contract of their atoms\<close>

text \<open>\<open>atoms_ok\<close>: the atoms after position \<open>pos\<close> satisfy the contract of the parser.\<close>

definition atoms_ok :: "token list \<Rightarrow> nat \<Rightarrow> (nat \<Rightarrow> expr parsed) \<Rightarrow> bool" where
  "atoms_ok tokens pos atom \<longleftrightarrow> (\<forall>p. pos < p \<and> p \<le> length tokens \<longrightarrow> parses tokens (Suc p) expr_ok (atom p))"

lemma atoms_okD: "atoms_ok tokens pos atom \<Longrightarrow> pos < p \<Longrightarrow> p \<le> length tokens \<Longrightarrow> parses tokens (Suc p) expr_ok (atom p)"
  by (simp add: atoms_ok_def)

lemma parse_set_ops_parses:
  assumes "atoms_ok tokens pos0 atom" and "pos0 \<le> pos" and "pos \<le> length tokens" and "length tokens - pos < k"
    and "tokens_ok tokens \<longrightarrow> expr_ok left"
  shows "parses tokens pos expr_ok (parse_set_ops atom tokens k left pos)"
  using assms
proof (induction k arbitrary: left pos)
  case (Suc k)
  show ?case
  proof (cases "Option.bind (get_at tokens pos) set_op_of")
    case (Some op)
    then obtain t where "get_at tokens pos = Some t" by (cases "get_at tokens pos") auto
    then have bound: "pos < length tokens" by (rule get_at_bound)
    show ?thesis unfolding parse_set_ops.simps Some option.case
    proof (rule yields_bind [OF atoms_okD [OF Suc.prems(1)]])
      show "pos0 < Suc pos" "Suc pos \<le> length tokens" using Suc.prems bound by simp_all
      fix x assume x: "case x of (e, p) \<Rightarrow> Suc (Suc pos) \<le> p \<and> p \<le> length tokens \<and> (tokens_ok tokens \<longrightarrow> expr_ok e)"
      obtain right p where xp: "x = (right, p)" by fastforce
      have "parses tokens p expr_ok (parse_set_ops atom tokens k (SetOp op left right) p)"
        using Suc x xp by (intro Suc.IH) auto
      then show "parses tokens pos expr_ok (case x of (right, p) \<Rightarrow> parse_set_ops atom tokens k (SetOp op left right) p)"
        using x xp by (cases "parse_set_ops atom tokens k (SetOp op left right) p") auto
    qed
  qed (use Suc.prems in simp)
qed simp

lemma parse_expr_inner_parses:
  assumes "atoms_ok tokens pos0 atom" and "pos0 < pos" and "pos \<le> length tokens" and "length tokens - pos \<le> k"
  shows "parses tokens (Suc pos) expr_ok (parse_expr_inner atom tokens k pos)"
  unfolding parse_expr_inner_def
proof (rule yields_bind [OF atoms_okD [OF assms(1-3)]])
  fix x assume x: "case x of (e, p) \<Rightarrow> Suc pos \<le> p \<and> p \<le> length tokens \<and> (tokens_ok tokens \<longrightarrow> expr_ok e)"
  obtain left p where xp: "x = (left, p)" by fastforce
  have "parses tokens p expr_ok (parse_set_ops atom tokens k left p)"
    using assms x xp by (intro parse_set_ops_parses [OF assms(1)]) auto
  then show "parses tokens (Suc pos) expr_ok (case x of (left, p) \<Rightarrow> parse_set_ops atom tokens k left p)"
    using x xp by (cases "parse_set_ops atom tokens k left p") auto
qed

lemma parse_group_parses:
  assumes "atoms_ok tokens pos atom" and "pos < length tokens" and "length tokens - pos \<le> Suc k"
  shows "parses tokens (Suc pos) expr_ok (parse_group atom tokens k pos)"
  unfolding parse_group_def
proof (rule yields_bind [OF parse_expr_inner_parses [OF assms(1)]])
  show "pos < Suc pos" "Suc pos \<le> length tokens" "length tokens - Suc pos \<le> k" using assms by simp_all
  fix x assume x: "case x of (e, p) \<Rightarrow> Suc (Suc pos) \<le> p \<and> p \<le> length tokens \<and> (tokens_ok tokens \<longrightarrow> expr_ok e)"
  obtain inner p where xp: "x = (inner, p)" by fastforce
  with x expect_parses [of p tokens T_RParen "''expected '' @ quoted '')'' @ '' to close group''"]
  show "parses tokens (Suc pos) expr_ok (case x of (inner, pos) \<Rightarrow>
      map_ok (\<lambda>pos. (inner, pos)) (expect T_RParen (''expected '' @ quoted '')'' @ '' to close group'') tokens pos))"
    by (cases "expect T_RParen (''expected '' @ quoted '')'' @ '' to close group'') tokens p") auto
qed

lemma map_atom_parses:
  assumes "atoms_ok tokens pos atom" and "pos < p" and "p \<le> length tokens" and "\<And>e. expr_ok e \<Longrightarrow> expr_ok (f e)"
  shows "parses tokens (Suc pos) expr_ok (map_ok (\<lambda>(inner, pos). (f inner, pos)) (atom p))"
  using atoms_okD [OF assms(1-3)] assms(2,4) by (cases "atom p") auto

lemma parse_dominators_query_parses:
  assumes "atoms_ok tokens pos atom" and "pos < length tokens"
  shows "parses tokens (Suc pos) expr_ok (parse_dominators_query atom tokens pos)"
  unfolding parse_dominators_query_def
  by (rule yields_bind [OF expect_parses]) (use assms map_atom_parses [OF assms(1)] in auto)

lemma parse_trait_impls_query_parses:
  assumes "atoms_ok tokens pos atom" and "pos < length tokens"
  shows "parses tokens (Suc pos) expr_ok (parse_trait_impls_query atom tokens pos)"
  unfolding parse_trait_impls_query_def
  by (rule yields_bind [OF expect_parses]) (use assms map_atom_parses [OF assms(1)] in auto)

lemma parse_dominates_query_parses:
  assumes "atoms_ok tokens pos atom" and "pos < length tokens"
  shows "parses tokens (Suc pos) expr_ok (parse_dominates_query atom tokens pos)"
  unfolding parse_dominates_query_def using map_atom_parses [OF assms(1)] assms(2) by simp

lemma parse_entrypoint_query_parses:
  assumes "pos < length tokens"
  shows "parses tokens (Suc pos) expr_ok (parse_entrypoint_query tokens pos)"
proof (cases "get_at tokens (Suc pos) = Some T_Kind")
  case True
  note bound = get_at_bound [OF True]
  show ?thesis unfolding parse_entrypoint_query_def if_P [OF True]
    apply (rule yields_bind [OF expect_parses], use bound in simp)
    apply (rule yields_bind [OF ident_at_parses], simp)
    subgoal premises prems for p x
    proof -
      obtain s q where x: "x = (s, q)" by fastforce
      with prems kind_parses(3) [of p tokens s] show ?thesis
        by (cases "parse_entrypoint_kind s p") simp_all
    qed
    done
qed (use assms in \<open>simp add: parse_entrypoint_query_def\<close>)

lemma parse_path_query_parses:
  assumes "atoms_ok tokens pos atom" and "get_at tokens pos = Some t" and "t = T_Path \<or> t = T_Paths"
  shows "parses tokens (Suc pos) expr_ok (parse_path_query atom tokens pos)"
proof -
  note bound = get_at_bound [OF assms(2)]
  have mode: "yields (case get_at tokens pos of None \<Rightarrow> Inl Index_panic
      | Some t \<Rightarrow> if t = T_Path then Inr Shortest else if t = T_Paths then Inr AllSimple
          else Inl (ParseError pos (''expected '' @ quoted ''path'' @ '' or '' @ quoted ''paths''))) (\<lambda>_. True) (query_error_ok tokens)"
    using assms(2,3) by auto
  show ?thesis unfolding parse_path_query_def
    apply (rule yields_bind [OF mode])
    apply (rule yields_bind [OF atoms_okD [OF assms(1)]], simp, use bound in simp)
    subgoal premises prems for mode x
    proof -
      obtain source p where x: "x = (source, p)" by fastforce
      have p: "Suc (Suc pos) \<le> p" "p \<le> length tokens" "tokens_ok tokens \<longrightarrow> expr_ok source" using prems x by auto
      show ?thesis unfolding x prod.case
        apply (rule yields_bind [OF expect_parses [OF p(2)]])
        apply (rule yields_bind [OF atoms_okD [OF assms(1)]], use p in simp, simp)
        subgoal premises prems' for p' y
        proof -
          obtain target q where y: "y = (target, q)" by fastforce
          have q: "Suc pos \<le> q" "q \<le> length tokens" "tokens_ok tokens \<longrightarrow> expr_ok target"
            using prems' y p(1) by auto
          show ?thesis
            using path_qualifiers_parses [OF q(2), of None None None] q p(3) unfolding y
            by (cases "path_qualifiers tokens q None None None") (auto split: prod.splits)
        qed
        done
    qed
    done
qed

lemma multi_path_sources_parses:
  assumes "atoms_ok tokens pos0 atom" and "pos0 < pos" and "pos \<le> length tokens" and "length tokens - pos < k"
    and "tokens_ok tokens \<longrightarrow> (\<forall>s\<in>set sources. expr_ok s)"
  shows "parses tokens pos (\<lambda>ss. \<forall>s\<in>set ss. expr_ok s) (multi_path_sources atom tokens k sources pos)"
  using assms
proof (induction k arbitrary: sources pos)
  case (Suc k)
  show ?case
  proof (cases "length tokens \<le> pos \<or> get_at tokens pos = Some T_RBrace")
    case True
    then show ?thesis using Suc.prems by (auto dest: get_at_bound)
  next
    case False
    have "parses tokens pos (\<lambda>ss. \<forall>s\<in>set ss. expr_ok s) (and_then (atom pos) (\<lambda>(item, pos).
        if get_at tokens pos = Some T_Comma then multi_path_sources atom tokens k (sources @ [item]) (Suc pos)
        else if get_at tokens pos = Some T_RBrace then Inr (sources @ [item], Suc pos)
        else Inl (ParseError pos (''expected '' @ quoted '','' @ '' or '' @ quoted ''}'' @ '' in multi_path source list''))))"
    proof (rule yields_bind [OF atoms_okD [OF Suc.prems(1-3)]])
      fix x assume x: "case x of (e, p) \<Rightarrow> Suc pos \<le> p \<and> p \<le> length tokens \<and> (tokens_ok tokens \<longrightarrow> expr_ok e)"
      obtain item p where xp: "x = (item, p)" by fastforce
      have p: "Suc pos \<le> p" "p \<le> length tokens" "tokens_ok tokens \<longrightarrow> expr_ok item" using x xp by auto
      have next_item: "parses tokens (Suc p) (\<lambda>ss. \<forall>s\<in>set ss. expr_ok s)
          (multi_path_sources atom tokens k (sources @ [item]) (Suc p))" if "get_at tokens p = Some T_Comma"
        using get_at_bound [OF that] Suc.prems p False by (intro Suc.IH) auto
      show "parses tokens pos (\<lambda>ss. \<forall>s\<in>set ss. expr_ok s) (case x of (item, pos) \<Rightarrow>
          if get_at tokens pos = Some T_Comma then multi_path_sources atom tokens k (sources @ [item]) (Suc pos)
          else if get_at tokens pos = Some T_RBrace then Inr (sources @ [item], Suc pos)
          else Inl (ParseError pos (''expected '' @ quoted '','' @ '' or '' @ quoted ''}'' @ '' in multi_path source list'')))"
      proof (cases "get_at tokens p = Some T_Comma")
        case True
        with next_item p xp show ?thesis
          by (cases "multi_path_sources atom tokens k (sources @ [item]) (Suc p)") auto
      next
        case False
        with p xp Suc.prems(5) show ?thesis by (auto dest: get_at_bound)
      qed
    qed
    with False show ?thesis by simp
  qed
qed simp

lemma parse_multi_path_query_parses:
  assumes "atoms_ok tokens pos atom" and "pos < length tokens" and "length tokens - pos \<le> Suc k"
  shows "parses tokens (Suc pos) expr_ok (parse_multi_path_query atom tokens k pos)"
  unfolding parse_multi_path_query_def
  apply (rule yields_bind [OF expect_parses], use assms in simp)
  apply (rule yields_bind [OF multi_path_sources_parses [OF assms(1)]], simp, simp, use assms in simp, simp)
  subgoal premises prems for p x
  proof -
    obtain sources q where x: "x = (sources, q)" by fastforce
    have q: "Suc pos \<le> q" "q \<le> length tokens" "tokens_ok tokens \<longrightarrow> (\<forall>s\<in>set sources. expr_ok s)" using prems x by auto
    show ?thesis
    proof (cases "sources = []")
      case True
      with q x show ?thesis by simp
    next
      case False
      show ?thesis unfolding x prod.case if_not_P [OF False]
        apply (rule yields_bind [OF expect_parses [OF q(2)]])
        apply (rule yields_bind [OF atoms_okD [OF assms(1)]], use q in simp, simp)
        subgoal premises prems' for p' y
        proof -
          obtain target r where y: "y = (target, r)" by fastforce
          have r: "Suc pos \<le> r" "r \<le> length tokens" "tokens_ok tokens \<longrightarrow> expr_ok target" using prems' y q by auto
          have "parses tokens r (option_ok number_ok) (optional_depth tokens r)"
          proof (cases "get_at tokens r = Some T_Depth")
            case True
            with number_after_parses [OF get_at_bound [OF True], of "''depth''"] show ?thesis
              by (cases "number_after ''depth'' tokens r") (auto simp: optional_depth_def)
          qed (use r in \<open>simp add: optional_depth_def\<close>)
          with r q(3) False show ?thesis unfolding y by (cases "optional_depth tokens r") auto
        qed
        done
    qed
  qed
  done

lemma parse_atom_inner_parses:
  assumes "atoms_ok tokens pos atom" and "pos \<le> length tokens" and "length tokens - pos \<le> Suc k"
  shows "parses tokens (Suc pos) expr_ok (parse_atom_inner dbg atom tokens k pos)"
proof (cases "get_at tokens pos")
  case None
  with assms show ?thesis by (simp add: parse_atom_inner_def)
next
  case (Some t)
  note bound = get_at_bound [OF Some]
  let ?bases = "{T_LParen, T_Path, T_Paths, T_Entrypoints, T_Dominators, T_Dominates, T_TraitImpls, T_MultiPath}"
  show ?thesis
  proof (cases "t \<in> ?bases")
    case True
    let ?base = "if t = T_LParen then parse_group atom tokens k pos
              else if t = T_Path \<or> t = T_Paths then parse_path_query atom tokens pos
              else if t = T_Entrypoints then parse_entrypoint_query tokens pos
              else if t = T_Dominators then parse_dominators_query atom tokens pos
              else if t = T_Dominates then parse_dominates_query atom tokens pos
              else if t = T_TraitImpls then parse_trait_impls_query atom tokens pos
              else parse_multi_path_query atom tokens k pos"
    have "parses tokens (Suc pos) expr_ok ?base"
      using parse_group_parses [OF assms(1) bound assms(3)] parse_path_query_parses [OF assms(1) Some]
        parse_entrypoint_query_parses [OF bound] parse_dominators_query_parses [OF assms(1) bound]
        parse_dominates_query_parses [OF assms(1) bound] parse_trait_impls_query_parses [OF assms(1) bound]
        parse_multi_path_query_parses [OF assms(1) bound assms(3)] by presburger
    then have "parses tokens (Suc pos) expr_ok (and_then ?base (\<lambda>(base, pos). absorb_pipe dbg tokens base pos))"
    proof (rule yields_bind)
      fix x assume x: "case x of (e, p) \<Rightarrow> Suc pos \<le> p \<and> p \<le> length tokens \<and> (tokens_ok tokens \<longrightarrow> expr_ok e)"
      obtain base p where xp: "x = (base, p)" by fastforce
      with x absorb_pipe_parses [of p tokens base dbg]
      show "parses tokens (Suc pos) expr_ok (case x of (base, p) \<Rightarrow> absorb_pipe dbg tokens base p)"
        by (cases "absorb_pipe dbg tokens base p") auto
    qed
    then show ?thesis unfolding parse_atom_inner_def Some option.case if_P [OF True] .
  next
    case False
    have "parses tokens (Suc pos) expr_ok (map_ok (\<lambda>(ops, pos). (Pipe ops, pos)) (parse_pipe_chain_atom dbg tokens pos))"
      using parse_pipe_chain_atom_parses [OF assms(2), of dbg]
      by (cases "parse_pipe_chain_atom dbg tokens pos") auto
    then show ?thesis unfolding parse_atom_inner_def Some option.case if_not_P [OF False] .
  qed
qed

lemma parse_atom_contract:
  assumes "pos \<le> length tokens" and "length tokens - pos < k"
  shows "parses tokens (Suc pos) expr_ok (parse_atom dbg tokens k pos)"
  using assms
proof (induction k arbitrary: pos)
  case (Suc k)
  have "atoms_ok tokens pos (parse_atom dbg tokens k)"
    unfolding atoms_ok_def using Suc by auto
  with Suc.prems show ?case by (simp add: parse_atom_inner_parses)
qed simp

lemma parse_expr_tokens_yields:
  "yields (parse_expr_tokens dbg tokens) (\<lambda>e. tokens_ok tokens \<longrightarrow> expr_ok e) (query_error_ok tokens)"
proof (cases "tokens = []")
  case False
  let ?atom = "parse_atom dbg tokens (parse_fuel tokens)"
  have "parses tokens (Suc 0) expr_ok (?atom 0)"
    by (rule parse_atom_contract) (simp_all add: parse_fuel_def)
  moreover have "atoms_ok tokens 0 ?atom"
    unfolding atoms_ok_def by (intro allI impI parse_atom_contract) (auto simp: parse_fuel_def)
  ultimately have "parses tokens 0 expr_ok (parse_expr_inner ?atom tokens (parse_fuel tokens) 0)"
    unfolding parse_expr_inner_def
  proof (elim yields_bind)
    fix x assume ok: "atoms_ok tokens 0 ?atom"
      and x: "case x of (e, p) \<Rightarrow> Suc 0 \<le> p \<and> p \<le> length tokens \<and> (tokens_ok tokens \<longrightarrow> expr_ok e)"
    obtain left p where xp: "x = (left, p)" by fastforce
    have "parses tokens p expr_ok (parse_set_ops ?atom tokens (parse_fuel tokens) left p)"
      using x xp by (intro parse_set_ops_parses [OF ok]) (auto simp: parse_fuel_def)
    then show "parses tokens 0 expr_ok (case x of (left, p) \<Rightarrow> parse_set_ops ?atom tokens (parse_fuel tokens) left p)"
      using xp by (cases "parse_set_ops ?atom tokens (parse_fuel tokens) left p") auto
  qed
  then show ?thesis using False
    by (cases "parse_expr_inner ?atom tokens (parse_fuel tokens) 0") (auto simp: parse_expr_tokens_def)
qed (simp add: parse_expr_tokens_def)

end
