(* ===== verification/Query_Printer.thy ===== *)
theory Query_Printer
  imports Query_Lexer
begin

text \<open>
  The printer of tokens: the text of a list of tokens, and the proof that the lexer reads it back.
  The printer is the specification of the lexer; it is not part of the program.
\<close>

section \<open>The text of a token\<close>

fun decimal :: "nat \<Rightarrow> string" where
  "decimal n = (if n < 10 then [char_of (48 + n)] else decimal (n div 10) @ [char_of (48 + n mod 10)])"

declare decimal.simps [simp del]

definition symbols :: "(token \<times> string) list" where
  "symbols =
     [(T_Pipe, ''|''), (T_Equals, ''=''), (T_LParen, ''(''), (T_RParen, '')''), (T_Arrow, ''->''),
      (T_LBrace, ''{''), (T_RBrace, ''}''), (T_Comma, '','')]"

definition keyword_text :: "token \<Rightarrow> string" where
  "keyword_text t = (case List.find (\<lambda>(w, u). u = t) word_tokens of Some (w, u) \<Rightarrow> w | None \<Rightarrow> [])"

definition token_text :: "token \<Rightarrow> string" where
  "token_text t = (case t of
     T_String s \<Rightarrow> CHR 0x22 # s @ [CHR 0x22]
   | T_Number n \<Rightarrow> decimal n
   | T_Ident s \<Rightarrow> s
   | _ \<Rightarrow> (case map_of symbols t of Some s \<Rightarrow> s | None \<Rightarrow> keyword_text t))"

text \<open>The tokens \<^verbatim>\<open>fn\<close> and \<^verbatim>\<open>type\<close> stand for the opening of a selector with its argument.\<close>

fun render :: "token list \<Rightarrow> string" where
  "render [] = []"
| "render (t # ts) =
     (if t = T_Fn \<or> t = T_Type then
        (case ts of
           T_String s # rest \<Rightarrow> (if t = T_Fn then ''fn'' else ''type'') @ CHR ''('' # CHR 0x22 # s @
             CHR 0x22 # CHR '')'' # CHR '' '' # render rest
         | _ \<Rightarrow> [])
      else token_text t @ CHR '' '' # render ts)"

fun lexable :: "token list \<Rightarrow> bool" where
  "lexable [] \<longleftrightarrow> True"
| "lexable (t # ts) \<longleftrightarrow> token_ok t \<and>
     (if t = T_Fn \<or> t = T_Type then
        (case ts of T_String s # rest \<Rightarrow> token_ok (T_String s) \<and> lexable rest | _ \<Rightarrow> False)
      else (t = T_Ident ''type'' \<longrightarrow> (case ts of T_LParen # _ \<Rightarrow> False | _ \<Rightarrow> True)) \<and> lexable ts)"

section \<open>Numbers\<close>

lemma digit_char:
  fixes n :: nat
  assumes "n < 10"
  shows "ascii_digit_char (char_of (48 + n))" and "of_char (char_of (48 + n) :: char) = 48 + n"
proof -
  have n: "n \<in> {0, 1, 2, 3, 4, 5, 6, 7, 8, 9}" using assms by auto
  have "\<forall>n\<in>{0, 1, 2, 3, 4, 5, 6, 7, 8, 9 :: nat}. ascii_digit_char (char_of (48 + n))" by code_simp
  with n show "ascii_digit_char (char_of (48 + n))" by blast
  show "of_char (char_of (48 + n) :: char) = 48 + n" using assms by simp
qed

lemma decimal_digits: "\<forall>c\<in>set (decimal n). ascii_digit_char c"
  by (induction n rule: decimal.induct) (subst decimal.simps, auto intro!: digit_char(1) digit_char(1) [of "_ mod _"])

lemma decimal_nonempty: "decimal n \<noteq> []"
  by (subst decimal.simps) simp

lemma digits_value_snoc: "digits_value (s @ [c]) = 10 * digits_value s + (of_char c - 48)"
  by (simp add: digits_value_def)

lemma digits_value_decimal: "digits_value (decimal n) = n"
proof (induction n rule: decimal.induct)
  case (1 n)
  show ?case
  proof (cases "n < 10")
    case True
    then show ?thesis by (subst decimal.simps) (simp add: digits_value_def digit_char(2))
  next
    case False
    then show ?thesis using 1
      by (subst decimal.simps) (simp add: digits_value_snoc digit_char(2) [of "n mod 10"])
  qed
qed

section \<open>The passes of the lexer over the text of a token\<close>

lemma lex_pass:
  assumes "drop pos input = c # rest" and "lex_step input pos = Inr (new, pos')"
  shows "lex_loop input pos acc = lex_loop input pos' (acc @ new)"
  using assms get_at_bound [OF get_at_suffix [OF assms(1)]] by (simp add: lex_loop.simps [of input pos])

lemma at_suffix: "drop pos input = c # rest \<Longrightarrow> pos < length input \<and> input ! pos = c"
  using get_at_SomeD get_at_suffix by metis

lemma space_step: "drop pos input = CHR '' '' # rest \<Longrightarrow> lex_step input pos = Inr ([], Suc pos)"
  by (simp add: lex_step_def at_suffix ascii_whitespace_def)

lemma symbol_step:
  assumes "(t, w) \<in> set symbols" and "drop pos input = w @ rest"
  shows "lex_step input pos = Inr ([t], pos + length w)"
  using assms get_at_suffix [OF drop_suffix_Suc, of pos input "CHR ''-''" "CHR ''>''" rest]
  by (auto simp: symbols_def lex_step_def at_suffix ascii_whitespace_def)

lemma word_start_other:
  assumes "word_start c"
  shows "\<not> ascii_whitespace c" "c \<noteq> CHR 0xE2" "c \<notin> set ''|=(){},-''" "c \<noteq> CHR 0x5C" "c \<noteq> CHR 0x22"
    "\<not> ascii_digit_char c"
  using assms by (auto simp: word_start_def ascii_letter_def ascii_whitespace_def ascii_digit_char_def)

lemma word_step:
  assumes "drop pos input = w @ CHR '' '' # rest" and "w \<noteq> []" and "word_start (hd w)"
    and "\<forall>c\<in>set w. word_char c"
  shows "lex_step input pos = lex_word input pos" "scan word_char input pos = pos + length w"
    "bytes_between input pos (scan word_char input pos) = w"
proof -
  have "drop pos input = hd w # tl w @ CHR '' '' # rest" using assms(1,2) by (cases w) simp_all
  then have "input ! pos = hd w" using at_suffix by metis
  with word_start_other [OF assms(3)] assms(3) show "lex_step input pos = lex_word input pos"
    by (auto simp: lex_step_def Let_def)
  have "\<not> word_char CHR '' ''" by (simp add: word_char_def ascii_letter_def ascii_digit_char_def)
  then show "scan word_char input pos = pos + length w" 
    using scan_suffix [OF assms(1,4)] by simp
  then show "bytes_between input pos (scan word_char input pos) = w"
    using assms(1) by (simp add: bytes_between_suffix)
qed

lemma word_tokens_chars:
  "\<forall>(w, t)\<in>set word_tokens. w \<noteq> [] \<and> word_start (hd w) \<and> (\<forall>c\<in>set w. word_char c) \<and>
     w \<noteq> ''fn'' \<and> w \<noteq> ''type'' \<and> map_of word_tokens w = Some t"
  by code_simp

lemma keyword_step:
  assumes "(w, t) \<in> set word_tokens" and "drop pos input = w @ CHR '' '' # rest"
  shows "lex_step input pos = Inr ([t], pos + length w)"
proof -
  have "w \<noteq> []" "word_start (hd w)" "\<forall>c\<in>set w. word_char c" and w: "w \<noteq> ''fn''" "w \<noteq> ''type''"
    "map_of word_tokens w = Some t" using bspec [OF word_tokens_chars assms(1)] by auto
  from word_step [OF assms(2) this(1-3)] w show ?thesis by (simp add: lex_word_def)
qed

lemma digit_other:
  assumes "ascii_digit_char c"
  shows "\<not> ascii_whitespace c" "c \<noteq> CHR 0xE2" "c \<noteq> CHR ''|''" "c \<noteq> CHR ''=''" "c \<noteq> CHR ''(''"
    "c \<noteq> CHR '')''" "c \<noteq> CHR ''{''" "c \<noteq> CHR ''}''" "c \<noteq> CHR '',''" "c \<noteq> CHR ''-''" "c \<noteq> CHR 0x5C"
    "c \<noteq> CHR 0x22"
  using assms by (auto simp: ascii_whitespace_def ascii_digit_char_def)

lemma number_step:
  assumes "n < 2 ^ 64" and "drop pos input = decimal n @ CHR '' '' # rest"
  shows "lex_step input pos = Inr ([T_Number n], pos + length (decimal n))"
proof -
  obtain d ds where ds: "decimal n = d # ds" using decimal_nonempty [of n] by (cases "decimal n") auto
  then have d: "ascii_digit_char d" "input ! pos = d"
    using decimal_digits [of n] assms(2) at_suffix [of pos input d] by auto
  have "\<not> ascii_digit_char CHR '' ''" by (simp add: ascii_digit_char_def)
  then have "scan ascii_digit_char input pos = pos + length (decimal n)"
    using scan_suffix [OF assms(2) decimal_digits] by simp
  then have "lex_number input pos = Inr ([T_Number n], pos + length (decimal n))"
    using assms by (simp add: lex_number_def bytes_between_suffix digits_value_decimal)
  moreover have "lex_step input pos = lex_number input pos"
    using d(1) digit_other [OF d(1)] unfolding lex_step_def Let_def d(2) by simp
  ultimately show ?thesis by simp
qed

lemma string_end:
  assumes "CHR 0x22 \<notin> set s" and "drop pos input = s @ CHR 0x22 # rest"
  shows "scan (\<lambda>c. c \<noteq> CHR 0x22) input pos = pos + length s" "pos + length s < length input"
    "bytes_between input pos (pos + length s) = s"
proof -
  show "scan (\<lambda>c. c \<noteq> CHR 0x22) input pos = pos + length s"
    using assms by (intro scan_suffix) auto
  show "pos + length s < length input" using get_at_bound [OF get_at_suffix [OF drop_suffix [OF assms(2)]]] .
  show "bytes_between input pos (pos + length s) = s" using assms(2) by (rule bytes_between_suffix)
qed

lemma string_step:
  assumes "CHR 0x22 \<notin> set s" and "drop pos input = CHR 0x22 # s @ CHR 0x22 # rest"
  shows "lex_step input pos = Inr ([T_String s], pos + length s + 2)"
  using string_end [OF assms(1) drop_suffix_Suc [OF assms(2)]] at_suffix [OF assms(2)]
  by (simp add: lex_step_def lex_string_def ascii_whitespace_def)

lemma selector_step:
  assumes "w = (if t = T_Fn then ''fn'' else ''type'')" and "t = T_Fn \<or> t = T_Type"
    and "CHR 0x22 \<notin> set s" and "drop pos input = w @ CHR ''('' # CHR 0x22 # s @ CHR 0x22 # CHR '')'' # rest"
  shows "lex_step input pos = Inr ([t, T_String s], pos + length w + length s + 4)"
proof -
  let ?open = "pos + length w"
  have w: "drop pos input = hd w # tl w @ CHR ''('' # CHR 0x22 # s @ CHR 0x22 # CHR '')'' # rest"
    "word_start (hd w)" "\<forall>c\<in>set w. word_char c" "w = ''fn'' \<or> w = ''type''"
    using assms by (auto simp: word_start_def word_char_def ascii_letter_def)
  have "\<not> word_char CHR ''(''" by (simp add: word_char_def ascii_letter_def ascii_digit_char_def)
  then have scan: "scan word_char input pos = ?open" using scan_suffix [OF assms(4) w(3)] by simp
  have o: "drop ?open input = CHR ''('' # CHR 0x22 # s @ CHR 0x22 # CHR '')'' # rest"
    using drop_suffix [OF assms(4)] .
  have q: "drop (Suc ?open) input = CHR 0x22 # s @ CHR 0x22 # CHR '')'' # rest" using drop_suffix_Suc [OF o] .
  have c: "drop (Suc (Suc ?open)) input = s @ CHR 0x22 # CHR '')'' # rest" using drop_suffix_Suc [OF q] .
  have z: "drop (Suc (Suc (Suc ?open) + length s)) input = CHR '')'' # rest"
    using drop_suffix_Suc [OF drop_suffix [OF c]] .
  have ws: "scan ascii_whitespace input p = p" if "drop p input = x # r" "\<not> ascii_whitespace x" for p x r
    using scan_suffix [of p input "[]" "x # r" ascii_whitespace] that by simp
  have "\<not> ascii_whitespace CHR ''(''" "\<not> ascii_whitespace CHR 0x22" "\<not> ascii_whitespace CHR '')''"
    by (simp_all add: ascii_whitespace_def)
  note ws = ws [OF o this(1)] ws [OF q this(2)] ws [OF z this(3)]
  have "lex_selector input w ?open = Inr ([t, T_String s], Suc (Suc (Suc (Suc ?open) + length s)))"
    using assms(1,2) string_end [OF assms(3) c] get_at_suffix [OF o] get_at_suffix [OF q] get_at_suffix [OF z] ws
    by (auto simp: lex_selector_def Let_def)
  moreover have "lex_step input pos = lex_word input pos"
    using at_suffix [OF w(1)] w(2) word_start_other [OF w(2)] by (auto simp: lex_step_def Let_def)
  moreover have "bytes_between input pos ?open = w" using assms(4) by (rule bytes_between_suffix)
  ultimately show ?thesis using w(4) scan by (auto simp: lex_word_def Let_def)
qed

section \<open>The lexer reads the text of a token list back\<close>

definition valued :: "token \<Rightarrow> bool" where
  "valued t \<longleftrightarrow> (case t of T_String _ \<Rightarrow> True | T_Number _ \<Rightarrow> True | T_Ident _ \<Rightarrow> True | _ \<Rightarrow> False)"

lemma plain_token:
  assumes "\<not> valued t" and "t \<noteq> T_Fn" and "t \<noteq> T_Type"
  shows "(t, token_text t) \<in> set symbols \<or> (token_text t, t) \<in> set word_tokens"
  using assms by (cases t) (simp_all add: valued_def token_text_def symbols_def keyword_text_def word_tokens_def)

lemma symbols_head: "\<forall>(t, w)\<in>set symbols. w \<noteq> [] \<and> \<not> ascii_whitespace (hd w) \<and> (hd w = CHR ''('' \<longrightarrow> t = T_LParen)"
  by code_simp

lemma word_start_head: "word_start c \<Longrightarrow> \<not> ascii_whitespace c \<and> c \<noteq> CHR ''(''"
  using word_start_other [of c] by auto

lemma render_head:
  assumes "lexable (t # ts)"
  shows "\<exists>c r. render (t # ts) = c # r \<and> \<not> ascii_whitespace c \<and> (c = CHR ''('' \<longrightarrow> t = T_LParen)"
proof (cases "t = T_Fn \<or> t = T_Type")
  case True
  have ok: "\<not> ascii_whitespace CHR ''f''" "\<not> ascii_whitespace CHR ''t''" by (simp_all add: ascii_whitespace_def)
  from assms True obtain s rest where "ts = T_String s # rest" by (auto split: list.splits token.splits)
  with True ok show ?thesis by (auto split: list.splits token.splits)
next
  case False
  then have "render (t # ts) = token_text t @ CHR '' '' # render ts" by simp
  moreover have "\<exists>c r. token_text t = c # r \<and> \<not> ascii_whitespace c \<and> (c = CHR ''('' \<longrightarrow> t = T_LParen)"
  proof (cases "valued t")
    case True
    have "token_ok t" using assms by simp
    with True consider (str) s where "t = T_String s" | (num) n where "t = T_Number n"
      | (ident) s where "t = T_Ident s" "s \<noteq> []" "word_start (hd s)"
      by (cases t) (auto simp: valued_def token_ok_def)
    then show ?thesis
    proof cases
      case num
      have "\<exists>c r. decimal n = c # r \<and> ascii_digit_char c"
        using decimal_nonempty [of n] decimal_digits [of n] by (cases "decimal n") auto
      with num digit_other show ?thesis by (fastforce simp: token_text_def)
    next
      case ident
      then show ?thesis using word_start_head by (cases s) (auto simp: token_text_def)
    qed (simp add: token_text_def ascii_whitespace_def)
  next
    case v: False
    with False plain_token consider "(t, token_text t) \<in> set symbols" | "(token_text t, t) \<in> set word_tokens"
      by blast
    then show ?thesis
    proof cases
      case 1
      from bspec [OF symbols_head 1] show ?thesis by (cases "token_text t") auto
    next
      case 2
      from bspec [OF word_tokens_chars 2] show ?thesis
        using word_start_head by (cases "token_text t") auto
    qed
  qed
  ultimately show ?thesis by auto
qed

lemma ident_step:
  assumes "token_ok (T_Ident s)" and "drop pos input = s @ CHR '' '' # render ts" and "lexable ts"
    and "s = ''type'' \<longrightarrow> (case ts of T_LParen # _ \<Rightarrow> False | _ \<Rightarrow> True)"
  shows "lex_step input pos = Inr ([T_Ident s], pos + length s)"
proof -
  have s: "s \<noteq> []" "word_start (hd s)" "\<forall>c\<in>set s. word_char c" "s \<noteq> ''fn''" "map_of word_tokens s = None"
    using assms(1) by (simp_all add: token_ok_def)
  note word = word_step [OF assms(2) s(1-3)]
  show ?thesis
  proof (cases "s = ''type''")
    case True
    let ?peek = "scan ascii_whitespace input (pos + length s)"
    have space: "ascii_whitespace CHR '' ''" by (simp add: ascii_whitespace_def)
    have d: "drop (pos + length s) input = [CHR '' ''] @ render ts" using drop_suffix [OF assms(2)] by simp
    have head: "render ts = [] \<or> \<not> ascii_whitespace (hd (render ts)) \<and> hd (render ts) \<noteq> CHR ''(''"
    proof (cases ts)
      case (Cons t ts')
      then have "t \<noteq> T_LParen" using assms(4) True by (cases t) simp_all
      moreover obtain c r where "render ts = c # r" "\<not> ascii_whitespace c" "c = CHR ''('' \<longrightarrow> t = T_LParen"
        using render_head [of t ts'] assms(3) unfolding Cons by blast
      ultimately show ?thesis by simp
    qed simp
    have peek: "?peek = pos + length s + 1"
      using scan_suffix [OF d, of ascii_whitespace] space head by auto
    have "drop (pos + length s + 1) input = render ts" using drop_suffix [OF d] by simp
    then have "get_at input (pos + length s + 1) = (case render ts of [] \<Rightarrow> None | c # _ \<Rightarrow> Some c)"
      by (simp only: get_at_drop)
    with head have "get_at input ?peek \<noteq> Some CHR ''(''" unfolding peek by (cases "render ts") simp_all
    then show ?thesis using True word by (simp add: lex_word_def lex_selector_def Let_def)
  next
    case False
    then show ?thesis using word s by (simp add: lex_word_def)
  qed
qed

lemma token_step:
  assumes "lexable (t # ts)" and "\<not> (t = T_Fn \<or> t = T_Type)" and "drop pos input = render (t # ts)"
  shows "lex_step input pos = Inr ([t], pos + length (token_text t))"
proof -
  have d: "drop pos input = token_text t @ CHR '' '' # render ts" using assms(2,3) by simp
  have ok: "token_ok t" "lexable ts" using assms(1,2) by simp_all
  consider s where "t = T_String s" | n where "t = T_Number n" | s where "t = T_Ident s" | "\<not> valued t"
    by (cases t) (auto simp: valued_def)
  then show ?thesis
  proof cases
    case 1
    then show ?thesis using string_step [of s pos input "CHR '' '' # render ts"] d ok
      by (simp add: token_text_def token_ok_def)
  next
    case 2
    then show ?thesis using number_step [of n pos input "render ts"] d ok by (simp add: token_text_def token_ok_def)
  next
    case 3
    then show ?thesis using ident_step [of s pos input ts] d ok assms(1) by (simp add: token_text_def)
  next
    case 4
    with assms(2) plain_token consider "(t, token_text t) \<in> set symbols" | "(token_text t, t) \<in> set word_tokens"
      by blast
    then show ?thesis using symbol_step [OF _ d] keyword_step [OF _ d] by cases simp_all
  qed
qed

lemma lex_render_from:
  assumes "lexable ts" and "drop pos input = render ts"
  shows "lex_loop input pos acc = Inr (acc @ ts)"
  using assms
proof (induction ts arbitrary: pos acc rule: render.induct)
  case 1
  then show ?case by (simp add: lex_loop.simps)
next
  case (2 t ts)
  show ?case
  proof (cases "t = T_Fn \<or> t = T_Type")
    case True
    let ?w = "if t = T_Fn then ''fn'' else ''type''"
    from 2 True obtain s rest where ts: "ts = T_String s # rest" "token_ok (T_String s)" "lexable rest"
      by (auto split: list.splits token.splits)
    with 2 True have d: "drop pos input = ?w @ CHR ''('' # CHR 0x22 # s @ CHR 0x22 # CHR '')'' # CHR '' '' # render rest"
      by auto
    let ?p = "pos + length ?w + length s + 4"
    have "drop pos input = (?w @ CHR ''('' # CHR 0x22 # s @ [CHR 0x22, CHR '')'']) @ CHR '' '' # render rest"
      using d by simp
    moreover have "?p = pos + length (?w @ CHR ''('' # CHR 0x22 # s @ [CHR 0x22, CHR '')''])" by simp
    ultimately have e: "drop ?p input = CHR '' '' # render rest" using drop_suffix by metis
    have "lex_step input pos = Inr ([t, T_String s], ?p)"
      using selector_step [OF refl True _ d] ts(2) by (simp add: token_ok_def)
    moreover obtain c r where "drop pos input = c # r" using d by (cases "t = T_Fn") auto
    ultimately have "lex_loop input pos acc = lex_loop input (Suc ?p) (acc @ [t, T_String s])"
      using lex_pass [of pos input c r] lex_pass [OF e space_step [OF e]] by simp
    with "2.IH"(1) [OF True ts(1), where pos = "Suc ?p"] ts drop_suffix_Suc [OF e] show ?thesis by simp
  next
    case False
    have step: "lex_step input pos = Inr ([t], pos + length (token_text t))"
      using token_step [OF "2.prems"(1) False "2.prems"(2)] .
    have d: "drop pos input = token_text t @ CHR '' '' # render ts" using "2.prems"(2) False by simp
    note e = drop_suffix [OF d]
    obtain c r where "drop pos input = c # r" using d by (cases "token_text t") auto
    then have "lex_loop input pos acc = lex_loop input (Suc (pos + length (token_text t))) (acc @ [t])"
      using lex_pass [of pos input c r] lex_pass [OF e space_step [OF e]] step by simp
    with "2.IH"(2) [OF False, where pos = "Suc (pos + length (token_text t))"] "2.prems"(1) False drop_suffix_Suc [OF e]
    show ?thesis by simp
  qed
qed

lemma lex_render: "lexable ts \<Longrightarrow> lex (render ts) = Inr ts"
  using lex_render_from [of ts 0 "render ts" "[]"] by (simp add: lex_def)

end
