(* ===== verification/Query_Roundtrip.thy ===== *)
theory Query_Roundtrip
  imports Query_Contract Query_Printer
begin

text \<open>
  The printer of expressions and the round trip of the query language: the text of a well-formed
  expression parses to that expression. The printer is the specification of the parser; it writes
  parentheses around an operand unless it is a pipe chain, and around the right side of a set
  operation only when that is a set operation itself, so that left associativity is part of it.
\<close>

section \<open>The printer\<close>

fun node_kind_text :: "analysis_node_kind \<Rightarrow> string" where
  "node_kind_text AN_Function = ''Function''"
| "node_kind_text AN_Struct = ''Struct''"
| "node_kind_text AN_Enum = ''Enum''"
| "node_kind_text AN_Module = ''Module''"
| "node_kind_text AN_Trait = ''Trait''"
| "node_kind_text AN_EnumVariant = ''EnumVariant''"
| "node_kind_text AN_Field = ''Field''"
| "node_kind_text AN_TypeAlias = ''TypeAlias''"
| "node_kind_text AN_Constant = ''Constant''"
| "node_kind_text AN_Interface = ''Interface''"

fun projection_text :: "projection \<Rightarrow> string" where
  "projection_text Fields = ''fields''"
| "projection_text Signature = ''signature''"
| "projection_text Body = ''body''"

fun entrypoint_kind_text :: "entrypoint_kind \<Rightarrow> string" where
  "entrypoint_kind_text Main = ''Main''"
| "entrypoint_kind_text PublicApi = ''PublicApi''"
| "entrypoint_kind_text Test = ''Test''"
| "entrypoint_kind_text Bench = ''Bench''"
| "entrypoint_kind_text FfiExport = ''FfiExport''"

fun op_tokens :: "dsl_op \<Rightarrow> token list" where
  "op_tokens (SelectFn s) = [T_Fn, T_String s]"
| "op_tokens (SelectType s) = [T_Type, T_String s]"
| "op_tokens Callers = [T_Callers]"
| "op_tokens Callees = [T_Callees]"
| "op_tokens (Depth n) = [T_Depth, T_Number n]"
| "op_tokens (Filter k) = [T_Filter, T_Kind, T_Equals, T_Ident (node_kind_text k)]"
| "op_tokens (Show p) = [T_Show, T_Ident (projection_text p)]"
| "op_tokens (Taint s) = [T_Taint, T_String s]"
| "op_tokens Preconditions = [T_Preconditions]"
| "op_tokens (Since n) = [T_Since, T_Number n]"
| "op_tokens (Hot n) = [T_Hot, T_Number n]"
| "op_tokens Scc = [T_Scc]"
| "op_tokens Dispatch = [T_Dispatch]"
| "op_tokens ClusterByType = [T_Cluster, T_By, T_Ident ''type'']"
| "op_tokens (Affected d r) = [T_Affected, T_Number d, T_Since, T_Number r]"
| "op_tokens Untested = [T_Untested]"
| "op_tokens PossibleTypes = [T_PossibleTypes]"
| "op_tokens CoChanges = [T_CoChanges]"
| "op_tokens Communities = [T_Communities]"
| "op_tokens Complexity = [T_Complexity]"
| "op_tokens Cfg = [T_Cfg]"
| "op_tokens Dataflow = [T_Dataflow]"
| "op_tokens (ReachableVia pattern d) = [T_Reachable, T_Via, T_String (format_pattern pattern)] @
     (if d = CD_Incoming then [T_Ident ''incoming''] else [])"

fun chain_tokens :: "dsl_op list \<Rightarrow> token list" where
  "chain_tokens [] = []"
| "chain_tokens [op] = op_tokens op"
| "chain_tokens (op # op' # ops) = op_tokens op @ T_Pipe # chain_tokens (op' # ops)"

definition grouped :: "token list \<Rightarrow> token list" where
  "grouped ts = T_LParen # ts @ [T_RParen]"

definition is_pipe :: "expr \<Rightarrow> bool" where
  "is_pipe e = (case e of Pipe _ \<Rightarrow> True | _ \<Rightarrow> False)"

definition is_set_op :: "expr \<Rightarrow> bool" where
  "is_set_op e = (case e of SetOp _ _ _ \<Rightarrow> True | _ \<Rightarrow> False)"

definition operand :: "expr \<Rightarrow> token list \<Rightarrow> token list" where
  "operand e ts = (if is_pipe e then ts else grouped ts)"

definition right_side :: "expr \<Rightarrow> token list \<Rightarrow> token list" where
  "right_side e ts = (if is_set_op e then grouped ts else ts)"

fun set_op_token :: "set_op \<Rightarrow> token" where
  "set_op_token SetUnion = T_Union"
| "set_op_token SetIntersect = T_Intersect"
| "set_op_token SetDiff = T_Diff"

definition depth_tokens :: "nat option \<Rightarrow> token list" where
  "depth_tokens d = (case d of None \<Rightarrow> [] | Some n \<Rightarrow> [T_Depth, T_Number n])"

definition qualifier_tokens :: "analysis_node_kind option \<Rightarrow> analysis_edge_kind option \<Rightarrow> nat option \<Rightarrow> token list" where
  "qualifier_tokens i v d =
     (case i of None \<Rightarrow> [] | Some k \<Rightarrow> [T_Where, T_Intermediate, T_Kind, T_Equals, T_Ident (node_kind_text k)]) @
     (case v of None \<Rightarrow> [] | Some k \<Rightarrow> [T_Via, T_Ident (edge_kind_label k)]) @ depth_tokens d"

fun separated :: "token list list \<Rightarrow> token list" where
  "separated [] = []"
| "separated [ts] = ts"
| "separated (ts # us # uss) = ts @ T_Comma # separated (us # uss)"

fun expr_tokens :: "expr \<Rightarrow> token list" where
  "expr_tokens (Pipe ops) = chain_tokens ops"
| "expr_tokens (PathQuery mode source target i v d) =
     (if mode = Shortest then T_Path else T_Paths) # operand source (expr_tokens source) @
     T_Arrow # operand target (expr_tokens target) @ qualifier_tokens i v d"
| "expr_tokens (Entrypoints kind) = T_Entrypoints #
     (case kind of None \<Rightarrow> [] | Some k \<Rightarrow> [T_Kind, T_Equals, T_Ident (entrypoint_kind_text k)])"
| "expr_tokens (SetOp op left right) = expr_tokens left @ set_op_token op # right_side right (expr_tokens right)"
| "expr_tokens (DominatorsOf e) = T_Dominators # T_Of # operand e (expr_tokens e)"
| "expr_tokens (DominatesOf e) = T_Dominates # operand e (expr_tokens e)"
| "expr_tokens (TraitImplsOf e) = T_TraitImpls # T_Of # operand e (expr_tokens e)"
| "expr_tokens (PipeFrom base ops) = grouped (expr_tokens base) @ T_Pipe # chain_tokens ops"
| "expr_tokens (MultiPath sources target d) =
     T_MultiPath # T_LBrace # separated (map (\<lambda>e. operand e (expr_tokens e)) sources) @
     T_RBrace # T_Arrow # operand target (expr_tokens target) @ depth_tokens d"

definition print_expr :: "expr \<Rightarrow> string" where
  "print_expr e = render (expr_tokens e)"

section \<open>Operations\<close>

definition not_before :: "token set \<Rightarrow> token list \<Rightarrow> bool" where
  "not_before T rest \<longleftrightarrow> (case rest of [] \<Rightarrow> True | t # _ \<Rightarrow> t \<notin> T)"

lemma not_before_simps [simp]: "not_before T []" "not_before T (t # ts) \<longleftrightarrow> t \<notin> T"
  by (simp_all add: not_before_def)

lemma not_before_get: "drop pos tokens = rest \<Longrightarrow> not_before T rest \<Longrightarrow> t \<in> T \<Longrightarrow> get_at tokens pos \<noteq> Some t"
  by (cases rest) (auto simp: get_at_drop)

definition idents :: "token set" where
  "idents = range T_Ident"

lemma parse_node_kind_text [simp]: "parse_node_kind (node_kind_text k) pos = Inr k"
  by (cases k) (simp_all add: parse_node_kind_def)

lemma parse_projection_text [simp]: "parse_projection (projection_text p) pos = Inr p"
  by (cases p) (simp_all add: parse_projection_def)

lemma parse_entrypoint_kind_text [simp]: "parse_entrypoint_kind (entrypoint_kind_text e) pos = Inr e"
  by (cases e) (simp_all add: parse_entrypoint_kind_def)

lemma parse_edge_kind_label: "erased_kind k \<Longrightarrow> parse_edge_kind (edge_kind_label k) pos = Inr k"
  by (cases k) (simp_all add: parse_edge_kind_def erased_kind_def erase_kind_def)

lemma suffix_steps:
  assumes "drop pos tokens = t # rest"
  shows "get_at tokens pos = Some t" "drop (Suc pos) tokens = rest"
  using get_at_suffix [OF assms] drop_suffix_Suc [OF assms] .

lemma parse_op_tokens:
  assumes "op_ok op" and "drop pos tokens = op_tokens op @ rest" and "not_before idents rest"
  shows "parse_op dbg tokens pos = Inr (op, pos + length (op_tokens op))"
proof -
  have rest: "get_at tokens p \<noteq> Some (T_Ident s)" if "drop p tokens = rest" for p s
    using not_before_get [OF that assms(3), of "T_Ident s"] by (simp add: idents_def)
  obtain t ts where ts: "op_tokens op = t # ts" by (cases op) simp_all
  with assms(2) have d: "drop pos tokens = t # ts @ rest" by simp
  note s0 = suffix_steps [OF d]
  show ?thesis
  proof (cases op)
    case (Filter k)
    then have d0: "drop (Suc pos) tokens = T_Kind # T_Equals # T_Ident (node_kind_text k) # rest" using s0 ts by simp
    note s1 = suffix_steps [OF d0] note s2 = suffix_steps [OF s1(2)] note s3 = suffix_steps [OF s2(2)]
    show ?thesis using Filter s0 s1 s2 s3 ts
      by (auto simp: parse_op_def parse_filter_def expect_def ident_at_def)
  next
    case (Affected a r)
    then have d0: "drop (Suc pos) tokens = T_Number a # T_Since # T_Number r # rest" using s0 ts by auto
    note s1 = suffix_steps [OF d0] note s2 = suffix_steps [OF s1(2)] note s3 = suffix_steps [OF s2(2)]
    show ?thesis using Affected s0 s1 s2 s3 ts
      by (auto simp: parse_op_def parse_affected_def expect_def number_at_def)
  next
    case ClusterByType
    then have d0: "drop (Suc pos) tokens = T_By # T_Ident ''type'' # rest" using s0 ts by auto
    note s1 = suffix_steps [OF d0] note s2 = suffix_steps [OF s1(2)]
    show ?thesis using ClusterByType s0 s1 s2 ts by (auto simp: parse_op_def parse_cluster_def expect_def)
  next
    case (ReachableVia pattern dir)
    let ?dir = "if dir = CD_Incoming then [T_Ident ''incoming''] else []"
    from ReachableVia have d0: "drop (Suc pos) tokens = T_Via # T_String (format_pattern pattern) # ?dir @ rest"
      using s0 ts by auto
    note s1 = suffix_steps [OF d0] note s2 = suffix_steps [OF s1(2)]
    have pattern: "parse_pattern (format_pattern pattern) = Inr pattern"
      using assms(1) ReachableVia by (simp add: parse_format_pattern op_ok_def map_erase_atom)
    have "parse_reachable tokens pos = Inr (ReachableVia pattern dir, pos + 3 + length ?dir)"
    proof (cases dir)
      case CD_Outgoing
      with s2(2) have "drop (Suc (Suc (Suc pos))) tokens = rest" by simp
      from rest [OF this] show ?thesis using s1 s2 pattern CD_Outgoing
        by (auto simp: parse_reachable_def expect_def string_at_def split: option.splits token.splits)
    next
      case CD_Incoming
      with s2(2) have "drop (Suc (Suc (Suc pos))) tokens = T_Ident ''incoming'' # rest" by simp
      from suffix_steps [OF this] show ?thesis using s1 s2 pattern CD_Incoming
        by (auto simp: parse_reachable_def expect_def string_at_def)
    qed
    then show ?thesis using ReachableVia s0 ts by (auto simp: parse_op_def)
  next
    case (Show p)
    then have d0: "drop (Suc pos) tokens = T_Ident (projection_text p) # rest" using s0 ts by auto
    show ?thesis using Show s0 suffix_steps [OF d0] ts
      by (auto simp: parse_op_def parse_show_def ident_at_def Let_def)
  qed (use s0 ts suffix_steps(1) [of "Suc pos" tokens] in \<open>auto simp: parse_op_def parse_select_fn_def parse_select_type_def
      parse_taint_def parse_depth_def parse_since_def parse_hot_def parse_string_arg_def number_after_def
      string_at_def number_at_def Let_def\<close>)
qed

section \<open>Chains and qualifiers\<close>

definition atom_starts :: "token set" where
  "atom_starts = {T_LParen, T_Path, T_Paths, T_Entrypoints, T_Dominators, T_Dominates, T_TraitImpls, T_MultiPath}"

lemma op_tokens_head: "\<exists>t ts. op_tokens op = t # ts \<and> t \<notin> chain_stops \<and> t \<notin> atom_starts \<and> t \<noteq> T_LParen"
  by (cases op) (simp_all add: chain_stops_def atom_starts_def)

lemma chain_tokens_head:
  assumes "ops \<noteq> []"
  shows "\<exists>t ts. chain_tokens ops = t # ts \<and> t \<notin> chain_stops \<and> t \<notin> atom_starts \<and> t \<noteq> T_LParen"
proof -
  obtain op ops' where ops: "ops = op # ops'" using assms by (cases ops) auto
  obtain t ts where "op_tokens op = t # ts" "t \<notin> chain_stops" "t \<notin> atom_starts" "t \<noteq> T_LParen"
    using op_tokens_head [of op] by blast
  then show ?thesis unfolding ops by (cases ops') auto
qed

abbreviation chain_follow :: "token list \<Rightarrow> bool" where
  "chain_follow \<equiv> not_before (insert T_Pipe idents)"

lemma chain_followD: "chain_follow rest \<Longrightarrow> not_before idents rest \<and> not_before {T_Pipe} rest"
  by (cases rest) auto

lemma pipe_not_ident: "not_before idents (T_Pipe # rest)"
  by (auto simp: idents_def)

lemma length_of_suffix: "drop pos tokens = t # rest \<Longrightarrow> length tokens = pos + Suc (length rest)"
  using drop_length [of pos tokens "t # rest"] by simp

lemma pipe_chain_loop_tokens:
  assumes "ops \<noteq> []" and "ops_ok ops" and "drop pos tokens = chain_tokens ops @ rest" and "chain_follow rest"
  shows "pipe_chain_loop dbg tokens pos acc = Inr (acc @ ops, pos + length (chain_tokens ops))"
  using assms
proof (induction ops arbitrary: pos acc rule: chain_tokens.induct)
  case (2 op)
  obtain t ts where t: "op_tokens op = t # ts" "t \<notin> chain_stops" using op_tokens_head [of op] by blast
  have op: "parse_op dbg tokens pos = Inr (op, pos + length (op_tokens op))"
    using 2 chain_followD by (intro parse_op_tokens) auto
  have "get_at tokens pos = Some t" using 2 t by (intro get_at_suffix) simp
  moreover have "get_at tokens (pos + length (op_tokens op)) \<noteq> Some T_Pipe"
    using not_before_get [OF drop_suffix, of pos tokens "op_tokens op" rest "{T_Pipe}" T_Pipe] 2 chain_followD by auto
  ultimately show ?case using op t by (simp add: pipe_chain_loop.simps [of dbg tokens pos])
next
  case (3 op op' ops)
  let ?p = "pos + length (op_tokens op)"
  obtain t ts where t: "op_tokens op = t # ts" "t \<notin> chain_stops" using op_tokens_head [of op] by blast
  have d: "drop pos tokens = op_tokens op @ T_Pipe # chain_tokens (op' # ops) @ rest" using 3 by simp
  have op: "parse_op dbg tokens pos = Inr (op, ?p)"
    using 3 d pipe_not_ident by (intro parse_op_tokens) auto
  have at: "get_at tokens pos = Some t" using d t by (intro get_at_suffix) simp
  note pipe = suffix_steps [OF drop_suffix [OF d]]
  have "chain_tokens (op' # ops) \<noteq> []" using chain_tokens_head [of "op' # ops"] by auto
  then have "Suc ?p < length tokens" using length_of_suffix [OF drop_suffix [OF d]] by (cases "chain_tokens (op' # ops)") auto
  moreover have "pipe_chain_loop dbg tokens (Suc ?p) (acc @ [op]) =
      Inr ((acc @ [op]) @ op' # ops, Suc ?p + length (chain_tokens (op' # ops)))"
    using 3 pipe by (intro "3.IH") auto
  ultimately show ?case using op at t pipe by (simp add: pipe_chain_loop.simps [of dbg tokens pos])
qed simp

lemma pipe_chain_atom_tokens:
  assumes "ops \<noteq> []" and "ops_ok ops" and "drop pos tokens = chain_tokens ops @ rest" and "chain_follow rest"
  shows "parse_pipe_chain_atom dbg tokens pos = Inr (ops, pos + length (chain_tokens ops))"
  using pipe_chain_loop_tokens [OF assms, of dbg "[]"] assms(1) by (simp add: parse_pipe_chain_atom_def)

lemma trailing_ops_tokens:
  assumes "ops \<noteq> []" and "ops_ok ops" and "drop pos tokens = T_Pipe # chain_tokens ops @ rest" and "chain_follow rest"
  shows "trailing_ops dbg tokens pos acc = Inr (acc @ ops, Suc pos + length (chain_tokens ops))"
  using assms
proof (induction ops arbitrary: pos acc rule: chain_tokens.induct)
  case (2 op)
  note d = suffix_steps [OF "2.prems"(3)]
  let ?p = "Suc pos + length (op_tokens op)"
  have "parse_op dbg tokens (Suc pos) = Inr (op, ?p)"
    using 2 d chain_followD by (intro parse_op_tokens) auto
  moreover have "get_at tokens ?p \<noteq> Some T_Pipe"
    using not_before_get [OF drop_suffix, of "Suc pos" tokens "op_tokens op" rest "{T_Pipe}" T_Pipe] 2 d chain_followD by auto
  ultimately show ?case using d by (simp add: trailing_ops.simps [of dbg tokens pos] trailing_ops.simps [of dbg tokens "Suc (pos + length (op_tokens op))"])
next
  case (3 op op' ops)
  note d = suffix_steps [OF "3.prems"(3)]
  let ?p = "Suc pos + length (op_tokens op)"
  have d': "drop (Suc pos) tokens = op_tokens op @ T_Pipe # chain_tokens (op' # ops) @ rest" using d by simp
  have "parse_op dbg tokens (Suc pos) = Inr (op, ?p)"
    using 3 d' pipe_not_ident by (intro parse_op_tokens) auto
  moreover have "trailing_ops dbg tokens ?p (acc @ [op]) = Inr ((acc @ [op]) @ op' # ops, Suc ?p + length (chain_tokens (op' # ops)))"
    using 3 drop_suffix [OF d'] by (intro "3.IH") auto
  ultimately show ?case using d by (simp add: trailing_ops.simps [of dbg tokens pos])
qed simp

abbreviation qualifier_follow :: "token list \<Rightarrow> bool" where
  "qualifier_follow \<equiv> not_before {T_Where, T_Via, T_Depth}"

lemma number_after_tokens:
  assumes "drop pos tokens = t # T_Number n # rest"
  shows "number_after w tokens pos = Inr (n, Suc (Suc pos))"
  using suffix_steps [OF suffix_steps(2) [OF assms]] by (simp add: number_after_def number_at_def Let_def)

lemma path_qualifiers_end:
  assumes "drop pos tokens = rest" and "qualifier_follow rest"
  shows "path_qualifiers tokens pos i v d = Inr ((i, v, d), pos)"
  using not_before_get [OF assms, of T_Where] not_before_get [OF assms, of T_Via] not_before_get [OF assms, of T_Depth]
  by (auto simp: path_qualifiers.simps [of tokens pos] split: option.splits token.splits)

lemma path_qualifiers_depth:
  assumes "drop pos tokens = depth_tokens d @ rest" and "qualifier_follow rest"
  shows "path_qualifiers tokens pos i v None = Inr ((i, v, d), pos + length (depth_tokens d))"
proof (cases d)
  case (Some n)
  with assms(1) have d: "drop pos tokens = T_Depth # T_Number n # rest" by (simp add: depth_tokens_def)
  note s = suffix_steps [OF d]
  show ?thesis using path_qualifiers_end [OF suffix_steps(2) [OF s(2)] assms(2)] s(1) number_after_tokens [OF d] Some
    by (simp add: path_qualifiers.simps [of tokens pos] depth_tokens_def)
qed (use assms path_qualifiers_end in \<open>simp add: depth_tokens_def\<close>)

lemma path_qualifiers_via:
  assumes "drop pos tokens = T_Via # T_Ident (edge_kind_label k) # rest" and "erased_kind k"
  shows "path_qualifiers tokens pos i v d = path_qualifiers tokens (Suc (Suc pos)) i (Some k) d"
  using suffix_steps [OF assms(1)] suffix_steps [OF suffix_steps(2) [OF assms(1)]] assms(2)
  by (simp add: path_qualifiers.simps [of tokens pos] ident_at_def parse_edge_kind_label)

lemma path_qualifiers_where:
  assumes "drop pos tokens = T_Where # T_Intermediate # T_Kind # T_Equals # T_Ident (node_kind_text k) # rest"
  shows "path_qualifiers tokens pos i v d = path_qualifiers tokens (Suc (Suc (Suc (Suc (Suc pos))))) (Some k) v d"
proof -
  note s1 = suffix_steps [OF assms] note s2 = suffix_steps [OF s1(2)] note s3 = suffix_steps [OF s2(2)]
  note s4 = suffix_steps [OF s3(2)] note s5 = suffix_steps [OF s4(2)]
  show ?thesis using s1 s2 s3 s4 s5
    by (simp add: path_qualifiers.simps [of tokens pos] expect_def ident_at_def)
qed

lemma path_qualifiers_tokens:
  assumes "drop pos tokens = qualifier_tokens i v d @ rest" and "option_ok erased_kind v" and "qualifier_follow rest"
  shows "path_qualifiers tokens pos None None None = Inr ((i, v, d), pos + length (qualifier_tokens i v d))"
proof -
  let ?via = "case v of None \<Rightarrow> [] | Some k \<Rightarrow> [T_Via, T_Ident (edge_kind_label k)]"
  have via: "path_qualifiers tokens p i None None = Inr ((i, v, d), p + length (?via @ depth_tokens d))"
    if "drop p tokens = (?via @ depth_tokens d) @ rest" for p
  proof (cases v)
    case None
    with that show ?thesis using path_qualifiers_depth [OF _ assms(3)] by simp
  next
    case (Some k)
    with that have "drop p tokens = T_Via # T_Ident (edge_kind_label k) # depth_tokens d @ rest" by simp
    with path_qualifiers_via [OF this] Some assms(2)
      path_qualifiers_depth [OF suffix_steps(2) [OF suffix_steps(2) [OF this]] assms(3), of i "Some k"]
    show ?thesis by simp
  qed
  show ?thesis
  proof (cases i)
    case None
    with assms(1) have "drop pos tokens = (?via @ depth_tokens d) @ rest" by (simp add: qualifier_tokens_def)
    from via [OF this] None show ?thesis by (simp add: qualifier_tokens_def)
  next
    case (Some k)
    with assms(1) have d: "drop pos tokens = T_Where # T_Intermediate # T_Kind # T_Equals # T_Ident (node_kind_text k) #
        (?via @ depth_tokens d) @ rest" by (simp add: qualifier_tokens_def)
    note s1 = suffix_steps [OF d] note s2 = suffix_steps [OF s1(2)] note s3 = suffix_steps [OF s2(2)]
    note s4 = suffix_steps [OF s3(2)] note s5 = suffix_steps [OF s4(2)]
    from path_qualifiers_where [OF d, of None None None] via [OF s5(2)] Some show ?thesis
      by (simp add: qualifier_tokens_def)
  qed
qed

section \<open>Expressions\<close>

text \<open>What may follow an expression: nothing, or a token that ends it.\<close>

definition closers :: "token set" where
  "closers = {T_RParen, T_RBrace, T_Comma, T_Arrow, T_Union, T_Intersect, T_Diff}"

definition closed_by :: "token list \<Rightarrow> bool" where
  "closed_by rest \<longleftrightarrow> (case rest of [] \<Rightarrow> True | t # _ \<Rightarrow> t \<in> closers)"

lemma closed_by_not_before: "closed_by rest \<Longrightarrow> T \<inter> closers = {} \<Longrightarrow> not_before T rest"
  by (cases rest) (auto simp: closed_by_def)

lemma closed_by_follow:
  assumes "closed_by rest"
  shows "chain_follow rest" "qualifier_follow rest" "not_before {T_Pipe} rest" "not_before {T_Kind} rest" "not_before {T_Depth} rest"
proof -
  have "t \<notin> insert T_Pipe idents \<union> {T_Where, T_Via, T_Depth, T_Kind}" if "t \<in> closers" for t
    using that unfolding closers_def idents_def by (elim insertE emptyE) (simp_all add: image_iff)
  then have "\<And>T. T \<subseteq> insert T_Pipe idents \<union> {T_Where, T_Via, T_Depth, T_Kind} \<Longrightarrow> T \<inter> closers = {}" by blast
  note follow = closed_by_not_before [OF assms this]
  show "chain_follow rest" by (rule follow) blast
  show "qualifier_follow rest" by (rule follow) blast
  show "not_before {T_Pipe} rest" by (rule follow) blast
  show "not_before {T_Kind} rest" by (rule follow) blast
  show "not_before {T_Depth} rest" by (rule follow) blast
qed

text \<open>The statement of the induction: an expression that is not a set operation is read as an atom;
  every expression is what the set-operation loop holds when it reaches the end of its text.\<close>

definition reads_back :: "(token \<Rightarrow> string) \<Rightarrow> expr \<Rightarrow> bool" where
  "reads_back dbg e \<longleftrightarrow> (\<forall>tokens pos rest k.
     drop pos tokens = expr_tokens e @ rest \<longrightarrow> closed_by rest \<longrightarrow> pos \<le> length tokens \<longrightarrow> length tokens - pos < k \<longrightarrow>
     (\<not> is_set_op e \<longrightarrow> parse_atom dbg tokens k pos = Inr (e, pos + length (expr_tokens e))) \<and>
     (\<forall>j. length tokens - pos \<le> j \<longrightarrow> (\<exists>j'. length tokens - (pos + length (expr_tokens e)) < j' \<and>
        parse_expr_inner (parse_atom dbg tokens k) tokens j pos =
        parse_set_ops (parse_atom dbg tokens k) tokens j' e (pos + length (expr_tokens e)))))"

lemma reads_backD:
  assumes "reads_back dbg e" and "drop pos tokens = expr_tokens e @ rest" and "closed_by rest"
    and "pos \<le> length tokens" and "length tokens - pos < k"
  shows "\<not> is_set_op e \<Longrightarrow> parse_atom dbg tokens k pos = Inr (e, pos + length (expr_tokens e))"
    and "length tokens - pos \<le> j \<Longrightarrow> \<exists>j'. length tokens - (pos + length (expr_tokens e)) < j' \<and>
        parse_expr_inner (parse_atom dbg tokens k) tokens j pos =
        parse_set_ops (parse_atom dbg tokens k) tokens j' e (pos + length (expr_tokens e))"
  using assms unfolding reads_back_def by blast+

lemma expr_tokens_nonempty: "expr_ok e \<Longrightarrow> expr_tokens e \<noteq> []"
proof (induction e)
  case (Pipe ops)
  then show ?case using chain_tokens_head [of ops] by auto
qed (simp_all add: grouped_def)

lemma reads_back_atom:
  assumes "\<not> is_set_op e" and "expr_ok e"
    and atom: "\<And>tokens pos rest k. drop pos tokens = expr_tokens e @ rest \<Longrightarrow> closed_by rest \<Longrightarrow> pos < length tokens \<Longrightarrow>
      length tokens - pos \<le> k \<Longrightarrow> parse_atom dbg tokens (Suc k) pos = Inr (e, pos + length (expr_tokens e))"
  shows "reads_back dbg e"
  unfolding reads_back_def
proof (intro allI impI conjI)
  fix tokens pos rest k j
  assume d: "drop pos tokens = expr_tokens e @ rest" and rest: "closed_by rest" and k: "length tokens - pos < k"
    and j: "length tokens - pos \<le> j"
  have len: "pos < length tokens" "0 < length (expr_tokens e)"
    using drop_length [OF d] expr_tokens_nonempty [OF assms(2)] by auto
  obtain k' where "k = Suc k'" "length tokens - pos \<le> k'" using k by (cases k) auto
  with atom [OF d rest len(1)] have "parse_atom dbg tokens k pos = Inr (e, pos + length (expr_tokens e))" by simp
  moreover have "length tokens - (pos + length (expr_tokens e)) < j" using j len by linarith
  ultimately show "\<exists>j'. length tokens - (pos + length (expr_tokens e)) < j' \<and>
      parse_expr_inner (parse_atom dbg tokens k) tokens j pos =
      parse_set_ops (parse_atom dbg tokens k) tokens j' e (pos + length (expr_tokens e))"
    by (intro exI [of _ j]) (simp add: parse_expr_inner_def)
next
  fix tokens pos rest k
  assume d: "drop pos tokens = expr_tokens e @ rest" and rest: "closed_by rest" and k: "length tokens - pos < k"
  have len: "pos < length tokens" using drop_length [OF d] expr_tokens_nonempty [OF assms(2)] by auto
  obtain k' where "k = Suc k'" "length tokens - pos \<le> k'" using k by (cases k) auto
  with atom [OF d rest len] show "parse_atom dbg tokens k pos = Inr (e, pos + length (expr_tokens e))" by simp
qed

lemma set_op_of_other: "t \<notin> {T_Union, T_Intersect, T_Diff} \<Longrightarrow> set_op_of t = None"
  by (cases t) simp_all

lemma set_ops_end:
  assumes "drop pos tokens = rest" and "not_before {T_Union, T_Intersect, T_Diff} rest" and "0 < j"
  shows "parse_set_ops atom tokens j e pos = Inr (e, pos)"
proof -
  have "Option.bind (get_at tokens pos) set_op_of = None"
  proof (cases rest)
    case (Cons t ts)
    then have "get_at tokens pos = Some t" using assms(1) by (intro get_at_suffix) simp
    moreover have "set_op_of t = None" using assms(2) Cons by (intro set_op_of_other) simp
    ultimately show ?thesis by simp
  qed (use assms(1) in \<open>simp add: get_at_def\<close>)
  with assms(3) show ?thesis by (cases j) simp_all
qed

lemma group_tokens:
  assumes "reads_back dbg e" and "drop pos tokens = grouped (expr_tokens e) @ rest" and "length tokens - pos \<le> k"
  shows "parse_group (parse_atom dbg tokens k) tokens k pos = Inr (e, pos + length (grouped (expr_tokens e)))"
proof -
  let ?p = "Suc pos + length (expr_tokens e)"
  have d: "drop pos tokens = T_LParen # expr_tokens e @ T_RParen # rest" using assms(2) by (simp add: grouped_def)
  have len: "length tokens = pos + Suc (length (expr_tokens e @ T_RParen # rest))" using length_of_suffix [OF d] .
  have inner: "drop (Suc pos) tokens = expr_tokens e @ T_RParen # rest" using suffix_steps(2) [OF d] .
  have close: "closed_by (T_RParen # rest)" by (simp add: closed_by_def closers_def)
  have k: "Suc pos \<le> length tokens" "length tokens - Suc pos < k" "length tokens - Suc pos \<le> k"
    using len assms(3) by simp_all
  from reads_backD(2) [OF assms(1) inner close k] obtain j where "length tokens - ?p < j"
    "parse_expr_inner (parse_atom dbg tokens k) tokens k (Suc pos) =
      parse_set_ops (parse_atom dbg tokens k) tokens j e ?p" by blast
  then have j: "0 < j" "parse_expr_inner (parse_atom dbg tokens k) tokens k (Suc pos) =
      parse_set_ops (parse_atom dbg tokens k) tokens j e ?p" by simp_all
  note at = suffix_steps [OF drop_suffix [OF inner]]
  from set_ops_end [OF drop_suffix [OF inner] _ j(1)] j(2)
  have "parse_expr_inner (parse_atom dbg tokens k) tokens k (Suc pos) = Inr (e, ?p)" by simp
  with at show ?thesis by (simp add: parse_group_def expect_def grouped_def)
qed

lemma absorb_pipe_end:
  assumes "drop pos tokens = rest" and "not_before {T_Pipe} rest"
  shows "absorb_pipe dbg tokens e pos = Inr (e, pos)"
  using not_before_get [OF assms, of T_Pipe] by (simp add: absorb_pipe_def)

lemma atom_pipe:
  assumes "ops \<noteq> []" and "ops_ok ops" and "drop pos tokens = chain_tokens ops @ rest" and "chain_follow rest"
  shows "parse_atom dbg tokens (Suc k) pos = Inr (Pipe ops, pos + length (chain_tokens ops))"
proof -
  obtain t ts where t: "chain_tokens ops = t # ts" "t \<notin> atom_starts" using chain_tokens_head [OF assms(1)] by blast
  have "get_at tokens pos = Some t" using assms(3) t by (intro get_at_suffix) simp
  with t(2) pipe_chain_atom_tokens [OF assms] show ?thesis by (simp add: parse_atom_inner_def atom_starts_def)
qed

lemma operand_tokens:
  assumes "reads_back dbg e" and "expr_ok e" and "drop pos tokens = operand e (expr_tokens e) @ rest"
    and "chain_follow rest" and "length tokens - pos < k"
  shows "parse_atom dbg tokens k pos = Inr (e, pos + length (operand e (expr_tokens e)))"
proof -
  obtain k' where k: "k = Suc k'" "length tokens - pos \<le> k'" using assms(5) by (cases k) auto
  show ?thesis
  proof (cases "is_pipe e")
    case True
    then obtain ops where "e = Pipe ops" by (cases e) (simp_all add: is_pipe_def)
    with assms True k(1) show ?thesis using atom_pipe [of ops pos tokens rest dbg k'] by (simp add: operand_def)
  next
    case False
    then have d: "drop pos tokens = grouped (expr_tokens e) @ rest" using assms(3) by (simp add: operand_def)
    then have "get_at tokens pos = Some T_LParen" by (intro get_at_suffix) (simp add: grouped_def)
    with group_tokens [OF assms(1) d k(2)] False k(1)
      absorb_pipe_end [OF drop_suffix [OF d]] chain_followD [OF assms(4)] show ?thesis
      by (simp add: parse_atom_inner_def operand_def)
  qed
qed

text \<open>One lemma per form of expression.\<close>

lemma reads_back_pipe:
  assumes "expr_ok (Pipe ops)"
  shows "reads_back dbg (Pipe ops)"
  using assms by (intro reads_back_atom) (simp_all add: is_set_op_def atom_pipe closed_by_follow del: parse_atom.simps)

lemma follow_one:
  assumes "t \<notin> insert T_Pipe idents"
  shows "chain_follow (t # ts)"
  using assms by simp

lemma structural_follow:
  "T_Arrow \<notin> insert T_Pipe idents" "T_Comma \<notin> insert T_Pipe idents" "T_RBrace \<notin> insert T_Pipe idents"
  "T_Where \<notin> insert T_Pipe idents" "T_Via \<notin> insert T_Pipe idents" "T_Depth \<notin> insert T_Pipe idents"
  by (auto simp: idents_def)

lemma qualifiers_follow: "chain_follow rest \<Longrightarrow> chain_follow (qualifier_tokens i v d @ rest)"
  "chain_follow rest \<Longrightarrow> chain_follow (depth_tokens d @ rest)"
  using structural_follow by (cases i; cases v; cases d; simp add: qualifier_tokens_def depth_tokens_def)
    (cases d; use structural_follow in \<open>simp add: depth_tokens_def\<close>)

lemma reads_back_path:
  assumes "reads_back dbg source" and "reads_back dbg target" and ok: "expr_ok (PathQuery mode source target i v d)"
  shows "reads_back dbg (PathQuery mode source target i v d)"
proof (rule reads_back_atom [OF _ ok])
  fix tokens pos rest k
  let ?s = "operand source (expr_tokens source)" and ?t = "operand target (expr_tokens target)"
  let ?m = "if mode = Shortest then T_Path else T_Paths" and ?q = "qualifier_tokens i v d"
  assume printed: "drop pos tokens = expr_tokens (PathQuery mode source target i v d) @ rest" and rest: "closed_by rest"
    and len: "pos < length tokens" and k: "length tokens - pos \<le> k"
  from printed have d: "drop pos tokens = ?m # ?s @ T_Arrow # ?t @ ?q @ rest" by simp
  note follow = closed_by_follow [OF rest]
  note s0 = suffix_steps [OF d]
  let ?p = "Suc pos + length ?s"
  have source: "parse_atom dbg tokens k (Suc pos) = Inr (source, ?p)"
    using assms(1) ok s0(2) len k structural_follow by (intro operand_tokens) auto
  note s1 = suffix_steps [OF drop_suffix [OF s0(2)]]
  have target: "parse_atom dbg tokens k (Suc ?p) = Inr (target, Suc ?p + length ?t)"
    using assms(2) ok s1(2) len k qualifiers_follow(1) [OF follow(1)] by (intro operand_tokens) auto
  note s2 = drop_suffix [OF s1(2)]
  have quals: "path_qualifiers tokens (Suc ?p + length ?t) None None None = Inr ((i, v, d), Suc ?p + length ?t + length ?q)"
    using path_qualifiers_tokens [OF s2 _ follow(2)] ok by simp
  have "parse_path_query (parse_atom dbg tokens k) tokens pos =
      Inr (PathQuery mode source target i v d, Suc ?p + length ?t + length ?q)"
    using s0(1) s1(1) source target quals by (cases mode) (simp_all add: parse_path_query_def expect_def)
  with s0(1) absorb_pipe_end [OF drop_suffix [OF s2] follow(3)]
  show "parse_atom dbg tokens (Suc k) pos = Inr (PathQuery mode source target i v d,
      pos + length (expr_tokens (PathQuery mode source target i v d)))"
    by (cases mode) (simp_all add: parse_atom_inner_def add.assoc)
qed (simp add: is_set_op_def)

lemma reads_back_entrypoints: "reads_back dbg (Entrypoints kind)"
proof (rule reads_back_atom)
  fix tokens pos rest k
  assume printed: "drop pos tokens = expr_tokens (Entrypoints kind) @ rest" and rest: "closed_by rest"
  note follow = closed_by_follow [OF rest]
  show "parse_atom dbg tokens (Suc k) pos = Inr (Entrypoints kind, pos + length (expr_tokens (Entrypoints kind)))"
  proof (cases kind)
    case None
    with printed have d: "drop pos tokens = T_Entrypoints # rest" by simp
    note s = suffix_steps [OF d]
    from not_before_get [OF s(2) follow(4), of T_Kind] s(1) absorb_pipe_end [OF s(2) follow(3)] None
    show ?thesis by (simp add: parse_atom_inner_def parse_entrypoint_query_def)
  next
    case (Some e)
    with printed have d: "drop pos tokens = T_Entrypoints # T_Kind # T_Equals # T_Ident (entrypoint_kind_text e) # rest" by simp
    note s0 = suffix_steps [OF d] note s1 = suffix_steps [OF s0(2)] note s2 = suffix_steps [OF s1(2)]
    note s3 = suffix_steps [OF s2(2)]
    from s0(1) s1(1) s2(1) s3(1) absorb_pipe_end [OF s3(2) follow(3)] Some
    show ?thesis by (simp add: parse_atom_inner_def parse_entrypoint_query_def expect_def ident_at_def)
  qed
qed (simp_all add: is_set_op_def)

lemma reads_back_selector:
  assumes "reads_back dbg e" and ok: "expr_ok e"
  shows "reads_back dbg (DominatorsOf e)" "reads_back dbg (DominatesOf e)" "reads_back dbg (TraitImplsOf e)"
proof -
  let ?t = "operand e (expr_tokens e)"
  have two: "parse_atom dbg tokens (Suc k) pos = Inr (f e, pos + Suc (Suc (length ?t)))"
    if printed: "drop pos tokens = t # T_Of # ?t @ rest" and rest: "closed_by rest" and len: "pos < length tokens"
      and k: "length tokens - pos \<le> k" and f: "t = T_Dominators \<and> f = DominatorsOf \<or> t = T_TraitImpls \<and> f = TraitImplsOf"
    for tokens pos rest k t f
  proof -
    note follow = closed_by_follow [OF rest]
    note s0 = suffix_steps [OF printed] note s1 = suffix_steps [OF s0(2)]
    have "parse_atom dbg tokens k (Suc (Suc pos)) = Inr (e, Suc (Suc pos) + length ?t)"
      using assms s1(2) len k follow(1) by (intro operand_tokens) auto
    with s0(1) s1(1) absorb_pipe_end [OF drop_suffix [OF s1(2)] follow(3)] f show ?thesis
      by (auto simp: parse_atom_inner_def parse_dominators_query_def parse_trait_impls_query_def expect_def)
  qed
  show "reads_back dbg (DominatorsOf e)" "reads_back dbg (TraitImplsOf e)"
    by (rule reads_back_atom; use ok two in \<open>simp add: is_set_op_def\<close>)+
  show "reads_back dbg (DominatesOf e)"
  proof (rule reads_back_atom)
    fix tokens pos rest k
    assume printed: "drop pos tokens = expr_tokens (DominatesOf e) @ rest" and rest: "closed_by rest"
      and len: "pos < length tokens" and k: "length tokens - pos \<le> k"
    note follow = closed_by_follow [OF rest]
    from printed have d: "drop pos tokens = T_Dominates # ?t @ rest" by simp
    note s0 = suffix_steps [OF d]
    have "parse_atom dbg tokens k (Suc pos) = Inr (e, Suc pos + length ?t)"
      using assms s0(2) len k follow(1) by (intro operand_tokens) auto
    with s0(1) absorb_pipe_end [OF drop_suffix [OF s0(2)] follow(3)]
    show "parse_atom dbg tokens (Suc k) pos = Inr (DominatesOf e, pos + length (expr_tokens (DominatesOf e)))"
      by (simp add: parse_atom_inner_def parse_dominates_query_def)
  qed (use ok in \<open>simp_all add: is_set_op_def\<close>)
qed

lemma reads_back_pipe_from:
  assumes "reads_back dbg base" and ok: "expr_ok (PipeFrom base ops)"
  shows "reads_back dbg (PipeFrom base ops)"
proof (rule reads_back_atom [OF _ ok])
  fix tokens pos rest k
  let ?b = "grouped (expr_tokens base)"
  assume printed: "drop pos tokens = expr_tokens (PipeFrom base ops) @ rest" and rest: "closed_by rest"
    and len: "pos < length tokens" and k: "length tokens - pos \<le> k"
  note follow = closed_by_follow [OF rest]
  from printed have d: "drop pos tokens = ?b @ T_Pipe # chain_tokens ops @ rest" by simp
  have at: "get_at tokens pos = Some T_LParen" using d by (intro get_at_suffix) (simp add: grouped_def)
  note pipe = drop_suffix [OF d]
  have trailing: "trailing_ops dbg tokens (pos + length ?b) [] =
      Inr ([] @ ops, Suc (pos + length ?b) + length (chain_tokens ops))"
    using ok by (intro trailing_ops_tokens [OF _ _ pipe follow(1)]) simp_all
  from at group_tokens [OF assms(1) d k] trailing suffix_steps(1) [OF pipe]
  show "parse_atom dbg tokens (Suc k) pos = Inr (PipeFrom base ops, pos + length (expr_tokens (PipeFrom base ops)))"
    by (simp add: parse_atom_inner_def absorb_pipe_def)
qed (simp add: is_set_op_def)

lemma sources_tokens:
  assumes "\<And>s. s \<in> set ss \<Longrightarrow> reads_back dbg s \<and> expr_ok s" and "ss \<noteq> []"
    and "drop pos tokens = separated (map (\<lambda>e. operand e (expr_tokens e)) ss) @ T_RBrace # rest"
    and "length tokens - pos < k" and "length ss < j"
  shows "multi_path_sources (parse_atom dbg tokens k) tokens j acc pos =
    Inr (acc @ ss, Suc (pos + length (separated (map (\<lambda>e. operand e (expr_tokens e)) ss))))"
  using assms
proof (induction ss arbitrary: pos acc j)
  case (Cons s ss)
  let ?s = "operand s (expr_tokens s)"
  have "expr_tokens s \<noteq> []" "\<exists>t ts. ?s = t # ts \<and> t \<noteq> T_RBrace" if "expr_ok s"
  proof -
    show "expr_tokens s \<noteq> []" using expr_tokens_nonempty [OF that] .
    show "\<exists>t ts. ?s = t # ts \<and> t \<noteq> T_RBrace"
    proof (cases "is_pipe s")
      case True
      then obtain ops where "s = Pipe ops" by (cases s) (simp_all add: is_pipe_def)
      with that chain_tokens_head [of ops] show ?thesis by (auto simp: operand_def is_pipe_def chain_stops_def)
    qed (simp add: operand_def grouped_def)
  qed
  then obtain t ts where t: "?s = t # ts" "t \<noteq> T_RBrace" using Cons.prems(1) by auto
  obtain j' where j: "j = Suc j'" "length ss < j'" using Cons.prems(5) by (cases j) auto
  show ?case
  proof (cases "ss = []")
    case True
    with Cons.prems(3) have d: "drop pos tokens = ?s @ T_RBrace # rest" by simp
    have "parse_atom dbg tokens k pos = Inr (s, pos + length ?s)"
      using Cons.prems d structural_follow by (intro operand_tokens) auto
    moreover have "get_at tokens pos = Some t" using d t by (intro get_at_suffix) simp
    ultimately show ?thesis using True j t suffix_steps(1) [OF drop_suffix [OF d]]
      by (auto simp: not_le dest: get_at_bound)
  next
    case False
    let ?more = "separated (map (\<lambda>e. operand e (expr_tokens e)) ss)"
    have more: "separated (map (\<lambda>e. operand e (expr_tokens e)) (s # ss)) = ?s @ T_Comma # ?more"
      using False by (cases ss) simp_all
    with Cons.prems(3) have d: "drop pos tokens = ?s @ T_Comma # ?more @ T_RBrace # rest" by simp
    have "parse_atom dbg tokens k pos = Inr (s, pos + length ?s)"
      using Cons.prems d structural_follow by (intro operand_tokens) auto
    moreover have "get_at tokens pos = Some t" using d t by (intro get_at_suffix) simp
    moreover note comma = suffix_steps [OF drop_suffix [OF d]]
    moreover have "multi_path_sources (parse_atom dbg tokens k) tokens j' (acc @ [s]) (Suc (pos + length ?s)) =
        Inr ((acc @ [s]) @ ss, Suc (Suc (pos + length ?s) + length ?more))"
      using Cons.prems comma(2) False j(2) by (intro Cons.IH) auto
    ultimately show ?thesis unfolding more j(1) using t by (auto simp: not_le dest: get_at_bound)
  qed
qed simp

lemma operand_nonempty: "expr_ok e \<Longrightarrow> operand e (expr_tokens e) \<noteq> []"
  using expr_tokens_nonempty by (simp add: operand_def grouped_def)

lemma length_separated: "\<forall>ts\<in>set tss. ts \<noteq> [] \<Longrightarrow> length tss \<le> length (separated tss)"
proof (induction tss rule: separated.induct)
  case (2 ts)
  then show ?case by (cases ts) simp_all
qed (simp_all add: le_SucI trans_le_add2)

lemma optional_depth_tokens:
  assumes "drop pos tokens = depth_tokens d @ rest" and "not_before {T_Depth} rest"
  shows "optional_depth tokens pos = Inr (d, pos + length (depth_tokens d))"
proof (cases d)
  case None
  with assms not_before_get [of pos tokens rest "{T_Depth}" T_Depth] show ?thesis
    by (simp add: optional_depth_def depth_tokens_def)
next
  case (Some n)
  with assms(1) have d: "drop pos tokens = T_Depth # T_Number n # rest" by (simp add: depth_tokens_def)
  from suffix_steps(1) [OF d] number_after_tokens [OF d] Some show ?thesis
    by (simp add: optional_depth_def depth_tokens_def)
qed

lemma reads_back_multi_path:
  assumes "\<And>s. s \<in> set sources \<Longrightarrow> reads_back dbg s" and "reads_back dbg target"
    and ok: "expr_ok (MultiPath sources target d)"
  shows "reads_back dbg (MultiPath sources target d)"
proof (rule reads_back_atom [OF _ ok])
  fix tokens pos rest k
  let ?ss = "separated (map (\<lambda>e. operand e (expr_tokens e)) sources)" and ?t = "operand target (expr_tokens target)"
  assume printed: "drop pos tokens = expr_tokens (MultiPath sources target d) @ rest" and rest: "closed_by rest"
    and len: "pos < length tokens" and k: "length tokens - pos \<le> k"
  note follow = closed_by_follow [OF rest]
  from printed have d: "drop pos tokens = T_MultiPath # T_LBrace # ?ss @ T_RBrace # T_Arrow # ?t @ depth_tokens d @ rest"
    by simp
  note s0 = suffix_steps [OF d] note s1 = suffix_steps [OF s0(2)]
  have "length sources \<le> length ?ss"
    using length_separated [of "map (\<lambda>e. operand e (expr_tokens e)) sources"] ok operand_nonempty by auto
  moreover have "length tokens = pos + length (T_MultiPath # T_LBrace # ?ss @ T_RBrace # T_Arrow # ?t @ depth_tokens d @ rest)"
    using drop_length [OF d] by simp
  ultimately have fuel: "length sources < k" "length tokens - Suc (Suc pos) < k" using k len by simp_all
  let ?p = "Suc (Suc pos) + length ?ss"
  have sources: "multi_path_sources (parse_atom dbg tokens k) tokens k [] (Suc (Suc pos)) = Inr (sources, Suc ?p)"
    using sources_tokens [OF _ _ s1(2) fuel(2,1), of dbg "[]"] assms(1) ok by simp
  note s2 = suffix_steps [OF drop_suffix [OF s1(2)]] note s3 = suffix_steps [OF s2(2)]
  have target: "parse_atom dbg tokens k (Suc (Suc ?p)) = Inr (target, Suc (Suc ?p) + length ?t)"
    using assms(2) ok s3(2) len k qualifiers_follow(2) [OF follow(1)] by (intro operand_tokens) auto
  note s4 = drop_suffix [OF s3(2)]
  have depth: "optional_depth tokens (Suc (Suc ?p) + length ?t) = Inr (d, Suc (Suc ?p) + length ?t + length (depth_tokens d))"
    using optional_depth_tokens [OF s4 follow(5)] .
  have "parse_multi_path_query (parse_atom dbg tokens k) tokens k pos =
      Inr (MultiPath sources target d, Suc (Suc ?p) + length ?t + length (depth_tokens d))"
    using s1(1) s3(1) sources target depth ok by (simp add: parse_multi_path_query_def expect_def)
  with s0(1) absorb_pipe_end [OF drop_suffix [OF s4] follow(3)]
  show "parse_atom dbg tokens (Suc k) pos = Inr (MultiPath sources target d, pos + length (expr_tokens (MultiPath sources target d)))"
    by (simp add: parse_atom_inner_def add.assoc)
qed (simp add: is_set_op_def)

lemma right_side_tokens:
  assumes "reads_back dbg e" and "expr_ok e" and d: "drop pos tokens = right_side e (expr_tokens e) @ rest"
    and "closed_by rest" and k: "length tokens - pos < k"
  shows "parse_atom dbg tokens k pos = Inr (e, pos + length (right_side e (expr_tokens e)))"
proof (cases "is_set_op e")
  case True
  then have "\<not> is_pipe e" by (cases e) (simp_all add: is_set_op_def is_pipe_def)
  with True d have "drop pos tokens = operand e (expr_tokens e) @ rest" by (simp add: operand_def right_side_def)
  from operand_tokens [OF assms(1,2) this _ k] closed_by_follow(1) [OF assms(4)] True \<open>\<not> is_pipe e\<close>
  show ?thesis by (simp add: operand_def right_side_def)
next
  case False
  then have d': "drop pos tokens = expr_tokens e @ rest" using d by (simp add: right_side_def)
  have "pos \<le> length tokens" using drop_length [OF d'] expr_tokens_nonempty [OF assms(2)] by auto
  from reads_backD(1) [OF assms(1) d' assms(4) this k False] False show ?thesis by (simp add: right_side_def)
qed

lemma reads_back_set_op:
  assumes left: "reads_back dbg left" and right: "reads_back dbg right" and ok: "expr_ok (SetOp op left right)"
  shows "reads_back dbg (SetOp op left right)"
  unfolding reads_back_def
proof (intro allI impI conjI)
  fix tokens pos rest k j
  let ?l = "expr_tokens left" and ?r = "right_side right (expr_tokens right)" and ?atom = "parse_atom dbg tokens k"
  let ?p = "pos + length ?l" and ?q = "Suc (pos + length ?l) + length ?r"
  assume printed: "drop pos tokens = expr_tokens (SetOp op left right) @ rest" and rest: "closed_by rest"
    and bound: "pos \<le> length tokens" and k: "length tokens - pos < k" and j: "length tokens - pos \<le> j"
  have d: "drop pos tokens = ?l @ set_op_token op # ?r @ rest" using printed by simp
  have "closed_by (set_op_token op # ?r @ rest)" by (cases op) (simp_all add: closed_by_def closers_def)
  from reads_backD(2) [OF left d this bound k j] obtain j1 where j1: "length tokens - ?p < j1"
    "parse_expr_inner ?atom tokens j pos = parse_set_ops ?atom tokens j1 left ?p" by blast
  note s = suffix_steps [OF drop_suffix [OF d]]
  obtain j2 where j2: "j1 = Suc j2" using j1(1) by (cases j1) auto
  have "length tokens - Suc ?p < k" using k by simp
  from right_side_tokens [OF right _ s(2) rest this] ok have r: "?atom (Suc ?p) = Inr (right, ?q)" by simp
  have "Option.bind (get_at tokens ?p) set_op_of = Some op" using s(1) by (cases op) simp_all
  with j1(2) j2 r have "parse_expr_inner ?atom tokens j pos = parse_set_ops ?atom tokens j2 (SetOp op left right) ?q"
    by simp
  moreover have "length tokens - ?q < j2"
    using j1(1) j2 get_at_bound [OF s(1)] by simp
  ultimately show "\<exists>j'. length tokens - (pos + length (expr_tokens (SetOp op left right))) < j' \<and>
      parse_expr_inner ?atom tokens j pos =
      parse_set_ops ?atom tokens j' (SetOp op left right) (pos + length (expr_tokens (SetOp op left right)))"
    by (intro exI [of _ j2]) (simp add: add.assoc)
qed (simp add: is_set_op_def)

lemma reads_back_all: "expr_ok e \<Longrightarrow> reads_back dbg e"
proof (induction e)
  case (MultiPath sources target d)
  then show ?case by (intro reads_back_multi_path) auto
qed (auto intro: reads_back_pipe reads_back_path reads_back_entrypoints reads_back_set_op reads_back_selector
    reads_back_pipe_from)

lemma parse_printed_tokens:
  assumes "expr_ok e"
  shows "parse_expr_tokens dbg (expr_tokens e) = Inr e"
proof -
  let ?ts = "expr_tokens e" and ?atom = "parse_atom dbg (expr_tokens e) (parse_fuel (expr_tokens e))"
  have d: "drop 0 ?ts = ?ts @ []" by simp
  have "closed_by []" by (simp add: closed_by_def)
  from reads_backD(2) [OF reads_back_all [OF assms] d this, of "parse_fuel ?ts" "parse_fuel ?ts"]
  obtain j where "0 < j" "parse_expr_inner ?atom ?ts (parse_fuel ?ts) 0 = parse_set_ops ?atom ?ts j e (length ?ts)"
    by (auto simp: parse_fuel_def)
  with set_ops_end [of "length ?ts" ?ts "[]" j ?atom e] expr_tokens_nonempty [OF assms] show ?thesis
    by (simp add: parse_expr_tokens_def)
qed

section \<open>The tokens of an expression can be printed\<close>

lemma name_tokens_ok:
  "token_ok (T_Ident (node_kind_text k))" "token_ok (T_Ident (projection_text p))"
  "token_ok (T_Ident (entrypoint_kind_text e))" "token_ok (T_Ident (edge_kind_label l))"
  "token_ok (T_Ident ''type'')" "token_ok (T_Ident ''incoming'')"
proof -
  have words: "\<forall>w\<in>{''Function'', ''Struct'', ''Enum'', ''Module'', ''Trait'', ''EnumVariant'', ''Field'', ''TypeAlias'',
      ''Constant'', ''Interface'', ''fields'', ''signature'', ''body'', ''Main'', ''PublicApi'', ''Test'', ''Bench'',
      ''FfiExport'', ''Calls'', ''UnresolvedCall'', ''UsesType'', ''References'', ''Contains'', ''Implements'',
      ''ExternalCall'', ''Extends'', ''Returns'', ''TypeOf'', ''type'', ''incoming''}. token_ok (T_Ident w)"
    by code_simp
  show "token_ok (T_Ident (node_kind_text k))" using words by (cases k) simp_all
  show "token_ok (T_Ident (projection_text p))" using words by (cases p) simp_all
  show "token_ok (T_Ident (entrypoint_kind_text e))" using words by (cases e) simp_all
  show "token_ok (T_Ident (edge_kind_label l))" using words by (cases l) simp_all
  show "token_ok (T_Ident ''type'')" "token_ok (T_Ident ''incoming'')" using words by simp_all
qed

lemma names_not_type:
  "node_kind_text k \<noteq> ''type''" "projection_text p \<noteq> ''type''" "entrypoint_kind_text e \<noteq> ''type''"
  "edge_kind_label l \<noteq> ''type''"
proof -
  show "node_kind_text k \<noteq> ''type''" by (cases k) simp_all
  show "projection_text p \<noteq> ''type''" by (cases p) simp_all
  show "entrypoint_kind_text e \<noteq> ''type''" by (cases e) simp_all
  show "edge_kind_label l \<noteq> ''type''" by (cases l) simp_all
qed

lemma token_ok_simps [simp]:
  "token_ok (T_String s) = string_ok s" "token_ok (T_Number n) = number_ok n"
  by (simp_all add: token_ok_def string_ok_def number_ok_def)

lemma plain_tokens_ok: "\<not> valued t \<Longrightarrow> token_ok t"
  by (cases t) (simp_all add: valued_def token_ok_def)

lemma atom_text_no_quote: "CHR 0x22 \<notin> set (atom_text a)"
proof -
  have "CHR 0x22 \<notin> set (edge_kind_label k)" for k by (cases k) simp_all
  then show ?thesis by (simp add: atom_text_def split: edge_matcher.splits rep.splits)
qed

lemma format_pattern_ok: "string_ok (format_pattern pattern)"
proof -
  have "CHR 0x22 \<notin> set (join '' '' ws)" if "\<forall>w\<in>set ws. CHR 0x22 \<notin> set w" for ws
    using that by (induction "'' ''" ws rule: join.induct) auto
  then show ?thesis using atom_text_no_quote by (simp add: string_ok_def format_pattern_def)
qed

abbreviation no_paren :: "token list \<Rightarrow> bool" where
  "no_paren \<equiv> not_before {T_LParen}"

lemma lexable_name:
  assumes "token_ok (T_Ident w)" and "w \<noteq> ''type''"
  shows "lexable (T_Ident w # rest) = lexable rest"
  using assms by simp

lemma lexable_plain:
  assumes "\<not> valued t" and "t \<noteq> T_Fn" and "t \<noteq> T_Type"
  shows "lexable (t # rest) = lexable rest"
  using assms plain_tokens_ok [OF assms(1)] by (auto simp: valued_def)

lemma lexable_type: "no_paren rest \<Longrightarrow> lexable rest \<Longrightarrow> lexable (T_Ident ''type'' # rest)"
  using name_tokens_ok(5) by (cases rest) (auto split: token.splits)

lemma lexable_op:
  assumes "op_ok op" and "lexable rest" and "no_paren rest"
  shows "lexable (op_tokens op @ rest)"
proof (cases op)
  case (Filter k)
  then show ?thesis using assms(2) lexable_name [OF name_tokens_ok(1) names_not_type(1), of k rest]
    by (simp add: plain_tokens_ok valued_def)
next
  case (Show p)
  then show ?thesis using assms(2) lexable_name [OF name_tokens_ok(2) names_not_type(2), of p rest]
    by (simp add: plain_tokens_ok valued_def)
next
  case ClusterByType
  then show ?thesis using lexable_type [OF assms(3,2)] by (simp add: plain_tokens_ok valued_def del: lexable.simps(2) add: lexable_plain)
next
  case (ReachableVia pattern d)
  have "lexable (T_Ident ''incoming'' # rest)" using name_tokens_ok(6) assms(2) by simp
  then show ?thesis using ReachableVia assms(2) format_pattern_ok [of pattern]
    by (simp add: plain_tokens_ok valued_def)
qed (use assms in \<open>simp_all add: plain_tokens_ok valued_def op_ok_def\<close>)

lemma op_no_paren: "no_paren (op_tokens op @ rest)"
  using op_tokens_head [of op] by (cases "op_tokens op") auto

lemma chain_no_paren: "ops \<noteq> [] \<Longrightarrow> no_paren (chain_tokens ops @ rest)"
  using chain_tokens_head [of ops] by (cases "chain_tokens ops") auto

lemma lexable_chain:
  assumes "ops_ok ops" and "lexable rest" and "no_paren rest"
  shows "lexable (chain_tokens ops @ rest)"
  using assms
proof (induction ops rule: chain_tokens.induct)
  case (3 op op' ops)
  then have "lexable (T_Pipe # chain_tokens (op' # ops) @ rest)"
    by (simp add: lexable_plain valued_def del: lexable.simps(2))
  from lexable_op [OF _ this] "3.prems"(1) show ?case by simp
qed (simp_all add: lexable_op)

definition printable :: "expr \<Rightarrow> bool" where
  "printable e \<longleftrightarrow> (\<forall>rest. lexable rest \<longrightarrow> no_paren rest \<longrightarrow> lexable (expr_tokens e @ rest))"

lemma lexable_operand:
  assumes "printable e" and "lexable rest" and "no_paren rest"
  shows "lexable (operand e (expr_tokens e) @ rest)" "lexable (right_side e (expr_tokens e) @ rest)"
proof -
  have "lexable (T_RParen # rest)" using assms(2) by (simp add: lexable_plain valued_def del: lexable.simps(2))
  with assms show "lexable (operand e (expr_tokens e) @ rest)" "lexable (right_side e (expr_tokens e) @ rest)"
    by (simp_all add: operand_def right_side_def grouped_def printable_def lexable_plain valued_def del: lexable.simps(2))
qed

lemma lexable_qualifiers:
  assumes "option_ok number_ok d" and "lexable rest" and "no_paren rest"
  shows "lexable (qualifier_tokens i v d @ rest)" "no_paren (qualifier_tokens i v d @ rest)"
    "lexable (depth_tokens d @ rest)" "no_paren (depth_tokens d @ rest)"
proof -
  show d: "lexable (depth_tokens d @ rest)" "no_paren (depth_tokens d @ rest)"
    using assms by (cases d; simp add: depth_tokens_def plain_tokens_ok valued_def)+
  let ?via = "(case v of None \<Rightarrow> [] | Some k \<Rightarrow> [T_Via, T_Ident (edge_kind_label k)]) @ depth_tokens d @ rest"
  have v: "lexable ?via" "no_paren ?via"
    using d name_tokens_ok(4) names_not_type(4) by (cases v; simp add: lexable_name lexable_plain valued_def del: lexable.simps(2))+
  then show "lexable (qualifier_tokens i v d @ rest)" "no_paren (qualifier_tokens i v d @ rest)"
    using name_tokens_ok(1) names_not_type(1)
    by (cases i; simp add: qualifier_tokens_def lexable_name lexable_plain valued_def del: lexable.simps(2))+
qed

lemma lexable_sources:
  assumes "\<And>s. s \<in> set ss \<Longrightarrow> printable s" and "lexable rest" and "no_paren rest"
  shows "lexable (separated (map (\<lambda>e. operand e (expr_tokens e)) ss) @ rest)"
  using assms
proof (induction ss rule: induct_list012)
  case (3 s s' ss)
  then have "lexable (T_Comma # separated (map (\<lambda>e. operand e (expr_tokens e)) (s' # ss)) @ rest)"
    by (simp add: lexable_plain valued_def del: lexable.simps(2))
  from lexable_operand(1) [OF _ this] "3.prems"(1) show ?case by simp
qed (simp_all add: lexable_operand)

lemma printable_all: "expr_ok e \<Longrightarrow> printable e"
proof (induction e)
  case (MultiPath sources target d)
  show ?case unfolding printable_def
  proof (intro allI impI)
    fix rest assume rest: "lexable rest" "no_paren rest"
    have "lexable (T_RBrace # T_Arrow # operand target (expr_tokens target) @ depth_tokens d @ rest)"
      using MultiPath rest lexable_qualifiers(3,4) lexable_operand(1)
      by (simp add: lexable_plain valued_def del: lexable.simps(2))
    with MultiPath lexable_sources [of sources, OF _ this]
    show "lexable (expr_tokens (MultiPath sources target d) @ rest)"
      by (simp add: lexable_plain valued_def del: lexable.simps(2))
  qed
next
  case (PathQuery mode source target i v d)
  show ?case unfolding printable_def
  proof (intro allI impI)
    fix rest assume rest: "lexable rest" "no_paren rest"
    have "lexable (T_Arrow # operand target (expr_tokens target) @ qualifier_tokens i v d @ rest)"
      using PathQuery rest lexable_qualifiers(1,2) lexable_operand(1)
      by (simp add: lexable_plain valued_def del: lexable.simps(2))
    with PathQuery lexable_operand(1) [of source, OF _ this]
    show "lexable (expr_tokens (PathQuery mode source target i v d) @ rest)"
      by (simp add: lexable_plain valued_def del: lexable.simps(2))
  qed
next
  case (Entrypoints kind)
  show ?case using name_tokens_ok(3) names_not_type(3)
    by (cases kind) (simp_all add: printable_def lexable_name lexable_plain valued_def del: lexable.simps(2))
next
  case (SetOp op left right)
  show ?case unfolding printable_def
  proof (intro allI impI)
    fix rest assume rest: "lexable rest" "no_paren rest"
    have t: "\<not> valued (set_op_token op)" "set_op_token op \<notin> {T_Fn, T_Type, T_LParen}" by (cases op; simp add: valued_def)+
    with SetOp rest lexable_operand(2) have "lexable (set_op_token op # right_side right (expr_tokens right) @ rest)"
      by (simp add: lexable_plain del: lexable.simps(2))
    with SetOp t show "lexable (expr_tokens (SetOp op left right) @ rest)" by (simp add: printable_def del: lexable.simps(2))
  qed
next
  case (PipeFrom base ops)
  show ?case unfolding printable_def
  proof (intro allI impI)
    fix rest assume rest: "lexable rest" "no_paren rest"
    have "lexable (T_RParen # T_Pipe # chain_tokens ops @ rest)"
      using PipeFrom rest lexable_chain by (simp add: lexable_plain valued_def del: lexable.simps(2))
    with PipeFrom show "lexable (expr_tokens (PipeFrom base ops) @ rest)"
      by (simp add: grouped_def printable_def lexable_plain valued_def del: lexable.simps(2))
  qed
qed (simp_all add: printable_def lexable_chain lexable_operand(1) lexable_plain valued_def del: lexable.simps(2))

lemma lexable_expr: "expr_ok e \<Longrightarrow> lexable (expr_tokens e)"
  using printable_all [of e] unfolding printable_def by (metis append_Nil2 lexable.simps(1) not_before_simps(1))

lemma parse_print_expr: "expr_ok e \<Longrightarrow> parse_expr dbg (print_expr e) = Inr e"
  by (simp add: parse_expr_def print_expr_def lex_render lexable_expr parse_printed_tokens)

end
