(* ===== verification/Query_Properties.thy ===== *)
theory Query_Properties
  imports Query_Roundtrip
begin

text \<open>
  The properties of the query language: the round trip, what the parser does on any text, the
  agreement of its two entry points, and the textual form of label patterns.
\<close>

section \<open>The legacy entry point\<close>

lemma parse_op_start:
  assumes "parse_op dbg tokens pos = Inr x" and "get_at tokens pos = Some t"
  shows "t \<notin> chain_stops \<and> t \<notin> atom_starts"
  using assms by (cases t) (simp_all add: parse_op_def chain_stops_def atom_starts_def)

lemma parse_loop_chain:
  assumes "parse_loop dbg tokens pos ops = Inr r" and "pos < length tokens"
  shows "pipe_chain_loop dbg tokens pos ops = Inr (r, length tokens)"
  using assms
proof (induction dbg tokens pos ops rule: parse_loop.induct)
  case (1 dbg tokens pos ops)
  note loop = parse_loop.simps [of dbg tokens pos] and chain = pipe_chain_loop.simps [of dbg tokens pos]
  from "1.prems" obtain x where x: "parse_op dbg tokens pos = Inr x"
    by (cases "parse_op dbg tokens pos") (simp_all add: loop)
  obtain op pos' where xp: "x = (op, pos')" by fastforce
  have at: "get_at tokens pos = Some (tokens ! pos)" using "1.prems"(2) by (simp add: get_at_def)
  note start = parse_op_start [OF x at]
  show ?case
  proof (cases "get_at tokens pos'")
    case None
    then have "pos' = length tokens" using parse_op_advances [of dbg tokens pos op pos'] x xp by (simp add: get_at_None)
    then show ?thesis using "1.prems" x xp at start None by (simp add: loop chain parse_loop.simps [of dbg tokens "length tokens"])
  next
    case (Some t)
    have pipe: "t = T_Pipe" "\<not> length tokens \<le> Suc pos'" "parse_loop dbg tokens (Suc pos') (ops @ [op]) = Inr r"
      using "1.prems" x xp Some by (auto simp: loop split: if_splits)
    have "pipe_chain_loop dbg tokens (Suc pos') (ops @ [op]) = Inr (r, length tokens)"
      using "1.IH"(2) [OF _ x xp [symmetric] Some pipe(1,2)] "1.prems"(2) pipe by simp
    then show ?thesis using "1.prems"(2) x xp at start Some pipe by (simp add: chain)
  qed
qed

lemma parse_loop_yields:
  "yields (parse_loop dbg tokens pos ops) (\<lambda>r. tokens_ok tokens \<longrightarrow> ops_ok ops \<longrightarrow> ops_ok r) (error_within (length tokens))"
proof (induction dbg tokens pos ops rule: parse_loop.induct)
  case (1 dbg tokens pos ops)
  note loop = parse_loop.simps [of dbg tokens pos]
  show ?case
  proof (cases "pos < length tokens")
    case True
    note op = parse_op_reads [OF True, of dbg]
    show ?thesis
    proof (cases "parse_op dbg tokens pos")
      case (Inr x)
      obtain op' pos' where xp: "x = (op', pos')" by fastforce
      have x: "pos' \<le> length tokens" "tokens_ok tokens \<longrightarrow> op_ok op'" using op Inr xp by auto
      have end_or: "\<not> length tokens \<le> pos" using True by simp
      show ?thesis
      proof (cases "get_at tokens pos'")
        case None
        with "1.IH"(1) [OF end_or Inr xp [symmetric]] Inr xp x True show ?thesis
          by (cases "parse_loop dbg tokens pos' (ops @ [op'])") (simp_all add: loop)
      next
        case (Some t)
        with "1.IH"(2) [OF end_or Inr xp [symmetric] Some] Inr xp x True get_at_bound [OF Some] show ?thesis
          by (cases "parse_loop dbg tokens (Suc pos') (ops @ [op'])") (simp_all add: loop)
      qed
    qed (use op True in \<open>simp add: loop\<close>)
  qed (simp add: loop)
qed

lemma lex_yields: "yields (lex input) tokens_ok (error_within (length input))"
  using lex_loop_ok [of "[]" input 0] by (simp add: lex_def tokens_ok_def [abs_def])

section \<open>Properties\<close>

text \<open>C11. The text of a well-formed query expression parses to that expression: the parser and the
  lexer read back what the printer of expressions writes, for set algebra of any nesting, path
  queries with any qualifiers, selectors and pipe chains.\<close>

theorem query_roundtrip: "expr_ok e \<Longrightarrow> parse_expr dbg (print_expr e) = Inr e"
  by (rule parse_print_expr)

theorem query_roundtrip_witness:
  "parse_expr (\<lambda>_. []) (print_expr (SetOp SetDiff (SetOp SetUnion (Pipe [SelectFn ''f'', Callers]) (Entrypoints None))
      (PathQuery Shortest (Pipe [SelectFn ''a'']) (DominatorsOf (Pipe [SelectFn ''b''])) None (Some AE_Calls) (Some 3)))) =
   Inr (SetOp SetDiff (SetOp SetUnion (Pipe [SelectFn ''f'', Callers]) (Entrypoints None))
      (PathQuery Shortest (Pipe [SelectFn ''a'']) (DominatorsOf (Pipe [SelectFn ''b''])) None (Some AE_Calls) (Some 3)))"
  by (rule query_roundtrip) (simp add: op_ok_def string_ok_def number_ok_def erased_kind_def erase_kind_def)

text \<open>C12. Parsing any text returns: a well-formed expression, an error whose position lies within the
  text (an error of the lexer) or within the tokens (an error of the parser), or, only when the last
  token is a pipe, the panic of reading an operation past the end of the tokens.\<close>

theorem parse_expr_total:
  "case parse_expr dbg input of
     Inr e \<Rightarrow> expr_ok e
   | Inl (ParseError p _) \<Rightarrow> (case lex input of Inl _ \<Rightarrow> p \<le> length input | Inr tokens \<Rightarrow> p \<le> length tokens)
   | Inl Index_panic \<Rightarrow> (case lex input of Inl _ \<Rightarrow> False | Inr tokens \<Rightarrow> tokens \<noteq> [] \<and> last tokens = T_Pipe)
   | Inl Unfinished \<Rightarrow> False"
proof (cases "lex input")
  case (Inl e)
  with lex_yields [of input] show ?thesis by (cases e) (simp_all add: parse_expr_def)
next
  case (Inr tokens)
  then have "tokens_ok tokens" using lex_yields [of input] by simp
  with parse_expr_tokens_yields [of dbg tokens] Inr show ?thesis
    by (cases "parse_expr_tokens dbg tokens") (auto simp: parse_expr_def split: query_error.splits)
qed


text \<open>C14. The two entry points agree on the legacy grammar: what \<^verbatim>\<open>parse_query\<close> accepts, \<^verbatim>\<open>parse_expr\<close>
  accepts as the same pipe chain.\<close>

theorem legacy_agrees:
  assumes "parse_query dbg input = Inr ops"
  shows "parse_expr dbg input = Inr (Pipe ops) \<and> ops \<noteq> [] \<and> ops_ok ops"
proof (intro conjI)
  obtain tokens where tokens: "lex input = Inr tokens" "parse dbg tokens = Inr ops"
    using assms by (auto simp: parse_query_def and_then_Inr_iff)
  from tokens(2) have loop: "tokens \<noteq> []" "parse_loop dbg tokens 0 [] = Inr ops" "ops \<noteq> []"
    by (auto simp: parse_def and_then_Inr_iff split: if_splits)
  show "ops \<noteq> []" by fact
  have "tokens_ok tokens" using lex_yields [of input] tokens(1) by simp
  then show "ops_ok ops" using parse_loop_yields [of dbg tokens 0 "[]"] loop(2) by simp
  have at: "get_at tokens 0 = Some (tokens ! 0)" using loop(1) by (simp add: get_at_def)
  obtain x where "parse_op dbg tokens 0 = Inr x"
    using loop by (cases "parse_op dbg tokens 0") (simp_all add: parse_loop.simps [of dbg tokens 0])
  from parse_op_start [OF this at] have "tokens ! 0 \<notin> atom_starts" by simp
  moreover have "parse_pipe_chain_atom dbg tokens 0 = Inr (ops, length tokens)"
    using parse_loop_chain [OF loop(2)] loop(1,3) by (simp add: parse_pipe_chain_atom_def)
  ultimately have "parse_atom dbg tokens (parse_fuel tokens) 0 = Inr (Pipe ops, length tokens)"
    using at by (simp add: parse_fuel_def parse_atom_inner_def atom_starts_def)
  then show "parse_expr dbg input = Inr (Pipe ops)" using loop(1) tokens(1)
    by (simp add: parse_expr_def parse_expr_tokens_def parse_expr_inner_def parse_fuel_def get_at_def)
qed

theorem legacy_agrees_witness:
  "parse_expr (\<lambda>_. []) ''callers'' = Inr (Pipe [Callers])"
proof (rule legacy_agrees [THEN conjunct1])
  have "lex ''callers'' = Inr [T_Callers]" by code_simp
  moreover have "parse (\<lambda>_. []) [T_Callers] = Inr [Callers]"
    by (simp add: parse_def parse_loop.simps parse_op_def get_at_def)
  ultimately show "parse_query (\<lambda>_. []) ''callers'' = Inr [Callers]" by (simp add: parse_query_def)
qed

lemma parse_query_yields: "\<exists>n. yields (parse_query dbg input) (\<lambda>_. True) (error_within n)"
proof -
  have "yields (parse dbg tokens) (\<lambda>_. True) (error_within (length tokens))" for tokens
    using parse_loop_yields [of dbg tokens 0 "[]"] by (cases "parse_loop dbg tokens 0 []") (simp_all add: parse_def)
  then show ?thesis using lex_yields [of input] by (cases "lex input") (auto simp: parse_query_def)
qed

text \<open>\<^verbatim>\<open>parse_query\<close> never panics, and the position of its errors lies within the text or the
  tokens.\<close>

theorem legacy_never_panics:
  "parse_query dbg input \<noteq> Inl Index_panic \<and> parse_query dbg input \<noteq> Inl Unfinished"
  using parse_query_yields [of dbg input] by auto

text \<open>C15. Formatting a label pattern and parsing the text gives the pattern back exactly when no kind
  of the pattern carries a payload; otherwise the payloads come back empty.\<close>

theorem pattern_roundtrip:
  "parse_pattern (format_pattern pattern) = Inr (map erase_atom pattern) \<and>
   (parse_pattern (format_pattern pattern) = Inr pattern \<longleftrightarrow> (\<forall>a\<in>set pattern. erase_atom a = a))"
  using parse_format_pattern [of pattern] map_idI [of pattern erase_atom]
  by (auto simp: list_eq_iff_nth_eq in_set_conv_nth)

theorem pattern_roundtrip_witness:
  "parse_pattern (format_pattern [atom_plus AE_Calls, atom_one (AE_UnresolvedCall ''f'')]) \<noteq>
     Inr [atom_plus AE_Calls, atom_one (AE_UnresolvedCall ''f'')]"
  using pattern_roundtrip [of "[atom_plus AE_Calls, atom_one (AE_UnresolvedCall ''f'')]"]
  by (simp add: atom_plus_def atom_one_def erase_atom_def erase_kind_def)

end
