(* ===== verification/Stack_Search.thy ===== *)
theory Stack_Search
  imports Prelude "HOL-Library.While_Combinator"
begin

text \<open>
  What the searches of the analysis crate share: a set of visited items and a stack of items whose
  successors are still to be visited. The lemmas say how the two change when successors are pushed
  and why a search over a finite set of items ends with all reachable items visited.
\<close>

text \<open>\<^verbatim>\<open>if visited.insert(x) { frontier.push(x) }\<close>; the top of the stack is the head of the list.\<close>

definition push_fresh :: "'a \<Rightarrow> 'a set \<times> 'a list \<Rightarrow> 'a set \<times> 'a list" where
  "push_fresh x s = (if x \<in> fst s then s else (insert x (fst s), x # snd s))"

text \<open>The work left: what is not visited counts twice, so that a push makes progress too.\<close>

definition work :: "'a set \<Rightarrow> 'a set \<times> 'a list \<Rightarrow> nat" where
  "work R s = 2 * card (R - fst s) + length (snd s)"

lemma push_fresh_fst [simp]: "fst (push_fresh x s) = insert x (fst s)"
  by (auto simp: push_fresh_def)

lemma push_fresh_snd: "set (snd (push_fresh x s)) = set (snd s) \<union> ({x} - fst s)"
  by (auto simp: push_fresh_def)

lemma push_fresh_work:
  assumes "finite R" and "x \<in> R"
  shows "work R (push_fresh x s) \<le> work R s"
proof (cases "x \<in> fst s")
  case False
  then have "card (R - fst s) = Suc (card (R - insert x (fst s)))"
    using assms by (metis DiffI Diff_insert card.remove finite_Diff)
  with False show ?thesis by (simp add: work_def push_fresh_def)
qed (simp add: push_fresh_def)

definition push_all :: "'a list \<Rightarrow> 'a set \<times> 'a list \<Rightarrow> 'a set \<times> 'a list" where
  "push_all xs s = fold push_fresh xs s"

lemma push_all_fst: "fst (push_all xs s) = fst s \<union> set xs"
  by (induction xs arbitrary: s) (auto simp: push_all_def)

lemma push_all_snd: "set (snd (push_all xs s)) = set (snd s) \<union> (set xs - fst s)"
proof (induction xs arbitrary: s)
  case (Cons x xs)
  then have "set (snd (push_all xs (push_fresh x s))) = set (snd (push_fresh x s)) \<union> (set xs - fst (push_fresh x s))" .
  then show ?case by (auto simp: push_all_def push_fresh_snd)
qed (simp add: push_all_def)

lemma push_all_work:
  assumes "finite R" and "set xs \<subseteq> R"
  shows "work R (push_all xs s) \<le> work R s"
  using assms
proof (induction xs arbitrary: s)
  case (Cons x xs)
  then have "work R (push_all xs (push_fresh x s)) \<le> work R (push_fresh x s)" by simp
  also have "\<dots> \<le> work R s" using Cons.prems by (intro push_fresh_work) auto
  finally show ?case by (simp add: push_all_def)
qed (simp add: push_all_def)

text \<open>
  The invariant of the search from \<open>start\<close> along \<open>succ\<close>: what is visited is reachable, what is on the
  stack is visited, and what is visited and not on the stack has its successors visited.
\<close>

definition search_inv :: "('a \<Rightarrow> 'a set) \<Rightarrow> 'a set \<Rightarrow> 'a set \<times> 'a list \<Rightarrow> bool" where
  "search_inv succ start s \<longleftrightarrow> start \<subseteq> fst s \<and> set (snd s) \<subseteq> fst s \<and>
     fst s \<subseteq> {y. \<exists>x\<in>start. (\<lambda>x y. y \<in> succ x)\<^sup>*\<^sup>* x y} \<and>
     (\<forall>x\<in>fst s - set (snd s). succ x \<subseteq> fst s)"

abbreviation reachable_from :: "('a \<Rightarrow> 'a set) \<Rightarrow> 'a set \<Rightarrow> 'a set" where
  "reachable_from succ start \<equiv> {y. \<exists>x\<in>start. (\<lambda>x y. y \<in> succ x)\<^sup>*\<^sup>* x y}"

lemma reachable_step: "x \<in> reachable_from succ start \<Longrightarrow> succ x \<subseteq> reachable_from succ start"
  by (blast intro: rtranclp.rtrancl_into_rtrancl)

lemma search_inv_start: "set xs = start \<Longrightarrow> search_inv succ start (start, xs)"
  by (auto simp: search_inv_def)

lemma search_inv_pop:
  assumes "search_inv succ start (visited, x # rest)" and "set xs = succ x"
  shows "search_inv succ start (push_all xs (visited, rest))"
proof -
  have x: "x \<in> visited" "visited \<subseteq> reachable_from succ start" "start \<subseteq> visited" "set rest \<subseteq> visited"
    using assms(1) by (auto simp: search_inv_def)
  then have "succ x \<subseteq> reachable_from succ start" by (intro reachable_step) blast
  moreover have "succ y \<subseteq> visited" if "y \<in> visited" "y \<noteq> x" "y \<notin> set rest" for y
    using assms(1) that by (auto simp: search_inv_def)
  ultimately show ?thesis using x assms(2)
    by (auto simp: search_inv_def push_all_fst push_all_snd)
qed

lemma search_inv_succ: "search_inv succ start (visited, x # rest) \<Longrightarrow> succ x \<subseteq> reachable_from succ start"
  unfolding search_inv_def by (intro reachable_step) auto

lemma search_inv_end:
  assumes "search_inv succ start (visited, [])"
  shows "visited = reachable_from succ start"
proof
  show "visited \<subseteq> reachable_from succ start" using assms by (simp add: search_inv_def)
  have closed: "start \<subseteq> visited" "\<And>x. x \<in> visited \<Longrightarrow> succ x \<subseteq> visited" using assms by (auto simp: search_inv_def)
  have "y \<in> visited" if "(\<lambda>x y. y \<in> succ x)\<^sup>*\<^sup>* x y" "x \<in> visited" for x y
    using that by (induction rule: rtranclp_induct) (use closed(2) in auto)
  then show "reachable_from succ start \<subseteq> visited" using closed(1) by auto
qed

lemma last_step: "(\<exists>u. r\<^sup>*\<^sup>* v u \<and> r u w) \<longleftrightarrow> r\<^sup>+\<^sup>+ v w"
proof
  assume "r\<^sup>+\<^sup>+ v w"
  then show "\<exists>u. r\<^sup>*\<^sup>* v u \<and> r u w" by cases (blast intro: tranclp_into_rtranclp)+
qed (blast intro: rtranclp_into_tranclp1)

lemma one_step_more:
  "(\<Union>v \<in> reachable_from succ start. succ v) = {w. \<exists>v\<in>start. (\<lambda>x y. y \<in> succ x)\<^sup>+\<^sup>+ v w}"
proof -
  define r where "r = (\<lambda>x y. y \<in> succ x)"
  have "(\<Union>v \<in> {y. \<exists>x\<in>start. r\<^sup>*\<^sup>* x y}. succ v) = {w. \<exists>v\<in>start. \<exists>u. r\<^sup>*\<^sup>* v u \<and> r u w}"
    by (auto simp: r_def)
  then show ?thesis unfolding last_step unfolding r_def .
qed

text \<open>A loop whose every pass keeps an invariant and decreases a measure returns.\<close>

lemma while_option_total:
  assumes "I s" and "\<And>s. I s \<Longrightarrow> b s \<Longrightarrow> I (c s) \<and> m (c s) < (m s :: nat)"
  shows "\<exists>t. while_option b c s = Some t \<and> I t \<and> \<not> b t"
proof -
  have "wf {(t, s). (I s \<and> b s) \<and> t = c s}"
    by (rule wf_subset [of "measure m"]) (use assms(2) in auto)
  from wf_while_option_Some [OF this _ assms(1)] obtain t where t: "while_option b c s = Some t"
    using assms(2) by blast
  moreover have "I t" using while_option_rule [of I b c s t] t assms by blast
  moreover have "\<not> b t" using while_option_stop [OF t] .
  ultimately show ?thesis by blast
qed

end
