(* ===== verification/Label_Reachability.thy ===== *)
theory Label_Reachability
  imports Label_Patterns Stack_Search
begin

text \<open>
  Label-constrained reachability (\<^verbatim>\<open>label_reachability.rs\<close>) and transitive closure (\<^verbatim>\<open>closure.rs\<close>)
  on a graph seen through its accessors: the automaton of a pattern, the search over pairs of a node
  and a state, and what both compute. A node identifier is its 64-bit number.
\<close>

section \<open>The graph as the searches see it\<close>

record graph_view =
  gv_contains :: "nat \<Rightarrow> bool"
  gv_edges_from :: "nat \<Rightarrow> (nat \<times> analysis_edge_kind) list"
  gv_edges_to :: "nat \<Rightarrow> (nat \<times> analysis_edge_kind) list"

definition neighbours :: "graph_view \<Rightarrow> closure_direction \<Rightarrow> nat \<Rightarrow> (nat \<times> analysis_edge_kind) list" where
  "neighbours g direction v = (case direction of CD_Outgoing \<Rightarrow> gv_edges_from g v | CD_Incoming \<Rightarrow> gv_edges_to g v)"

text \<open>What the searches rely on: finitely many nodes, and edges between nodes of the graph.\<close>

definition view_ok :: "graph_view \<Rightarrow> bool" where
  "view_ok g \<longleftrightarrow> finite {v. gv_contains g v} \<and>
     (\<forall>v w k. (w, k) \<in> set (gv_edges_from g v) \<union> set (gv_edges_to g v) \<longrightarrow> gv_contains g w)"

lemma view_ok_neighbour: "view_ok g \<Longrightarrow> (w, k) \<in> set (neighbours g direction v) \<Longrightarrow> gv_contains g w"
  by (auto simp: view_ok_def neighbours_def split: closure_direction.splits)

section \<open>The automaton of a pattern\<close>

datatype trans = Eps nat | On edge_matcher nat

record nfa =
  nfa_trans :: "trans list list"
  nfa_start :: nat
  nfa_accept :: nat

text \<open>One pass of the loop over the atoms: the transitions so far and the current state.\<close>

definition compile_atom :: "pattern_atom \<Rightarrow> trans list list \<times> nat \<Rightarrow> trans list list \<times> nat" where
  "compile_atom atom s =
     (let (trans, current) = s; trans = trans @ [[]]; exit = length trans - 1; m = pa_matcher atom in
      (case pa_rep atom of
         One \<Rightarrow> trans[current := trans ! current @ [On m exit]]
       | Plus \<Rightarrow> (let trans = trans[current := trans ! current @ [On m exit]]
                 in trans[exit := trans ! exit @ [On m exit]])
       | Star \<Rightarrow> (let trans = trans[current := trans ! current @ [Eps exit]]
                 in trans[exit := trans ! exit @ [On m exit]]), exit))"

definition compile :: "pattern_atom list \<Rightarrow> nfa" where
  "compile pattern =
     (let (trans, current) = fold compile_atom pattern ([[]], 0)
      in \<lparr>nfa_trans = trans, nfa_start = 0, nfa_accept = current\<rparr>)"

section \<open>The product search\<close>

record product_state =
  pr_visited :: "(nat \<times> nat) set"
  pr_frontier :: "(nat \<times> nat) list"
  pr_accepting :: "nat set"
  pr_stopped :: bool

definition step_transition :: "graph_view \<Rightarrow> closure_direction \<Rightarrow> nat \<Rightarrow> trans \<Rightarrow>
    (nat \<times> nat) set \<times> (nat \<times> nat) list \<Rightarrow> (nat \<times> nat) set \<times> (nat \<times> nat) list" where
  "step_transition g direction node tr s = (case tr of
     Eps q2 \<Rightarrow> push_fresh (node, q2) s
   | On matcher q2 \<Rightarrow>
       fold (\<lambda>(nbr, kind) s. if matches matcher kind then push_fresh (nbr, q2) s else s)
         (neighbours g direction node) s)"

definition product_pass :: "graph_view \<Rightarrow> nfa \<Rightarrow> closure_direction \<Rightarrow> nat option \<Rightarrow> product_state \<Rightarrow> product_state" where
  "product_pass g nfa direction stop_at s = (case pr_frontier s of
     [] \<Rightarrow> s
   | (node, q) # frontier \<Rightarrow>
       let accepting = (if q = nfa_accept nfa then insert node (pr_accepting s) else pr_accepting s) in
       if q = nfa_accept nfa \<and> stop_at = Some node
       then s\<lparr>pr_frontier := frontier, pr_accepting := accepting, pr_stopped := True\<rparr>
       else let (visited, frontier) =
              fold (step_transition g direction node) (nfa_trans nfa ! q) (pr_visited s, frontier)
            in s\<lparr>pr_visited := visited, pr_frontier := frontier, pr_accepting := accepting\<rparr>)"

definition product_start :: "nat \<Rightarrow> nfa \<Rightarrow> product_state" where
  "product_start source nfa =
     \<lparr>pr_visited = {(source, nfa_start nfa)}, pr_frontier = [(source, nfa_start nfa)],
      pr_accepting = {}, pr_stopped = False\<rparr>"

definition product_bfs :: "graph_view \<Rightarrow> nat \<Rightarrow> nfa \<Rightarrow> closure_direction \<Rightarrow> nat option \<Rightarrow> nat set option" where
  "product_bfs g source nfa direction stop_at =
     map_option pr_accepting
       (while_option (\<lambda>s. \<not> pr_stopped s \<and> pr_frontier s \<noteq> []) (product_pass g nfa direction stop_at)
          (product_start source nfa))"

definition reachable_targets :: "graph_view \<Rightarrow> nat \<Rightarrow> pattern_atom list \<Rightarrow> closure_direction \<Rightarrow> nat list option" where
  "reachable_targets g source pattern direction =
     (if \<not> gv_contains g source then Some []
      else map_option sorted_list_of_set (product_bfs g source (compile pattern) direction None))"

definition reachable :: "graph_view \<Rightarrow> nat \<Rightarrow> nat \<Rightarrow> pattern_atom list \<Rightarrow> closure_direction \<Rightarrow> bool option" where
  "reachable g source target pattern direction =
     (if \<not> gv_contains g source \<or> \<not> gv_contains g target then Some False
      else map_option (\<lambda>v. target \<in> v) (product_bfs g source (compile pattern) direction (Some target)))"

section \<open>Transitive closure\<close>

record closure_state =
  cl_visited :: "nat set"
  cl_reached :: "nat set"
  cl_frontier :: "nat list"

definition closure_seed :: "graph_view \<Rightarrow> nat \<Rightarrow> closure_state \<Rightarrow> closure_state" where
  "closure_seed g seed s =
     (if gv_contains g seed
      then s\<lparr>cl_visited := insert seed (cl_visited s), cl_frontier := seed # cl_frontier s\<rparr> else s)"

definition closure_edge :: "(analysis_edge_kind \<Rightarrow> bool) \<Rightarrow> nat \<times> analysis_edge_kind \<Rightarrow> closure_state \<Rightarrow> closure_state" where
  "closure_edge edge_kind_match e s =
     (if \<not> edge_kind_match (snd e) then s
      else let (visited, frontier) = push_fresh (fst e) (cl_visited s, cl_frontier s)
           in s\<lparr>cl_visited := visited, cl_reached := insert (fst e) (cl_reached s), cl_frontier := frontier\<rparr>)"

definition closure_pass :: "graph_view \<Rightarrow> (analysis_edge_kind \<Rightarrow> bool) \<Rightarrow> closure_direction \<Rightarrow> closure_state \<Rightarrow> closure_state" where
  "closure_pass g edge_kind_match direction s = (case cl_frontier s of
     [] \<Rightarrow> s
   | current # frontier \<Rightarrow>
       fold (closure_edge edge_kind_match) (neighbours g direction current) (s\<lparr>cl_frontier := frontier\<rparr>))"

definition closure :: "graph_view \<Rightarrow> nat list \<Rightarrow> (analysis_edge_kind \<Rightarrow> bool) \<Rightarrow> closure_direction \<Rightarrow> nat set option" where
  "closure g seeds edge_kind_match direction =
     map_option cl_reached
       (while_option (\<lambda>s. cl_frontier s \<noteq> []) (closure_pass g edge_kind_match direction)
          (fold (closure_seed g) seeds \<lparr>cl_visited = {}, cl_reached = {}, cl_frontier = []\<rparr>))"

definition calls_closure :: "graph_view \<Rightarrow> nat list \<Rightarrow> closure_direction \<Rightarrow> nat set option" where
  "calls_closure g seeds direction = closure g seeds (\<lambda>k. k = AE_Calls) direction"

definition any_closure :: "graph_view \<Rightarrow> nat list \<Rightarrow> closure_direction \<Rightarrow> nat set option" where
  "any_closure g seeds direction = closure g seeds (\<lambda>_. True) direction"

section \<open>What the closure computes\<close>

definition kind_succ :: "graph_view \<Rightarrow> (analysis_edge_kind \<Rightarrow> bool) \<Rightarrow> closure_direction \<Rightarrow> nat \<Rightarrow> nat set" where
  "kind_succ g P direction v = {w. \<exists>k. (w, k) \<in> set (neighbours g direction v) \<and> P k}"

lemma closure_seed_all:
  "cl_visited (fold (closure_seed g) seeds s) = cl_visited s \<union> {v \<in> set seeds. gv_contains g v}"
  "set (cl_frontier (fold (closure_seed g) seeds s)) = set (cl_frontier s) \<union> {v \<in> set seeds. gv_contains g v}"
  "cl_reached (fold (closure_seed g) seeds s) = cl_reached s"
  by (induction seeds arbitrary: s) (auto simp: closure_seed_def)

lemma closure_edges:
  "let s' = fold (closure_edge P) es s; ws = map fst (filter (P \<circ> snd) es) in
   (cl_visited s', cl_frontier s') = push_all ws (cl_visited s, cl_frontier s) \<and> cl_reached s' = cl_reached s \<union> set ws"
proof (induction es arbitrary: s)
  case (Cons e es)
  then show ?case
    by (cases "push_fresh (fst e) (cl_visited s, cl_frontier s)") (auto simp: closure_edge_def push_all_def Let_def)
qed (simp add: push_all_def)

lemma kind_succ_list: "set (map fst (filter (P \<circ> snd) (neighbours g direction v))) = kind_succ g P direction v"
  by (force simp: kind_succ_def)

text \<open>A seed may be on the stack twice, so that what is reached is only bounded until the stack is empty.\<close>

definition closure_inv :: "graph_view \<Rightarrow> (analysis_edge_kind \<Rightarrow> bool) \<Rightarrow> closure_direction \<Rightarrow> nat set \<Rightarrow> closure_state \<Rightarrow> bool" where
  "closure_inv g P direction start s \<longleftrightarrow>
     search_inv (kind_succ g P direction) start (cl_visited s, cl_frontier s) \<and>
     (\<Union>v \<in> cl_visited s - set (cl_frontier s). kind_succ g P direction v) \<subseteq> cl_reached s \<and>
     cl_reached s \<subseteq> (\<Union>v \<in> cl_visited s. kind_succ g P direction v)"

definition seeds_in :: "graph_view \<Rightarrow> nat list \<Rightarrow> nat set" where
  "seeds_in g seeds = {v \<in> set seeds. gv_contains g v}"

lemma kind_succ_nodes: "view_ok g \<Longrightarrow> kind_succ g P direction v \<subseteq> {w. gv_contains g w}"
  using view_ok_neighbour by (auto simp: kind_succ_def)

lemma closure_inv_start:
  "closure_inv g P direction (seeds_in g seeds) (fold (closure_seed g) seeds \<lparr>cl_visited = {}, cl_reached = {}, cl_frontier = []\<rparr>)"
  by (simp add: closure_inv_def closure_seed_all search_inv_def seeds_in_def) blast

lemma closure_pass_inv:
  assumes "closure_inv g P direction start s" and "cl_frontier s \<noteq> []" and "view_ok g"
  shows "closure_inv g P direction start (closure_pass g P direction s) \<and>
    work {v. gv_contains g v} (cl_visited (closure_pass g P direction s), cl_frontier (closure_pass g P direction s))
      < work {v. gv_contains g v} (cl_visited s, cl_frontier s)"
proof -
  obtain v rest where s: "cl_frontier s = v # rest" using assms(2) by (cases "cl_frontier s") auto
  define ws where "ws = map fst (filter (P \<circ> snd) (neighbours g direction v))"
  have ws: "set ws = kind_succ g P direction v" by (simp add: ws_def kind_succ_list del: set_map set_filter)
  let ?s = "closure_pass g P direction s" and ?R = "{v. gv_contains g v}"
  have push: "(cl_visited ?s, cl_frontier ?s) = push_all ws (cl_visited s, rest)"
    and reached: "cl_reached ?s = cl_reached s \<union> set ws"
    using closure_edges [of P "neighbours g direction v" "s\<lparr>cl_frontier := rest\<rparr>"]
    by (simp_all add: closure_pass_def s ws_def Let_def del: set_map set_filter)
  have inv: "search_inv (kind_succ g P direction) start (cl_visited s, v # rest)"
    using assms(1) s by (simp add: closure_inv_def)
  have step: "search_inv (kind_succ g P direction) start (cl_visited ?s, cl_frontier ?s)"
    unfolding push by (rule search_inv_pop [OF inv ws])
  have "cl_visited ?s = cl_visited s \<union> set ws" "set (cl_frontier ?s) = set rest \<union> (set ws - cl_visited s)"
    using push push_all_fst [of ws "(cl_visited s, rest)"] push_all_snd [of ws "(cl_visited s, rest)"]
    by (metis fst_conv, metis fst_conv snd_conv)
  moreover have "v \<in> cl_visited s" using inv by (simp add: search_inv_def)
  ultimately have "closure_inv g P direction start ?s"
    using assms(1) s step ws reached unfolding closure_inv_def by auto
  moreover have "work ?R (cl_visited ?s, cl_frontier ?s) \<le> work ?R (cl_visited s, rest)"
    unfolding push by (rule push_all_work) (use assms(3) kind_succ_nodes ws in \<open>simp_all add: view_ok_def\<close>)
  ultimately show ?thesis by (simp add: s work_def)
qed

theorem closure_reaches:
  assumes "view_ok g"
  shows "closure g seeds P direction =
    Some {w. \<exists>v\<in>seeds_in g seeds. (\<lambda>v w. w \<in> kind_succ g P direction v)\<^sup>+\<^sup>+ v w}"
proof -
  let ?m = "\<lambda>s. work {v. gv_contains g v} (cl_visited s, cl_frontier s)"
  have "closure_inv g P direction (seeds_in g seeds) (closure_pass g P direction s) \<and> ?m (closure_pass g P direction s) < ?m s"
    if "closure_inv g P direction (seeds_in g seeds) s" "cl_frontier s \<noteq> []" for s
    by (rule closure_pass_inv [OF that assms])
  from while_option_total [where b = "\<lambda>s. cl_frontier s \<noteq> []", OF closure_inv_start this]
  obtain t where t: "while_option (\<lambda>s. cl_frontier s \<noteq> []) (closure_pass g P direction)
        (fold (closure_seed g) seeds \<lparr>cl_visited = {}, cl_reached = {}, cl_frontier = []\<rparr>) = Some t"
      "closure_inv g P direction (seeds_in g seeds) t" "cl_frontier t = []"
    by blast
  have "cl_visited t = reachable_from (kind_succ g P direction) (seeds_in g seeds)"
    by (rule search_inv_end) (use t(2,3) in \<open>simp add: closure_inv_def\<close>)
  moreover have "cl_reached t = (\<Union>v \<in> cl_visited t. kind_succ g P direction v)"
    using t(2,3) by (simp add: closure_inv_def equalityI)
  ultimately have "cl_reached t = (\<Union>v \<in> reachable_from (kind_succ g P direction) (seeds_in g seeds). kind_succ g P direction v)"
    by simp
  then show ?thesis using t(1) unfolding one_step_more by (simp add: closure_def)
qed

section \<open>The states of the automaton\<close>

text \<open>State \<open>i\<close> loops on the atom before it when that atom repeats, and enters the atom after it.\<close>

definition entering :: "pattern_atom \<Rightarrow> nat \<Rightarrow> trans" where
  "entering a i = (if pa_rep a = Star then Eps (Suc i) else On (pa_matcher a) (Suc i))"

definition loops :: "pattern_atom list \<Rightarrow> nat \<Rightarrow> trans list" where
  "loops p i = (case i of 0 \<Rightarrow> [] | Suc j \<Rightarrow> if pa_rep (p ! j) = One then [] else [On (pa_matcher (p ! j)) i])"

definition trans_of :: "pattern_atom list \<Rightarrow> nat \<Rightarrow> trans list" where
  "trans_of p i = loops p i @ (if i < length p then [entering (p ! i) i] else [])"

lemma trans_of_snoc:
  "i < length p \<Longrightarrow> trans_of (p @ [a]) i = trans_of p i"
  "trans_of (p @ [a]) (length p) = trans_of p (length p) @ [entering a (length p)]"
  "trans_of (p @ [a]) (Suc (length p)) = (if pa_rep a = One then [] else [On (pa_matcher a) (Suc (length p))])"
  by (auto simp: trans_of_def loops_def nth_append split: nat.splits)

lemma compile_states: "fold compile_atom p ([[]], 0) = (map (trans_of p) [0..<Suc (length p)], length p)"
proof (induction p rule: rev_induct)
  case Nil
  then show ?case by (simp add: trans_of_def loops_def)
next
  case (snoc a p)
  let ?n = "length p"
  have old: "map (trans_of p) [0..<?n] = map (trans_of (p @ [a])) [0..<?n]" by (simp add: trans_of_snoc)
  have "compile_atom a (map (trans_of p) [0..<Suc ?n], ?n) =
      (map (trans_of p) [0..<?n] @ [trans_of (p @ [a]) ?n, trans_of (p @ [a]) (Suc ?n)], Suc ?n)"
    by (cases "pa_rep a")
      (simp_all add: compile_atom_def Let_def trans_of_snoc entering_def nth_append list_update_append)
  then show ?case using snoc old by simp
qed

lemma compile_eq:
  "nfa_trans (compile p) = map (trans_of p) [0..<Suc (length p)]" "nfa_start (compile p) = 0" "nfa_accept (compile p) = length p"
  by (simp_all add: compile_def compile_states del: upt_Suc)

section \<open>The language of a pattern\<close>

text \<open>
  What a pattern means, independently of the automaton: a path of labels is accepted when it splits
  into one piece per atom, each piece of matching labels and of the length the repetition allows.
\<close>

definition atom_accepts :: "pattern_atom \<Rightarrow> analysis_edge_kind list \<Rightarrow> bool" where
  "atom_accepts a ks \<longleftrightarrow> list_all (matches (pa_matcher a)) ks \<and>
     (case pa_rep a of One \<Rightarrow> length ks = 1 | Star \<Rightarrow> True | Plus \<Rightarrow> ks \<noteq> [])"

fun pattern_accepts :: "pattern_atom list \<Rightarrow> analysis_edge_kind list \<Rightarrow> bool" where
  "pattern_accepts [] ks = (ks = [])"
| "pattern_accepts (a # p) ks = (\<exists>n\<le>length ks. atom_accepts a (take n ks) \<and> pattern_accepts p (drop n ks))"

fun walk :: "graph_view \<Rightarrow> closure_direction \<Rightarrow> nat \<Rightarrow> analysis_edge_kind list \<Rightarrow> nat \<Rightarrow> bool" where
  "walk g d v [] w = (v = w)"
| "walk g d v (k # ks) w = (\<exists>e\<in>set (neighbours g d v). snd e = k \<and> walk g d (fst e) ks w)"

lemma walk_append: "walk g d v (ks @ ls) w \<longleftrightarrow> (\<exists>u. walk g d v ks u \<and> walk g d u ls w)"
  by (induction ks arbitrary: v) auto

lemma pattern_accepts_split:
  "pattern_accepts (a # p) ks \<longleftrightarrow> (\<exists>us vs. ks = us @ vs \<and> atom_accepts a us \<and> pattern_accepts p vs)"
proof
  assume "pattern_accepts (a # p) ks"
  then obtain n where "atom_accepts a (take n ks)" "pattern_accepts p (drop n ks)" by auto
  then show "\<exists>us vs. ks = us @ vs \<and> atom_accepts a us \<and> pattern_accepts p vs"
    using append_take_drop_id [of n ks] by metis
next
  assume "\<exists>us vs. ks = us @ vs \<and> atom_accepts a us \<and> pattern_accepts p vs"
  then obtain us vs where "ks = us @ vs" "atom_accepts a us" "pattern_accepts p vs" by blast
  then show "pattern_accepts (a # p) ks" by (auto intro!: exI [of _ "length us"])
qed

lemma pattern_accepts_snoc:
  "pattern_accepts (p @ [a]) ks \<longleftrightarrow> (\<exists>us vs. ks = us @ vs \<and> pattern_accepts p us \<and> atom_accepts a vs)"
proof (induction p arbitrary: ks)
  case Nil
  show ?case using pattern_accepts_split [of a "[]" ks] by simp
next
  case (Cons b p)
  show ?case (is "?l = ?r")
  proof
    assume ?l
    then obtain us vs where "ks = us @ vs" "atom_accepts b us" "pattern_accepts (p @ [a]) vs"
      using pattern_accepts_split [of b "p @ [a]" ks] by auto
    with Cons.IH [of vs] show ?r by (metis append_assoc pattern_accepts_split)
  next
    assume ?r
    then obtain us vs xs ys where "ks = us @ vs" "atom_accepts a vs" "us = xs @ ys" "atom_accepts b xs" "pattern_accepts p ys"
      using pattern_accepts_split [of b p] by blast
    then have "atom_accepts b xs" "pattern_accepts (p @ [a]) (ys @ vs)" "ks = xs @ ys @ vs"
      using Cons.IH by auto
    then show ?l using pattern_accepts_split [of b "p @ [a]" ks] by auto
  qed
qed

section \<open>Configurations of the product\<close>

definition trans_succ :: "graph_view \<Rightarrow> closure_direction \<Rightarrow> nat \<Rightarrow> trans \<Rightarrow> (nat \<times> nat) list" where
  "trans_succ g d v tr = (case tr of
     Eps q \<Rightarrow> [(v, q)]
   | On m q \<Rightarrow> map (\<lambda>e. (fst e, q)) (filter (\<lambda>e. matches m (snd e)) (neighbours g d v)))"

definition config_succ :: "graph_view \<Rightarrow> closure_direction \<Rightarrow> pattern_atom list \<Rightarrow> nat \<times> nat \<Rightarrow> (nat \<times> nat) set" where
  "config_succ g d p c = (if snd c \<le> length p then set (concat (map (trans_succ g d (fst c)) (trans_of p (snd c)))) else {})"

lemma config_succ_iff:
  "(w, q') \<in> config_succ g d p (v, q) \<longleftrightarrow> q \<le> length p \<and>
     ((\<exists>j k. q = Suc j \<and> q' = q \<and> pa_rep (p ! j) \<noteq> One \<and> (w, k) \<in> set (neighbours g d v) \<and> matches (pa_matcher (p ! j)) k) \<or>
      (q < length p \<and> q' = Suc q \<and>
        (if pa_rep (p ! q) = Star then w = v
         else \<exists>k. (w, k) \<in> set (neighbours g d v) \<and> matches (pa_matcher (p ! q)) k)))"
  by (cases q) (force simp: config_succ_def trans_of_def loops_def entering_def trans_succ_def split: if_splits)+

definition step_rel :: "graph_view \<Rightarrow> closure_direction \<Rightarrow> pattern_atom list \<Rightarrow> nat \<times> nat \<Rightarrow> nat \<times> nat \<Rightarrow> bool" where
  "step_rel g d p c c' \<longleftrightarrow> c' \<in> config_succ g d p c"

lemma reached_config_sound:
  assumes "(step_rel g d p)\<^sup>*\<^sup>* (v, 0) c"
  shows "snd c \<le> length p \<and> (\<exists>ks. walk g d v ks (fst c) \<and> pattern_accepts (take (snd c) p) ks)"
  using assms
proof (induction rule: rtranclp_induct)
  case base
  have "walk g d v [] v" by simp
  then show ?case by force
next
  case (step c c')
  obtain u q w q' where c: "c = (u, q)" "c' = (w, q')" by fastforce
  from step.IH obtain ks where ks: "q \<le> length p" "walk g d v ks u" "pattern_accepts (take q p) ks" by (auto simp: c)
  from step.hyps(2) have "(w, q') \<in> config_succ g d p (u, q)" by (simp add: step_rel_def c)
  then consider (loop) j k where "q = Suc j" "q' = q" "pa_rep (p ! j) \<noteq> One" "(w, k) \<in> set (neighbours g d u)" "matches (pa_matcher (p ! j)) k"
    | (skip) "q < length p" "q' = Suc q" "pa_rep (p ! q) = Star" "w = u"
    | (enter) k where "q < length p" "q' = Suc q" "pa_rep (p ! q) \<noteq> Star" "(w, k) \<in> set (neighbours g d u)" "matches (pa_matcher (p ! q)) k"
    by (auto simp: config_succ_iff split: if_splits)
  then show ?case
  proof cases
    case loop
    have take: "take q p = take j p @ [p ! j]" using loop(1) ks(1) by (simp add: take_Suc_conv_app_nth)
    then obtain us vs where "ks = us @ vs" "pattern_accepts (take j p) us" "atom_accepts (p ! j) vs"
      using ks(3) pattern_accepts_snoc [of "take j p" "p ! j" ks] by auto
    moreover from this(3) have "atom_accepts (p ! j) (vs @ [k])"
      using loop(3,5) by (cases "pa_rep (p ! j)") (auto simp: atom_accepts_def)
    ultimately have "pattern_accepts (take q p) (ks @ [k])"
      unfolding take pattern_accepts_snoc by (metis append_assoc)
    moreover have "walk g d v (ks @ [k]) w" using ks(2) loop(4) by (force simp: walk_append)
    ultimately show ?thesis using ks(1) loop(2) c by auto
  next
    case skip
    have "atom_accepts (p ! q) []" using skip(3) by (simp add: atom_accepts_def)
    then have "pattern_accepts (take q' p) (ks @ [])"
      using ks(3) skip(1,2) by (auto simp: take_Suc_conv_app_nth pattern_accepts_snoc)
    then show ?thesis using ks(2) skip c by auto
  next
    case enter
    have "atom_accepts (p ! q) [k]" using enter(3,5) by (cases "pa_rep (p ! q)") (simp_all add: atom_accepts_def)
    then have "pattern_accepts (take q' p) (ks @ [k])"
      using ks(3) enter(1,2) by (auto simp: take_Suc_conv_app_nth pattern_accepts_snoc)
    moreover have "walk g d v (ks @ [k]) w" using ks(2) enter(4) by (force simp: walk_append)
    ultimately show ?thesis using enter(1,2) c by auto
  qed
qed

lemma config_loops:
  assumes "walk g d u ks w" and "list_all (matches (pa_matcher (p ! q))) ks" and "pa_rep (p ! q) \<noteq> One" and "q < length p"
  shows "(step_rel g d p)\<^sup>*\<^sup>* (u, Suc q) (w, Suc q)"
  using assms(1,2)
proof (induction ks arbitrary: u)
  case (Cons k ks)
  then obtain e where e: "e \<in> set (neighbours g d u)" "snd e = k" "walk g d (fst e) ks w" "matches (pa_matcher (p ! q)) k"
    by auto
  have "step_rel g d p (u, Suc q) (fst e, Suc q)"
    using e assms(3,4) unfolding step_rel_def config_succ_iff by (metis Suc_leI prod.collapse)
  with Cons.IH [OF e(3)] Cons.prems(2) show ?case by (simp add: converse_rtranclp_into_rtranclp)
qed simp

lemma config_atom:
  assumes "atom_accepts (p ! q) ks" and "walk g d u ks w" and "q < length p"
  shows "(step_rel g d p)\<^sup>*\<^sup>* (u, q) (w, Suc q)"
proof (cases "pa_rep (p ! q) = Star")
  case True
  then have "step_rel g d p (u, q) (u, Suc q)" using assms(3) by (simp add: step_rel_def config_succ_iff)
  moreover have "(step_rel g d p)\<^sup>*\<^sup>* (u, Suc q) (w, Suc q)"
    by (rule config_loops [OF assms(2)]) (use assms True in \<open>simp_all add: atom_accepts_def\<close>)
  ultimately show ?thesis by (rule converse_rtranclp_into_rtranclp)
next
  case False
  then obtain k ls where ks: "ks = k # ls" using assms(1) by (cases ks; cases "pa_rep (p ! q)") (auto simp: atom_accepts_def)
  then obtain e where e: "e \<in> set (neighbours g d u)" "snd e = k" "walk g d (fst e) ls w" "matches (pa_matcher (p ! q)) k"
    using assms(1,2) by (auto simp: atom_accepts_def)
  have step: "step_rel g d p (u, q) (fst e, Suc q)"
    using e False assms(3) unfolding step_rel_def config_succ_iff by (metis less_imp_le prod.collapse)
  show ?thesis
  proof (cases "pa_rep (p ! q) = One")
    case True
    then show ?thesis using assms(1) e(3) ks step by (auto simp: atom_accepts_def)
  next
    case one: False
    have "(step_rel g d p)\<^sup>*\<^sup>* (fst e, Suc q) (w, Suc q)"
      by (rule config_loops [OF e(3) _ one assms(3)]) (use assms(1) ks in \<open>simp add: atom_accepts_def\<close>)
    with step show ?thesis by (rule converse_rtranclp_into_rtranclp)
  qed
qed

lemma reached_config_complete:
  assumes "pattern_accepts (take q p) ks" and "walk g d v ks w" and "q \<le> length p"
  shows "(step_rel g d p)\<^sup>*\<^sup>* (v, 0) (w, q)"
  using assms
proof (induction q arbitrary: ks w)
  case (Suc q)
  then have "take (Suc q) p = take q p @ [p ! q]" by (simp add: take_Suc_conv_app_nth)
  then obtain us vs where ks: "ks = us @ vs" "pattern_accepts (take q p) us" "atom_accepts (p ! q) vs"
    using Suc.prems(1) pattern_accepts_snoc [of "take q p" "p ! q" ks] by auto
  then obtain u where u: "walk g d v us u" "walk g d u vs w" using Suc.prems(2) by (auto simp: walk_append)
  have "(step_rel g d p)\<^sup>*\<^sup>* (v, 0) (u, q)" using Suc.IH [OF ks(2) u(1)] Suc.prems(3) by simp
  also have "(step_rel g d p)\<^sup>*\<^sup>* (u, q) (w, Suc q)" using config_atom [OF ks(3) u(2)] Suc.prems(3) by simp
  finally show ?case .
qed simp

definition matched :: "graph_view \<Rightarrow> closure_direction \<Rightarrow> pattern_atom list \<Rightarrow> nat \<Rightarrow> nat \<Rightarrow> bool" where
  "matched g d p v w \<longleftrightarrow> (\<exists>ks. walk g d v ks w \<and> pattern_accepts p ks)"

lemma reached_accepting:
  "(w, length p) \<in> reachable_from (config_succ g d p) {(v, 0)} \<longleftrightarrow> matched g d p v w"
proof -
  have "(\<lambda>x y. y \<in> config_succ g d p x) = step_rel g d p" by (simp add: step_rel_def fun_eq_iff)
  then show ?thesis
    using reached_config_sound [of g d p v "(w, length p)"] reached_config_complete [of "length p" p _ g d v w]
    by (auto simp: matched_def)
qed

section \<open>What the product search computes\<close>

lemma step_transition_push: "step_transition g d v tr s = push_all (trans_succ g d v tr) s"
proof (cases tr)
  case (On m q)
  have "fold (\<lambda>(nbr, kind) s. if matches m kind then push_fresh (nbr, q) s else s) es s =
      push_all (map (\<lambda>e. (fst e, q)) (filter (\<lambda>e. matches m (snd e)) es)) s" for es
    by (induction es arbitrary: s) (auto simp: push_all_def)
  then show ?thesis by (simp add: step_transition_def trans_succ_def On)
qed (simp add: step_transition_def trans_succ_def push_all_def)

lemma step_transitions_push:
  "fold (step_transition g d v) trs s = push_all (concat (map (trans_succ g d v) trs)) s"
  by (induction trs arbitrary: s) (simp_all add: step_transition_push push_all_def)

definition product_inv :: "graph_view \<Rightarrow> closure_direction \<Rightarrow> pattern_atom list \<Rightarrow> nat \<Rightarrow> nat option \<Rightarrow> product_state \<Rightarrow> bool" where
  "product_inv g d p source stop_at s \<longleftrightarrow>
     (\<forall>v\<in>pr_accepting s. matched g d p source v) \<and>
     (if pr_stopped s then (\<exists>t\<in>pr_accepting s. stop_at = Some t)
      else search_inv (config_succ g d p) {(source, 0)} (pr_visited s, pr_frontier s) \<and>
        {v. (v, length p) \<in> pr_visited s - set (pr_frontier s)} \<subseteq> pr_accepting s)"

abbreviation configs :: "graph_view \<Rightarrow> pattern_atom list \<Rightarrow> (nat \<times> nat) set" where
  "configs g p \<equiv> {v. gv_contains g v} \<times> {..length p}"

lemma config_succ_in:
  assumes "view_ok g" and "c \<in> configs g p"
  shows "config_succ g d p c \<subseteq> configs g p"
proof
  fix c' assume c': "c' \<in> config_succ g d p c"
  obtain v q w q' where c: "c = (v, q)" "c' = (w, q')" by fastforce
  then show "c' \<in> configs g p"
    using c' assms view_ok_neighbour [OF assms(1)] by (auto simp: config_succ_iff split: if_splits)
qed

lemma product_inv_start: "product_inv g d p source stop_at (product_start source (compile p))"
  by (simp add: product_inv_def product_start_def compile_eq search_inv_start)

lemma product_pass_inv:
  assumes inv: "product_inv g d p source stop_at s" and going: "\<not> pr_stopped s" "pr_frontier s \<noteq> []"
    and "view_ok g" and "pr_visited s \<subseteq> configs g p"
  defines "s' \<equiv> product_pass g (compile p) d stop_at s"
  shows "product_inv g d p source stop_at s' \<and> pr_visited s' \<subseteq> configs g p \<and>
    work (configs g p) (pr_visited s', pr_frontier s') < work (configs g p) (pr_visited s, pr_frontier s)"
proof -
  obtain v q rest where s: "pr_frontier s = (v, q) # rest" using going(2) by (cases "pr_frontier s") auto
  let ?acc = "if q = length p then insert v (pr_accepting s) else pr_accepting s"
  have search: "search_inv (config_succ g d p) {(source, 0)} (pr_visited s, (v, q) # rest)"
    and old: "{v. (v, length p) \<in> pr_visited s - set (pr_frontier s)} \<subseteq> pr_accepting s"
      "\<forall>v\<in>pr_accepting s. matched g d p source v"
    using inv going s by (simp_all add: product_inv_def)
  have vq: "(v, q) \<in> pr_visited s" and reach: "pr_visited s \<subseteq> reachable_from (config_succ g d p) {(source, 0)}"
    using search by (simp_all add: search_inv_def)
  from vq have q: "q \<le> length p" "(v, q) \<in> configs g p" using assms(5) by auto
  have acc: "\<forall>w\<in>?acc. matched g d p source w"
    using old(2) vq reach reached_accepting [where w = v and v = source and p = p and g = g and d = d] by auto
  show ?thesis
  proof (cases "q = length p \<and> stop_at = Some v")
    case True
    then have "s' = s\<lparr>pr_frontier := rest, pr_accepting := insert v (pr_accepting s), pr_stopped := True\<rparr>"
      by (simp add: s'_def product_pass_def s compile_eq)
    then show ?thesis using True acc assms(5) s by (simp add: product_inv_def work_def)
  next
    case False
    define xs where "xs = concat (map (trans_succ g d v) (trans_of p q))"
    have xs: "set xs = config_succ g d p (v, q)" by (simp add: xs_def config_succ_def q(1) del: set_concat)
    have trans: "nfa_trans (compile p) ! q = trans_of p q" using q(1) by (simp add: compile_eq less_Suc_eq_le nth_map_upt del: upt_Suc)
    have push: "(pr_visited s', pr_frontier s') = push_all xs (pr_visited s, rest)"
      and rest: "pr_accepting s' = ?acc" "\<not> pr_stopped s'"
      using False going by (auto simp: s'_def product_pass_def s compile_eq(3) trans step_transitions_push xs_def Let_def split: prod.splits)
    have visited: "pr_visited s' = pr_visited s \<union> set xs" "set (pr_frontier s') = set rest \<union> (set xs - pr_visited s)"
      using push push_all_fst [of xs "(pr_visited s, rest)"] push_all_snd [of xs "(pr_visited s, rest)"]
      by (metis fst_conv, metis fst_conv snd_conv)
    have new: "{w. (w, length p) \<in> pr_visited s' - set (pr_frontier s')} \<subseteq> ?acc"
      using old(1) by (auto simp: visited s)
    have "search_inv (config_succ g d p) {(source, 0)} (pr_visited s', pr_frontier s')"
      unfolding push by (rule search_inv_pop [OF search xs])
    then have "product_inv g d p source stop_at s'" using acc rest new by (simp add: product_inv_def)
    moreover have sub: "set xs \<subseteq> configs g p" unfolding xs by (rule config_succ_in [OF assms(4) q(2)])
    moreover have "work (configs g p) (push_all xs (pr_visited s, rest)) \<le> work (configs g p) (pr_visited s, rest)"
      by (rule push_all_work [OF _ sub]) (use assms(4) in \<open>simp add: view_ok_def\<close>)
    ultimately show ?thesis using assms(5) visited(1) push s by (simp add: work_def)
  qed
qed

lemma product_bfs_result:
  assumes "view_ok g" and "gv_contains g source"
  shows "\<exists>A. product_bfs g source (compile p) d stop_at = Some A \<and> A \<subseteq> {v. matched g d p source v} \<and>
    (A = {v. matched g d p source v} \<or> (\<exists>t\<in>A. stop_at = Some t))"
proof -
  let ?I = "\<lambda>s. product_inv g d p source stop_at s \<and> pr_visited s \<subseteq> configs g p"
  let ?b = "\<lambda>s. \<not> pr_stopped s \<and> pr_frontier s \<noteq> []" and ?c = "product_pass g (compile p) d stop_at"
  let ?m = "\<lambda>s. work (configs g p) (pr_visited s, pr_frontier s)"
  have start: "?I (product_start source (compile p))"
    using assms(2) product_inv_start by (simp add: product_start_def compile_eq)
  have "?I (?c s) \<and> ?m (?c s) < ?m s" if "?I s" "?b s" for s
    using product_pass_inv [of g d p source stop_at s] that assms(1) by blast
  from while_option_total [where b = ?b, OF start this] obtain t where
    t: "while_option ?b ?c (product_start source (compile p)) = Some t" "?I t" "\<not> ?b t"
    by blast
  have "pr_accepting t = {v. matched g d p source v}" if "\<not> pr_stopped t"
  proof
    have inv: "search_inv (config_succ g d p) {(source, 0)} (pr_visited t, [])"
      "{v. (v, length p) \<in> pr_visited t} \<subseteq> pr_accepting t"
      using t(2,3) that by (auto simp: product_inv_def)
    show "{v. matched g d p source v} \<subseteq> pr_accepting t"
      using inv(2) unfolding search_inv_end [OF inv(1)] reached_accepting .
    show "pr_accepting t \<subseteq> {v. matched g d p source v}" using t(2) by (auto simp: product_inv_def)
  qed
  moreover have "\<exists>t'\<in>pr_accepting t. stop_at = Some t'" if "pr_stopped t"
    using t(2) that by (simp add: product_inv_def)
  moreover have "pr_accepting t \<subseteq> {v. matched g d p source v}" using t(2) by (auto simp: product_inv_def)
  ultimately show ?thesis using t(1) by (auto simp: product_bfs_def)
qed

end
