(* ===== verification/Reachability_Properties.thy ===== *)
theory Reachability_Properties
  imports Label_Reachability
begin

text \<open>
  The properties of the searches over a graph view: label-constrained reachability computes the
  language of its pattern, transitive closure the paths of at least one edge.
\<close>

section \<open>A graph to apply them to\<close>

text \<open>Four nodes: \<open>1\<close> calls \<open>2\<close>, \<open>2\<close> calls itself and contains \<open>3\<close>, \<open>4\<close> stands alone.\<close>

definition sample_out :: "nat \<Rightarrow> (nat \<times> analysis_edge_kind) list" where
  "sample_out v = (if v = 1 then [(2, AE_Calls)] else if v = 2 then [(2, AE_Calls), (3, AE_Contains)] else [])"

definition sample_in :: "nat \<Rightarrow> (nat \<times> analysis_edge_kind) list" where
  "sample_in v = (if v = 2 then [(1, AE_Calls), (2, AE_Calls)] else if v = 3 then [(2, AE_Contains)] else [])"

definition sample_view :: graph_view where
  "sample_view = \<lparr>gv_contains = (\<lambda>v. v \<in> {1, 2, 3, 4}), gv_edges_from = sample_out, gv_edges_to = sample_in\<rparr>"

lemma sample_view_ok: "view_ok sample_view"
  by (simp add: view_ok_def sample_view_def sample_out_def sample_in_def)

section \<open>Properties\<close>

lemma reachable_targets_exact:
  assumes "view_ok g"
  shows "reachable_targets g source pattern d =
    Some (if gv_contains g source then sorted_list_of_set {v. matched g d pattern source v} else [])"
proof (cases "gv_contains g source")
  case True
  from product_bfs_result [OF assms True, of pattern d None] True show ?thesis
    by (auto simp: reachable_targets_def)
qed (simp add: reachable_targets_def)

lemma reachable_exact:
  assumes "view_ok g"
  shows "reachable g source target pattern d =
    Some (gv_contains g source \<and> gv_contains g target \<and> matched g d pattern source target)"
proof (cases "gv_contains g source \<and> gv_contains g target")
  case True
  from product_bfs_result [OF assms, of source pattern d "Some target"] True obtain A where
    A: "product_bfs g source (compile pattern) d (Some target) = Some A" "A \<subseteq> {v. matched g d pattern source v}"
      "A = {v. matched g d pattern source v} \<or> target \<in> A"
    by auto
  then have "target \<in> A \<longleftrightarrow> matched g d pattern source target" by blast
  with A(1) True show ?thesis by (simp add: reachable_def)
qed (auto simp: reachable_def)

text \<open>C16. Label-constrained reachability is exact: \<^verbatim>\<open>reachable_targets\<close> returns, in ascending order,
  the nodes that some path from the source leads to whose labels the pattern accepts, and nothing
  for a source outside the graph; the membership test \<^verbatim>\<open>reachable\<close>, which returns early, is true exactly when both
  nodes are in the graph and such a path leads from the one to the other. The searches end although the graph may
  have cycles.\<close>

theorem label_reachability_exact:
  assumes "view_ok g"
  shows "reachable_targets g source pattern d =
      Some (if gv_contains g source then sorted_list_of_set {v. matched g d pattern source v} else []) \<and>
    reachable g source target pattern d =
      Some (gv_contains g source \<and> gv_contains g target \<and> matched g d pattern source target)"
  using reachable_targets_exact [OF assms] reachable_exact [OF assms] by blast

theorem label_reachability_exact_witness:
  "reachable_targets sample_view 1 [atom_plus AE_Calls, atom_one AE_Contains] CD_Outgoing =
     Some (sorted_list_of_set {v. matched sample_view CD_Outgoing [atom_plus AE_Calls, atom_one AE_Contains] 1 v}) \<and>
   reachable sample_view 1 3 [atom_plus AE_Calls, atom_one AE_Contains] CD_Outgoing = Some True"
proof -
  let ?p = "[atom_plus AE_Calls, atom_one AE_Contains]"
  have "walk sample_view CD_Outgoing 1 [AE_Calls, AE_Calls, AE_Contains] 3"
    by (simp add: sample_view_def neighbours_def sample_out_def)
  moreover have "pattern_accepts ?p [AE_Calls, AE_Calls, AE_Contains]"
    unfolding pattern_accepts_split
    by (intro exI [of _ "[AE_Calls, AE_Calls]"] exI [of _ "[AE_Contains]"])
      (simp add: atom_plus_def atom_one_def atom_accepts_def)
  ultimately have "matched sample_view CD_Outgoing ?p 1 3" unfolding matched_def by blast
  then show ?thesis
    using label_reachability_exact [OF sample_view_ok, of 1 ?p CD_Outgoing 3] by (simp add: sample_view_def)
qed

text \<open>C17. Transitive closure is exact: \<^verbatim>\<open>closure\<close> returns the nodes at the end of a path of one or
  more matching edges from a seed of the graph, a seed itself only when such a path leads to it, and
  it returns on every finite graph.\<close>

theorem closure_exact:
  assumes "view_ok g"
  shows "closure g seeds P d =
    Some {w. \<exists>v\<in>set seeds. gv_contains g v \<and> (\<exists>ks. ks \<noteq> [] \<and> list_all P ks \<and> walk g d v ks w)}"
proof -
  have path: "(\<lambda>v w. w \<in> kind_succ g P d v)\<^sup>+\<^sup>+ v w \<longleftrightarrow> (\<exists>ks. ks \<noteq> [] \<and> list_all P ks \<and> walk g d v ks w)" for v w
  proof
    assume "(\<lambda>v w. w \<in> kind_succ g P d v)\<^sup>+\<^sup>+ v w"
    then show "\<exists>ks. ks \<noteq> [] \<and> list_all P ks \<and> walk g d v ks w"
    proof (induction rule: tranclp_induct)
      case (base w)
      then obtain k where "(w, k) \<in> set (neighbours g d v)" "P k" by (auto simp: kind_succ_def)
      then show ?case by (intro exI [of _ "[k]"]) force
    next
      case (step u w)
      then obtain ks k where "ks \<noteq> []" "list_all P ks" "walk g d v ks u" "(w, k) \<in> set (neighbours g d u)" "P k"
        by (auto simp: kind_succ_def)
      then show ?case by (intro exI [of _ "ks @ [k]"]) (force simp: walk_append)
    qed
  next
    assume "\<exists>ks. ks \<noteq> [] \<and> list_all P ks \<and> walk g d v ks w"
    then obtain ks where "walk g d v ks w" "ks \<noteq> []" "list_all P ks" by blast
    then show "(\<lambda>v w. w \<in> kind_succ g P d v)\<^sup>+\<^sup>+ v w"
    proof (induction ks arbitrary: v)
      case (Cons k ks)
      then obtain e where e: "e \<in> set (neighbours g d v)" "snd e = k" "walk g d (fst e) ks w" by auto
      then have "fst e \<in> kind_succ g P d v" using Cons.prems(3) by (force simp: kind_succ_def)
      with Cons e(3) show ?case by (cases "ks = []") (auto intro: tranclp_into_tranclp2)
    qed simp
  qed
  show ?thesis unfolding closure_reaches [OF assms] path by (auto simp: seeds_in_def)
qed

theorem closure_exact_witness:
  "\<exists>A. closure sample_view [1, 9] (\<lambda>_. True) CD_Outgoing = Some A \<and> 3 \<in> A \<and> 1 \<notin> A"
proof -
  let ?A = "{w. \<exists>v\<in>set [1, 9]. gv_contains sample_view v \<and>
      (\<exists>ks. ks \<noteq> [] \<and> list_all (\<lambda>_. True) ks \<and> walk sample_view CD_Outgoing v ks w)}"
  have step: "neighbours sample_view CD_Outgoing = sample_out" by (simp add: fun_eq_iff neighbours_def sample_view_def)
  have path: "\<exists>ks. ks \<noteq> [] \<and> list_all (\<lambda>_. True) ks \<and> walk sample_view CD_Outgoing 1 ks 3"
    by (intro exI [of _ "[AE_Calls, AE_Contains]"]) (simp add: step sample_out_def)
  have "gv_contains sample_view 1" by (simp add: sample_view_def)
  then have "3 \<in> ?A" using path by (intro CollectI bexI [of _ 1] conjI) simp_all
  moreover have "w \<in> {2, 3}" if "walk sample_view CD_Outgoing v ks w" "ks \<noteq> []" for v w ks
    using that
  proof (induction ks arbitrary: v)
    case (Cons k ks)
    then obtain e where e: "e \<in> set (sample_out v)" "walk sample_view CD_Outgoing (fst e) ks w" by (auto simp: step)
    then have "fst e \<in> {2, 3}" by (auto simp: sample_out_def split: if_splits)
    then show ?case using Cons.IH [OF e(2)] e(2) by (cases ks) auto
  qed simp
  then have "\<not> walk sample_view CD_Outgoing v ks 1" if "ks \<noteq> []" for v ks using that by force
  then have "1 \<notin> ?A" by blast
  ultimately show ?thesis using closure_exact [OF sample_view_ok, of "[1, 9]" "\<lambda>_. True" CD_Outgoing]
    by (intro exI [of _ ?A] conjI)
qed

end
