(* ===== verification/Code_Index.thy ===== *)
theory Code_Index
  imports Query_Syntax "HOL-Library.List_Lexorder" "HOL-Library.Char_ord" "HOL-Library.Word"
begin

text \<open>
  The node record of the analysis graph (\<^verbatim>\<open>nodes.rs\<close>) and its lookup indices (\<^verbatim>\<open>index.rs\<close>): the
  three maps, the insertion and the removal of a node, the lookups, and what they answer for the set
  of nodes indexed. Strings are ordered as the \<^verbatim>\<open>BTreeMap\<close> orders them, byte by byte.
\<close>

section \<open>Nodes\<close>

datatype analysis_visibility = AV_Public | AV_Crate | AV_Super | AV_Private

type_synonym u32 = "32 word"
type_synonym u64 = "64 word"

record analysis_span =
  sp_file :: string
  sp_start_line :: u32
  sp_start_col :: u32
  sp_end_line :: u32
  sp_end_col :: u32
  sp_byte_range :: "nat \<times> nat"

text \<open>The optional results of the function analyses are the extension of the record: the graph only
  carries them.\<close>

record node_data =
  nd_id :: nat
  nd_kind :: analysis_node_kind
  nd_name :: string
  nd_qualified_name :: string
  nd_file_path :: string
  nd_span :: analysis_span
  nd_visibility :: analysis_visibility
  nd_metadata :: "(string, string) hash_map"
  nd_birth_revision :: u64
  nd_last_modified_revision :: u64

section \<open>Operations\<close>

record indices =
  ix_by_kind_name :: "(analysis_node_kind \<times> string, nat list) hash_map"
  ix_by_metadata_key :: "(string, nat set) hash_map"
  ix_by_module_path :: "(string \<times> nat set) list"

definition indices_default :: indices where
  "indices_default = \<lparr>ix_by_kind_name = [], ix_by_metadata_key = [], ix_by_module_path = []\<rparr>"

text \<open>The start of the last occurrence, as \<^verbatim>\<open>str::rfind\<close> finds it.\<close>

definition rfind :: "string \<Rightarrow> string \<Rightarrow> nat option" where
  "rfind pat s = find (\<lambda>i. take (length pat) (drop i s) = pat) (rev [0..<Suc (length s)])"

definition module_path_of :: "string \<Rightarrow> string" where
  "module_path_of qualified_name =
     (case rfind ''::'' qualified_name of Some idx \<Rightarrow> take idx qualified_name | None \<Rightarrow> [])"

text \<open>\<^verbatim>\<open>entry(k).or_default()\<close> and the removal of an identifier from a bucket, which drops the bucket
  when it is empty, for the buckets that are sets.\<close>

definition bucket :: "('k \<times> 'v set) list \<Rightarrow> 'k \<Rightarrow> 'v set" where
  "bucket m k = (case map_of m k of Some s \<Rightarrow> s | None \<Rightarrow> {})"

definition key_insert :: "nat \<Rightarrow> string \<Rightarrow> (string, nat set) hash_map \<Rightarrow> (string, nat set) hash_map" where
  "key_insert i key m = hm_insert key (insert i (bucket m key)) m"

definition key_remove :: "nat \<Rightarrow> string \<Rightarrow> (string, nat set) hash_map \<Rightarrow> (string, nat set) hash_map" where
  "key_remove i key m = (case map_of m key of
     None \<Rightarrow> m
   | Some s \<Rightarrow> if s - {i} = {} then hm_remove key m else hm_insert key (s - {i}) m)"

definition module_insert :: "nat \<Rightarrow> string \<Rightarrow> (string \<times> nat set) list \<Rightarrow> (string \<times> nat set) list" where
  "module_insert i path m = bt_insert path (insert i (bucket m path)) m"

definition module_remove :: "nat \<Rightarrow> string \<Rightarrow> (string \<times> nat set) list \<Rightarrow> (string \<times> nat set) list" where
  "module_remove i path m = (case map_of m path of
     None \<Rightarrow> m
   | Some s \<Rightarrow> if s - {i} = {} then bt_remove path m else bt_insert path (s - {i}) m)"

definition name_bucket :: "indices \<Rightarrow> analysis_node_kind \<times> string \<Rightarrow> nat list" where
  "name_bucket ix k = (case map_of (ix_by_kind_name ix) k of Some v \<Rightarrow> v | None \<Rightarrow> [])"

definition index_insert :: "'x node_data_scheme \<Rightarrow> indices \<Rightarrow> indices" where
  "index_insert data ix =
     (let k = (nd_kind data, nd_name data) in
      ix\<lparr>ix_by_kind_name := hm_insert k (name_bucket ix k @ [nd_id data]) (ix_by_kind_name ix),
         ix_by_metadata_key := fold (key_insert (nd_id data)) (map fst (nd_metadata data)) (ix_by_metadata_key ix),
         ix_by_module_path := module_insert (nd_id data) (module_path_of (nd_qualified_name data)) (ix_by_module_path ix)\<rparr>)"

definition index_remove :: "'x node_data_scheme \<Rightarrow> indices \<Rightarrow> indices" where
  "index_remove data ix =
     (let k = (nd_kind data, nd_name data) in
      ix\<lparr>ix_by_kind_name := (case map_of (ix_by_kind_name ix) k of
           None \<Rightarrow> ix_by_kind_name ix
         | Some b \<Rightarrow> (let b = filter (\<lambda>id. id \<noteq> nd_id data) b in
             if b = [] then hm_remove k (ix_by_kind_name ix) else hm_insert k b (ix_by_kind_name ix))),
         ix_by_metadata_key := fold (key_remove (nd_id data)) (map fst (nd_metadata data)) (ix_by_metadata_key ix),
         ix_by_module_path := module_remove (nd_id data) (module_path_of (nd_qualified_name data)) (ix_by_module_path ix)\<rparr>)"

definition rebuild_from_graph :: "'x node_data_scheme list \<Rightarrow> indices" where
  "rebuild_from_graph node_weights = fold index_insert node_weights indices_default"

definition index_nodes_by_kind_name :: "indices \<Rightarrow> analysis_node_kind \<Rightarrow> string \<Rightarrow> nat list" where
  "index_nodes_by_kind_name ix kind name = name_bucket ix (kind, name)"

definition index_nodes_with_metadata_key :: "indices \<Rightarrow> string \<Rightarrow> nat list" where
  "index_nodes_with_metadata_key ix key = sorted_list_of_set (bucket (ix_by_metadata_key ix) key)"

text \<open>The upper bound of the range is the lower one with its last byte increased.\<close>

definition module_range :: "string \<Rightarrow> string \<times> string" where
  "module_range prefix = (let lower = prefix @ ''::'' in (lower, butlast lower @ [char_of (of_char (last lower) + 1 :: nat)]))"

definition index_nodes_in_module :: "indices \<Rightarrow> string \<Rightarrow> nat list" where
  "index_nodes_in_module ix prefix =
     (let (lower, upper) = module_range prefix in
      sorted_list_of_set (bucket (ix_by_module_path ix) prefix) @
      concat (map (\<lambda>(_, b). sorted_list_of_set b) (filter (\<lambda>(path, _). lower \<le> path \<and> path < upper) (ix_by_module_path ix))))"

section \<open>The range of a module\<close>

lemma colon_only: "CHR '':'' \<le> c \<Longrightarrow> c < CHR '';'' \<Longrightarrow> c = CHR '':''"
proof -
  assume "CHR '':'' \<le> c" "c < CHR '';''"
  then have "(of_char c :: nat) = 58" by (simp add: less_eq_char_def less_char_def)
  then have "c = char_of (58 :: nat)" by (metis char_of_char)
  then show ?thesis by (simp add: char_of_def bit_0)
qed

lemma module_range_eq: "module_range prefix = (prefix @ ''::'', prefix @ '':;'')"
  by (simp add: module_range_def Let_def butlast_append char_of_def bit_0)

lemma in_range_iff: "prefix @ ''::'' \<le> path \<and> path < prefix @ '':;'' \<longleftrightarrow> (\<exists>rest. path = prefix @ ''::'' @ rest)"
proof (induction prefix arbitrary: path)
  case Nil
  show ?case
  proof (cases path)
    case (Cons c cs)
    then show ?thesis by (cases cs) (auto dest: colon_only simp: less_char_def less_eq_char_def)
  qed simp
next
  case (Cons a prefix path)
  show ?case
  proof (cases path)
    case (Cons c cs)
    then show ?thesis using Cons.IH [of cs] by auto
  qed simp
qed

section \<open>What the buckets hold\<close>

lemma bucket_simps [simp]: "bucket [] k = {}"
  by (simp add: bucket_def)

lemma bucket_key_insert: "bucket (key_insert i key m) k = (if k = key then insert i (bucket m k) else bucket m k)"
  by (simp add: bucket_def key_insert_def)

lemma bucket_key_remove: "bucket (key_remove i key m) k = (if k = key then bucket m k - {i} else bucket m k)"
  by (auto simp: bucket_def key_remove_def split: option.splits)

lemma bucket_key_insert_all:
  "bucket (fold (key_insert i) keys m) k = (if k \<in> set keys then insert i (bucket m k) else bucket m k)"
  by (induction keys arbitrary: m) (auto simp: bucket_key_insert)

lemma bucket_key_remove_all:
  "bucket (fold (key_remove i) keys m) k = (if k \<in> set keys then bucket m k - {i} else bucket m k)"
  by (induction keys arbitrary: m) (auto simp: bucket_key_remove)

lemma bt_wf_Cons: "bt_wf ((k, v) # m) \<longleftrightarrow> bt_wf m \<and> (\<forall>e\<in>set m. k < fst e)"
  by (auto simp: bt_wf_def)

lemma set_bt_insert: "bt_wf m \<Longrightarrow> set (bt_insert k v m) = insert (k, v) {e \<in> set m. fst e \<noteq> k}"
  by (induction k v m rule: bt_insert.induct) (auto simp: bt_wf_Cons)

lemma bt_wf_insert: "bt_wf m \<Longrightarrow> bt_wf (bt_insert k v m)"
  by (induction k v m rule: bt_insert.induct) (auto simp: bt_wf_Cons set_bt_insert)

lemma bt_get_insert: "bt_wf m \<Longrightarrow> map_of (bt_insert k v m) = (map_of m)(k \<mapsto> v)"
  by (induction k v m rule: bt_insert.induct) (auto simp: bt_wf_Cons)

lemma bt_get_remove: "map_of (bt_remove k m) = (map_of m)(k := None)"
  by (induction m) (auto simp: bt_remove_def)

lemma bt_distinct: "bt_wf m \<Longrightarrow> distinct (map fst m)"
  by (simp add: bt_wf_def strict_sorted_iff)

lemma bucket_module_insert:
  "bt_wf m \<Longrightarrow> bucket (module_insert i path m) k = (if k = path then insert i (bucket m k) else bucket m k)"
  by (simp add: bucket_def module_insert_def bt_get_insert)

lemma bucket_module_remove:
  "bt_wf m \<Longrightarrow> bucket (module_remove i path m) k = (if k = path then bucket m k - {i} else bucket m k)"
  by (auto simp: bucket_def module_remove_def bt_get_insert bt_get_remove split: option.splits)

lemma module_insert_wf: "bt_wf m \<Longrightarrow> bt_wf (module_insert i path m)"
  by (simp add: module_insert_def bt_wf_insert)

lemma module_remove_wf: "bt_wf m \<Longrightarrow> bt_wf (module_remove i path m)"
  by (simp add: module_remove_def bt_wf_insert bt_wf_remove split: option.split)

lemma name_bucket_insert:
  "name_bucket (index_insert data ix) k = name_bucket ix k @ (if k = (nd_kind data, nd_name data) then [nd_id data] else [])"
  by (simp add: name_bucket_def index_insert_def Let_def)

lemma name_bucket_remove:
  "name_bucket (index_remove data ix) k =
     (if k = (nd_kind data, nd_name data) then filter (\<lambda>id. id \<noteq> nd_id data) (name_bucket ix k) else name_bucket ix k)"
  by (auto simp: name_bucket_def index_remove_def Let_def split: option.splits)

section \<open>Consistency with a set of nodes\<close>

text \<open>Every bucket holds the identifiers of the nodes with its key: the meaning the comment of
  \<^verbatim>\<open>index.rs\<close> gives to the indices.\<close>

definition indices_ok :: "indices \<Rightarrow> 'x node_data_scheme set \<Rightarrow> bool" where
  "indices_ok ix N \<longleftrightarrow> finite N \<and> inj_on nd_id N \<and> bt_wf (ix_by_module_path ix) \<and>
     (\<forall>k. distinct (name_bucket ix k) \<and> set (name_bucket ix k) = nd_id ` {d \<in> N. (nd_kind d, nd_name d) = k}) \<and>
     (\<forall>key. bucket (ix_by_metadata_key ix) key = nd_id ` {d \<in> N. key \<in> fst ` set (nd_metadata d)}) \<and>
     (\<forall>path. bucket (ix_by_module_path ix) path = nd_id ` {d \<in> N. module_path_of (nd_qualified_name d) = path})"

lemma indices_okD:
  assumes "indices_ok ix N"
  shows "finite N" "inj_on nd_id N" "bt_wf (ix_by_module_path ix)" "distinct (name_bucket ix k)"
    "set (name_bucket ix k) = nd_id ` {d \<in> N. (nd_kind d, nd_name d) = k}"
    "bucket (ix_by_metadata_key ix) key = nd_id ` {d \<in> N. key \<in> fst ` set (nd_metadata d)}"
    "bucket (ix_by_module_path ix) path = nd_id ` {d \<in> N. module_path_of (nd_qualified_name d) = path}"
  using assms by (simp_all only: indices_ok_def)

lemma indices_ok_default: "indices_ok indices_default {}"
  by (simp add: indices_ok_def indices_default_def name_bucket_def bt_wf_def)

lemma image_insert_if: "f ` {x \<in> insert d N. P x} = (if P d then insert (f d) (f ` {x \<in> N. P x}) else f ` {x \<in> N. P x})"
  by auto

lemma indices_ok_insert:
  assumes ok: "indices_ok ix N" and new: "nd_id d \<notin> nd_id ` N"
  shows "indices_ok (index_insert d ix) (insert d N)"
  unfolding indices_ok_def
proof (intro conjI allI)
  show "finite (insert d N)" "inj_on nd_id (insert d N)" using indices_okD(1,2) [OF ok] new by auto
  show "bt_wf (ix_by_module_path (index_insert d ix))"
    using indices_okD(3) [OF ok] by (simp add: index_insert_def Let_def module_insert_wf)
  fix k
  show "distinct (name_bucket (index_insert d ix) k)"
    using indices_okD(4,5) [OF ok, of k] new by (auto simp: name_bucket_insert)
  show "set (name_bucket (index_insert d ix) k) = nd_id ` {x \<in> insert d N. (nd_kind x, nd_name x) = k}"
    unfolding image_insert_if using indices_okD(5) [OF ok, of k] by (auto simp: name_bucket_insert)
next
  fix key
  show "bucket (ix_by_metadata_key (index_insert d ix)) key = nd_id ` {x \<in> insert d N. key \<in> fst ` set (nd_metadata x)}"
    unfolding image_insert_if using indices_okD(6) [OF ok, of key]
    by (simp add: index_insert_def Let_def bucket_key_insert_all)
next
  fix path
  show "bucket (ix_by_module_path (index_insert d ix)) path = nd_id ` {x \<in> insert d N. module_path_of (nd_qualified_name x) = path}"
    unfolding image_insert_if using indices_okD(3) [OF ok] indices_okD(7) [OF ok, of path]
    by (simp add: index_insert_def Let_def bucket_module_insert)
qed

lemma image_remove_if:
  assumes "inj_on f N" and "d \<in> N"
  shows "f ` {x \<in> N - {d}. P x} = f ` {x \<in> N. P x} - (if P d then {f d} else {})"
  using assms by (auto simp: inj_on_def)

lemma indices_ok_remove:
  assumes ok: "indices_ok ix N" and d: "d \<in> N"
  shows "indices_ok (index_remove d ix) (N - {d})"
proof -
  note image = image_remove_if [OF indices_okD(2) [OF ok] d]
  have drop: "nd_id ` {x \<in> N. P x} - {nd_id d} = nd_id ` {x \<in> N. P x}" if "\<not> P d" for P
    using indices_okD(2) [OF ok] d that by (auto simp: inj_on_def)
  show ?thesis unfolding indices_ok_def
  proof (intro conjI allI)
    show "finite (N - {d})" "inj_on nd_id (N - {d})" using indices_okD(1,2) [OF ok] by (auto intro: inj_on_diff)
    show "bt_wf (ix_by_module_path (index_remove d ix))"
      using indices_okD(3) [OF ok] by (simp add: index_remove_def Let_def module_remove_wf)
    fix k
    show "distinct (name_bucket (index_remove d ix) k)" using indices_okD(4) [OF ok]
      by (cases "k = (nd_kind d, nd_name d)") (simp_all add: name_bucket_remove)
    show "set (name_bucket (index_remove d ix) k) = nd_id ` {x \<in> N - {d}. (nd_kind x, nd_name x) = k}"
      unfolding image using indices_okD(5) [OF ok, of k] by (auto simp: name_bucket_remove)
  next
    fix key
    show "bucket (ix_by_metadata_key (index_remove d ix)) key = nd_id ` {x \<in> N - {d}. key \<in> fst ` set (nd_metadata x)}"
      unfolding image using indices_okD(6) [OF ok, of key]
      by (simp add: index_remove_def Let_def bucket_key_remove_all)
  next
    fix path
    show "bucket (ix_by_module_path (index_remove d ix)) path = nd_id ` {x \<in> N - {d}. module_path_of (nd_qualified_name x) = path}"
      unfolding image using indices_okD(3) [OF ok] indices_okD(7) [OF ok, of path]
      by (cases "path = module_path_of (nd_qualified_name d)")
        (simp_all add: index_remove_def Let_def bucket_module_remove)
  qed
qed

lemma indices_ok_rebuild:
  assumes "distinct (map nd_id ds)"
  shows "indices_ok (rebuild_from_graph ds) (set ds)"
proof -
  have "indices_ok (fold index_insert ds ix) (N \<union> set ds)"
    if "indices_ok ix N" "nd_id ` N \<inter> nd_id ` set ds = {}" "distinct (map nd_id ds)" for ix N
    using that
  proof (induction ds arbitrary: ix N)
    case (Cons d ds)
    have "indices_ok (index_insert d ix) (insert d N)" by (rule indices_ok_insert) (use Cons.prems in auto)
    from Cons.IH [OF this] Cons.prems show ?case by (simp add: disjoint_iff) 
  qed simp
  from this [OF indices_ok_default] assms show ?thesis by (simp add: rebuild_from_graph_def)
qed

section \<open>What the lookups answer\<close>

lemma lookup_kind_name:
  assumes "indices_ok ix N"
  shows "distinct (index_nodes_by_kind_name ix kind name)"
    "set (index_nodes_by_kind_name ix kind name) = nd_id ` {d \<in> N. nd_kind d = kind \<and> nd_name d = name}"
  using indices_okD(4,5) [OF assms, of "(kind, name)"] by (simp_all add: index_nodes_by_kind_name_def)

lemma lookup_metadata_key:
  assumes "indices_ok ix N"
  shows "index_nodes_with_metadata_key ix key = sorted_list_of_set (nd_id ` {d \<in> N. key \<in> fst ` set (nd_metadata d)})"
  using indices_okD(6) [OF assms] by (simp add: index_nodes_with_metadata_key_def)

text \<open>A path lies in a module when it is the path of the module or continues it after a separator.\<close>

definition module_within :: "string \<Rightarrow> string \<Rightarrow> bool" where
  "module_within prefix path \<longleftrightarrow> path = prefix \<or> (\<exists>rest. path = prefix @ ''::'' @ rest)"

lemma bucket_entry: "bt_wf m \<Longrightarrow> (path, b) \<in> set m \<Longrightarrow> b = bucket m path"
  using bt_distinct [of m] by (simp add: bucket_def)

lemma bucket_member: "bt_wf m \<Longrightarrow> i \<in> bucket m path \<Longrightarrow> \<exists>b. (path, b) \<in> set m \<and> i \<in> b"
  by (auto simp: bucket_def split: option.splits dest: map_of_SomeD)

lemma distinct_concat_map:
  assumes "distinct xs" and "\<And>x. x \<in> set xs \<Longrightarrow> distinct (f x)"
    and "\<And>x y. x \<in> set xs \<Longrightarrow> y \<in> set xs \<Longrightarrow> x \<noteq> y \<Longrightarrow> set (f x) \<inter> set (f y) = {}"
  shows "distinct (concat (map f xs))"
  using assms by (induction xs) auto

lemma lookup_module:
  assumes ok: "indices_ok ix N"
  shows "distinct (index_nodes_in_module ix prefix) \<and>
    set (index_nodes_in_module ix prefix) = nd_id ` {d \<in> N. module_within prefix (module_path_of (nd_qualified_name d))}"
proof -
  let ?m = "ix_by_module_path ix" and ?path = "\<lambda>d. module_path_of (nd_qualified_name d)"
  let ?in = "\<lambda>e. prefix @ ''::'' \<le> fst e \<and> fst e < prefix @ '':;''"
  let ?es = "filter ?in ?m"
  note wf = indices_okD(3) [OF ok]
  have bucket_ids: "bucket ?m path = nd_id ` {d \<in> N. ?path d = path}" for path by (rule indices_okD(7) [OF ok])
  then have fin: "finite (bucket ?m path)" for path using indices_okD(1) [OF ok] by simp
  have entry: "snd e = bucket ?m (fst e)" if "e \<in> set ?m" for e using bucket_entry [OF wf, of "fst e" "snd e"] that by simp
  have list: "index_nodes_in_module ix prefix =
      sorted_list_of_set (bucket ?m prefix) @ concat (map (\<lambda>e. sorted_list_of_set (snd e)) ?es)"
    by (simp add: index_nodes_in_module_def module_range_eq case_prod_beta')
  have disjoint: "bucket ?m path \<inter> bucket ?m path' = {}" if "path \<noteq> path'" for path path'
    unfolding bucket_ids using indices_okD(2) [OF ok] that by (auto simp: inj_on_def)
  have set_es: "set (sorted_list_of_set (snd e)) = bucket ?m (fst e)" if "e \<in> set ?m" for e
    using entry [OF that] fin by simp
  have keys: "distinct (map fst ?es)" using bt_distinct [OF wf] by (simp add: distinct_map_filter)
  have "distinct (concat (map (\<lambda>e. sorted_list_of_set (snd e)) ?es))"
  proof (rule distinct_concat_map)
    show "distinct ?es" using keys by (simp add: distinct_map)
    fix e e' assume e: "e \<in> set ?es" "e' \<in> set ?es" "e \<noteq> e'"
    then have "e \<in> set ?m" "e' \<in> set ?m" by simp_all
    then have "fst e \<noteq> fst e'" using e(3) eq_key_imp_eq_value [OF bt_distinct [OF wf]] by (metis prod.collapse)
    then show "set (sorted_list_of_set (snd e)) \<inter> set (sorted_list_of_set (snd e')) = {}"
      using e set_es disjoint by simp
  qed simp
  moreover have not_self: "\<not> ?in (prefix, b)" for b using in_range_iff [of prefix prefix] by simp
  moreover have "set (sorted_list_of_set (bucket ?m prefix)) \<inter> set (concat (map (\<lambda>e. sorted_list_of_set (snd e)) ?es)) = {}"
  proof -
    have "bucket ?m prefix \<inter> bucket ?m (fst e) = {}" if "e \<in> set ?es" for e
      by (rule disjoint) (use that not_self [of "snd e"] in auto)
    then show ?thesis using set_es fin by (auto simp: disjoint_iff)
  qed
  ultimately have distinct: "distinct (index_nodes_in_module ix prefix)" unfolding list by simp
  have "set (index_nodes_in_module ix prefix) = bucket ?m prefix \<union> (\<Union>e\<in>set ?es. bucket ?m (fst e))"
    using set_es fin by (auto simp: list)
  also have "\<dots> = {i. \<exists>path. i \<in> bucket ?m path \<and> module_within prefix path}"
  proof (intro set_eqI iffI)
    fix i assume "i \<in> bucket ?m prefix \<union> (\<Union>e\<in>set ?es. bucket ?m (fst e))"
    then show "i \<in> {i. \<exists>path. i \<in> bucket ?m path \<and> module_within prefix path}"
      using in_range_iff [of prefix] by (auto simp: module_within_def)
  next
    fix i assume "i \<in> {i. \<exists>path. i \<in> bucket ?m path \<and> module_within prefix path}"
    then obtain path where path: "i \<in> bucket ?m path" "module_within prefix path" by blast
    from bucket_member [OF wf path(1)] obtain b where "(path, b) \<in> set ?m" by blast
    then have "(path, b) \<in> set ?es" if "path \<noteq> prefix"
      using path(2) that in_range_iff [of prefix path] by (simp add: module_within_def)
    then show "i \<in> bucket ?m prefix \<union> (\<Union>e\<in>set ?es. bucket ?m (fst e))" using path(1) by force
  qed
  also have "\<dots> = nd_id ` {d \<in> N. module_within prefix (?path d)}" unfolding bucket_ids by auto
  finally show ?thesis using distinct by blast
qed

end
