(* ===== verification/Code_Graph.thy ===== *)
theory Code_Graph
  imports Code_Index Label_Reachability
begin

text \<open>
  The code graph of the analysis crate (\<^verbatim>\<open>graph.rs\<close>): a stable directed graph of the petgraph
  library with a map from node identifiers to its slots, the lookup indices and the revision. The
  library graph is a parameter: a record of the operations the code calls on it. Every operation
  that indexes the library graph returns None for the panic of a missing slot.
\<close>

section \<open>The stable graph of the library\<close>

text \<open>
  The state of the library graph has type \<open>'g\<close>, a node weight \<open>'n\<close>, an edge weight \<open>'e\<close>; a slot is
  a number. \<open>pg_out\<close> and \<open>pg_in\<close> list the edges at a slot as pairs of the other end and the weight,
  \<open>pg_indices\<close> the live slots, \<open>pg_edges\<close> all edges with both ends.
\<close>

record ('g, 'n, 'e) petgraph =
  pg_new :: 'g
  pg_add_node :: "'g \<Rightarrow> 'n \<Rightarrow> 'g \<times> nat"
  pg_add_edge :: "'g \<Rightarrow> nat \<Rightarrow> nat \<Rightarrow> 'e \<Rightarrow> 'g"
  pg_remove_node :: "'g \<Rightarrow> nat \<Rightarrow> 'g \<times> 'n option"
  pg_weight :: "'g \<Rightarrow> nat \<Rightarrow> 'n option"
  pg_set_weight :: "'g \<Rightarrow> nat \<Rightarrow> 'n \<Rightarrow> 'g"
  pg_indices :: "'g \<Rightarrow> nat list"
  pg_out :: "'g \<Rightarrow> nat \<Rightarrow> (nat \<times> 'e) list"
  pg_in :: "'g \<Rightarrow> nat \<Rightarrow> (nat \<times> 'e) list"
  pg_edges :: "'g \<Rightarrow> (nat \<times> nat \<times> 'e) list"

section \<open>Errors and state\<close>

text \<open>An edge weight is a single-precision number, given by its bits: it is finite when its exponent
  is not all ones.\<close>

record edge_data =
  ed_kind :: analysis_edge_kind
  ed_source_span :: analysis_span
  ed_weight :: u32

definition is_finite :: "u32 \<Rightarrow> bool" where
  "is_finite w \<longleftrightarrow> take_bit 8 (drop_bit 23 w) \<noteq> mask 8"

datatype edge_invariant_error =
  WrongSourceKind analysis_edge_kind analysis_node_kind nat
| WrongTargetKind analysis_edge_kind analysis_node_kind nat
| NonFiniteWeight analysis_edge_kind u32

datatype graph_error = NodeNotFound nat | EdgeExists nat nat | InvariantViolation edge_invariant_error

text \<open>The map \<open>ir_functions\<close> is a public field that no operation here touches; it is left out.\<close>

record 'g code_graph =
  cg_graph :: 'g
  cg_index_map :: "(nat, nat) hash_map"
  cg_indices :: indices
  cg_revision :: u64

type_synonym ('g, 'x) graph_ops = "('g, 'x node_data_scheme, edge_data) petgraph"

definition code_graph_new :: "('g, 'x) graph_ops \<Rightarrow> 'g code_graph" where
  "code_graph_new P = \<lparr>cg_graph = pg_new P, cg_index_map = [], cg_indices = indices_default, cg_revision = 0\<rparr>"

definition saturating_inc :: "u64 \<Rightarrow> u64" where
  "saturating_inc r = (if r = - 1 then r else r + 1)"

definition bump_revision :: "'g code_graph \<Rightarrow> 'g code_graph" where
  "bump_revision s = s\<lparr>cg_revision := saturating_inc (cg_revision s)\<rparr>"

definition resolve :: "'g code_graph \<Rightarrow> nat \<Rightarrow> nat option" where
  "resolve s nid = map_of (cg_index_map s) nid"

definition node_id_for :: "('g, 'x) graph_ops \<Rightarrow> 'g code_graph \<Rightarrow> nat \<Rightarrow> nat option" where
  "node_id_for P s idx = map_option nd_id (pg_weight P (cg_graph s) idx)"

text \<open>\<^verbatim>\<open>self.graph[idx].last_modified_revision = revision\<close>\<close>

definition stamp :: "('g, 'x) graph_ops \<Rightarrow> nat \<Rightarrow> u64 \<Rightarrow> 'g code_graph \<Rightarrow> 'g code_graph option" where
  "stamp P idx revision s = map_option (\<lambda>n.
     s\<lparr>cg_graph := pg_set_weight P (cg_graph s) idx (n\<lparr>nd_last_modified_revision := revision\<rparr>)\<rparr>) (pg_weight P (cg_graph s) idx)"

definition touch_node :: "('g, 'x) graph_ops \<Rightarrow> nat \<Rightarrow> u64 \<Rightarrow> 'g code_graph \<Rightarrow> 'g code_graph option" where
  "touch_node P nid revision s = (case resolve s nid of None \<Rightarrow> Some s | Some idx \<Rightarrow> stamp P idx revision s)"

section \<open>Mutations\<close>

definition add_node :: "('g, 'x) graph_ops \<Rightarrow> 'x node_data_scheme \<Rightarrow> 'g code_graph \<Rightarrow> (nat \<times> 'g code_graph) option" where
  "add_node P data s =
     (let s = bump_revision s; revision = cg_revision s; data = data\<lparr>nd_last_modified_revision := revision\<rparr>; nid = nd_id data in
      case resolve s nid of
        Some idx \<Rightarrow> map_option (\<lambda>old.
          let data = data\<lparr>nd_birth_revision := nd_birth_revision old\<rparr> in
          (nid, s\<lparr>cg_graph := pg_set_weight P (cg_graph s) idx data,
                 cg_indices := index_insert data (index_remove old (cg_indices s))\<rparr>)) (pg_weight P (cg_graph s) idx)
      | None \<Rightarrow>
          let data = data\<lparr>nd_birth_revision := revision\<rparr>; (graph, idx) = pg_add_node P (cg_graph s) data in
          Some (nid, s\<lparr>cg_graph := graph, cg_index_map := hm_insert nid idx (cg_index_map s),
                      cg_indices := index_insert data (cg_indices s)\<rparr>))"

definition source_ok :: "analysis_edge_kind \<Rightarrow> analysis_node_kind \<Rightarrow> bool" where
  "source_ok kind from_kind = (case kind of
     AE_Calls \<Rightarrow> from_kind = AN_Function
   | AE_UnresolvedCall _ \<Rightarrow> from_kind = AN_Function
   | AE_UsesType \<Rightarrow> from_kind = AN_Function
   | AE_References \<Rightarrow> True
   | AE_Contains \<Rightarrow> from_kind \<in> {AN_Module, AN_Struct, AN_Enum, AN_Trait, AN_Interface}
   | AE_Implements \<Rightarrow> from_kind \<in> {AN_Struct, AN_Enum}
   | AE_ExternalCall _ _ \<Rightarrow> from_kind = AN_Function
   | AE_Extends \<Rightarrow> True
   | AE_Returns \<Rightarrow> from_kind = AN_Function
   | AE_TypeOf \<Rightarrow> True)"

text \<open>The tests on the kinds and the weight of an edge, in the order of the code.\<close>

definition check_edge :: "nat \<Rightarrow> analysis_node_kind \<Rightarrow> nat \<Rightarrow> analysis_node_kind \<Rightarrow> edge_data \<Rightarrow> (graph_error, unit) result" where
  "check_edge source source_kind target target_kind data =
     (if \<not> valid_for (ed_kind data) source_kind target_kind then
        (if \<not> source_ok (ed_kind data) source_kind
         then Inl (InvariantViolation (WrongSourceKind (ed_kind data) source_kind source))
         else Inl (InvariantViolation (WrongTargetKind (ed_kind data) target_kind target)))
      else if \<not> is_finite (ed_weight data) then Inl (InvariantViolation (NonFiniteWeight (ed_kind data) (ed_weight data)))
      else Inr ())"

definition add_edge :: "('g, 'x) graph_ops \<Rightarrow> nat \<Rightarrow> nat \<Rightarrow> edge_data \<Rightarrow> 'g code_graph \<Rightarrow>
    ((graph_error, unit) result \<times> 'g code_graph) option" where
  "add_edge P source target data s = (case resolve s source of
     None \<Rightarrow> Some (Inl (NodeNotFound source), s)
   | Some source_idx \<Rightarrow> (case resolve s target of
       None \<Rightarrow> Some (Inl (NodeNotFound target), s)
     | Some target_idx \<Rightarrow>
         Option.bind (pg_weight P (cg_graph s) source_idx) (\<lambda>source_node.
         Option.bind (pg_weight P (cg_graph s) target_idx) (\<lambda>target_node.
         case check_edge source (nd_kind source_node) target (nd_kind target_node) data of
           Inl e \<Rightarrow> Some (Inl e, s)
         | Inr _ \<Rightarrow>
             let s = bump_revision (s\<lparr>cg_graph := pg_add_edge P (cg_graph s) source_idx target_idx data\<rparr>) in
             Option.bind (stamp P source_idx (cg_revision s) s) (\<lambda>s'.
             map_option (\<lambda>s'. (Inr (), s')) (stamp P target_idx (cg_revision s) s'))))))"

definition touch_all :: "('g, 'x) graph_ops \<Rightarrow> u64 \<Rightarrow> nat list \<Rightarrow> 'g code_graph \<Rightarrow> 'g code_graph option" where
  "touch_all P revision nids s = fold (\<lambda>n s. Option.bind s (touch_node P n revision)) nids (Some s)"

text \<open>The identifiers of the neighbours of a slot, targets first.\<close>

definition neighbour_ids :: "('g, 'x) graph_ops \<Rightarrow> 'g \<Rightarrow> nat \<Rightarrow> nat list" where
  "neighbour_ids P g idx =
     List.map_filter (\<lambda>e. map_option nd_id (pg_weight P g (fst e))) (pg_out P g idx @ pg_in P g idx)"

definition remove_node :: "('g, 'x) graph_ops \<Rightarrow> nat \<Rightarrow> 'g code_graph \<Rightarrow> ('x node_data_scheme option \<times> 'g code_graph) option" where
  "remove_node P nid s = (case resolve s nid of
     None \<Rightarrow> Some (None, s)
   | Some idx \<Rightarrow>
       let s = s\<lparr>cg_index_map := hm_remove nid (cg_index_map s)\<rparr>;
           neighbors = neighbour_ids P (cg_graph s) idx;
           (graph, removed) = pg_remove_node P (cg_graph s) idx;
           s = s\<lparr>cg_graph := graph\<rparr> in
       (case removed of
          None \<Rightarrow> Some (None, s)
        | Some removed \<Rightarrow>
            let s = bump_revision (s\<lparr>cg_indices := index_remove removed (cg_indices s)\<rparr>) in
            map_option (\<lambda>s. (Some removed, s)) (touch_all P (cg_revision s) neighbors s)))"

definition update_node_metadata :: "('g, 'x) graph_ops \<Rightarrow> nat \<Rightarrow> ((string, string) hash_map \<Rightarrow> (string, string) hash_map) \<Rightarrow>
    'g code_graph \<Rightarrow> (bool \<times> 'g code_graph) option" where
  "update_node_metadata P nid f s = (case resolve s nid of
     None \<Rightarrow> Some (False, s)
   | Some idx \<Rightarrow> map_option (\<lambda>old.
       let s = bump_revision s;
           data = old\<lparr>nd_metadata := f (nd_metadata old), nd_last_modified_revision := cg_revision s\<rparr> in
       (True, s\<lparr>cg_graph := pg_set_weight P (cg_graph s) idx data,
                cg_indices := index_insert data (index_remove old (cg_indices s))\<rparr>)) (pg_weight P (cg_graph s) idx))"

section \<open>Queries\<close>

definition node_weights :: "('g, 'x) graph_ops \<Rightarrow> 'g \<Rightarrow> 'x node_data_scheme list" where
  "node_weights P g = List.map_filter (pg_weight P g) (pg_indices P g)"

definition rebuild_indices :: "('g, 'x) graph_ops \<Rightarrow> 'g code_graph \<Rightarrow> 'g code_graph" where
  "rebuild_indices P s = s\<lparr>cg_indices := rebuild_from_graph (node_weights P (cg_graph s))\<rparr>"

definition get_node :: "('g, 'x) graph_ops \<Rightarrow> 'g code_graph \<Rightarrow> nat \<Rightarrow> 'x node_data_scheme option" where
  "get_node P s nid = Option.bind (resolve s nid) (pg_weight P (cg_graph s))"

text \<open>The other end of every edge is indexed too.\<close>

definition edge_list :: "('g, 'x) graph_ops \<Rightarrow> 'g \<Rightarrow> (nat \<times> edge_data) list \<Rightarrow> (nat \<times> edge_data) list option" where
  "edge_list P g es = those (map (\<lambda>(i, e). map_option (\<lambda>n. (nd_id n, e)) (pg_weight P g i)) es)"

definition get_edges_from :: "('g, 'x) graph_ops \<Rightarrow> 'g code_graph \<Rightarrow> nat \<Rightarrow> (nat \<times> edge_data) list option" where
  "get_edges_from P s nid = (case resolve s nid of
     None \<Rightarrow> Some []
   | Some idx \<Rightarrow> edge_list P (cg_graph s) (pg_out P (cg_graph s) idx))"

definition get_edges_to :: "('g, 'x) graph_ops \<Rightarrow> 'g code_graph \<Rightarrow> nat \<Rightarrow> (nat \<times> edge_data) list option" where
  "get_edges_to P s nid = (case resolve s nid of
     None \<Rightarrow> Some []
   | Some idx \<Rightarrow> edge_list P (cg_graph s) (pg_in P (cg_graph s) idx))"

definition contains_node :: "'g code_graph \<Rightarrow> nat \<Rightarrow> bool" where
  "contains_node s nid = hm_contains nid (cg_index_map s)"

definition all_node_ids :: "'g code_graph \<Rightarrow> nat list" where
  "all_node_ids s = map fst (cg_index_map s)"

definition nodes_by_kind :: "('g, 'x) graph_ops \<Rightarrow> 'g code_graph \<Rightarrow> analysis_node_kind \<Rightarrow> 'x node_data_scheme list" where
  "nodes_by_kind P s kind = filter (\<lambda>d. nd_kind d = kind) (node_weights P (cg_graph s))"

text \<open>\<^verbatim>\<open>str::contains\<close>\<close>

definition contains_text :: "string \<Rightarrow> string \<Rightarrow> bool" where
  "contains_text s pat \<longleftrightarrow> (\<exists>i\<in>set [0..<Suc (length s)]. take (length pat) (drop i s) = pat)"

definition find_by_name :: "(string \<Rightarrow> string) \<Rightarrow> ('g, 'x) graph_ops \<Rightarrow> 'g code_graph \<Rightarrow> string \<Rightarrow> 'x node_data_scheme list" where
  "find_by_name to_lowercase P s name =
     filter (\<lambda>d. contains_text (to_lowercase (nd_name d)) (to_lowercase name)) (node_weights P (cg_graph s))"

definition nodes_by_kind_name :: "'g code_graph \<Rightarrow> analysis_node_kind \<Rightarrow> string \<Rightarrow> nat list" where
  "nodes_by_kind_name s kind name = index_nodes_by_kind_name (cg_indices s) kind name"

definition nodes_with_metadata_key :: "'g code_graph \<Rightarrow> string \<Rightarrow> nat list" where
  "nodes_with_metadata_key s key = index_nodes_with_metadata_key (cg_indices s) key"

definition nodes_in_module :: "'g code_graph \<Rightarrow> string \<Rightarrow> nat list" where
  "nodes_in_module s module_prefix = index_nodes_in_module (cg_indices s) module_prefix"

definition nodes_changed_since :: "('g, 'x) graph_ops \<Rightarrow> 'g code_graph \<Rightarrow> u64 \<Rightarrow> nat list" where
  "nodes_changed_since P s since_rev =
     map nd_id (filter (\<lambda>n. since_rev \<le> nd_last_modified_revision n) (node_weights P (cg_graph s)))"

section \<open>Incremental update of a file\<close>

datatype 'x graph_event =
  NodeAdded "'x node_data_scheme" | NodeRemoved nat | EdgeAdded nat nat edge_data
| EdgeRemoved nat nat analysis_edge_kind | FileReindexed string

text \<open>
  The language adapter is a trait object; it is a parameter. The equality of paths is the one of the
  standard library, on their components.
\<close>

record ('p, 'x) adapter =
  ad_parse_file :: "string \<Rightarrow> string \<Rightarrow> (string, 'p) result"
  ad_extract_nodes :: "'p \<Rightarrow> 'x node_data_scheme list"
  ad_extract_edges :: "'p \<Rightarrow> 'x node_data_scheme list \<Rightarrow> (nat \<times> nat \<times> edge_data) list"

definition file_ids :: "(string \<Rightarrow> string \<Rightarrow> bool) \<Rightarrow> ('g, 'x) graph_ops \<Rightarrow> string \<Rightarrow> 'g code_graph \<Rightarrow> nat list" where
  "file_ids same_path P path s = filter (\<lambda>nid. case get_node P s nid of
     Some n \<Rightarrow> same_path (nd_file_path n) path | None \<Rightarrow> False) (all_node_ids s)"

fun remove_all :: "('g, 'x) graph_ops \<Rightarrow> nat list \<Rightarrow> 'g code_graph \<Rightarrow> 'x graph_event list \<Rightarrow> ('g code_graph \<times> 'x graph_event list) option" where
  "remove_all P [] s events = Some (s, events)"
| "remove_all P (nid # nids) s events =
     Option.bind (remove_node P nid s) (\<lambda>(removed, s).
       remove_all P nids s (if removed \<noteq> None then events @ [NodeRemoved nid] else events))"

fun add_nodes :: "('g, 'x) graph_ops \<Rightarrow> 'x node_data_scheme list \<Rightarrow> 'g code_graph \<Rightarrow> 'x graph_event list \<Rightarrow> ('g code_graph \<times> 'x graph_event list) option" where
  "add_nodes P [] s events = Some (s, events)"
| "add_nodes P (n # ns) s events =
     Option.bind (add_node P n s) (\<lambda>(_, s). add_nodes P ns s (events @ [NodeAdded n]))"

fun add_edges :: "('g, 'x) graph_ops \<Rightarrow> (nat \<times> nat \<times> edge_data) list \<Rightarrow> 'g code_graph \<Rightarrow> 'x graph_event list \<Rightarrow> ('g code_graph \<times> 'x graph_event list) option" where
  "add_edges P [] s events = Some (s, events)"
| "add_edges P ((source, target, data) # es) s events =
     (if contains_node s source \<and> contains_node s target
      then Option.bind (add_edge P source target data s) (\<lambda>(_, s).
        add_edges P es s (events @ [EdgeAdded source target data]))
      else add_edges P es s events)"

definition update_file :: "(string \<Rightarrow> string \<Rightarrow> bool) \<Rightarrow> ('g, 'x) graph_ops \<Rightarrow> ('p, 'x) adapter \<Rightarrow> string \<Rightarrow> string \<Rightarrow>
    'g code_graph \<Rightarrow> ('g code_graph \<times> 'x graph_event list) option" where
  "update_file same_path P adapter path new_content s =
     Option.bind (remove_all P (file_ids same_path P path s) s []) (\<lambda>(s, events).
     Option.bind
       (case ad_parse_file adapter path new_content of
          Inl _ \<Rightarrow> Some (s, events)
        | Inr parsed \<Rightarrow>
            let nodes = ad_extract_nodes adapter parsed in
            Option.bind (add_nodes P nodes s events) (\<lambda>(s, events).
            add_edges P (ad_extract_edges adapter parsed nodes) s events)) (\<lambda>(s, events).
     Some (s, events @ [FileReindexed path])))"

section \<open>The graph the searches see\<close>

definition labelled :: "(nat \<times> edge_data) list option \<Rightarrow> (nat \<times> analysis_edge_kind) list" where
  "labelled es = (case es of Some es \<Rightarrow> map (\<lambda>(i, e). (i, ed_kind e)) es | None \<Rightarrow> [])"

definition view_of :: "('g, 'x) graph_ops \<Rightarrow> 'g code_graph \<Rightarrow> graph_view" where
  "view_of P s = \<lparr>gv_contains = contains_node s,
     gv_edges_from = (\<lambda>nid. labelled (get_edges_from P s nid)),
     gv_edges_to = (\<lambda>nid. labelled (get_edges_to P s nid))\<rparr>"

end
