(* ===== verification/Code_Graph_Laws.thy ===== *)
theory Code_Graph_Laws
  imports Code_Graph "HOL-Library.Multiset"
begin

text \<open>
  What the code graph relies on of the library graph, as a locale of laws, and what each mutation
  does, stated on the nodes by identifier and the edges between identifiers. The laws are the
  documented behaviour of \<^verbatim>\<open>StableDiGraph\<close>: slots stay as they are until they are removed, the
  removal of a node removes the edges at it, and the two edge lists show the same edges.
\<close>

locale stable_graph =
  fixes P :: "('g, 'x node_data_scheme, edge_data) petgraph" and ok :: "'g \<Rightarrow> bool"
  assumes new_ok: "ok (pg_new P)" and new_weight: "pg_weight P (pg_new P) = Map.empty"
    and live: "ok g \<Longrightarrow> distinct (pg_indices P g) \<and> set (pg_indices P g) = dom (pg_weight P g)"
    and ends: "ok g \<Longrightarrow> (w, e) \<in> set (pg_out P g v) \<Longrightarrow> v \<in> dom (pg_weight P g) \<and> w \<in> dom (pg_weight P g)"
    and dual: "ok g \<Longrightarrow> count (mset (pg_in P g w)) (v, e) = count (mset (pg_out P g v)) (w, e)"
    and added_node: "ok g \<Longrightarrow> pg_add_node P g n = (g', i) \<Longrightarrow>
      ok g' \<and> pg_weight P g i = None \<and> pg_weight P g' = (pg_weight P g)(i \<mapsto> n) \<and>
      (\<forall>v. mset (pg_out P g' v) = mset (pg_out P g v))"
    and added_edge: "ok g \<Longrightarrow> a \<in> dom (pg_weight P g) \<Longrightarrow> b \<in> dom (pg_weight P g) \<Longrightarrow>
      ok (pg_add_edge P g a b e) \<and> pg_weight P (pg_add_edge P g a b e) = pg_weight P g \<and>
      (\<forall>v. mset (pg_out P (pg_add_edge P g a b e) v) = mset (pg_out P g v) + (if v = a then {#(b, e)#} else {#}))"
    and removed_node: "ok g \<Longrightarrow> pg_remove_node P g i = (g', r) \<Longrightarrow>
      ok g' \<and> r = pg_weight P g i \<and> pg_weight P g' = (pg_weight P g)(i := None) \<and>
      (\<forall>v. mset (pg_out P g' v) = (if v = i then {#} else filter_mset (\<lambda>(w, e). w \<noteq> i) (mset (pg_out P g v))))"
    and set_weight: "ok g \<Longrightarrow> i \<in> dom (pg_weight P g) \<Longrightarrow>
      ok (pg_set_weight P g i n) \<and> pg_weight P (pg_set_weight P g i n) = (pg_weight P g)(i \<mapsto> n) \<and>
      (\<forall>v. mset (pg_out P (pg_set_weight P g i n) v) = mset (pg_out P g v))"
    and edges: "ok g \<Longrightarrow> count (mset (pg_edges P g)) (v, w, e) = count (mset (pg_out P g v)) (w, e)"

section \<open>Slots and identifiers\<close>

definition slot_id :: "('g, 'x) graph_ops \<Rightarrow> 'g \<Rightarrow> nat \<Rightarrow> nat" where
  "slot_id P g i = nd_id (the (pg_weight P g i))"

definition renamed :: "('g, 'x) graph_ops \<Rightarrow> 'g \<Rightarrow> nat \<times> edge_data \<Rightarrow> nat \<times> edge_data" where
  "renamed P g x = (slot_id P g (fst x), snd x)"

lemma renamed_pair [simp]: "renamed P g (j, e) = (slot_id P g j, e)"
  by (simp add: renamed_def)

text \<open>The edges that leave a node and the edges that enter it, by identifier.\<close>

definition out_ids :: "('g, 'x) graph_ops \<Rightarrow> 'g code_graph \<Rightarrow> nat \<Rightarrow> (nat \<times> edge_data) multiset" where
  "out_ids P s u = (case resolve s u of None \<Rightarrow> {#}
     | Some i \<Rightarrow> image_mset (renamed P (cg_graph s)) (mset (pg_out P (cg_graph s) i)))"

definition in_ids :: "('g, 'x) graph_ops \<Rightarrow> 'g code_graph \<Rightarrow> nat \<Rightarrow> (nat \<times> edge_data) multiset" where
  "in_ids P s u = (case resolve s u of None \<Rightarrow> {#}
     | Some i \<Rightarrow> image_mset (renamed P (cg_graph s)) (mset (pg_in P (cg_graph s) i)))"

text \<open>The map of identifiers and the slots are each other's inverse.\<close>

definition slots_ok :: "('g, 'x) graph_ops \<Rightarrow> ('g \<Rightarrow> bool) \<Rightarrow> 'g code_graph \<Rightarrow> bool" where
  "slots_ok P ok s \<longleftrightarrow> ok (cg_graph s) \<and> hm_wf (cg_index_map s) \<and>
     (\<forall>nid i. resolve s nid = Some i \<longleftrightarrow> (\<exists>n. pg_weight P (cg_graph s) i = Some n \<and> nd_id n = nid))"

context stable_graph
begin

lemma slots_okD:
  assumes "slots_ok P ok s"
  shows "ok (cg_graph s)" "hm_wf (cg_index_map s)"
    "resolve s nid = Some i \<Longrightarrow> \<exists>n. pg_weight P (cg_graph s) i = Some n \<and> nd_id n = nid"
    "pg_weight P (cg_graph s) i = Some n \<Longrightarrow> resolve s (nd_id n) = Some i"
  using assms unfolding slots_ok_def by blast+

lemma get_node_iff:
  assumes "slots_ok P ok s"
  shows "get_node P s nid = Some n \<longleftrightarrow> (\<exists>i. pg_weight P (cg_graph s) i = Some n \<and> nd_id n = nid)"
  using slots_okD(3,4) [OF assms] by (fastforce simp: get_node_def bind_eq_Some_conv)

lemma get_node_id: "slots_ok P ok s \<Longrightarrow> get_node P s nid = Some n \<Longrightarrow> nd_id n = nid"
  by (simp add: get_node_iff)

lemma resolve_get_node:
  assumes "slots_ok P ok s"
  shows "resolve s nid = None \<longleftrightarrow> get_node P s nid = None"
  by (cases "resolve s nid") (auto simp: get_node_def dest: slots_okD(3) [OF assms])

lemma resolve_slot_id:
  assumes "slots_ok P ok s" and "i \<in> dom (pg_weight P (cg_graph s))"
  shows "resolve s (slot_id P (cg_graph s) i) = Some i"
  using slots_okD(4) [OF assms(1)] assms(2) by (auto simp: slot_id_def)

lemma ran_weight: "slots_ok P ok s \<Longrightarrow> ran (pg_weight P (cg_graph s)) = ran (get_node P s)"
  by (auto simp: ran_def get_node_iff)

lemma in_ends: "ok g \<Longrightarrow> (w, e) \<in> set (pg_in P g v) \<Longrightarrow> v \<in> dom (pg_weight P g) \<and> w \<in> dom (pg_weight P g)"
proof -
  assume "ok g" "(w, e) \<in> set (pg_in P g v)"
  then have "(v, e) \<in> set (pg_out P g w)" using dual [of g v w e] by (metis count_mset_0_iff)
  with \<open>ok g\<close> ends [of g v e w] show ?thesis by blast
qed

lemma edge_list_total:
  assumes "\<And>i e. (i, e) \<in> set es \<Longrightarrow> i \<in> dom (pg_weight P g)"
  shows "edge_list P g es = Some (map (renamed P g) es)"
  using assms
proof (induction es)
  case (Cons x es)
  obtain i e where x: "x = (i, e)" by fastforce
  with Cons.prems obtain n where "pg_weight P g i = Some n" by fastforce
  moreover have "edge_list P g es = Some (map (renamed P g) es)"
    by (rule Cons.IH) (use Cons.prems in auto)
  ultimately show ?case by (simp add: x edge_list_def slot_id_def)
qed (simp add: edge_list_def)

text \<open>The edge lists are read without a panic.\<close>

lemma edges_from:
  assumes "slots_ok P ok s"
  shows "\<exists>es. get_edges_from P s u = Some es \<and> mset es = out_ids P s u"
proof (cases "resolve s u")
  case (Some i)
  have "edge_list P (cg_graph s) (pg_out P (cg_graph s) i) =
      Some (map (renamed P (cg_graph s)) (pg_out P (cg_graph s) i))"
    by (rule edge_list_total) (use ends slots_okD(1) [OF assms] in blast)
  with Some show ?thesis by (simp add: get_edges_from_def out_ids_def)
qed (simp add: get_edges_from_def out_ids_def)

lemma edges_to:
  assumes "slots_ok P ok s"
  shows "\<exists>es. get_edges_to P s u = Some es \<and> mset es = in_ids P s u"
proof (cases "resolve s u")
  case (Some i)
  have "edge_list P (cg_graph s) (pg_in P (cg_graph s) i) =
      Some (map (renamed P (cg_graph s)) (pg_in P (cg_graph s) i))"
    by (rule edge_list_total) (use in_ends slots_okD(1) [OF assms] in blast)
  with Some show ?thesis by (simp add: get_edges_to_def in_ids_def)
qed (simp add: get_edges_to_def in_ids_def)

text \<open>An edge between identifiers is an edge between their slots.\<close>

lemma slot_id_eq:
  assumes "slots_ok P ok s" and "i \<in> dom (pg_weight P (cg_graph s))"
  shows "slot_id P (cg_graph s) i = u \<longleftrightarrow> resolve s u = Some i"
proof
  assume "resolve s u = Some i"
  from slots_okD(3) [OF assms(1) this] show "slot_id P (cg_graph s) i = u" by (auto simp: slot_id_def)
qed (use resolve_slot_id [OF assms] in blast)

lemma count_renamed:
  assumes "slots_ok P ok s" and "\<And>j e. (j, e) \<in> set es \<Longrightarrow> j \<in> dom (pg_weight P (cg_graph s))"
  shows "count (image_mset (renamed P (cg_graph s)) (mset es)) (w, e) =
    (case resolve s w of None \<Rightarrow> 0 | Some j \<Rightarrow> count (mset es) (j, e))"
  using assms(2)
proof (induction es)
  case (Cons x es)
  obtain j e' where x: "x = (j, e')" by fastforce
  then have "slot_id P (cg_graph s) j = w \<longleftrightarrow> resolve s w = Some j" using slot_id_eq [OF assms(1), of j w] Cons.prems by auto
  moreover have "count (image_mset (renamed P (cg_graph s)) (mset es)) (w, e) =
      (case resolve s w of None \<Rightarrow> 0 | Some j \<Rightarrow> count (mset es) (j, e))"
    by (rule Cons.IH) (use Cons.prems in auto)
  ultimately show ?case by (auto simp: x split: option.splits)
qed (simp split: option.split)

lemma count_out:
  assumes "slots_ok P ok s"
  shows "count (out_ids P s u) (w, e) = (case (resolve s u, resolve s w) of
     (Some i, Some j) \<Rightarrow> count (mset (pg_out P (cg_graph s) i)) (j, e) | _ \<Rightarrow> 0)"
proof (cases "resolve s u")
  case (Some i)
  have "count (image_mset (renamed P (cg_graph s)) (mset (pg_out P (cg_graph s) i))) (w, e) =
      (case resolve s w of None \<Rightarrow> 0 | Some j \<Rightarrow> count (mset (pg_out P (cg_graph s) i)) (j, e))"
    by (rule count_renamed [OF assms]) (use ends slots_okD(1) [OF assms] in blast)
  with Some show ?thesis by (simp add: out_ids_def split: option.splits)
qed (simp add: out_ids_def)

lemma count_in:
  assumes "slots_ok P ok s"
  shows "count (in_ids P s w) (u, e) = count (out_ids P s u) (w, e)"
proof (cases "resolve s w")
  case (Some j)
  have "count (image_mset (renamed P (cg_graph s)) (mset (pg_in P (cg_graph s) j))) (u, e) =
      (case resolve s u of None \<Rightarrow> 0 | Some i \<Rightarrow> count (mset (pg_in P (cg_graph s) j)) (i, e))"
    by (rule count_renamed [OF assms]) (use in_ends slots_okD(1) [OF assms] in blast)
  with Some dual slots_okD(1) [OF assms] show ?thesis
    by (simp add: in_ids_def count_out [OF assms] split: option.splits)
qed (simp add: in_ids_def count_out [OF assms] split: option.splits)

lemma out_ids_ends:
  assumes "slots_ok P ok s" and "(w, e) \<in># out_ids P s u"
  shows "resolve s u \<noteq> None" "resolve s w \<noteq> None"
proof -
  have "count (out_ids P s u) (w, e) \<noteq> 0" using assms(2) by simp
  then show "resolve s u \<noteq> None" "resolve s w \<noteq> None" by (auto simp: count_out [OF assms(1)] split: option.splits)
qed

end

end
