(* ===== verification/Code_Graph_Proofs.thy ===== *)
theory Code_Graph_Proofs
  imports Code_Graph_Laws
begin

text \<open>
  The invariant of the code graph and the effect of its mutations on the nodes and edges by
  identifier: every mutation returns without a panic, keeps the invariant and changes what it says.
\<close>

section \<open>The invariant\<close>

definition graph_ok :: "('g, 'x) graph_ops \<Rightarrow> ('g \<Rightarrow> bool) \<Rightarrow> 'g code_graph \<Rightarrow> bool" where
  "graph_ok P ok s \<longleftrightarrow> slots_ok P ok s \<and> indices_ok (cg_indices s) (ran (get_node P s)) \<and>
     (\<forall>n\<in>ran (get_node P s). nd_birth_revision n \<le> nd_last_modified_revision n \<and> nd_last_modified_revision n \<le> cg_revision s)"

text \<open>The nodes after a stamp: those of a set of identifiers carry the revision.\<close>

definition stamped :: "u64 \<Rightarrow> nat set \<Rightarrow> (nat \<Rightarrow> 'x node_data_scheme option) \<Rightarrow> nat \<Rightarrow> 'x node_data_scheme option" where
  "stamped r A m = (\<lambda>nid. map_option (\<lambda>n. if nid \<in> A then n\<lparr>nd_last_modified_revision := r\<rparr> else n) (m nid))"

text \<open>What \<open>add_node\<close> stores: the revision of the insertion is kept, the last change is now.\<close>

definition stored_as :: "('g, 'x) graph_ops \<Rightarrow> 'g code_graph \<Rightarrow> 'x node_data_scheme \<Rightarrow> 'x node_data_scheme" where
  "stored_as P s d = (let r = saturating_inc (cg_revision s) in
     d\<lparr>nd_birth_revision := (case get_node P s (nd_id d) of Some old \<Rightarrow> nd_birth_revision old | None \<Rightarrow> r),
       nd_last_modified_revision := r\<rparr>)"

text \<open>The identifiers of the nodes next to a node.\<close>

definition adjacent :: "('g, 'x) graph_ops \<Rightarrow> 'g code_graph \<Rightarrow> nat \<Rightarrow> nat set" where
  "adjacent P s u = {w. \<exists>e. (w, e) \<in># out_ids P s u \<or> (u, e) \<in># out_ids P s w}"

lemma stamped_no_nodes [simp]: "stamped r {} m = m"
  by (simp add: stamped_def option.map_ident)

lemma stamped_stamped: "stamped r A (stamped r B m) = stamped r (A \<union> B) m"
  by (auto simp: stamped_def fun_eq_iff option.map_comp intro!: option.map_cong)

lemma stamped_None_iff [simp]: "stamped r A m nid = None \<longleftrightarrow> m nid = None"
  by (simp add: stamped_def)

lemma saturating_inc_le: "r \<le> saturating_inc r"
proof (cases "r = - 1")
  case False
  then have "1 + r \<noteq> 0" by (metis add_eq_0_iff minus_minus)
  then have "unat (r + 1) = Suc (unat r)" using unatSuc [of r] by (simp add: add.commute)
  with False show ?thesis by (simp add: saturating_inc_def word_le_nat_alt)
qed (simp add: saturating_inc_def)

section \<open>Indices of changed nodes\<close>

definition same_keys :: "'x node_data_scheme \<Rightarrow> 'x node_data_scheme \<Rightarrow> bool" where
  "same_keys d d' \<longleftrightarrow> nd_id d' = nd_id d \<and> nd_kind d' = nd_kind d \<and> nd_name d' = nd_name d \<and>
     nd_metadata d' = nd_metadata d \<and> nd_qualified_name d' = nd_qualified_name d"

lemma image_keyed:
  assumes "\<And>d. d \<in> N \<Longrightarrow> nd_id (h d) = nd_id d" and "\<And>d. d \<in> N \<Longrightarrow> Q (h d) \<longleftrightarrow> Q d"
  shows "nd_id ` {d \<in> h ` N. Q d} = nd_id ` {d \<in> N. Q d}"
  using assms by (force simp: image_iff)

lemma indices_ok_image:
  assumes ok: "indices_ok ix N" and keys: "\<And>d. d \<in> N \<Longrightarrow> same_keys d (h d)"
  shows "indices_ok ix (h ` N)"
proof -
  have eq: "nd_id (h d) = nd_id d" "(nd_kind (h d), nd_name (h d)) = k \<longleftrightarrow> (nd_kind d, nd_name d) = k"
    "key \<in> fst ` set (nd_metadata (h d)) \<longleftrightarrow> key \<in> fst ` set (nd_metadata d)"
    "module_path_of (nd_qualified_name (h d)) = path \<longleftrightarrow> module_path_of (nd_qualified_name d) = path" if "d \<in> N" for d k key path
    using keys [OF that] by (simp_all add: same_keys_def)
  have inj: "inj_on nd_id (h ` N)"
    using indices_okD(2) [OF ok] eq(1) by (auto simp: inj_on_def)
  have images: "nd_id ` {d \<in> h ` N. (nd_kind d, nd_name d) = k} = nd_id ` {d \<in> N. (nd_kind d, nd_name d) = k}"
    "nd_id ` {d \<in> h ` N. key \<in> fst ` set (nd_metadata d)} = nd_id ` {d \<in> N. key \<in> fst ` set (nd_metadata d)}"
    "nd_id ` {d \<in> h ` N. module_path_of (nd_qualified_name d) = path} = nd_id ` {d \<in> N. module_path_of (nd_qualified_name d) = path}"
    for k key path
    by (rule image_keyed, simp add: eq(1), simp add: eq(2), rule image_keyed, simp add: eq(1), simp only: eq(3),
        rule image_keyed, simp add: eq(1), simp add: eq(4))
  show ?thesis unfolding indices_ok_def images
    using indices_okD(1,3) [OF ok] indices_okD(4-7) [OF ok] inj by simp
qed

lemma ran_keyed: "(\<And>nid n. m nid = Some n \<Longrightarrow> nd_id n = nid) \<Longrightarrow>
    ran (stamped r A m) = (\<lambda>n. if nd_id n \<in> A then n\<lparr>nd_last_modified_revision := r\<rparr> else n) ` ran m"
  by (force simp: ran_def stamped_def image_iff)

lemma indices_ok_stamped:
  assumes "indices_ok ix (ran m)" and "\<And>nid n. m nid = Some n \<Longrightarrow> nd_id n = nid"
  shows "indices_ok ix (ran (stamped r A m))"
proof -
  have "ran (stamped r A m) = (\<lambda>n. if nd_id n \<in> A then n\<lparr>nd_last_modified_revision := r\<rparr> else n) ` ran m"
    by (rule ran_keyed) (use assms(2) in blast)
  moreover have "indices_ok ix \<dots>" by (rule indices_ok_image [OF assms(1)]) (simp add: same_keys_def)
  ultimately show ?thesis by (simp only:)
qed

lemma ran_update_keyed:
  assumes "\<And>nid n. m nid = Some n \<Longrightarrow> nd_id n = nid"
  shows "ran (m(i := None)) = ran m - (case m i of None \<Rightarrow> {} | Some n \<Rightarrow> {n})"
proof (intro set_eqI iffI)
  fix x assume "x \<in> ran (m(i := None))"
  then obtain a where "a \<noteq> i" "m a = Some x" by (auto simp: ran_def split: if_splits)
  then show "x \<in> ran m - (case m i of None \<Rightarrow> {} | Some n \<Rightarrow> {n})"
    using assms [of a x] assms [of i x] by (auto intro: ranI split: option.split)
next
  fix x assume x: "x \<in> ran m - (case m i of None \<Rightarrow> {} | Some n \<Rightarrow> {n})"
  then obtain a where a: "m a = Some x" by (auto simp: ran_def)
  with x have "a \<noteq> i" by auto
  with a have "(m(i := None)) a = Some x" by simp
  then show "x \<in> ran (m(i := None))" by (rule ranI)
qed

lemma ran_update_Some: "ran (m(i \<mapsto> n)) = insert n (ran (m(i := None)))"
  by (auto simp: ran_def)

section \<open>The effect on slots\<close>

definition frame :: "('g, 'x) graph_ops \<Rightarrow> ('g \<Rightarrow> bool) \<Rightarrow> 'g code_graph \<Rightarrow> 'g code_graph \<Rightarrow> bool" where
  "frame P ok s s' \<longleftrightarrow> slots_ok P ok s' \<and> out_ids P s' = out_ids P s \<and> cg_indices s' = cg_indices s \<and>
     cg_revision s' = cg_revision s"

lemma frame_refl: "slots_ok P ok s \<Longrightarrow> frame P ok s s"
  by (simp add: frame_def)

lemma frame_trans: "frame P ok s t \<Longrightarrow> frame P ok t u \<Longrightarrow> frame P ok s u"
  by (simp add: frame_def)

text \<open>What the state reads of its fields.\<close>

lemma resolve_simps [simp]:
  "resolve (s\<lparr>cg_graph := g\<rparr>) = resolve s" "resolve (s\<lparr>cg_indices := ix\<rparr>) = resolve s"
  "resolve (s\<lparr>cg_revision := r\<rparr>) = resolve s" "resolve (bump_revision s) = resolve s"
  by (simp_all add: fun_eq_iff resolve_def bump_revision_def)

lemma get_node_simps [simp]:
  "get_node P (s\<lparr>cg_indices := ix\<rparr>) = get_node P s" "get_node P (s\<lparr>cg_revision := r\<rparr>) = get_node P s"
  "get_node P (bump_revision s) = get_node P s"
  by (simp_all add: fun_eq_iff get_node_def bump_revision_def)

lemma out_ids_simps [simp]:
  "out_ids P (s\<lparr>cg_indices := ix\<rparr>) = out_ids P s" "out_ids P (s\<lparr>cg_revision := r\<rparr>) = out_ids P s"
  "out_ids P (bump_revision s) = out_ids P s"
  by (auto simp: fun_eq_iff out_ids_def bump_revision_def split: option.split)

lemma slots_ok_simps [simp]:
  "slots_ok P ok (s\<lparr>cg_indices := ix\<rparr>) = slots_ok P ok s" "slots_ok P ok (s\<lparr>cg_revision := r\<rparr>) = slots_ok P ok s"
  "slots_ok P ok (bump_revision s) = slots_ok P ok s"
  by (simp_all add: slots_ok_def bump_revision_def)

context stable_graph
begin

lemma set_slot:
  assumes s: "slots_ok P ok s" and idx: "pg_weight P (cg_graph s) idx = Some old" and keep: "nd_id data = nd_id old"
  defines "s' \<equiv> s\<lparr>cg_graph := pg_set_weight P (cg_graph s) idx data\<rparr>"
  shows "frame P ok s s' \<and> get_node P s' = (get_node P s)(nd_id old \<mapsto> data)"
proof -
  have "idx \<in> dom (pg_weight P (cg_graph s))" using idx by blast
  note law = set_weight [OF slots_okD(1) [OF s] this, of data]
  let ?g = "cg_graph s'"
  have g: "?g = pg_set_weight P (cg_graph s) idx data" by (simp add: s'_def)
  have w: "pg_weight P ?g = (pg_weight P (cg_graph s))(idx \<mapsto> data)" and ok: "ok ?g"
    and out: "mset (pg_out P ?g v) = mset (pg_out P (cg_graph s) v)" for v
    using law by (simp_all add: g)
  have id: "slot_id P ?g = slot_id P (cg_graph s)" using w idx keep by (auto simp: slot_id_def fun_eq_iff)
  then have ren: "renamed P ?g = renamed P (cg_graph s)" by (simp add: fun_eq_iff renamed_def)
  have res: "resolve s' = resolve s" by (simp add: s'_def)
  have slots: "slots_ok P ok s'"
    unfolding slots_ok_def
  proof (intro conjI allI)
    show "ok ?g" by (rule ok)
    show "hm_wf (cg_index_map s')" using slots_okD(2) [OF s] by (simp add: s'_def)
    fix nid i
    have "resolve s nid = Some i \<longleftrightarrow> (\<exists>n. pg_weight P (cg_graph s) i = Some n \<and> nd_id n = nid)"
      using s by (simp add: slots_ok_def)
    then show "resolve s' nid = Some i \<longleftrightarrow> (\<exists>n. pg_weight P ?g i = Some n \<and> nd_id n = nid)"
      using idx keep by (auto simp: w res)
  qed
  have "out_ids P s' = out_ids P s"
    by (rule ext) (simp add: out_ids_def res out ren split: option.split)
  moreover have "get_node P s' nid = ((get_node P s)(nd_id old \<mapsto> data)) nid" for nid
    using slots_okD(4) [OF s idx] slots_okD(3) [OF s, of nid idx] idx
    by (cases "resolve s nid") (auto simp: get_node_def res w)
  ultimately show ?thesis using slots by (auto simp: frame_def s'_def)
qed

lemma touch_node_effect:
  assumes s: "slots_ok P ok s"
  shows "\<exists>s'. touch_node P nid r s = Some s' \<and> frame P ok s s' \<and> get_node P s' = stamped r {nid} (get_node P s)"
proof (cases "resolve s nid")
  case None
  then have "get_node P s nid = None" by (simp add: resolve_get_node [OF s])
  then have "stamped r {nid} (get_node P s) x = get_node P s x" for x
    by (cases "get_node P s x") (auto simp: stamped_def)
  then have "stamped r {nid} (get_node P s) = get_node P s" by blast
  with None show ?thesis using s by (simp add: touch_node_def frame_refl)
next
  case (Some idx)
  from slots_okD(3) [OF s Some] obtain n where n: "pg_weight P (cg_graph s) idx = Some n" "nd_id n = nid" by blast
  have "get_node P s nid = Some n" using Some n(1) by (simp add: get_node_def)
  then have "(get_node P s)(nid \<mapsto> n\<lparr>nd_last_modified_revision := r\<rparr>) = stamped r {nid} (get_node P s)"
    by (auto simp: stamped_def fun_eq_iff option.map_ident)
  with set_slot [OF s n(1), of "n\<lparr>nd_last_modified_revision := r\<rparr>"] Some n show ?thesis
    by (simp add: touch_node_def stamp_def)
qed

lemma stamp_effect:
  assumes "slots_ok P ok s" and "resolve s nid = Some idx"
  shows "\<exists>s'. stamp P idx r s = Some s' \<and> frame P ok s s' \<and> get_node P s' = stamped r {nid} (get_node P s)"
  using touch_node_effect [OF assms(1), of nid r] assms(2) by (simp add: touch_node_def)

lemma touch_all_effect:
  assumes "slots_ok P ok s"
  shows "\<exists>s'. touch_all P r nids s = Some s' \<and> frame P ok s s' \<and> get_node P s' = stamped r (set nids) (get_node P s)"
  using assms
proof (induction nids arbitrary: s)
  case Nil
  then show ?case by (simp add: touch_all_def frame_refl)
next
  case (Cons nid nids)
  from touch_node_effect [OF Cons.prems, of nid r] obtain t where
    t: "touch_node P nid r s = Some t" "frame P ok s t" "get_node P t = stamped r {nid} (get_node P s)" by blast
  then have "slots_ok P ok t" by (simp add: frame_def)
  from Cons.IH [OF this] obtain u where
    "touch_all P r nids t = Some u" "frame P ok t u" "get_node P u = stamped r (set nids) (get_node P t)" by blast
  with t show ?case by (auto simp: touch_all_def stamped_stamped intro: frame_trans)
qed

section \<open>The mutations\<close>

lemma node_keys: "slots_ok P ok s \<Longrightarrow> get_node P s nid = Some n \<Longrightarrow> nd_id n = nid"
  by (rule get_node_id)

text \<open>A new slot for a node whose identifier is not in the graph.\<close>

lemma new_slot:
  assumes s: "slots_ok P ok s" and new: "resolve s (nd_id n) = None" and add: "pg_add_node P (cg_graph s) n = (g, i)"
  defines "s' \<equiv> s\<lparr>cg_graph := g, cg_index_map := hm_insert (nd_id n) i (cg_index_map s)\<rparr>"
  shows "frame P ok s s' \<and> get_node P s' = (get_node P s)(nd_id n \<mapsto> n)"
proof -
  have w: "pg_weight P g = (pg_weight P (cg_graph s))(i \<mapsto> n)" and ok: "ok g" and fresh: "pg_weight P (cg_graph s) i = None"
    and out: "mset (pg_out P g v) = mset (pg_out P (cg_graph s) v)" for v
    using added_node [OF slots_okD(1) [OF s] add] by simp_all
  have res: "resolve s' = (resolve s)(nd_id n \<mapsto> i)" by (auto simp: s'_def resolve_def)
  have slots: "slots_ok P ok s'"
    unfolding slots_ok_def
  proof (intro conjI allI)
    show "ok (cg_graph s')" using ok by (simp add: s'_def)
    show "hm_wf (cg_index_map s')" using slots_okD(2) [OF s] by (simp add: s'_def)
    fix nid j
    have old: "resolve s nid = Some j \<longleftrightarrow> (\<exists>n. pg_weight P (cg_graph s) j = Some n \<and> nd_id n = nid)" for nid j
      using s by (simp add: slots_ok_def)
    have "pg_weight P (cg_graph s') = (pg_weight P (cg_graph s))(i \<mapsto> n)" using w by (simp add: s'_def)
    then show "resolve s' nid = Some j \<longleftrightarrow> (\<exists>n. pg_weight P (cg_graph s') j = Some n \<and> nd_id n = nid)"
      using old [of nid j] old [of "nd_id n" j] new fresh by (auto simp: res)
  qed
  have empty: "pg_out P (cg_graph s) i = []"
    using ends [OF slots_okD(1) [OF s], of _ _ i] fresh by (cases "pg_out P (cg_graph s) i") fastforce+
  have ren: "image_mset (renamed P g) (mset (pg_out P (cg_graph s) j)) = image_mset (renamed P (cg_graph s)) (mset (pg_out P (cg_graph s) j))" for j
  proof (rule image_mset_cong)
    fix x assume "x \<in># mset (pg_out P (cg_graph s) j)"
    then have "fst x \<in> dom (pg_weight P (cg_graph s))" using ends [OF slots_okD(1) [OF s], of "fst x" "snd x" j] by simp
    then have "fst x \<noteq> i" using fresh by auto
    then show "renamed P g x = renamed P (cg_graph s) x" by (simp add: renamed_def slot_id_def w)
  qed
  have "pg_out P g i = []" using out [of i] empty by simp
  then have "out_ids P s' u = out_ids P s u" for u
    using new by (simp add: out_ids_def res) (simp add: s'_def out ren split: option.split)
  then have "out_ids P s' = out_ids P s" by blast
  moreover have "get_node P s' nid = ((get_node P s)(nd_id n \<mapsto> n)) nid" for nid
  proof (cases "nid = nd_id n")
    case False
    have "j \<noteq> i" if "resolve s nid = Some j" for j using slots_okD(3) [OF s that] fresh by auto
    with False show ?thesis by (cases "resolve s nid") (auto simp: get_node_def res, simp add: s'_def w)
  qed (simp add: get_node_def res, simp add: s'_def w)
  ultimately show ?thesis using slots by (auto simp: frame_def s'_def)
qed

lemma graph_okD:
  assumes "graph_ok P ok s"
  shows "slots_ok P ok s" "indices_ok (cg_indices s) (ran (get_node P s))"
    "get_node P s nid = Some n \<Longrightarrow> nd_birth_revision n \<le> nd_last_modified_revision n \<and> nd_last_modified_revision n \<le> cg_revision s"
  using assms by (auto simp: graph_ok_def intro: ranI)

lemma graph_okI:
  assumes "slots_ok P ok s" and "indices_ok (cg_indices s) (ran (get_node P s))"
    and "\<And>nid n. get_node P s nid = Some n \<Longrightarrow>
      nd_birth_revision n \<le> nd_last_modified_revision n \<and> nd_last_modified_revision n \<le> cg_revision s"
  shows "graph_ok P ok s"
  using assms by (auto simp: graph_ok_def ran_def)

text \<open>Replacing the node in a slot, its index entries with it.\<close>

lemma replace_node:
  assumes s: "slots_ok P ok s" and ix: "indices_ok (cg_indices s) (ran (get_node P s))"
    and idx: "pg_weight P (cg_graph s) idx = Some old" and keep: "nd_id d = nd_id old"
  defines "s' \<equiv> s\<lparr>cg_graph := pg_set_weight P (cg_graph s) idx d, cg_indices := index_insert d (index_remove old (cg_indices s))\<rparr>"
  shows "slots_ok P ok s' \<and> indices_ok (cg_indices s') (ran (get_node P s')) \<and>
    get_node P s' = (get_node P s)(nd_id d \<mapsto> d) \<and> out_ids P s' = out_ids P s"
proof -
  let ?u = "s\<lparr>cg_graph := pg_set_weight P (cg_graph s) idx d\<rparr>" and ?m = "get_node P s"
  have s': "s' = ?u\<lparr>cg_indices := index_insert d (index_remove old (cg_indices s))\<rparr>" by (simp add: s'_def)
  have u: "frame P ok s ?u" "get_node P ?u = ?m(nd_id d \<mapsto> d)"
    using set_slot [OF s idx keep] keep by simp_all
  have get: "?m (nd_id d) = Some old" using slots_okD(4) [OF s idx] idx keep by (simp add: get_node_def)
  have "ran (?m(nd_id d := None)) = ran ?m - {old}"
    using ran_update_keyed [of ?m "nd_id d", OF node_keys [OF s]] get by simp
  then have rest: "ran (?m(nd_id d \<mapsto> d)) = insert d (ran ?m - {old})" by (simp add: ran_update_Some)
  have "nd_id d \<notin> nd_id ` (ran ?m - {old})"
  proof
    assume "nd_id d \<in> nd_id ` (ran ?m - {old})"
    then obtain n where n: "n \<in> ran ?m - {old}" "nd_id d = nd_id n" by (auto elim!: imageE)
    then obtain nid where "?m nid = Some n" by (auto simp: ran_def)
    with node_keys [OF s, of nid n] get n show False by simp
  qed
  moreover have "indices_ok (index_remove old (cg_indices s)) (ran ?m - {old})"
    by (rule indices_ok_remove [OF ix ranI [of ?m, OF get]])
  ultimately have "indices_ok (index_insert d (index_remove old (cg_indices s))) (ran (?m(nd_id d \<mapsto> d)))"
    unfolding rest by (intro indices_ok_insert)
  then show ?thesis unfolding s' using u by (simp add: frame_def)
qed

lemma add_node_effect:
  assumes ok: "graph_ok P ok s"
  shows "\<exists>s'. add_node P d s = Some (nd_id d, s') \<and> graph_ok P ok s' \<and>
    get_node P s' = (get_node P s)(nd_id d \<mapsto> stored_as P s d) \<and> out_ids P s' = out_ids P s \<and>
    cg_revision s' = saturating_inc (cg_revision s)"
proof -
  note s = graph_okD(1) [OF ok]
  let ?t = "bump_revision s" and ?r = "saturating_inc (cg_revision s)"
  have t: "slots_ok P ok ?t" "cg_revision ?t = ?r" "cg_graph ?t = cg_graph s" "cg_indices ?t = cg_indices s"
    using s by (simp_all add: bump_revision_def)
  have keys: "nd_id (stored_as P s d) = nd_id d" by (simp add: stored_as_def Let_def)
  have later: "nd_birth_revision n \<le> nd_last_modified_revision n \<and> nd_last_modified_revision n \<le> ?r"
    if "((get_node P s)(nd_id d \<mapsto> stored_as P s d)) nid = Some n" for nid n
  proof (cases "nid = nd_id d")
    case True
    then have "n = stored_as P s d" using that by simp
    moreover have "nd_birth_revision old \<le> ?r" if "get_node P s (nd_id d) = Some old" for old
      using graph_okD(3) [OF ok that] saturating_inc_le [of "cg_revision s"] by (meson order_trans)
    ultimately show ?thesis by (auto simp: stored_as_def Let_def split: option.split)
  next
    case False
    then show ?thesis using that graph_okD(3) [OF ok, of nid n] saturating_inc_le [of "cg_revision s"]
      by (auto intro: order_trans)
  qed
  show ?thesis
  proof (cases "resolve s (nd_id d)")
    case (Some idx)
    from slots_okD(3) [OF s Some] obtain old where old: "pg_weight P (cg_graph s) idx = Some old" "nd_id old = nd_id d" by blast
    then have get: "get_node P s (nd_id d) = Some old" using Some by (simp add: get_node_def)
    let ?d = "stored_as P s d"
    let ?s = "?t\<lparr>cg_graph := pg_set_weight P (cg_graph ?t) idx ?d, cg_indices := index_insert ?d (index_remove old (cg_indices ?t))\<rparr>"
    have "?d = d\<lparr>nd_last_modified_revision := ?r, nd_birth_revision := nd_birth_revision old\<rparr>"
      by (simp add: stored_as_def Let_def get)
    then have add: "add_node P d s = Some (nd_id d, ?s)"
      using Some old(1) by (simp add: add_node_def Let_def t)
    have "slots_ok P ok ?s \<and> indices_ok (cg_indices ?s) (ran (get_node P ?s)) \<and>
      get_node P ?s = (get_node P ?t)(nd_id ?d \<mapsto> ?d) \<and> out_ids P ?s = out_ids P ?t"
      by (rule replace_node [OF t(1)]) (use graph_okD(2) [OF ok] old keys t(3,4) in simp_all)
    then have new: "slots_ok P ok ?s" "indices_ok (cg_indices ?s) (ran (get_node P ?s))"
      "get_node P ?s = (get_node P s)(nd_id d \<mapsto> ?d)" "out_ids P ?s = out_ids P s"
      using keys by (blast, blast, simp, simp)
    have "graph_ok P ok ?s"
      by (rule graph_okI [OF new(1,2)]) (use later new(3) t(2) in simp)
    then show ?thesis using add new t(2) by (intro exI [of _ ?s]) simp
  next
    case None
    let ?d = "stored_as P s d"
    have get: "get_node P s (nd_id d) = None" using None by (simp add: resolve_get_node [OF s])
    obtain g i where gi: "pg_add_node P (cg_graph s) ?d = (g, i)" by fastforce
    let ?u = "?t\<lparr>cg_graph := g, cg_index_map := hm_insert (nd_id d) i (cg_index_map ?t)\<rparr>"
    let ?s = "?u\<lparr>cg_indices := index_insert ?d (cg_indices s)\<rparr>"
    have u: "frame P ok ?t ?u" "get_node P ?u = (get_node P s)(nd_id d \<mapsto> ?d)"
      using new_slot [OF t(1), of ?d g i] None gi keys t(3) by simp_all
    have "?d = d\<lparr>nd_last_modified_revision := ?r, nd_birth_revision := ?r\<rparr>"
      by (simp add: stored_as_def Let_def get)
    then have add: "add_node P d s = Some (nd_id d, ?s)"
      using None gi by (simp add: add_node_def Let_def t)
    have "nd_id ?d \<notin> nd_id ` ran (get_node P s)"
    proof
      assume "nd_id ?d \<in> nd_id ` ran (get_node P s)"
      then obtain n nid where "get_node P s nid = Some n" "nd_id n = nd_id d" by (auto simp: ran_def keys)
      with node_keys [OF s, of nid n] get show False by simp
    qed
    from indices_ok_insert [OF graph_okD(2) [OF ok] this] get
    have ix: "indices_ok (index_insert ?d (cg_indices s)) (ran ((get_node P s)(nd_id d \<mapsto> ?d)))" by simp
    have "graph_ok P ok ?s"
    proof (rule graph_okI)
      show "slots_ok P ok ?s" using u(1) by (simp add: frame_def)
      show "indices_ok (cg_indices ?s) (ran (get_node P ?s))" using ix by (simp add: u(2))
      show "nd_birth_revision n \<le> nd_last_modified_revision n \<and> nd_last_modified_revision n \<le> cg_revision ?s"
        if "get_node P ?s nid = Some n" for nid n
        using later [of nid n] that by (simp add: u(2) t(2))
    qed
    then show ?thesis using add u t(2) by (intro exI [of _ ?s]) (simp add: frame_def)
  qed
qed

end

end
