(* ===== verification/Code_Graph_Effects.thy ===== *)
theory Code_Graph_Effects
  imports Code_Graph_Proofs
begin

text \<open>
  The effect of the other mutations of the code graph: the insertion of an edge, the removal of a
  node, the change of its metadata, and the rebuilding of the indices.
\<close>

text \<open>The condition on revisions, for a map of nodes.\<close>

definition revisions_ok :: "u64 \<Rightarrow> (nat \<Rightarrow> 'x node_data_scheme option) \<Rightarrow> bool" where
  "revisions_ok r m \<longleftrightarrow> (\<forall>n\<in>ran m. nd_birth_revision n \<le> nd_last_modified_revision n \<and> nd_last_modified_revision n \<le> r)"

lemma graph_ok_alt: "graph_ok P ok s \<longleftrightarrow>
    slots_ok P ok s \<and> indices_ok (cg_indices s) (ran (get_node P s)) \<and> revisions_ok (cg_revision s) (get_node P s)"
  by (simp add: graph_ok_def revisions_ok_def)

lemma revisions_ok_stamped:
  assumes "revisions_ok q m" and "q \<le> r"
  shows "revisions_ok r (stamped r A m)"
  unfolding revisions_ok_def
proof
  fix n assume "n \<in> ran (stamped r A m)"
  then obtain nid old where old: "m nid = Some old" "n = (if nid \<in> A then old\<lparr>nd_last_modified_revision := r\<rparr> else old)"
    by (auto simp: ran_def stamped_def)
  then have "nd_birth_revision old \<le> nd_last_modified_revision old" "nd_last_modified_revision old \<le> r"
    using assms by (auto simp: revisions_ok_def ran_def intro: order_trans)
  with old(2) show "nd_birth_revision n \<le> nd_last_modified_revision n \<and> nd_last_modified_revision n \<le> r"
    by (auto intro: order_trans)
qed

context stable_graph
begin

lemma resolve_inj:
  assumes "slots_ok P ok s" and "resolve s a = Some i" and "resolve s b = Some i"
  shows "a = b"
  using slots_okD(3) [OF assms(1,2)] slots_okD(3) [OF assms(1,3)] by auto

section \<open>The insertion of an edge\<close>

lemma edge_slot:
  fixes e :: edge_data
  assumes s: "slots_ok P ok s" and a: "resolve s a = Some i" and b: "resolve s b = Some j"
  defines "s' \<equiv> s\<lparr>cg_graph := pg_add_edge P (cg_graph s) i j e\<rparr>"
  shows "slots_ok P ok s' \<and> get_node P s' = get_node P s \<and> out_ids P s' = (out_ids P s)(a := add_mset (b, e) (out_ids P s a))"
proof -
  let ?g = "cg_graph s'"
  have dom: "i \<in> dom (pg_weight P (cg_graph s))" "j \<in> dom (pg_weight P (cg_graph s))"
    using slots_okD(3) [OF s a] slots_okD(3) [OF s b] by blast+
  have w: "pg_weight P ?g = pg_weight P (cg_graph s)" and ok: "ok ?g"
    and out: "mset (pg_out P ?g v) = mset (pg_out P (cg_graph s) v) + (if v = i then {#(j, e)#} else {#})" for v
    using added_edge [OF slots_okD(1) [OF s] dom] by (simp_all add: s'_def)
  have "slot_id P ?g = slot_id P (cg_graph s)" by (simp add: slot_id_def fun_eq_iff w)
  then have ren: "renamed P ?g = renamed P (cg_graph s)" by (simp add: fun_eq_iff renamed_def)
  have res: "resolve s' = resolve s" by (simp add: s'_def)
  have "slots_ok P ok s'" using s ok by (simp add: slots_ok_def res w) (simp add: s'_def)
  moreover have "get_node P s' = get_node P s" by (simp add: fun_eq_iff get_node_def res w)
  moreover have "out_ids P s' u = ((out_ids P s)(a := add_mset (b, e) (out_ids P s a))) u" for u
  proof (cases "u = a")
    case True
    then show ?thesis using a slot_id_eq [OF s dom(2), of b] b by (simp add: out_ids_def res out ren)
  next
    case False
    then have "resolve s u \<noteq> Some i" using resolve_inj [OF s _ a] by blast
    with False show ?thesis by (auto simp: out_ids_def res out ren split: option.split)
  qed
  ultimately show ?thesis by blast
qed

lemma add_edge_missing:
  assumes "graph_ok P ok s"
  shows "get_node P s a = None \<Longrightarrow> add_edge P a b e s = Some (Inl (NodeNotFound a), s)"
    and "get_node P s a = Some x \<Longrightarrow> get_node P s b = None \<Longrightarrow> add_edge P a b e s = Some (Inl (NodeNotFound b), s)"
  using resolve_get_node [OF graph_okD(1) [OF assms], of a] resolve_get_node [OF graph_okD(1) [OF assms], of b]
  by (auto simp: add_edge_def split: option.split)

lemma add_edge_refused:
  assumes "graph_ok P ok s" and "get_node P s a = Some x" and "get_node P s b = Some y"
    and "check_edge a (nd_kind x) b (nd_kind y) e = Inl err"
  shows "add_edge P a b e s = Some (Inl err, s)"
  using assms(2-4) by (auto simp: add_edge_def get_node_def bind_eq_Some_conv)

lemma add_edge_effect:
  assumes ok: "graph_ok P ok s" and a: "get_node P s a = Some x" and b: "get_node P s b = Some y"
    and check: "check_edge a (nd_kind x) b (nd_kind y) e = Inr ()"
  shows "\<exists>s'. add_edge P a b e s = Some (Inr (), s') \<and> graph_ok P ok s' \<and>
    get_node P s' = stamped (saturating_inc (cg_revision s)) {a, b} (get_node P s) \<and>
    out_ids P s' = (out_ids P s)(a := add_mset (b, e) (out_ids P s a)) \<and>
    cg_revision s' = saturating_inc (cg_revision s)"
proof -
  note s = graph_okD(1) [OF ok]
  let ?r = "saturating_inc (cg_revision s)"
  obtain i j where ij: "resolve s a = Some i" "pg_weight P (cg_graph s) i = Some x"
      "resolve s b = Some j" "pg_weight P (cg_graph s) j = Some y"
    using a b by (auto simp: get_node_def bind_eq_Some_conv)
  let ?t = "s\<lparr>cg_graph := pg_add_edge P (cg_graph s) i j e\<rparr>"
  let ?u = "bump_revision ?t"
  have t: "slots_ok P ok ?t" "get_node P ?t = get_node P s" "out_ids P ?t = (out_ids P s)(a := add_mset (b, e) (out_ids P s a))"
    using edge_slot [OF s ij(1,3), of e] by simp_all
  then have u: "slots_ok P ok ?u" "get_node P ?u = get_node P s" "out_ids P ?u = out_ids P ?t" "cg_revision ?u = ?r"
    "cg_indices ?u = cg_indices s"
    by (simp_all, simp_all add: bump_revision_def)
  have "resolve ?u a = Some i" using ij(1) by simp
  from stamp_effect [OF u(1) this, of ?r] obtain v where
    v: "stamp P i ?r ?u = Some v" "frame P ok ?u v" "get_node P v = stamped ?r {a} (get_node P s)" unfolding u(2) by blast
  have "resolve v b = Some j"
    using v(1) ij(3) by (auto simp: stamp_def)
  from stamp_effect [OF _ this, of ?r] v(2) obtain w where
    w: "stamp P j ?r v = Some w" "frame P ok v w" "get_node P w = stamped ?r {b} (get_node P v)" by (auto simp: frame_def)
  have get: "get_node P w = stamped ?r {a, b} (get_node P s)"
    by (simp add: w(3) v(3) stamped_stamped insert_commute)
  have fields: "slots_ok P ok w" "cg_indices w = cg_indices s" "cg_revision w = ?r"
    "out_ids P w = (out_ids P s)(a := add_mset (b, e) (out_ids P s a))"
    using v(2) w(2) u t by (simp_all add: frame_def)
  have "graph_ok P ok w"
    unfolding graph_ok_alt get fields(2,3)
    using fields(1) indices_ok_stamped [OF graph_okD(2) [OF ok] node_keys [OF s]]
      revisions_ok_stamped [OF _ saturating_inc_le, of "cg_revision s" "get_node P s" "{a, b}"] ok
    by (simp add: graph_ok_alt)
  moreover have "add_edge P a b e s = Some (Inr (), w)"
    using ij check v(1) w(1) u(4) by (simp add: add_edge_def Let_def)
  ultimately show ?thesis using get fields by blast
qed

section \<open>The removal of a node\<close>

lemma neighbour_ids_set:
  assumes s: "slots_ok P ok s" and i: "resolve s u = Some i"
  shows "set (neighbour_ids P (cg_graph s) i) = adjacent P s u"
proof -
  have ends': "fst x \<in> dom (pg_weight P (cg_graph s))" if "x \<in> set (pg_out P (cg_graph s) i @ pg_in P (cg_graph s) i)" for x
    using that ends [OF slots_okD(1) [OF s], of "fst x" "snd x" i] in_ends [OF slots_okD(1) [OF s], of "fst x" "snd x" i] by auto
  have "set (neighbour_ids P (cg_graph s) i) =
      (\<lambda>x. slot_id P (cg_graph s) (fst x)) ` set (pg_out P (cg_graph s) i @ pg_in P (cg_graph s) i)"
    using ends' by (force simp: neighbour_ids_def List.map_filter_def slot_id_def image_iff)
  also have "\<dots> = {w. \<exists>e. (w, e) \<in># out_ids P s u \<or> (w, e) \<in># in_ids P s u}"
    using i by (force simp: out_ids_def in_ids_def renamed_def image_iff)
  also have "\<dots> = adjacent P s u"
    using count_in [OF s, of u] by (simp add: adjacent_def) (metis count_greater_zero_iff)
  finally show ?thesis .
qed

lemma removed_slot:
  assumes s: "slots_ok P ok s" and u: "resolve s u = Some i" and rem: "pg_remove_node P (cg_graph s) i = (g, r)"
  defines "s' \<equiv> s\<lparr>cg_index_map := hm_remove u (cg_index_map s), cg_graph := g\<rparr>"
  shows "slots_ok P ok s' \<and> r = get_node P s u \<and> get_node P s' = (get_node P s)(u := None) \<and>
    out_ids P s' = (\<lambda>v. if v = u then {#} else filter_mset (\<lambda>x. fst x \<noteq> u) (out_ids P s v))"
proof -
  have law: "ok g" "r = pg_weight P (cg_graph s) i" "pg_weight P g = (pg_weight P (cg_graph s))(i := None)"
    "mset (pg_out P g v) = (if v = i then {#} else filter_mset (\<lambda>(w, e). w \<noteq> i) (mset (pg_out P (cg_graph s) v)))" for v
    using removed_node [OF slots_okD(1) [OF s] rem] by simp_all
  have res: "resolve s' = (resolve s)(u := None)" by (auto simp: s'_def resolve_def)
  have g: "cg_graph s' = g" by (simp add: s'_def)
  have other: "j \<noteq> i" if "resolve s v = Some j" "v \<noteq> u" for v j using resolve_inj [OF s u] that by blast
  have "slots_ok P ok s'"
    unfolding slots_ok_def
  proof (intro conjI allI)
    show "ok (cg_graph s')" using law(1) by (simp add: g)
    show "hm_wf (cg_index_map s')" using slots_okD(2) [OF s] by (simp add: s'_def)
    fix v j
    have "resolve s v = Some j \<longleftrightarrow> (\<exists>n. pg_weight P (cg_graph s) j = Some n \<and> nd_id n = v)"
      using s by (simp add: slots_ok_def)
    then show "resolve s' v = Some j \<longleftrightarrow> (\<exists>n. pg_weight P (cg_graph s') j = Some n \<and> nd_id n = v)"
      using other [of v j] u slots_okD(3) [OF s u] slots_okD(4) [OF s, of j] by (cases "v = u") (auto simp: res g law(3))
  qed
  moreover have "r = get_node P s u" using law(2) u by (simp add: get_node_def)
  moreover have "get_node P s' v = ((get_node P s)(u := None)) v" for v
    using other [of v] by (cases "resolve s v") (auto simp: get_node_def res g law(3))
  moreover have "out_ids P s' v = (if v = u then {#} else filter_mset (\<lambda>x. fst x \<noteq> u) (out_ids P s v))" for v
  proof (cases "resolve s v")
    case (Some j)
    let ?M = "mset (pg_out P (cg_graph s) j)" and ?ren = "renamed P (cg_graph s)"
    have slot: "fst (?ren x) = u \<longleftrightarrow> fst x = i" if "x \<in># ?M" for x
    proof -
      have "fst x \<in> dom (pg_weight P (cg_graph s))" using that ends [OF slots_okD(1) [OF s], of "fst x" "snd x" j] by simp
      from slot_id_eq [OF s this, of u] u show ?thesis by (auto simp: renamed_def)
    qed
    show ?thesis
    proof (cases "v = u")
      case False
      have "out_ids P s' v = image_mset (renamed P g) (filter_mset (\<lambda>x. fst x \<noteq> i) ?M)"
        using Some False other [OF Some False] by (simp add: out_ids_def res g law(4) case_prod_beta')
      also have "\<dots> = image_mset ?ren (filter_mset (\<lambda>x. fst x \<noteq> i) ?M)"
        by (rule image_mset_cong) (auto simp: renamed_def slot_id_def law(3))
      also have "\<dots> = image_mset ?ren (filter_mset (\<lambda>x. fst (?ren x) \<noteq> u) ?M)"
        using slot by (intro arg_cong [where f = "image_mset ?ren"] filter_mset_cong) auto
      also have "\<dots> = filter_mset (\<lambda>x. fst x \<noteq> u) (image_mset ?ren ?M)" by (simp add: image_mset_filter_mset_swap [where P = "\<lambda>x. fst x \<noteq> u"])
      finally show ?thesis using Some False by (simp add: out_ids_def)
    qed (simp add: out_ids_def res)
  qed (simp add: out_ids_def res)
  ultimately show ?thesis by blast
qed

lemma remove_node_missing: "graph_ok P ok s \<Longrightarrow> get_node P s u = None \<Longrightarrow> remove_node P u s = Some (None, s)"
  using resolve_get_node [OF graph_okD(1), of s u] by (simp add: remove_node_def)

lemma remove_node_effect:
  assumes ok: "graph_ok P ok s" and u: "get_node P s u = Some n"
  shows "\<exists>s'. remove_node P u s = Some (Some n, s') \<and> graph_ok P ok s' \<and>
    get_node P s' = stamped (saturating_inc (cg_revision s)) (adjacent P s u) ((get_node P s)(u := None)) \<and>
    out_ids P s' = (\<lambda>v. if v = u then {#} else filter_mset (\<lambda>x. fst x \<noteq> u) (out_ids P s v)) \<and>
    cg_revision s' = saturating_inc (cg_revision s)"
proof -
  note s = graph_okD(1) [OF ok]
  let ?r = "saturating_inc (cg_revision s)" and ?m = "(get_node P s)(u := None)"
  obtain i where i: "resolve s u = Some i" using u by (auto simp: get_node_def bind_eq_Some_conv)
  obtain g r where rem: "pg_remove_node P (cg_graph s) i = (g, r)" by fastforce
  let ?t = "s\<lparr>cg_index_map := hm_remove u (cg_index_map s), cg_graph := g\<rparr>"
  let ?v = "bump_revision (?t\<lparr>cg_indices := index_remove n (cg_indices s)\<rparr>)"
  note t = removed_slot [OF s i rem]
  have v: "slots_ok P ok ?v" "get_node P ?v = ?m" "out_ids P ?v = out_ids P ?t" "cg_revision ?v = ?r"
    "cg_indices ?v = index_remove n (cg_indices s)" "r = Some n"
    using t u by (simp_all add: bump_revision_def)
  note touched = touch_all_effect [OF v(1), of ?r "neighbour_ids P (cg_graph s) i", unfolded v(2) neighbour_ids_set [OF s i]]
  obtain w where w: "touch_all P ?r (neighbour_ids P (cg_graph s) i) ?v = Some w" "frame P ok ?v w"
      "get_node P w = stamped ?r (adjacent P s u) ?m"
    using touched by blast
  have keys: "\<And>nid x. ?m nid = Some x \<Longrightarrow> nd_id x = nid" using node_keys [OF s] by (auto split: if_splits)
  have "ran ?m = ran (get_node P s) - {n}"
    using ran_update_keyed [of "get_node P s" u, OF node_keys [OF s]] u by simp
  then have "indices_ok (index_remove n (cg_indices s)) (ran ?m)"
    using indices_ok_remove [OF graph_okD(2) [OF ok] ranI [of "get_node P s", OF u]] by simp
  moreover have "cg_indices w = index_remove n (cg_indices s)" using w(2) v(5) by (simp add: frame_def)
  ultimately have ix: "indices_ok (cg_indices w) (ran (get_node P w))"
    unfolding w(3) by (intro indices_ok_stamped keys) simp
  have "revisions_ok (cg_revision s) ?m"
    using ok by (auto simp: graph_ok_alt revisions_ok_def ran_def split: if_splits)
  from revisions_ok_stamped [OF this saturating_inc_le] have "revisions_ok (cg_revision w) (get_node P w)"
    using w(2,3) v(4) by (simp add: frame_def)
  then have "graph_ok P ok w" using ix w(2) by (simp add: graph_ok_alt frame_def)
  moreover have "remove_node P u s = Some (Some n, w)"
    using i rem v(4,6) w(1) by (simp add: remove_node_def Let_def)
  ultimately show ?thesis using w(2,3) v(3,4) t by (intro exI [of _ w]) (simp add: frame_def)
qed

end

end
