(* ===== verification/Queue_Search.thy ===== *)
theory Queue_Search
  imports Stack_Search
begin

text \<open>
  Breadth-first search from several starts to a bounded depth, with a queue of items and their
  depths: what the loops of the analysis crate that use a \<^verbatim>\<open>VecDeque\<close> share. The lemmas say that it
  visits exactly the items within the depth.
\<close>

text \<open>\<^verbatim>\<open>if visited.insert(x) { frontier.push_back((x, d)) }\<close>\<close>

definition push_back :: "nat \<Rightarrow> 'a \<Rightarrow> 'a set \<times> ('a \<times> nat) list \<Rightarrow> 'a set \<times> ('a \<times> nat) list" where
  "push_back d x s = (if x \<in> fst s then s else (insert x (fst s), snd s @ [(x, d)]))"

definition enqueue :: "nat \<Rightarrow> 'a list \<Rightarrow> 'a set \<times> ('a \<times> nat) list \<Rightarrow> 'a set \<times> ('a \<times> nat) list" where
  "enqueue d xs s = fold (push_back d) xs s"

definition depth_pass :: "('a \<Rightarrow> 'a list) \<Rightarrow> nat \<Rightarrow> 'a set \<times> ('a \<times> nat) list \<Rightarrow> 'a set \<times> ('a \<times> nat) list" where
  "depth_pass nxt depth s = (case snd s of
     [] \<Rightarrow> s
   | (x, d) # queue \<Rightarrow>
       if depth \<le> d then (fst s, queue) else enqueue (Suc d) (nxt x) (fst s, queue))"

definition depth_search :: "('a \<Rightarrow> 'a list) \<Rightarrow> nat \<Rightarrow> 'a list \<Rightarrow> 'a set option" where
  "depth_search nxt depth starts =
     map_option fst (while_option (\<lambda>s. snd s \<noteq> []) (depth_pass nxt depth) (enqueue 0 starts ({}, [])))"

section \<open>Items within a number of steps\<close>

fun ball :: "('a \<Rightarrow> 'a list) \<Rightarrow> 'a set \<Rightarrow> nat \<Rightarrow> 'a set" where
  "ball nxt S 0 = S"
| "ball nxt S (Suc k) = ball nxt S k \<union> (\<Union>x\<in>ball nxt S k. set (nxt x))"

lemma ball_mono: "j \<le> k \<Longrightarrow> ball nxt S j \<subseteq> ball nxt S k"
  by (induction k rule: nat_induct) (auto simp: le_Suc_eq)

lemma enqueue_visited: "fst (enqueue d xs s) = fst s \<union> set xs"
  by (induction xs arbitrary: s) (auto simp: enqueue_def push_back_def)

lemma enqueue_queue: "\<exists>ys. snd (enqueue d xs s) = snd s @ map (\<lambda>y. (y, d)) ys \<and> set ys = set xs - fst s"
proof (induction xs arbitrary: s)
  case Nil
  show ?case by (intro exI [of _ "[]"]) (simp add: enqueue_def)
next
  case (Cons x xs)
  obtain ys where ys: "snd (enqueue d xs (push_back d x s)) = snd (push_back d x s) @ map (\<lambda>y. (y, d)) ys"
    "set ys = set xs - fst (push_back d x s)"
    using Cons.IH by blast
  show ?case
  proof (cases "x \<in> fst s")
    case True
    with ys show ?thesis by (intro exI [of _ ys]) (auto simp: enqueue_def push_back_def)
  next
    case False
    with ys show ?thesis by (intro exI [of _ "x # ys"]) (auto simp: enqueue_def push_back_def)
  qed
qed

text \<open>The work left, as for the search with a stack.\<close>

definition queue_work :: "'a set \<Rightarrow> 'a set \<times> ('a \<times> nat) list \<Rightarrow> nat" where
  "queue_work R s = 2 * card (R - fst s) + length (snd s)"

lemma enqueue_work:
  assumes "finite R" and "set xs \<subseteq> R"
  shows "queue_work R (enqueue d xs s) \<le> queue_work R s"
  using assms
proof (induction xs arbitrary: s)
  case (Cons x xs)
  have "queue_work R (push_back d x s) \<le> queue_work R s"
  proof (cases "x \<in> fst s")
    case False
    then have "card (R - fst s) = Suc (card (R - insert x (fst s)))"
      using Cons.prems by (metis DiffI Diff_insert card.remove finite_Diff insert_subset list.simps(15))
    with False show ?thesis by (simp add: queue_work_def push_back_def)
  qed (simp add: push_back_def)
  moreover have "queue_work R (enqueue d xs (push_back d x s)) \<le> queue_work R (push_back d x s)"
    using Cons by simp
  ultimately show ?case by (simp add: enqueue_def)
qed (simp add: enqueue_def)

section \<open>The invariant\<close>

definition depth_inv :: "('a \<Rightarrow> 'a list) \<Rightarrow> nat \<Rightarrow> 'a set \<Rightarrow> 'a set \<times> ('a \<times> nat) list \<Rightarrow> bool" where
  "depth_inv nxt depth S s \<longleftrightarrow> S \<subseteq> fst s \<and> fst s \<subseteq> ball nxt S depth \<and>
     (\<forall>(x, d)\<in>set (snd s). x \<in> fst s \<and> x \<in> ball nxt S d \<and> (\<forall>k<d. x \<notin> ball nxt S k) \<and> d \<le> depth) \<and>
     (case snd s of [] \<Rightarrow> True | (x, d) # q \<Rightarrow>
        ball nxt S d \<subseteq> fst s \<and> (\<exists>q1 q2. snd s = q1 @ q2 \<and> (\<forall>e\<in>set q1. snd e = d) \<and> (\<forall>e\<in>set q2. snd e = Suc d))) \<and>
     (\<forall>x\<in>fst s - fst ` set (snd s). \<forall>k<depth. x \<in> ball nxt S k \<longrightarrow> set (nxt x) \<subseteq> fst s)"

lemma depth_invD:
  assumes "depth_inv nxt depth S (visited, q)"
  shows "S \<subseteq> visited" "visited \<subseteq> ball nxt S depth"
    "(x, d) \<in> set q \<Longrightarrow> x \<in> visited \<and> x \<in> ball nxt S d \<and> (\<forall>k<d. x \<notin> ball nxt S k) \<and> d \<le> depth"
    "q = (x, d) # q' \<Longrightarrow> ball nxt S d \<subseteq> visited"
    "q = (x, d) # q' \<Longrightarrow> \<exists>q1 q2. q' = q1 @ q2 \<and> (\<forall>e\<in>set q1. snd e = d) \<and> (\<forall>e\<in>set q2. snd e = Suc d)"
    "x \<in> visited \<Longrightarrow> x \<notin> fst ` set q \<Longrightarrow> k < depth \<Longrightarrow> x \<in> ball nxt S k \<Longrightarrow> set (nxt x) \<subseteq> visited"
proof -
  show "q = (x, d) # q' \<Longrightarrow> \<exists>q1 q2. q' = q1 @ q2 \<and> (\<forall>e\<in>set q1. snd e = d) \<and> (\<forall>e\<in>set q2. snd e = Suc d)"
  proof -
    assume q: "q = (x, d) # q'"
    with assms obtain q1 q2 where
      "(x, d) # q' = q1 @ q2" "\<forall>e\<in>set q1. snd e = d" "\<forall>e\<in>set q2. snd e = Suc d"
      by (auto simp: depth_inv_def)
    then show ?thesis by (cases q1) fastforce+
  qed
qed (use assms in \<open>auto simp: depth_inv_def\<close>)

lemma depth_invI:
  assumes "S \<subseteq> visited" "visited \<subseteq> ball nxt S depth"
    "\<And>x d. (x, d) \<in> set q \<Longrightarrow> x \<in> visited \<and> x \<in> ball nxt S d \<and> (\<forall>k<d. x \<notin> ball nxt S k) \<and> d \<le> depth"
    "\<And>x d q'. q = (x, d) # q' \<Longrightarrow> ball nxt S d \<subseteq> visited \<and>
      (\<exists>q1 q2. q' = q1 @ q2 \<and> (\<forall>e\<in>set q1. snd e = d) \<and> (\<forall>e\<in>set q2. snd e = Suc d))"
    "\<And>x k. x \<in> visited \<Longrightarrow> x \<notin> fst ` set q \<Longrightarrow> k < depth \<Longrightarrow> x \<in> ball nxt S k \<Longrightarrow> set (nxt x) \<subseteq> visited"
  shows "depth_inv nxt depth S (visited, q)"
proof -
  have "case q of [] \<Rightarrow> True | (x, d) # q' \<Rightarrow> ball nxt S d \<subseteq> visited \<and>
      (\<exists>q1 q2. q = q1 @ q2 \<and> (\<forall>e\<in>set q1. snd e = d) \<and> (\<forall>e\<in>set q2. snd e = Suc d))"
  proof (cases q)
    case (Cons e q')
    obtain x d where e: "e = (x, d)" by fastforce
    from assms(4) [of x d q'] Cons e obtain q1 q2 where
      "ball nxt S d \<subseteq> visited" "q' = q1 @ q2" "\<forall>e\<in>set q1. snd e = d" "\<forall>e\<in>set q2. snd e = Suc d" by auto
    then have "(x, d) # q' = ((x, d) # q1) @ q2 \<and> (\<forall>e\<in>set ((x, d) # q1). snd e = d) \<and> (\<forall>e\<in>set q2. snd e = Suc d)"
      by simp
    then have "\<exists>q1 q2. (x, d) # q' = q1 @ q2 \<and> (\<forall>e\<in>set q1. snd e = d) \<and> (\<forall>e\<in>set q2. snd e = Suc d)" by blast
    with \<open>ball nxt S d \<subseteq> visited\<close> show ?thesis by (simp only: Cons e list.case prod.case simp_thms)
  qed simp
  then show ?thesis using assms(1-3,5) unfolding depth_inv_def fst_conv snd_conv
    by (intro conjI) (assumption | (auto; fail))+
qed

lemma depth_inv_start:
  "depth_inv nxt depth (set starts) (enqueue 0 starts ({}, []))"
proof -
  obtain ys where ys: "snd (enqueue 0 starts ({}, [])) = map (\<lambda>y. (y, 0)) ys" "set ys = set starts"
    using enqueue_queue [of 0 starts "({}, [])"] by auto
  have s: "enqueue 0 starts ({}, []) = (set starts, map (\<lambda>y. (y, 0)) ys)"
    using ys(1) enqueue_visited [of 0 starts "({}, [])"] by (metis Un_empty_left fst_conv prod.collapse)
  show ?thesis unfolding s
  proof (rule depth_invI)
    show "set starts \<subseteq> ball nxt (set starts) depth" using ball_mono [of 0 depth nxt "set starts"] by simp
    fix x and d :: nat and q' assume q: "map (\<lambda>y. (y, 0)) ys = (x, d) # q'"
    then have "d = 0" "\<forall>e\<in>set q'. snd e = 0" by (auto simp: map_eq_Cons_conv)
    then show "ball nxt (set starts) d \<subseteq> set starts \<and>
        (\<exists>q1 q2. q' = q1 @ q2 \<and> (\<forall>e\<in>set q1. snd e = d) \<and> (\<forall>e\<in>set q2. snd e = Suc d))"
      by (auto intro: exI [of _ q'])
  qed (use ys(2) in \<open>auto simp: image_image\<close>)
qed

lemma depth_pass_inv:
  assumes inv: "depth_inv nxt depth S s" and more: "snd s \<noteq> []"
  shows "depth_inv nxt depth S (depth_pass nxt depth s)"
proof -
  obtain visited x d q where s: "s = (visited, (x, d) # q)"
    using more by (cases s; cases "snd s") auto
  note D = depth_invD [OF inv [unfolded s]]
  have xd: "x \<in> visited" "x \<in> ball nxt S d" "\<forall>k<d. x \<notin> ball nxt S k" "d \<le> depth" using D(3) [of x d] by auto
  obtain q1 q2 where q: "q = q1 @ q2" "\<forall>e\<in>set q1. snd e = d" "\<forall>e\<in>set q2. snd e = Suc d" using D(5) by blast
  have closed: "set (nxt y) \<subseteq> visited" if "y \<in> visited" "y \<noteq> x" "y \<notin> fst ` set q" "k < depth" "y \<in> ball nxt S k" for y k
    using D(6) [of y k] that by simp
  show ?thesis
  proof (cases "depth \<le> d")
    case True
    with xd(4) have d: "d = depth" by simp
    have none: "q2 = []"
    proof (rule ccontr)
      assume "q2 \<noteq> []"
      then obtain y e where "(y, e) \<in> set q2" by (cases q2) auto
      then have "(y, Suc d) \<in> set q" using q(1,3) by force
      then show False using D(3) [of y "Suc d"] d by simp
    qed
    have "depth_inv nxt depth S (visited, q)"
    proof (rule depth_invI [OF D(1,2)])
      show "y \<in> visited \<and> y \<in> ball nxt S e \<and> (\<forall>k<e. y \<notin> ball nxt S k) \<and> e \<le> depth" if "(y, e) \<in> set q" for y e
        by (rule D(3)) (simp add: that)
      fix y e q' assume q': "q = (y, e) # q'"
      then have "e = d" "\<forall>e\<in>set q'. snd e = d" using q none by auto
      then show "ball nxt S e \<subseteq> visited \<and> (\<exists>q1 q2. q' = q1 @ q2 \<and> (\<forall>e'\<in>set q1. snd e' = e) \<and> (\<forall>e'\<in>set q2. snd e' = Suc e))"
        using D(4) by (auto intro: exI [of _ q'])
    next
      fix y k assume "y \<in> visited" "y \<notin> fst ` set q" "k < depth" "y \<in> ball nxt S k"
      then show "set (nxt y) \<subseteq> visited" using closed [of y k] xd(3) d by blast
    qed
    then show ?thesis using True by (simp add: depth_pass_def s)
  next
    case False
    then have d: "d < depth" by simp
    obtain ys where ys: "snd (enqueue (Suc d) (nxt x) (visited, q)) = q @ map (\<lambda>y. (y, Suc d)) ys"
      "set ys = set (nxt x) - visited"
      using enqueue_queue [of "Suc d" "nxt x" "(visited, q)"] by auto
    let ?V = "visited \<union> set (nxt x)" and ?q = "q @ map (\<lambda>y. (y, Suc d)) ys"
    have result: "depth_pass nxt depth s = (?V, ?q)"
      using False ys(1) enqueue_visited [of "Suc d" "nxt x" "(visited, q)"]
      by (simp add: depth_pass_def s prod_eq_iff)
    have succ: "set (nxt x) \<subseteq> ball nxt S (Suc d)" using xd(2) by auto
    have fresh: "y \<notin> ball nxt S k" if "y \<notin> visited" "k < Suc d" for y k
      using D(4) ball_mono [of k d nxt S] that by auto
    have keys: "fst ` set ?q = fst ` set q \<union> set ys" by (simp add: image_Un image_image)
    have closed': "set (nxt y) \<subseteq> ?V" if "y \<in> ?V" "y \<notin> fst ` set ?q" "k < depth" "y \<in> ball nxt S k" for y k
    proof (cases "y = x")
      case False
      have "y \<in> visited" "y \<notin> fst ` set q" using that(1,2) ys(2) unfolding keys by auto
      then show ?thesis using closed [of y k] False that(3,4) by blast
    qed simp
    have "depth_inv nxt depth S (?V, ?q)"
    proof (rule depth_invI)
      show "S \<subseteq> ?V" using D(1) by blast
      show "?V \<subseteq> ball nxt S depth" using D(2) succ ball_mono [of "Suc d" depth nxt S] d by (simp del: ball.simps)
      show "y \<in> ?V \<and> y \<in> ball nxt S e \<and> (\<forall>k<e. y \<notin> ball nxt S k) \<and> e \<le> depth" if "(y, e) \<in> set ?q" for y e
      proof (cases "(y, e) \<in> set q")
        case True
        then show ?thesis using D(3) [of y e] by simp
      next
        case False
        then have "e = Suc d" "y \<in> set (nxt x)" "y \<notin> visited" using that ys(2) by auto
        then show ?thesis using fresh [of y] succ d by auto
      qed
      fix y e q' assume q': "?q = (y, e) # q'"
      show "ball nxt S e \<subseteq> ?V \<and> (\<exists>q1 q2. q' = q1 @ q2 \<and> (\<forall>e'\<in>set q1. snd e' = e) \<and> (\<forall>e'\<in>set q2. snd e' = Suc e))"
      proof (cases q1)
        case (Cons a q1')
        then have "e = d" "q' = q1' @ (q2 @ map (\<lambda>y. (y, Suc d)) ys)" using q' q(1,2) by auto
        then show ?thesis using D(4) q(2,3) Cons by (intro conjI exI [of _ q1'] exI [of _ "q2 @ map (\<lambda>y. (y, Suc d)) ys"]) auto
      next
        case Nil
        then have labels: "\<forall>e'\<in>set ?q. snd e' = Suc d" using q by auto
        then have e: "e = Suc d" "\<forall>e'\<in>set q'. snd e' = Suc d" unfolding q' by simp_all
        have "set (nxt u) \<subseteq> ?V" if "u \<in> ball nxt S d" for u
        proof (rule closed' [OF _ _ d that])
          show "u \<in> ?V" using D(4) that by blast
          show "u \<notin> fst ` set ?q"
          proof
            assume "u \<in> fst ` set ?q"
            then obtain e' where "(u, e') \<in> set ?q" by fastforce
            moreover from this labels have "e' = Suc d" by fastforce
            ultimately have "(u, Suc d) \<in> set q \<or> u \<in> set ys" by auto
            then show False using D(3) [of u "Suc d"] that fresh [of u d] ys(2) by auto
          qed
        qed
        then have "ball nxt S e \<subseteq> ?V" using D(4) e(1) by auto
        then show ?thesis using e by (auto intro: exI [of _ q'])
      qed
    qed (rule closed')
    then show ?thesis by (simp only: result)
  qed
qed

lemma depth_inv_end:
  assumes "depth_inv nxt depth S (visited, [])"
  shows "visited = ball nxt S depth"
proof -
  note D = depth_invD [OF assms]
  have "ball nxt S k \<subseteq> visited" if "k \<le> depth" for k
    using that
  proof (induction k)
    case (Suc k)
    then have "ball nxt S k \<subseteq> visited" by simp
    then show ?case using D(6) [of _ k] Suc.prems by auto
  qed (use D(1) in simp)
  then show ?thesis using D(2) by blast
qed

lemma depth_search_exact:
  assumes "finite R" and "set starts \<subseteq> R" and "\<And>x. x \<in> R \<Longrightarrow> set (nxt x) \<subseteq> R"
  shows "depth_search nxt depth starts = Some (ball nxt (set starts) depth)"
proof -
  let ?I = "\<lambda>s. depth_inv nxt depth (set starts) s \<and> fst s \<subseteq> R"
  have start: "?I (enqueue 0 starts ({}, []))" using depth_inv_start assms(2) by (simp add: enqueue_visited)
  have "?I (depth_pass nxt depth s) \<and> queue_work R (depth_pass nxt depth s) < queue_work R s" if inv: "?I s" and more: "snd s \<noteq> []" for s
  proof -
    obtain visited x d q where s: "s = (visited, (x, d) # q)" using more by (cases s; cases "snd s") auto
    then have x: "x \<in> R" using inv depth_invD(3) [of nxt depth "set starts" visited "(x, d) # q" x d] by auto
    have "queue_work R (enqueue (Suc d) (nxt x) (visited, q)) \<le> queue_work R (visited, q)"
      by (rule enqueue_work [OF assms(1) assms(3) [OF x]])
    then have "queue_work R (depth_pass nxt depth s) < queue_work R s"
      by (auto simp: depth_pass_def s queue_work_def)
    moreover have "fst (depth_pass nxt depth s) \<subseteq> R"
      using inv assms(3) [OF x] by (simp add: depth_pass_def s enqueue_visited)
    ultimately show ?thesis using depth_pass_inv inv more by blast
  qed
  from while_option_total [where b = "\<lambda>s. snd s \<noteq> []", OF start this] obtain t where
    t: "while_option (\<lambda>s. snd s \<noteq> []) (depth_pass nxt depth) (enqueue 0 starts ({}, [])) = Some t"
      "depth_inv nxt depth (set starts) t" "snd t = []"
    by blast
  obtain V where V: "t = (V, [])" using t(3) by (cases t) simp
  from depth_inv_end [OF t(2) [unfolded V]] show ?thesis using t(1) V by (simp add: depth_search_def)
qed

end
