(* ===== verification/Code_Graph_Runs.thy ===== *)
theory Code_Graph_Runs
  imports Code_Graph_Effects Queue_Search
begin

text \<open>
  Sequences of operations on the code graph: the operations as data, the abstract graph they act on
  (nodes by identifier, edges between identifiers, a revision), and the invariant and refinement by
  every operation. Then the search around recent changes, and the update of a file.
\<close>

section \<open>The remaining mutations\<close>

context stable_graph
begin

lemma new_graph_ok:
  "graph_ok P ok (code_graph_new P)" "get_node P (code_graph_new P) = Map.empty" "out_ids P (code_graph_new P) = (\<lambda>_. {#})"
proof -
  let ?s = "code_graph_new P"
  have res: "resolve ?s = Map.empty" by (simp add: code_graph_new_def resolve_def fun_eq_iff)
  show get: "get_node P ?s = Map.empty" by (simp add: fun_eq_iff get_node_def res)
  show "out_ids P ?s = (\<lambda>_. {#})" by (simp add: fun_eq_iff out_ids_def res)
  have "slots_ok P ok ?s" unfolding slots_ok_def res by (simp add: code_graph_new_def new_ok new_weight)
  moreover have "cg_indices ?s = indices_default" by (simp add: code_graph_new_def)
  ultimately show "graph_ok P ok ?s" by (simp add: graph_ok_def get indices_ok_default)
qed

lemma update_metadata_missing:
  "graph_ok P ok s \<Longrightarrow> get_node P s u = None \<Longrightarrow> update_node_metadata P u f s = Some (False, s)"
  using resolve_get_node [OF graph_okD(1), of s u] by (simp add: update_node_metadata_def)

lemma update_metadata_effect:
  assumes ok: "graph_ok P ok s" and u: "get_node P s u = Some n"
  defines "r \<equiv> saturating_inc (cg_revision s)"
  shows "\<exists>s'. update_node_metadata P u f s = Some (True, s') \<and> graph_ok P ok s' \<and>
    get_node P s' = (get_node P s)(u \<mapsto> n\<lparr>nd_metadata := f (nd_metadata n), nd_last_modified_revision := r\<rparr>) \<and>
    out_ids P s' = out_ids P s \<and> cg_revision s' = r"
proof -
  note s = graph_okD(1) [OF ok]
  let ?t = "bump_revision s" and ?d = "n\<lparr>nd_metadata := f (nd_metadata n), nd_last_modified_revision := r\<rparr>"
  obtain idx where idx: "resolve s u = Some idx" "pg_weight P (cg_graph s) idx = Some n"
    using u by (auto simp: get_node_def bind_eq_Some_conv)
  have t: "slots_ok P ok ?t" "cg_revision ?t = r" "cg_graph ?t = cg_graph s" "cg_indices ?t = cg_indices s"
    using s by (simp_all add: bump_revision_def r_def)
  let ?s = "?t\<lparr>cg_graph := pg_set_weight P (cg_graph ?t) idx ?d, cg_indices := index_insert ?d (index_remove n (cg_indices ?t))\<rparr>"
  have "slots_ok P ok ?s \<and> indices_ok (cg_indices ?s) (ran (get_node P ?s)) \<and>
      get_node P ?s = (get_node P ?t)(nd_id ?d \<mapsto> ?d) \<and> out_ids P ?s = out_ids P ?t"
    by (rule replace_node [OF t(1)]) (use graph_okD(2) [OF ok] idx t(3,4) in simp_all)
  then have new: "slots_ok P ok ?s" "indices_ok (cg_indices ?s) (ran (get_node P ?s))"
      "get_node P ?s = (get_node P s)(u \<mapsto> ?d)" "out_ids P ?s = out_ids P s"
    using node_keys [OF s u] by (blast, blast, simp, simp)
  have later: "nd_birth_revision x \<le> nd_last_modified_revision x \<and> nd_last_modified_revision x \<le> r"
    if "((get_node P s)(u \<mapsto> ?d)) v = Some x" for v x
  proof (cases "v = u")
    case True
    then show ?thesis using that graph_okD(3) [OF ok u] saturating_inc_le [of "cg_revision s"]
      by (auto simp: r_def intro: order_trans)
  next
    case False
    then show ?thesis using that graph_okD(3) [OF ok, of v x] saturating_inc_le [of "cg_revision s"]
      by (auto simp: r_def intro: order_trans)
  qed
  have "graph_ok P ok ?s"
    by (rule graph_okI [OF new(1,2)]) (use later new(3) t(2) in simp)
  moreover have "update_node_metadata P u f s = Some (True, ?s)"
    using idx t by (simp add: update_node_metadata_def Let_def)
  ultimately show ?thesis using new(3,4) t(2) by (intro exI [of _ ?s]) simp
qed

lemma node_weights_nodes:
  assumes "slots_ok P ok s"
  shows "set (node_weights P (cg_graph s)) = ran (get_node P s)" "distinct (map nd_id (node_weights P (cg_graph s)))"
proof -
  let ?w = "pg_weight P (cg_graph s)" and ?is = "pg_indices P (cg_graph s)"
  have live': "distinct ?is" "set ?is = dom ?w" using live [OF slots_okD(1) [OF assms]] by simp_all
  have list: "node_weights P (cg_graph s) = map (\<lambda>i. the (?w i)) ?is"
  proof -
    have "filter (\<lambda>i. ?w i \<noteq> None) ?is = ?is" by (rule filter_True) (use live'(2) in auto)
    then show ?thesis by (simp add: node_weights_def List.map_filter_def)
  qed
  show "set (node_weights P (cg_graph s)) = ran (get_node P s)"
    unfolding ran_weight [OF assms, symmetric] list using live'(2) by (force simp: ran_def)
  have "map nd_id (node_weights P (cg_graph s)) = map (slot_id P (cg_graph s)) ?is"
    by (simp add: list slot_id_def)
  moreover have "inj_on (slot_id P (cg_graph s)) (set ?is)"
    using resolve_slot_id [OF assms] live'(2) by (metis inj_onI option.inject)
  ultimately show "distinct (map nd_id (node_weights P (cg_graph s)))"
    using live'(1) by (simp add: distinct_map)
qed

lemma rebuild_effect:
  assumes "graph_ok P ok s"
  shows "graph_ok P ok (rebuild_indices P s) \<and> get_node P (rebuild_indices P s) = get_node P s \<and>
    out_ids P (rebuild_indices P s) = out_ids P s \<and> cg_revision (rebuild_indices P s) = cg_revision s"
proof -
  note s = graph_okD(1) [OF assms]
  have "indices_ok (rebuild_from_graph (node_weights P (cg_graph s))) (ran (get_node P s))"
    using indices_ok_rebuild [OF node_weights_nodes(2) [OF s]] node_weights_nodes(1) [OF s] by simp
  then show ?thesis using assms by (simp add: graph_ok_def rebuild_indices_def)
qed

end

section \<open>Operations as data\<close>

datatype 'x graph_op =
  Op_add_node "'x node_data_scheme" | Op_add_edge nat nat edge_data | Op_remove_node nat
| Op_update_metadata nat "(string, string) hash_map \<Rightarrow> (string, string) hash_map" | Op_rebuild_indices

datatype 'x graph_answer =
  Answer_id nat | Answer_edge "(graph_error, unit) result" | Answer_node "'x node_data_scheme option"
| Answer_bool bool | Answer_unit

fun perform :: "('g, 'x) graph_ops \<Rightarrow> 'x graph_op \<Rightarrow> 'g code_graph \<Rightarrow> ('x graph_answer \<times> 'g code_graph) option" where
  "perform P (Op_add_node d) s = map_option (apfst Answer_id) (add_node P d s)"
| "perform P (Op_add_edge a b e) s = map_option (apfst Answer_edge) (add_edge P a b e s)"
| "perform P (Op_remove_node u) s = map_option (apfst Answer_node) (remove_node P u s)"
| "perform P (Op_update_metadata u f) s = map_option (apfst Answer_bool) (update_node_metadata P u f s)"
| "perform P Op_rebuild_indices s = Some (Answer_unit, rebuild_indices P s)"

fun run_graph :: "('g, 'x) graph_ops \<Rightarrow> 'x graph_op list \<Rightarrow> 'g code_graph \<Rightarrow> ('x graph_answer list \<times> 'g code_graph) option" where
  "run_graph P [] s = Some ([], s)"
| "run_graph P (op # ops) s = Option.bind (perform P op s) (\<lambda>(a, s). map_option (apfst (Cons a)) (run_graph P ops s))"

section \<open>The abstract graph\<close>

record 'x abstract_graph =
  ag_nodes :: "nat \<Rightarrow> 'x node_data_scheme option"
  ag_out :: "nat \<Rightarrow> (nat \<times> edge_data) multiset"
  ag_revision :: u64

definition abstract :: "('g, 'x) graph_ops \<Rightarrow> 'g code_graph \<Rightarrow> 'x abstract_graph" where
  "abstract P s = \<lparr>ag_nodes = get_node P s, ag_out = out_ids P s, ag_revision = cg_revision s\<rparr>"

definition abstract_adjacent :: "'x abstract_graph \<Rightarrow> nat \<Rightarrow> nat set" where
  "abstract_adjacent a u = {w. \<exists>e. (w, e) \<in># ag_out a u \<or> (u, e) \<in># ag_out a w}"

text \<open>What each operation promises: its answer and the abstract graph after it.\<close>

fun promised :: "'x graph_op \<Rightarrow> 'x abstract_graph \<Rightarrow> 'x graph_answer \<times> 'x abstract_graph" where
  "promised (Op_add_node d) a =
     (let r = saturating_inc (ag_revision a);
          birth = (case ag_nodes a (nd_id d) of Some old \<Rightarrow> nd_birth_revision old | None \<Rightarrow> r) in
      (Answer_id (nd_id d),
       a\<lparr>ag_nodes := (ag_nodes a)(nd_id d \<mapsto> d\<lparr>nd_birth_revision := birth, nd_last_modified_revision := r\<rparr>),
         ag_revision := r\<rparr>))"
| "promised (Op_add_edge u w e) a = (case ag_nodes a u of
     None \<Rightarrow> (Answer_edge (Inl (NodeNotFound u)), a)
   | Some x \<Rightarrow> (case ag_nodes a w of
       None \<Rightarrow> (Answer_edge (Inl (NodeNotFound w)), a)
     | Some y \<Rightarrow> (case check_edge u (nd_kind x) w (nd_kind y) e of
         Inl err \<Rightarrow> (Answer_edge (Inl err), a)
       | Inr _ \<Rightarrow> let r = saturating_inc (ag_revision a) in
           (Answer_edge (Inr ()),
            a\<lparr>ag_nodes := stamped r {u, w} (ag_nodes a), ag_out := (ag_out a)(u := add_mset (w, e) (ag_out a u)),
              ag_revision := r\<rparr>))))"
| "promised (Op_remove_node u) a = (case ag_nodes a u of
     None \<Rightarrow> (Answer_node None, a)
   | Some x \<Rightarrow> let r = saturating_inc (ag_revision a) in
       (Answer_node (Some x),
        \<lparr>ag_nodes = stamped r (abstract_adjacent a u) ((ag_nodes a)(u := None)),
         ag_out = (\<lambda>v. if v = u then {#} else filter_mset (\<lambda>x. fst x \<noteq> u) (ag_out a v)), ag_revision = r\<rparr>))"
| "promised (Op_update_metadata u f) a = (case ag_nodes a u of
     None \<Rightarrow> (Answer_bool False, a)
   | Some x \<Rightarrow> let r = saturating_inc (ag_revision a) in
       (Answer_bool True,
        a\<lparr>ag_nodes := (ag_nodes a)(u \<mapsto> x\<lparr>nd_metadata := f (nd_metadata x), nd_last_modified_revision := r\<rparr>),
          ag_revision := r\<rparr>))"
| "promised Op_rebuild_indices a = (Answer_unit, a)"

fun promised_run :: "'x graph_op list \<Rightarrow> 'x abstract_graph \<Rightarrow> 'x graph_answer list \<times> 'x abstract_graph" where
  "promised_run [] a = ([], a)"
| "promised_run (op # ops) a =
     (let (answer, a) = promised op a; (answers, a) = promised_run ops a in (answer # answers, a))"

context stable_graph
begin

lemma perform_refines:
  assumes ok: "graph_ok P ok s"
  shows "\<exists>s'. perform P op s = Some (fst (promised op (abstract P s)), s') \<and> graph_ok P ok s' \<and>
    abstract P s' = snd (promised op (abstract P s))"
proof (cases op)
  case (Op_add_node d)
  from add_node_effect [OF ok, of d] show ?thesis
    by (auto simp: Op_add_node abstract_def stored_as_def Let_def)
next
  case (Op_add_edge u w e)
  consider (no_source) "get_node P s u = None"
    | (no_target) x where "get_node P s u = Some x" "get_node P s w = None"
    | (refused) x y err where "get_node P s u = Some x" "get_node P s w = Some y" "check_edge u (nd_kind x) w (nd_kind y) e = Inl err"
    | (added) x y where "get_node P s u = Some x" "get_node P s w = Some y" "check_edge u (nd_kind x) w (nd_kind y) e = Inr ()"
  proof (cases "get_node P s u"; cases "get_node P s w")
    fix x y assume xy: "get_node P s u = Some x" "get_node P s w = Some y"
    then show thesis by (cases "check_edge u (nd_kind x) w (nd_kind y) e") (auto intro: refused added)
  qed (auto intro: no_source no_target)
  then show ?thesis
  proof cases
    case no_source
    then show ?thesis using add_edge_missing(1) [OF ok] ok by (simp add: Op_add_edge abstract_def)
  next
    case no_target
    then show ?thesis using add_edge_missing(2) [OF ok] ok by (simp add: Op_add_edge abstract_def)
  next
    case refused
    then show ?thesis using add_edge_refused [OF ok refused] ok by (simp add: Op_add_edge abstract_def)
  next
    case added
    from add_edge_effect [OF ok added] added(1,2,3) show ?thesis
      by (auto simp: Op_add_edge abstract_def Let_def)
  qed
next
  case (Op_remove_node u)
  show ?thesis
  proof (cases "get_node P s u")
    case None
    then show ?thesis using remove_node_missing [OF ok] ok by (simp add: Op_remove_node abstract_def)
  next
    case (Some n)
    from remove_node_effect [OF ok Some] Some show ?thesis
      by (auto simp: Op_remove_node abstract_def abstract_adjacent_def adjacent_def Let_def cong: if_cong)
  qed
next
  case (Op_update_metadata u f)
  show ?thesis
  proof (cases "get_node P s u")
    case None
    then show ?thesis using update_metadata_missing [OF ok] ok by (simp add: Op_update_metadata abstract_def)
  next
    case (Some n)
    from update_metadata_effect [OF ok Some, of f] Some show ?thesis
      by (auto simp: Op_update_metadata abstract_def Let_def)
  qed
next
  case Op_rebuild_indices
  then show ?thesis using rebuild_effect [OF ok] by (simp add: abstract_def)
qed

lemma run_refines:
  assumes "graph_ok P ok s"
  shows "\<exists>s'. run_graph P ops s = Some (fst (promised_run ops (abstract P s)), s') \<and> graph_ok P ok s' \<and>
    abstract P s' = snd (promised_run ops (abstract P s))"
  using assms
proof (induction ops arbitrary: s)
  case (Cons op ops)
  from perform_refines [OF Cons.prems, of op] obtain t where
    t: "perform P op s = Some (fst (promised op (abstract P s)), t)" "graph_ok P ok t" "abstract P t = snd (promised op (abstract P s))"
    by blast
  from Cons.IH [OF t(2)] t show ?case by (auto simp: Let_def case_prod_beta')
qed simp

end

end
