(* ===== verification/Code_Graph_Queries.thy ===== *)
theory Code_Graph_Queries
  imports Code_Graph_Runs
begin

text \<open>
  What the queries of the code graph answer in terms of its nodes and edges by identifier, the search
  around recent changes, the update of a file, and an instance of the library graph made of lists.
\<close>

section \<open>The search around changes\<close>

definition neighbour_list :: "('g, 'x) graph_ops \<Rightarrow> 'g code_graph \<Rightarrow> nat \<Rightarrow> nat list" where
  "neighbour_list P s u = (case resolve s u of None \<Rightarrow> [] | Some idx \<Rightarrow> neighbour_ids P (cg_graph s) idx)"

definition nodes_changed_within_depth :: "('g, 'x) graph_ops \<Rightarrow> 'g code_graph \<Rightarrow> u64 \<Rightarrow> nat \<Rightarrow> nat set option" where
  "nodes_changed_within_depth P s since_rev depth =
     depth_search (neighbour_list P s) depth (nodes_changed_since P s since_rev)"

text \<open>Two nodes are linked when an edge leads from one to the other, either way.\<close>

definition linked :: "('g, 'x) graph_ops \<Rightarrow> 'g code_graph \<Rightarrow> (nat \<times> nat) set" where
  "linked P s = {(u, w). w \<in> adjacent P s u}"

lemma ball_steps:
  assumes "\<And>x. set (nxt x) = {y. (x, y) \<in> r}"
  shows "ball nxt S k = {y. \<exists>x\<in>S. \<exists>j\<le>k. (x, y) \<in> r ^^ j}"
proof (induction k)
  case (Suc k)
  have last: "(\<Union>y\<in>ball nxt S k. set (nxt y)) = {z. \<exists>x\<in>S. \<exists>j\<le>k. (x, z) \<in> r ^^ Suc j}"
    unfolding Suc assms by auto
  have split: "(\<exists>j\<le>Suc k. (x, z) \<in> r ^^ j) \<longleftrightarrow> (\<exists>j\<le>k. (x, z) \<in> r ^^ j) \<or> (\<exists>j\<le>k. (x, z) \<in> r ^^ Suc j)" for x z
    by (metis Suc_le_mono le_SucE le_SucI le_refl)
  show ?case unfolding ball.simps last unfolding Suc split by blast
qed auto

context stable_graph
begin

lemma adjacent_ends:
  assumes "slots_ok P ok s" and "w \<in> adjacent P s u"
  shows "get_node P s u \<noteq> None" "get_node P s w \<noteq> None"
  using out_ids_ends [OF assms(1)] resolve_get_node [OF assms(1)] assms(2) by (auto simp: adjacent_def)

lemma neighbour_list_set:
  assumes "slots_ok P ok s"
  shows "set (neighbour_list P s u) = {w. (u, w) \<in> linked P s}"
proof (cases "resolve s u")
  case None
  then have "get_node P s u = None" using resolve_get_node [OF assms] by blast
  then show ?thesis using None adjacent_ends(1) [OF assms, of _ u] by (auto simp: neighbour_list_def linked_def)
next
  case (Some i)
  then show ?thesis using neighbour_ids_set [OF assms Some] by (simp add: neighbour_list_def linked_def)
qed

lemma changed_since_set:
  assumes "slots_ok P ok s"
  shows "set (nodes_changed_since P s r) = {u. \<exists>n. get_node P s u = Some n \<and> r \<le> nd_last_modified_revision n}"
    "distinct (nodes_changed_since P s r)"
proof -
  have "set (nodes_changed_since P s r) = nd_id ` {n \<in> ran (get_node P s). r \<le> nd_last_modified_revision n}"
    using node_weights_nodes(1) [OF assms] by (simp add: nodes_changed_since_def)
  also have "\<dots> = {u. \<exists>n. get_node P s u = Some n \<and> r \<le> nd_last_modified_revision n}"
    using node_keys [OF assms] by (force simp: ran_def image_iff)
  finally show "set (nodes_changed_since P s r) = {u. \<exists>n. get_node P s u = Some n \<and> r \<le> nd_last_modified_revision n}" .
  show "distinct (nodes_changed_since P s r)"
    using node_weights_nodes(2) [OF assms] by (simp add: nodes_changed_since_def distinct_map_filter)
qed

lemma ids_of_nodes:
  assumes "slots_ok P ok s"
  shows "nd_id ` {n \<in> ran (get_node P s). Q n} = {u. \<exists>n. get_node P s u = Some n \<and> Q n}"
  using node_keys [OF assms] by (force simp: ran_def image_iff)

lemma nodes_finite:
  assumes "graph_ok P ok s"
  shows "finite (dom (get_node P s))"
proof -
  have "dom (get_node P s) \<subseteq> nd_id ` ran (get_node P s)"
    using node_keys [OF graph_okD(1) [OF assms]] by (force simp: dom_def ran_def image_iff)
  then show ?thesis using indices_okD(1) [OF graph_okD(2) [OF assms]] by (meson finite_imageI finite_subset)
qed

lemma changed_within:
  assumes "graph_ok P ok s"
  shows "nodes_changed_within_depth P s r depth =
    Some {w. \<exists>u n. get_node P s u = Some n \<and> r \<le> nd_last_modified_revision n \<and> (\<exists>j\<le>depth. (u, w) \<in> linked P s ^^ j)}"
proof -
  note s = graph_okD(1) [OF assms]
  have "nodes_changed_within_depth P s r depth = Some (ball (neighbour_list P s) (set (nodes_changed_since P s r)) depth)"
    unfolding nodes_changed_within_depth_def
  proof (rule depth_search_exact [OF nodes_finite [OF assms]])
    show "set (nodes_changed_since P s r) \<subseteq> dom (get_node P s)" using changed_since_set(1) [OF s] by auto
    show "set (neighbour_list P s u) \<subseteq> dom (get_node P s)" for u
      using adjacent_ends(2) [OF s] by (auto simp: neighbour_list_set [OF s] linked_def)
  qed
  then show ?thesis
    by (auto simp: ball_steps [OF neighbour_list_set [OF s]] changed_since_set(1) [OF s])
qed

section \<open>The view of the searches\<close>

lemma view_edges:
  assumes "slots_ok P ok s"
  shows "(w, k) \<in> set (gv_edges_from (view_of P s) u) \<longleftrightarrow> (\<exists>e. (w, e) \<in># out_ids P s u \<and> ed_kind e = k)"
    "(w, k) \<in> set (gv_edges_to (view_of P s) u) \<longleftrightarrow> (\<exists>e. (u, e) \<in># out_ids P s w \<and> ed_kind e = k)"
proof -
  obtain es where es: "get_edges_from P s u = Some es" "mset es = out_ids P s u" using edges_from [OF assms] by blast
  then have "(w, e) \<in> set es \<longleftrightarrow> (w, e) \<in># out_ids P s u" for w e by (metis set_mset_mset)
  with es show "(w, k) \<in> set (gv_edges_from (view_of P s) u) \<longleftrightarrow> (\<exists>e. (w, e) \<in># out_ids P s u \<and> ed_kind e = k)"
    by (force simp: view_of_def labelled_def)
  obtain es where es: "get_edges_to P s u = Some es" "mset es = in_ids P s u" using edges_to [OF assms] by blast
  have "(w, e) \<in># in_ids P s u \<longleftrightarrow> (u, e) \<in># out_ids P s w" for w e
    using count_in [OF assms, of u w e] by (metis count_greater_zero_iff)
  then have "(w, e) \<in> set es \<longleftrightarrow> (u, e) \<in># out_ids P s w" for w e using es(2) by (metis set_mset_mset)
  with es show "(w, k) \<in> set (gv_edges_to (view_of P s) u) \<longleftrightarrow> (\<exists>e. (u, e) \<in># out_ids P s w \<and> ed_kind e = k)"
    by (force simp: view_of_def labelled_def)
qed

lemma contains_get_node: "slots_ok P ok s \<Longrightarrow> contains_node s u \<longleftrightarrow> get_node P s u \<noteq> None"
  using resolve_get_node [of s u] by (simp add: contains_node_def hm_contains_iff resolve_def)

lemma view_of_ok:
  assumes "graph_ok P ok s"
  shows "view_ok (view_of P s)"
proof -
  note s = graph_okD(1) [OF assms]
  have contains: "gv_contains (view_of P s) u \<longleftrightarrow> get_node P s u \<noteq> None" for u
    using contains_get_node [OF s] by (simp add: view_of_def)
  have "finite {v. gv_contains (view_of P s) v}"
    using nodes_finite [OF assms] by (simp add: contains dom_def)
  moreover have "gv_contains (view_of P s) w"
    if "(w, k) \<in> set (gv_edges_from (view_of P s) u) \<union> set (gv_edges_to (view_of P s) u)" for u w k
    using that view_edges [OF s] out_ids_ends [OF s] resolve_get_node [OF s] by (auto simp: contains)
  ultimately show ?thesis by (auto simp: view_ok_def)
qed

end

section \<open>The update of a file\<close>

text \<open>The nodes without the revision of their last change.\<close>

definition unstamped :: "('g, 'x) graph_ops \<Rightarrow> 'g code_graph \<Rightarrow> nat \<Rightarrow> 'x node_data_scheme option" where
  "unstamped P s = (\<lambda>u. map_option (\<lambda>n. n\<lparr>nd_last_modified_revision := 0\<rparr>) (get_node P s u))"

lemma unstamped_None_iff [simp]: "unstamped P s u = None \<longleftrightarrow> get_node P s u = None"
  by (simp add: unstamped_def)

lemma unstamp_stamped:
  "(\<lambda>u. map_option (\<lambda>n. n\<lparr>nd_last_modified_revision := 0\<rparr>) (stamped r A m u)) = (\<lambda>u. map_option (\<lambda>n. n\<lparr>nd_last_modified_revision := 0\<rparr>) (m u))"
  by (auto simp: stamped_def fun_eq_iff option.map_comp intro!: option.map_cong)

context stable_graph
begin

lemma remove_node_unstamped:
  assumes "graph_ok P ok s"
  shows "\<exists>r s'. remove_node P u s = Some (r, s') \<and> graph_ok P ok s' \<and> unstamped P s' = (unstamped P s)(u := None) \<and>
    (r \<noteq> None \<longleftrightarrow> get_node P s u \<noteq> None)"
proof (cases "get_node P s u")
  case None
  then have "unstamped P s u = None" by simp
  then have "unstamped P s = (unstamped P s)(u := None)" by (metis fun_upd_triv)
  with None remove_node_missing [OF assms None] assms show ?thesis by auto
next
  case (Some n)
  from remove_node_effect [OF assms Some] obtain s' where s': "remove_node P u s = Some (Some n, s')" "graph_ok P ok s'"
    "get_node P s' = stamped (saturating_inc (cg_revision s)) (adjacent P s u) ((get_node P s)(u := None))" by blast
  have "unstamped P s' = (unstamped P s)(u := None)"
    unfolding unstamped_def [of P s'] s'(3) unstamp_stamped by (auto simp: unstamped_def)
  with s' Some show ?thesis by blast
qed

lemma remove_all_effect:
  assumes "graph_ok P ok s" and "distinct us" and "\<forall>u\<in>set us. get_node P s u \<noteq> None"
  shows "\<exists>s'. remove_all P us s ev = Some (s', ev @ map NodeRemoved us) \<and> graph_ok P ok s' \<and>
    unstamped P s' = (\<lambda>v. if v \<in> set us then None else unstamped P s v)"
  using assms
proof (induction us arbitrary: s ev)
  case (Cons u us)
  from remove_node_unstamped [OF Cons.prems(1), of u] Cons.prems(3) obtain r t where
    t: "remove_node P u s = Some (r, t)" "graph_ok P ok t" "unstamped P t = (unstamped P s)(u := None)" "r \<noteq> None" by auto
  have "\<forall>v\<in>set us. get_node P t v \<noteq> None"
  proof
    fix v assume v: "v \<in> set us"
    then have "unstamped P t v = unstamped P s v" using t(3) Cons.prems(2) by auto
    then show "get_node P t v \<noteq> None" using Cons.prems(3) v by (metis list.set_intros(2) unstamped_None_iff)
  qed
  with Cons.IH [OF t(2), of "ev @ [NodeRemoved u]"] Cons.prems(2) obtain s' where
    "remove_all P us t (ev @ [NodeRemoved u]) = Some (s', (ev @ [NodeRemoved u]) @ map NodeRemoved us)" "graph_ok P ok s'"
    "unstamped P s' = (\<lambda>v. if v \<in> set us then None else unstamped P t v)" by auto
  with t show ?case by (auto simp: fun_eq_iff)
qed auto

lemma add_nodes_effect:
  assumes "graph_ok P ok s"
  shows "\<exists>s'. add_nodes P ns s ev = Some (s', ev @ map NodeAdded ns) \<and> graph_ok P ok s' \<and>
    dom (get_node P s') = dom (get_node P s) \<union> nd_id ` set ns \<and>
    (\<forall>v. v \<notin> nd_id ` set ns \<longrightarrow> get_node P s' v = get_node P s v)"
  using assms
proof (induction ns arbitrary: s ev)
  case (Cons n ns)
  from add_node_effect [OF Cons.prems, of n] obtain t where
    t: "add_node P n s = Some (nd_id n, t)" "graph_ok P ok t" "get_node P t = (get_node P s)(nd_id n \<mapsto> stored_as P s n)" by blast
  from Cons.IH [OF t(2), of "ev @ [NodeAdded n]"] t show ?case by (auto split: if_splits)
qed auto

lemma add_edge_unstamped:
  assumes "graph_ok P ok s"
  shows "\<exists>r s'. add_edge P a b e s = Some (r, s') \<and> graph_ok P ok s' \<and> unstamped P s' = unstamped P s"
proof (cases "get_node P s a"; cases "get_node P s b")
  fix x y assume xy: "get_node P s a = Some x" "get_node P s b = Some y"
  show ?thesis
  proof (cases "check_edge a (nd_kind x) b (nd_kind y) e")
    case (Inl err)
    then show ?thesis using add_edge_refused [OF assms xy] assms by blast
  next
    case (Inr z)
    then have "check_edge a (nd_kind x) b (nd_kind y) e = Inr ()" by simp
    from add_edge_effect [OF assms xy this] obtain s' where
      "add_edge P a b e s = Some (Inr (), s')" "graph_ok P ok s'"
      "get_node P s' = stamped (saturating_inc (cg_revision s)) {a, b} (get_node P s)" by blast
    then show ?thesis by (auto simp: unstamped_def [of P s'] unstamp_stamped) (simp add: unstamped_def unstamp_stamped)
  qed
qed (use add_edge_missing [OF assms] assms in blast)+

lemma add_edges_effect:
  assumes "graph_ok P ok s"
  shows "\<exists>s'. add_edges P es s ev = Some (s', ev @ map (\<lambda>(a, b, e). EdgeAdded a b e)
      (filter (\<lambda>(a, b, e). get_node P s a \<noteq> None \<and> get_node P s b \<noteq> None) es)) \<and>
    graph_ok P ok s' \<and> unstamped P s' = unstamped P s"
  using assms
proof (induction es arbitrary: s ev)
  case (Cons x es)
  obtain a b e where x: "x = (a, b, e)" by (cases x) auto
  note contains = contains_get_node [OF graph_okD(1) [OF Cons.prems]]
  show ?case
  proof (cases "get_node P s a \<noteq> None \<and> get_node P s b \<noteq> None")
    case True
    from add_edge_unstamped [OF Cons.prems, of a b e] obtain r t where
      t: "add_edge P a b e s = Some (r, t)" "graph_ok P ok t" "unstamped P t = unstamped P s" by blast
    then have same: "get_node P t v = None \<longleftrightarrow> get_node P s v = None" for v by (metis unstamped_None_iff)
    from Cons.IH [OF t(2), of "ev @ [EdgeAdded a b e]"] t True show ?thesis by (auto simp: x contains same)
  next
    case False
    with Cons.IH [OF Cons.prems, of ev] show ?thesis by (auto simp: x contains)
  qed
qed auto

lemma file_ids_set:
  assumes "graph_ok P ok s"
  shows "set (file_ids same_path P path s) = {u. \<exists>n. get_node P s u = Some n \<and> same_path (nd_file_path n) path}"
    "distinct (file_ids same_path P path s)"
proof -
  have wf: "hm_wf (cg_index_map s)" using slots_okD(2) [OF graph_okD(1) [OF assms]] .
  have "u \<in> set (all_node_ids s) \<longleftrightarrow> get_node P s u \<noteq> None" for u
    using contains_get_node [OF graph_okD(1) [OF assms], of u] by (simp add: all_node_ids_def contains_node_def hm_contains_def)
  then show "set (file_ids same_path P path s) = {u. \<exists>n. get_node P s u = Some n \<and> same_path (nd_file_path n) path}"
    by (auto simp: file_ids_def split: option.splits)
  show "distinct (file_ids same_path P path s)" using wf by (simp add: file_ids_def all_node_ids_def hm_wf_def)
qed

end

end
