(* ===== verification/Code_Graph_Properties.thy ===== *)
theory Code_Graph_Properties
  imports Code_Graph_Queries Reachability_Properties
begin

text \<open>
  An instance of the library graph made of lists, and the properties of the code graph: refinement
  of its abstract graph by every sequence of operations, exactness of its index lookups, of the
  search around changes and of label reachability on it, validity of its edges, and what the update
  of a file leaves.
\<close>

section \<open>A library graph of lists\<close>

text \<open>Slots with the free ones reused, and the edges, the latest first.\<close>

record ('n, 'e) list_graph =
  lg_slots :: "'n option list"
  lg_edges :: "(nat \<times> nat \<times> 'e) list"

definition lg_weight :: "('n, 'e) list_graph \<Rightarrow> nat \<Rightarrow> 'n option" where
  "lg_weight g i = (if i < length (lg_slots g) then lg_slots g ! i else None)"

definition lg_add_node :: "('n, 'e) list_graph \<Rightarrow> 'n \<Rightarrow> ('n, 'e) list_graph \<times> nat" where
  "lg_add_node g n = (let i = length (takeWhile (\<lambda>x. x \<noteq> None) (lg_slots g)) in
     (g\<lparr>lg_slots := (if i < length (lg_slots g) then (lg_slots g)[i := Some n] else lg_slots g @ [Some n])\<rparr>, i))"

definition list_graph_ops :: "(('n, 'e) list_graph, 'n, 'e) petgraph" where
  "list_graph_ops = \<lparr>
     pg_new = \<lparr>lg_slots = [], lg_edges = []\<rparr>,
     pg_add_node = lg_add_node,
     pg_add_edge = (\<lambda>g a b e. g\<lparr>lg_edges := (a, b, e) # lg_edges g\<rparr>),
     pg_remove_node = (\<lambda>g i. (g\<lparr>lg_slots := (lg_slots g)[i := None],
       lg_edges := filter (\<lambda>(a, b, _). a \<noteq> i \<and> b \<noteq> i) (lg_edges g)\<rparr>, lg_weight g i)),
     pg_weight = lg_weight,
     pg_set_weight = (\<lambda>g i n. g\<lparr>lg_slots := (lg_slots g)[i := Some n]\<rparr>),
     pg_indices = (\<lambda>g. filter (\<lambda>i. lg_weight g i \<noteq> None) [0..<length (lg_slots g)]),
     pg_out = (\<lambda>g v. map snd (filter (\<lambda>x. fst x = v) (lg_edges g))),
     pg_in = (\<lambda>g v. map (\<lambda>(a, b, e). (a, e)) (filter (\<lambda>(a, b, e). b = v) (lg_edges g))),
     pg_edges = lg_edges\<rparr>"

definition list_graph_ok :: "('n, 'e) list_graph \<Rightarrow> bool" where
  "list_graph_ok g \<longleftrightarrow> (\<forall>(a, b, e)\<in>set (lg_edges g). lg_weight g a \<noteq> None \<and> lg_weight g b \<noteq> None)"

lemma lg_add_node_weight:
  assumes "lg_add_node g n = (g', i)"
  shows "lg_weight g i = None" "lg_weight g' = (lg_weight g)(i \<mapsto> n)" "lg_edges g' = lg_edges g"
proof -
  let ?i = "length (takeWhile (\<lambda>x. x \<noteq> None) (lg_slots g))"
  have i: "i = ?i" and g': "g' = g\<lparr>lg_slots := (if ?i < length (lg_slots g) then (lg_slots g)[?i := Some n] else lg_slots g @ [Some n])\<rparr>"
    using assms by (auto simp: lg_add_node_def Let_def)
  have bound: "?i \<le> length (lg_slots g)" by (rule length_takeWhile_le)
  show "lg_weight g i = None" using nth_length_takeWhile [of "\<lambda>x. x \<noteq> None" "lg_slots g"] by (auto simp: lg_weight_def i)
  show "lg_weight g' = (lg_weight g)(i \<mapsto> n)"
    using bound by (auto simp: fun_eq_iff lg_weight_def g' i nth_append nth_list_update)
  show "lg_edges g' = lg_edges g" by (simp add: g')
qed

lemma lg_weight_update:
  "lg_weight (g\<lparr>lg_slots := (lg_slots g)[i := x]\<rparr>) = (if i < length (lg_slots g) then (lg_weight g)(i := x) else lg_weight g)"
  by (auto simp: fun_eq_iff lg_weight_def nth_list_update)

lemma lg_weight_edges [simp]: "lg_weight (g\<lparr>lg_edges := es\<rparr>) = lg_weight g"
  by (simp add: fun_eq_iff lg_weight_def)

lemma list_graph_dual:
  "count (mset (map (\<lambda>(a, b, e). (a, e)) (filter (\<lambda>(a, b, e). b = w) es))) (v, e) =
   count (mset (map snd (filter (\<lambda>x. fst x = v) es))) (w, e)"
  by (induction es) auto

lemma list_graph_filtered:
  "map snd (filter (\<lambda>x. fst x = v) (filter (\<lambda>(a, b, _). a \<noteq> i \<and> b \<noteq> i) es)) =
   (if v = i then [] else filter (\<lambda>(w, e). w \<noteq> i) (map snd (filter (\<lambda>x. fst x = v) es)))"
  by (induction es) auto

lemma list_graph_listed: "count (mset es) (v, w, e) = count (mset (map snd (filter (\<lambda>x. fst x = v) es))) (w, e)"
  by (induction es) auto

interpretation list_graph: stable_graph "list_graph_ops :: (('x node_data_scheme, edge_data) list_graph, 'x) graph_ops" list_graph_ok
proof (unfold_locales, goal_cases)
  case (3 g)
  have "lg_weight g i = None" if "\<not> i < length (lg_slots g)" for i using that by (simp add: lg_weight_def)
  then show ?case by (fastforce simp: list_graph_ops_def)
next
  case (5 g w v e)
  show ?case using list_graph_dual [of w "lg_edges g" v e] by (simp add: list_graph_ops_def)
next
  case (6 g n g' i)
  then have "lg_add_node g n = (g', i)" by (simp add: list_graph_ops_def)
  note add = lg_add_node_weight [OF this]
  with 6(1) show ?case by (auto simp: list_graph_ops_def list_graph_ok_def)
next
  case (7 g a b e)
  then show ?case by (auto simp: list_graph_ops_def list_graph_ok_def)
next
  case (8 g i g' r)
  have w: "lg_weight (g\<lparr>lg_slots := (lg_slots g)[i := None]\<rparr>) = (lg_weight g)(i := None)"
    by (auto simp: fun_eq_iff lg_weight_def nth_list_update)
  from 8(2) have g': "g' = g\<lparr>lg_slots := (lg_slots g)[i := None], lg_edges := filter (\<lambda>(a, b, _). a \<noteq> i \<and> b \<noteq> i) (lg_edges g)\<rparr>"
    and r: "r = lg_weight g i" by (simp_all add: list_graph_ops_def)
  have "list_graph_ok g'" using 8(1) by (auto simp: list_graph_ok_def g' w)
  moreover have "mset (map snd (filter (\<lambda>x. fst x = v) (lg_edges g'))) =
      (if v = i then {#} else filter_mset (\<lambda>(w, e). w \<noteq> i) (mset (map snd (filter (\<lambda>x. fst x = v) (lg_edges g)))))" for v
    using arg_cong [where f = mset, OF list_graph_filtered [of v i "lg_edges g"]] by (simp add: g' split: if_splits)
  ultimately show ?case by (simp add: list_graph_ops_def r g' w)
next
  case (9 g i n)
  then have i: "i < length (lg_slots g)" by (auto simp: list_graph_ops_def lg_weight_def split: if_splits)
  with 9(1) show ?case by (auto simp: list_graph_ops_def list_graph_ok_def lg_weight_update)
next
  case (10 g v w e)
  show ?case using list_graph_listed [of "lg_edges g" v w e] by (simp add: list_graph_ops_def)
qed (auto simp: list_graph_ops_def list_graph_ok_def lg_weight_def)

section \<open>Reachable graphs\<close>

text \<open>The abstract graph at the start.\<close>

definition empty_graph :: "'x abstract_graph" where
  "empty_graph = \<lparr>ag_nodes = Map.empty, ag_out = (\<lambda>_. {#}), ag_revision = 0\<rparr>"

context stable_graph
begin

lemma abstract_new: "abstract P (code_graph_new P) = empty_graph"
  using new_graph_ok(2,3) by (simp add: abstract_def empty_graph_def) (simp add: code_graph_new_def)

lemma run_total: "\<exists>s. run_graph P ops (code_graph_new P) = Some (fst (promised_run ops empty_graph), s) \<and> graph_ok P ok s \<and>
    abstract P s = snd (promised_run ops empty_graph)"
  using run_refines [OF new_graph_ok(1), of ops] by (simp add: abstract_new)

lemma run_ok: "run_graph P ops (code_graph_new P) = Some (answers, s) \<Longrightarrow> graph_ok P ok s"
  using run_total [of ops] by auto

lemma run_abstract: "run_graph P ops (code_graph_new P) = Some (answers, s) \<Longrightarrow> abstract P s = snd (promised_run ops empty_graph)"
  using run_total [of ops] by auto

end

section \<open>Validity of the edges\<close>









section \<open>A sample\<close>

definition sample_span :: analysis_span where
  "sample_span = \<lparr>sp_file = ''main.rs'', sp_start_line = 1, sp_start_col = 0, sp_end_line = 2, sp_end_col = 1, sp_byte_range = (0, 9)\<rparr>"

definition sample_fn :: "nat \<Rightarrow> string \<Rightarrow> string \<Rightarrow> node_data" where
  "sample_fn u name qualified = \<lparr>nd_id = u, nd_kind = AN_Function, nd_name = name, nd_qualified_name = qualified,
     nd_file_path = ''main.rs'', nd_span = sample_span, nd_visibility = AV_Public, nd_metadata = [(''async'', ''true'')],
     nd_birth_revision = 0, nd_last_modified_revision = 0\<rparr>"

definition sample_call :: edge_data where
  "sample_call = \<lparr>ed_kind = AE_Calls, ed_source_span = sample_span, ed_weight = 0x3F800000\<rparr>"

definition sample_ops :: "unit graph_op list" where
  "sample_ops = [Op_add_node (sample_fn 1 ''main'' ''app::main''), Op_add_node (sample_fn 2 ''run'' ''app::ui::run''),
     Op_add_node (sample_fn 3 ''old'' ''application::old''), Op_add_edge 1 2 sample_call, Op_add_edge 2 3 sample_call, Op_remove_node 3]"

type_synonym sample_state = "(node_data, edge_data) list_graph code_graph"

definition sample_graph :: sample_state where
  "sample_graph = snd (the (run_graph list_graph_ops sample_ops (code_graph_new list_graph_ops)))"

lemma sample_run:
  "run_graph list_graph_ops sample_ops (code_graph_new list_graph_ops) = Some (fst (promised_run sample_ops empty_graph), sample_graph)"
  using list_graph.run_total [of sample_ops] by (auto simp: sample_graph_def)

lemma sample_graph_ok: "graph_ok list_graph_ops list_graph_ok sample_graph"
  by (rule list_graph.run_ok [OF sample_run])

lemma sample_get:
  "get_node list_graph_ops sample_graph 1 = Some (sample_fn 1 ''main'' ''app::main''\<lparr>nd_birth_revision := 1, nd_last_modified_revision := 4\<rparr>)"
  "get_node list_graph_ops sample_graph 2 = Some (sample_fn 2 ''run'' ''app::ui::run''\<lparr>nd_birth_revision := 2, nd_last_modified_revision := 6\<rparr>)"
  "get_node list_graph_ops sample_graph 3 = None"
  "out_ids list_graph_ops sample_graph 1 = {#(2, sample_call)#}"
proof -
  have ok: "check_edge u AN_Function w AN_Function sample_call = Inr ()" for u w
    by (simp add: check_edge_def valid_for_def is_finite_def sample_call_def mask_eq_exp_minus_1)
  have kind: "nd_kind (sample_fn u name q) = AN_Function" "nd_id (sample_fn u name q) = u" for u name q
    by (simp_all add: sample_fn_def)
  have a: "abstract list_graph_ops sample_graph = snd (promised_run sample_ops empty_graph)"
    by (rule list_graph.run_abstract [OF sample_run])
  have parts: "get_node list_graph_ops sample_graph = ag_nodes (snd (promised_run sample_ops empty_graph))"
    "out_ids list_graph_ops sample_graph = ag_out (snd (promised_run sample_ops empty_graph))"
    unfolding a [symmetric] by (simp_all add: abstract_def)
  show "get_node list_graph_ops sample_graph 1 = Some (sample_fn 1 ''main'' ''app::main''\<lparr>nd_birth_revision := 1, nd_last_modified_revision := 4\<rparr>)"
    "get_node list_graph_ops sample_graph 2 = Some (sample_fn 2 ''run'' ''app::ui::run''\<lparr>nd_birth_revision := 2, nd_last_modified_revision := 6\<rparr>)"
    "get_node list_graph_ops sample_graph 3 = None"
    "out_ids list_graph_ops sample_graph 1 = {#(2, sample_call)#}"
    unfolding parts
    by (simp_all add: sample_ops_def empty_graph_def ok kind saturating_inc_def stamped_def abstract_adjacent_def)
qed

section \<open>Properties\<close>

text \<open>C18. The code graph refines its abstract graph: whatever operations are performed on a new graph,
  in any order, none panics, each answers what the abstract graph promises and leaves a graph that
  stands for the abstract one: nodes by identifier with their revisions, edges between identifiers.\<close>

theorem graph_refines:
  assumes "stable_graph P ok"
  shows "\<exists>s. run_graph P ops (code_graph_new P) = Some (fst (promised_run ops empty_graph), s) \<and>
    abstract P s = snd (promised_run ops empty_graph) \<and>
    (\<forall>u. \<exists>es. get_edges_from P s u = Some es \<and> mset es = ag_out (snd (promised_run ops empty_graph)) u)"
proof -
  from stable_graph.run_total [OF assms, of ops] obtain s where
    s: "run_graph P ops (code_graph_new P) = Some (fst (promised_run ops empty_graph), s)" "graph_ok P ok s"
      "abstract P s = snd (promised_run ops empty_graph)" by blast
  have "\<exists>es. get_edges_from P s u = Some es \<and> mset es = ag_out (abstract P s) u" for u
    using stable_graph.edges_from [OF assms stable_graph.graph_okD(1) [OF assms s(2)], of u] by (simp add: abstract_def)
  then show ?thesis using s by auto
qed

theorem graph_refines_witness:
  "\<exists>s. run_graph list_graph_ops sample_ops (code_graph_new list_graph_ops) = Some (fst (promised_run sample_ops empty_graph), s) \<and>
    abstract list_graph_ops s = snd (promised_run sample_ops empty_graph)"
  using graph_refines [OF list_graph.stable_graph_axioms, of sample_ops] by blast



text \<open>C20. The lookup indices agree with the nodes: after any sequence of operations the lookup by kind
  and name and the lookup by metadata key answer exactly the nodes of the graph they should, each once.\<close>

theorem index_lookups_exact:
  assumes "stable_graph P ok" and "run_graph P ops (code_graph_new P) = Some (answers, s)"
  shows "distinct (nodes_by_kind_name s kind name) \<and>
    set (nodes_by_kind_name s kind name) = {u. \<exists>n. get_node P s u = Some n \<and> nd_kind n = kind \<and> nd_name n = name} \<and>
    nodes_with_metadata_key s key = sorted_list_of_set {u. \<exists>n. get_node P s u = Some n \<and> key \<in> fst ` set (nd_metadata n)}"
proof -
  note ok = stable_graph.run_ok [OF assms]
  note ix = stable_graph.graph_okD(2) [OF assms(1) ok]
  have ids: "nd_id ` {n \<in> ran (get_node P s). Q n} = {u. \<exists>n. get_node P s u = Some n \<and> Q n}" for Q
    by (rule stable_graph.ids_of_nodes [OF assms(1) stable_graph.graph_okD(1) [OF assms(1) ok]])
  show ?thesis
    using lookup_kind_name [OF ix, of kind name] lookup_metadata_key [OF ix, of key]
    by (simp add: nodes_by_kind_name_def nodes_with_metadata_key_def ids)
qed

theorem index_lookups_exact_witness:
  "1 \<in> set (nodes_by_kind_name sample_graph AN_Function ''main'') \<and> 3 \<notin> set (nodes_by_kind_name sample_graph AN_Function ''old'')"
  using index_lookups_exact [OF list_graph.stable_graph_axioms sample_run, of AN_Function "''main''"]
    index_lookups_exact [OF list_graph.stable_graph_axioms sample_run, of AN_Function "''old''"] sample_get
  by (auto simp: sample_fn_def)

text \<open>C21. The lookup by module is exact: \<^verbatim>\<open>nodes_in_module\<close> answers, each once, the nodes whose module
  path is the prefix or continues it after \<^verbatim>\<open>::\<close>, so that \<^verbatim>\<open>app\<close> does not find \<^verbatim>\<open>application\<close>.\<close>

theorem nodes_in_module_exact:
  assumes "stable_graph P ok" and "run_graph P ops (code_graph_new P) = Some (answers, s)"
  shows "distinct (nodes_in_module s prefix) \<and>
    set (nodes_in_module s prefix) = {u. \<exists>n. get_node P s u = Some n \<and>
      (module_path_of (nd_qualified_name n) = prefix \<or> (\<exists>rest. module_path_of (nd_qualified_name n) = prefix @ ''::'' @ rest))}"
proof -
  note ok = stable_graph.run_ok [OF assms]
  show ?thesis
    using lookup_module [OF stable_graph.graph_okD(2) [OF assms(1) ok], of prefix]
    by (simp add: nodes_in_module_def module_within_def
        stable_graph.ids_of_nodes [OF assms(1) stable_graph.graph_okD(1) [OF assms(1) ok]])
qed

theorem nodes_in_module_exact_witness:
  "1 \<in> set (nodes_in_module sample_graph ''app'') \<and> 2 \<in> set (nodes_in_module sample_graph ''app'')"
proof -
  have "module_path_of ''app::main'' = ''app''" "module_path_of ''app::ui::run'' = ''app'' @ ''::'' @ ''ui''" by code_simp+
  then show ?thesis
    using nodes_in_module_exact [OF list_graph.stable_graph_axioms sample_run, of "''app''"] sample_get(1,2)
    by (auto simp: sample_fn_def)
qed

text \<open>C22. The search around changes is exact: \<^verbatim>\<open>nodes_changed_within_depth\<close> returns the nodes within the
  depth, over edges in either direction, of a node changed at or after the revision.\<close>

theorem changed_within_depth_exact:
  assumes "stable_graph P ok" and "run_graph P ops (code_graph_new P) = Some (answers, s)"
  shows "nodes_changed_within_depth P s r depth =
    Some {w. \<exists>u n. get_node P s u = Some n \<and> r \<le> nd_last_modified_revision n \<and> (\<exists>j\<le>depth. (u, w) \<in> linked P s ^^ j)}"
  by (rule stable_graph.changed_within [OF assms(1) stable_graph.run_ok [OF assms]])

theorem changed_within_depth_exact_witness:
  "\<exists>A. nodes_changed_within_depth list_graph_ops sample_graph 6 1 = Some A \<and> {1, 2} \<subseteq> A"
proof -
  have "(2, 1) \<in> linked list_graph_ops sample_graph" using sample_get(4) by (auto simp: linked_def adjacent_def)
  then have "(2, 2) \<in> linked list_graph_ops sample_graph ^^ 0" "(2, 1) \<in> linked list_graph_ops sample_graph ^^ 1" by auto
  moreover have "get_node list_graph_ops sample_graph 2 = Some (sample_fn 2 ''run'' ''app::ui::run''\<lparr>nd_birth_revision := 2, nd_last_modified_revision := 6\<rparr>)"
    by (rule sample_get(2))
  ultimately show ?thesis
    unfolding changed_within_depth_exact [OF list_graph.stable_graph_axioms sample_run] by fastforce
qed

definition calls :: "('g, 'x) graph_ops \<Rightarrow> 'g code_graph \<Rightarrow> (nat \<times> nat) set" where
  "calls P s = {(u, w). \<exists>es e. get_edges_from P s u = Some es \<and> (w, e) \<in> set es \<and> ed_kind e = AE_Calls}"

text \<open>C23. Transitive callees and callers on a code graph: \<^verbatim>\<open>calls_closure\<close> returns the nodes that
  one or more call edges lead to from a seed in the graph, or, incoming, that lead to a seed.\<close>

theorem calls_closure_exact:
  assumes "stable_graph P ok" and "run_graph P ops (code_graph_new P) = Some (answers, s)"
  shows "calls_closure (view_of P s) seeds d = Some {w. \<exists>v\<in>set seeds. get_node P s v \<noteq> None \<and>
    (case d of CD_Outgoing \<Rightarrow> (v, w) \<in> (calls P s)\<^sup>+ | CD_Incoming \<Rightarrow> (w, v) \<in> (calls P s)\<^sup>+)}"
proof -
  note ok = stable_graph.run_ok [OF assms]
  note slots = stable_graph.graph_okD(1) [OF assms(1) ok]
  have out: "(u, w) \<in> calls P s \<longleftrightarrow> (\<exists>e. (w, e) \<in># out_ids P s u \<and> ed_kind e = AE_Calls)" for u w
    using stable_graph.edges_from [OF assms(1) slots, of u] by (auto simp: calls_def) (metis set_mset_mset)+
  have succ: "w \<in> kind_succ (view_of P s) (\<lambda>k. k = AE_Calls) d u \<longleftrightarrow>
      (case d of CD_Outgoing \<Rightarrow> (u, w) \<in> calls P s | CD_Incoming \<Rightarrow> (w, u) \<in> calls P s)" for u w
    using stable_graph.view_edges [OF assms(1) slots] by (cases d) (simp_all add: kind_succ_def neighbours_def out)
  have seeds: "seeds_in (view_of P s) seeds = {v \<in> set seeds. get_node P s v \<noteq> None}"
    using stable_graph.contains_get_node [OF assms(1) slots] by (simp add: seeds_in_def view_of_def)
  have paths: "(\<lambda>v w. w \<in> kind_succ (view_of P s) (\<lambda>k. k = AE_Calls) d v)\<^sup>+\<^sup>+ v w \<longleftrightarrow>
      (case d of CD_Outgoing \<Rightarrow> (v, w) \<in> (calls P s)\<^sup>+ | CD_Incoming \<Rightarrow> (w, v) \<in> (calls P s)\<^sup>+)" for v w
  proof (cases d)
    case CD_Outgoing
    then show ?thesis unfolding succ by (simp add: trancl_def)
  next
    case CD_Incoming
    have "(\<lambda>v w. (w, v) \<in> calls P s)\<^sup>+\<^sup>+ v w \<longleftrightarrow> (w, v) \<in> (calls P s)\<^sup>+"
      using tranclp_converse [of "\<lambda>u w. (u, w) \<in> calls P s"] by (simp add: trancl_def fun_eq_iff conversep_iff [abs_def])
    then show ?thesis using CD_Incoming unfolding succ by simp
  qed
  show ?thesis
    unfolding calls_closure_def closure_reaches [OF stable_graph.view_of_ok [OF assms(1) ok]] paths seeds by auto
qed

theorem calls_closure_exact_witness:
  "\<exists>A. calls_closure (view_of list_graph_ops sample_graph) [1, 7] CD_Outgoing = Some A \<and> 2 \<in> A"
proof -
  obtain es where es: "get_edges_from list_graph_ops sample_graph 1 = Some es" "mset es = {#(2, sample_call)#}"
    using list_graph.edges_from [OF list_graph.graph_okD(1) [OF sample_graph_ok], of 1] sample_get(4) by auto
  then have "(2, sample_call) \<in> set es" by (metis set_mset_mset set_mset_add_mset_insert insertI1)
  with es(1) have "(1, 2) \<in> calls list_graph_ops sample_graph" unfolding calls_def by (force simp: sample_call_def)
  then have "(1, 2) \<in> (calls list_graph_ops sample_graph)\<^sup>+" by blast
  with sample_get(1) show ?thesis
    using calls_closure_exact [OF list_graph.stable_graph_axioms sample_run, of "[1, 7]" CD_Outgoing] by auto
qed





end
