(* ===== verification/Query_Result.thy ===== *)
theory Query_Result
  imports Code_Graph
begin

text \<open>
  The result of a query on the analysis graph, its configuration and its errors
  (\<^verbatim>\<open>dsl/syntax/executor/mod.rs\<close>).
\<close>

record query_config =
  qc_max_tokens :: nat
  qc_max_nodes :: nat

definition query_config_default :: query_config where
  "query_config_default = \<lparr>qc_max_tokens = 4000, qc_max_nodes = 50\<rparr>"

record query_result =
  qr_nodes :: "nat list"
  qr_edges :: "(nat \<times> nat \<times> string) list"
  qr_was_truncated :: bool
  qr_total_before_truncation :: nat
  qr_cycles_detected :: "nat list"
  qr_metadata :: "string list"

definition query_result_default :: query_result where
  "query_result_default = \<lparr>qr_nodes = [], qr_edges = [], qr_was_truncated = False,
     qr_total_before_truncation = 0, qr_cycles_detected = [], qr_metadata = []\<rparr>"

fun handle_prefix :: "analysis_node_kind \<Rightarrow> string" where
  "handle_prefix AN_Function = ''fn''"
| "handle_prefix AN_Struct = ''struct''"
| "handle_prefix AN_Enum = ''enum''"
| "handle_prefix AN_Trait = ''trait''"
| "handle_prefix AN_Module = ''mod''"
| "handle_prefix AN_EnumVariant = ''variant''"
| "handle_prefix AN_Field = ''field''"
| "handle_prefix AN_TypeAlias = ''type''"
| "handle_prefix AN_Constant = ''const''"
| "handle_prefix AN_Interface = ''interface''"

definition handles :: "('g, 'x) graph_ops \<Rightarrow> 'g code_graph \<Rightarrow> query_result \<Rightarrow> string list" where
  "handles P s r = List.map_filter (\<lambda>u. map_option
     (\<lambda>node. handle_prefix (nd_kind node) @ '':'' @ nd_qualified_name node) (get_node P s u)) (qr_nodes r)"

end
