(* ===== verification/Event_Log.thy ===== *)
theory Event_Log
  imports Query_Result
begin

text \<open>
  The event log of the analysis crate (\<^verbatim>\<open>persistence.rs\<close>) and its query history (\<^verbatim>\<open>history.rs\<close>):
  versioned entries, appending and undoing, the lookups by time and by identifier, the chain of
  causes of an event, and the ring of recent queries. The clock is an argument of each operation
  that reads it; an event identifier has 64 bits and wraps around.
\<close>

section \<open>Entries and versions\<close>

record edit_reason =
  er_description :: string
  er_original_context :: string
  er_parent_event_id :: "u64 option"
  er_cascade_depth :: "8 word"

record 'x event_entry =
  ee_id :: u64
  ee_timestamp :: u64
  ee_event :: "'x graph_event"
  ee_reason :: "edit_reason option"

record 'x versioned_event =
  ve_schema_version :: u32
  ve_event :: "'x event_entry"

datatype persistence_error = SchemaMismatch (expected: u32) (found: u32)

definition PERSISTENCE_SCHEMA_VERSION :: u32 where
  "PERSISTENCE_SCHEMA_VERSION = 2"

definition migrate_event :: "'x event_entry \<Rightarrow> u32 \<Rightarrow> (persistence_error, 'x event_entry) result" where
  "migrate_event entry from_version =
     (if from_version = PERSISTENCE_SCHEMA_VERSION then Inr entry
      else if from_version = 1 then Inr entry
      else Inl (SchemaMismatch PERSISTENCE_SCHEMA_VERSION from_version))"

definition wrap :: "'x event_entry \<Rightarrow> 'x versioned_event" where
  "wrap event = \<lparr>ve_schema_version = PERSISTENCE_SCHEMA_VERSION, ve_event = event\<rparr>"

definition unwrap_verified :: "'x versioned_event \<Rightarrow> (persistence_error, 'x event_entry) result" where
  "unwrap_verified v =
     (if ve_schema_version v = PERSISTENCE_SCHEMA_VERSION then Inr (ve_event v)
      else migrate_event (ve_event v) (ve_schema_version v))"

definition needs_migration :: "'x versioned_event \<Rightarrow> bool" where
  "needs_migration v \<longleftrightarrow> ve_schema_version v \<noteq> PERSISTENCE_SCHEMA_VERSION"

section \<open>The log\<close>

record 'x event_log =
  el_entries :: "'x event_entry list"
  el_next_id :: u64
  el_snapshot_threshold :: nat

definition event_log_new :: "'x event_log" where
  "event_log_new = \<lparr>el_entries = [], el_next_id = 1, el_snapshot_threshold = 100\<rparr>"

definition log_append :: "u64 \<Rightarrow> 'x graph_event \<Rightarrow> edit_reason option \<Rightarrow> 'x event_log \<Rightarrow> u64 \<times> 'x event_log" where
  "log_append now_ms event reason s =
     (let i = el_next_id s in
      (i, s\<lparr>el_next_id := i + 1,
            el_entries := el_entries s @ [\<lparr>ee_id = i, ee_timestamp = now_ms, ee_event = event, ee_reason = reason\<rparr>]\<rparr>))"

text \<open>\<^verbatim>\<open>slice::partition_point\<close>, a binary search: half of the range is dropped at each pass.\<close>

function partition_search :: "('a \<Rightarrow> bool) \<Rightarrow> 'a list \<Rightarrow> nat \<Rightarrow> nat \<Rightarrow> nat" where
  "partition_search p xs base len =
     (if len \<le> 1 then base
      else let half = len div 2 in
        partition_search p xs (if p (xs ! (base + half)) then base + half else base) (len - half))"
  by pat_completeness auto
termination by (relation "measure (\<lambda>(p, xs, base, len). len)") auto

declare partition_search.simps [simp del]

definition partition_point :: "('a \<Rightarrow> bool) \<Rightarrow> 'a list \<Rightarrow> nat" where
  "partition_point p xs =
     (if xs = [] then 0
      else let base = partition_search p xs 0 (length xs) in if p (xs ! base) then Suc base else base)"

definition events_since :: "'x event_log \<Rightarrow> u64 \<Rightarrow> 'x event_entry list" where
  "events_since s timestamp = drop (partition_point (\<lambda>e. ee_timestamp e < timestamp) (el_entries s)) (el_entries s)"

definition log_undo :: "'x event_log \<Rightarrow> 'x event_entry option \<times> 'x event_log" where
  "log_undo s = (if el_entries s = [] then (None, s)
     else (Some (last (el_entries s)), s\<lparr>el_entries := butlast (el_entries s)\<rparr>))"

definition should_snapshot :: "'x event_log \<Rightarrow> bool" where
  "should_snapshot s \<longleftrightarrow> el_snapshot_threshold s \<le> length (el_entries s)"

definition get_event :: "'x event_log \<Rightarrow> u64 \<Rightarrow> 'x event_entry option" where
  "get_event s i = find (\<lambda>e. ee_id e = i) (el_entries s)"

text \<open>\<^verbatim>\<open>trace_cascade\<close>: None when the loop runs forever.\<close>

definition parent_of :: "'x event_entry \<Rightarrow> u64 option" where
  "parent_of e = Option.bind (ee_reason e) er_parent_event_id"

definition cascade_pass :: "'x event_log \<Rightarrow> 'x event_entry list \<times> u64 option \<Rightarrow> 'x event_entry list \<times> u64 option" where
  "cascade_pass s c = (case snd c of
     None \<Rightarrow> c
   | Some i \<Rightarrow> (case get_event s i of
       Some entry \<Rightarrow> (fst c @ [entry], parent_of entry)
     | None \<Rightarrow> (fst c, None)))"

definition trace_cascade :: "'x event_log \<Rightarrow> u64 \<Rightarrow> 'x event_entry list option" where
  "trace_cascade s event_id = map_option fst (while_option (\<lambda>c. snd c \<noteq> None) (cascade_pass s) ([], Some event_id))"

section \<open>The query history\<close>

record query_record =
  hr_query_text :: string
  hr_result_node_count :: nat
  hr_was_truncated :: bool
  hr_cycles_detected :: nat
  hr_timestamp_ms :: u64

record graph_history =
  gh_records :: "query_record list"
  gh_max_records :: nat

definition history_new :: "nat \<Rightarrow> graph_history" where
  "history_new max_records = \<lparr>gh_records = [], gh_max_records = max_records\<rparr>"

definition history_default :: graph_history where
  "history_default = history_new 50"

definition query_record_of :: "u64 \<Rightarrow> string \<Rightarrow> query_result \<Rightarrow> query_record" where
  "query_record_of now_ms query_text r =
     \<lparr>hr_query_text = query_text, hr_result_node_count = length (qr_nodes r), hr_was_truncated = qr_was_truncated r,
      hr_cycles_detected = length (qr_cycles_detected r), hr_timestamp_ms = now_ms\<rparr>"

definition history_record :: "u64 \<Rightarrow> string \<Rightarrow> query_result \<Rightarrow> graph_history \<Rightarrow> graph_history" where
  "history_record now_ms query_text r h =
     (let records = (if gh_max_records h \<le> length (gh_records h) then tl (gh_records h) else gh_records h)
      in h\<lparr>gh_records := records @ [query_record_of now_ms query_text r]\<rparr>)"

definition history_last_n :: "graph_history \<Rightarrow> nat \<Rightarrow> query_record list" where
  "history_last_n h n = take n (rev (gh_records h))"

definition history_clear :: "graph_history \<Rightarrow> graph_history" where
  "history_clear h = h\<lparr>gh_records := []\<rparr>"

section \<open>The binary search\<close>

text \<open>On a list split by the test, the search finds the split.\<close>

definition split_at :: "('a \<Rightarrow> bool) \<Rightarrow> 'a list \<Rightarrow> nat \<Rightarrow> bool" where
  "split_at p xs k \<longleftrightarrow> k \<le> length xs \<and> (\<forall>i<k. p (xs ! i)) \<and> (\<forall>i. k \<le> i \<longrightarrow> i < length xs \<longrightarrow> \<not> p (xs ! i))"

lemma partition_search_split:
  assumes "split_at p xs k" and "0 < len" and "base + len \<le> length xs" and "base < k \<or> base = 0" and "k \<le> base + len"
  shows "partition_search p xs base len < length xs \<and>
    (partition_search p xs base len < k \<or> partition_search p xs base len = 0) \<and> k \<le> Suc (partition_search p xs base len)"
  using assms
proof (induction p xs base len rule: partition_search.induct)
  case (1 p xs base len)
  show ?case
  proof (cases "len \<le> 1")
    case False
    let ?half = "len div 2"
    let ?base = "if p (xs ! (base + ?half)) then base + ?half else base"
    have half: "0 < ?half" "?half < len" using False by auto
    have mid: "base + ?half < length xs" using half "1.prems"(3) by linarith
    then have test: "p (xs ! (base + ?half)) \<longleftrightarrow> base + ?half < k" using "1.prems"(1) unfolding split_at_def by (meson not_le_imp_less)
    have "partition_search p xs ?base (len - ?half) < length xs \<and>
        (partition_search p xs ?base (len - ?half) < k \<or> partition_search p xs ?base (len - ?half) = 0) \<and>
        k \<le> Suc (partition_search p xs ?base (len - ?half))"
    proof (rule "1.IH" [OF False refl "1.prems"(1)])
      show "0 < len - ?half" using half by simp
      show "?base + (len - ?half) \<le> length xs" using "1.prems"(3) half by auto
      show "?base < k \<or> ?base = 0" using test "1.prems"(4) by auto
      show "k \<le> ?base + (len - ?half)" using test "1.prems"(5) half by auto
    qed
    then show ?thesis using False by (simp add: partition_search.simps [of p xs base len] Let_def)
  next
    case True
    with "1.prems" show ?thesis by (auto simp: partition_search.simps [of p xs base len])
  qed
qed

lemma partition_point_split:
  assumes "split_at p xs k"
  shows "partition_point p xs = k"
proof (cases "xs = []")
  case True
  with assms show ?thesis by (simp add: partition_point_def split_at_def)
next
  case False
  let ?b = "partition_search p xs 0 (length xs)"
  have b: "?b < length xs" "?b < k \<or> ?b = 0" "k \<le> Suc ?b"
    using partition_search_split [OF assms, of "length xs" 0] False assms by (auto simp: split_at_def)
  then have "p (xs ! ?b) \<longleftrightarrow> ?b < k" using assms unfolding split_at_def by (meson not_le_imp_less)
  with b False show ?thesis by (auto simp: partition_point_def Let_def)
qed

lemma sorted_split:
  assumes "sorted (map f xs)"
  shows "split_at (\<lambda>x. f x < t) xs (length (takeWhile (\<lambda>x. f x < t) xs))"
  unfolding split_at_def
proof (intro conjI allI impI)
  let ?k = "length (takeWhile (\<lambda>x. f x < t) xs)"
  show "?k \<le> length xs" by (rule length_takeWhile_le)
  show "f (xs ! i) < t" if "i < ?k" for i
    using nth_mem [OF that] that by (metis set_takeWhileD takeWhile_nth)
  show "\<not> f (xs ! i) < t" if "?k \<le> i" "i < length xs" for i
  proof -
    have "\<not> f (xs ! ?k) < t" using nth_length_takeWhile [of "\<lambda>x. f x < t" xs] that by linarith
    moreover have "f (xs ! ?k) \<le> f (xs ! i)" using sorted_nth_mono [OF assms, of ?k i] that by simp
    ultimately show ?thesis by order
  qed
qed

section \<open>The invariant of the log\<close>

text \<open>Identifiers grow along the log and stay below the next one.\<close>

definition log_ok :: "'x event_log \<Rightarrow> bool" where
  "log_ok s \<longleftrightarrow> sorted_wrt (<) (map ee_id (el_entries s)) \<and> (\<forall>e\<in>set (el_entries s). ee_id e < el_next_id s)"

lemma log_ok_distinct: "log_ok s \<Longrightarrow> distinct (map ee_id (el_entries s))"
  by (simp add: log_ok_def strict_sorted_iff)

lemma get_event_iff: "log_ok s \<Longrightarrow> get_event s i = Some e \<longleftrightarrow> e \<in> set (el_entries s) \<and> ee_id e = i"
  unfolding get_event_def using find_code [OF log_ok_distinct, of s e] find_Some_holds by fastforce

lemma log_ok_new: "log_ok event_log_new"
  by (simp add: log_ok_def event_log_new_def)

lemma word_less_inc: "(r :: 'a::len word) \<noteq> - 1 \<Longrightarrow> r < r + 1"
proof -
  assume "r \<noteq> - 1"
  then have "1 + r \<noteq> 0" by (metis add_eq_0_iff minus_minus)
  then have "unat (r + 1) = Suc (unat r)" using unatSuc [of r] by (simp add: add.commute)
  then show ?thesis by (simp add: word_less_nat_alt)
qed

lemma log_ok_append: "log_ok s \<Longrightarrow> el_next_id s \<noteq> - 1 \<Longrightarrow> log_ok (snd (log_append now ev reason s))"
  using word_less_inc [of "el_next_id s"] by (auto simp: log_ok_def log_append_def Let_def sorted_wrt_append intro: less_trans)

lemma log_ok_undo: "log_ok s \<Longrightarrow> log_ok (snd (log_undo s))"
  by (cases "el_entries s" rule: rev_cases) (auto simp: log_ok_def log_undo_def sorted_wrt_append)

section \<open>The chain of causes\<close>

text \<open>Every cause was recorded before its effect: the identifier of a parent is one the log had given.\<close>

definition causes_ok :: "'x event_log \<Rightarrow> bool" where
  "causes_ok s \<longleftrightarrow> (\<forall>e\<in>set (el_entries s). \<forall>p. parent_of e = Some p \<longrightarrow> p < ee_id e)"

text \<open>A list of entries that starts at an identifier, follows the parents, and ends at an entry whose
  parent is not in the log.\<close>

fun cause_chain :: "'x event_log \<Rightarrow> u64 option \<Rightarrow> 'x event_entry list \<Rightarrow> bool" where
  "cause_chain s c [] = (case c of None \<Rightarrow> True | Some i \<Rightarrow> get_event s i = None)"
| "cause_chain s c (e # es) = (c = Some (ee_id e) \<and> get_event s (ee_id e) = Some e \<and> cause_chain s (parent_of e) es)"

lemma cascade_from:
  assumes "log_ok s" and "causes_ok s"
  shows "\<exists>es. while_option (\<lambda>c. snd c \<noteq> None) (cascade_pass s) (chain, c) = Some (chain @ es, None) \<and> cause_chain s c es"
proof (induction "case c of None \<Rightarrow> 0 | Some i \<Rightarrow> Suc (unat i)" arbitrary: c chain rule: less_induct)
  case less
  show ?case
  proof (cases c)
    case None
    then show ?thesis by (simp add: while_option_unfold)
  next
    case (Some i)
    show ?thesis
    proof (cases "get_event s i")
      case None
      then have "cascade_pass s (chain, c) = (chain, None)" by (simp add: cascade_pass_def Some)
      then show ?thesis using None Some
        by (intro exI [of _ "[]"]) (simp add: while_option_unfold [of _ _ "(chain, Some i)"] while_option_unfold [of _ _ "(chain, None)"])
    next
      case (Some e)
      then have e: "e \<in> set (el_entries s)" "ee_id e = i" using get_event_iff [OF assms(1)] by auto
      have pass: "cascade_pass s (chain, c) = (chain @ [e], parent_of e)"
        by (simp add: cascade_pass_def \<open>c = Some i\<close> Some)
      have "(case parent_of e of None \<Rightarrow> 0 | Some i \<Rightarrow> Suc (unat i)) < (case c of None \<Rightarrow> 0 | Some i \<Rightarrow> Suc (unat i))"
        using assms(2) e \<open>c = Some i\<close> by (auto simp: causes_ok_def word_less_nat_alt split: option.split)
      from less [OF this, of "chain @ [e]"] obtain es where
        "while_option (\<lambda>c. snd c \<noteq> None) (cascade_pass s) (chain @ [e], parent_of e) = Some ((chain @ [e]) @ es, None)"
        "cause_chain s (parent_of e) es" by blast
      then show ?thesis using pass Some e \<open>c = Some i\<close>
        by (intro exI [of _ "e # es"]) (simp add: while_option_unfold [of _ _ "(chain, Some i)"])
    qed
  qed
qed

text \<open>An event that is its own cause keeps the loop running.\<close>

lemma cascade_forever:
  assumes "get_event s i = Some e" and "parent_of e = Some i"
  shows "while_option (\<lambda>c. snd c \<noteq> None) (cascade_pass s) (chain, Some i) = None"
proof (rule ccontr)
  assume "while_option (\<lambda>c. snd c \<noteq> None) (cascade_pass s) (chain, Some i) \<noteq> None"
  then obtain t where t: "while_option (\<lambda>c. snd c \<noteq> None) (cascade_pass s) (chain, Some i) = Some t" by blast
  have "snd t = Some i"
    using while_option_rule [where P = "\<lambda>c. snd c = Some i", OF _ t] assms by (auto simp: cascade_pass_def)
  with while_option_stop [OF t] show False by simp
qed

section \<open>The ring of queries\<close>

text \<open>A sequence of queries, each with the time it was recorded at.\<close>

definition record_queries :: "(u64 \<times> string \<times> query_result) list \<Rightarrow> graph_history \<Rightarrow> graph_history" where
  "record_queries qs h = fold (\<lambda>(now, q, r). history_record now q r) qs h"

lemma history_record_kept:
  assumes h: "gh_records h = drop (length rs - max 1 m) rs" "gh_max_records h = m"
  shows "gh_records (history_record now q r h) = drop (Suc (length rs) - max 1 m) (rs @ [query_record_of now q r])"
proof (cases "m \<le> length (gh_records h)")
  case True
  then have full: "m \<le> length rs" using h(1) by simp
  have "tl (drop (length rs - max 1 m) rs) = drop (Suc (length rs - max 1 m)) rs" by (simp add: tl_drop drop_Suc)
  moreover have "rs = [] \<or> Suc (length rs - max 1 m) = Suc (length rs) - max 1 m" using full by (cases rs) auto
  ultimately show ?thesis using True h full by (cases "rs = []") (auto simp: history_record_def Let_def)
next
  case False
  then have "length rs < m" using h(1) by auto
  then show ?thesis using False h by (simp add: history_record_def Let_def max_def)
qed

lemma record_queries_kept:
  "gh_records (record_queries qs (history_new m)) =
     drop (length qs - max 1 m) (map (\<lambda>(now, q, r). query_record_of now q r) qs) \<and>
   gh_max_records (record_queries qs (history_new m)) = m"
proof (induction qs rule: rev_induct)
  case (snoc x qs)
  obtain now q r where x: "x = (now, q, r)" by (cases x)
  let ?h = "record_queries qs (history_new m)"
  have step: "record_queries (qs @ [x]) (history_new m) = history_record now q r ?h" by (simp add: record_queries_def x)
  have "gh_max_records (history_record now q r ?h) = gh_max_records ?h" by (simp add: history_record_def Let_def)
  with snoc.IH history_record_kept [of ?h "map (\<lambda>(now, q, r). query_record_of now q r) qs" m now q r]
  show ?case unfolding step by (simp add: x)
qed (simp add: record_queries_def history_new_def)

end
