(* ===== verification/Event_Properties.thy ===== *)
theory Event_Properties
  imports Event_Log
begin

text \<open>
  Properties of the event log and of the query history, for the logs the operations can build from
  a new one.
\<close>

section \<open>Runs of the log\<close>

text \<open>The operations that change a log; an appending carries the time of the clock.\<close>

datatype 'x log_op = Append_event u64 "'x graph_event" "edit_reason option" | Undo_event

fun log_step :: "'x log_op \<Rightarrow> 'x event_log \<Rightarrow> 'x event_log" where
  "log_step (Append_event now event reason) s = snd (log_append now event reason s)"
| "log_step Undo_event s = snd (log_undo s)"

definition run_log :: "'x log_op list \<Rightarrow> 'x event_log" where
  "run_log ops = fold log_step ops event_log_new"

text \<open>The times of the appendings, and a bound on their number that keeps identifiers from wrapping.\<close>

fun clock :: "'x log_op list \<Rightarrow> u64 list" where
  "clock [] = []"
| "clock (Append_event now _ _ # ops) = now # clock ops"
| "clock (Undo_event # ops) = clock ops"

lemma clock_append: "clock (xs @ ys) = clock xs @ clock ys"
  by (induction xs rule: clock.induct) simp_all

lemma run_log_snoc: "run_log (ops @ [op]) = log_step op (run_log ops)"
  by (simp add: run_log_def)

text \<open>Causes named by an appending are identifiers given before it.\<close>

fun names_given :: "'x log_op \<Rightarrow> 'x event_log \<Rightarrow> bool" where
  "names_given (Append_event _ _ reason) s = (\<forall>p. Option.bind reason er_parent_event_id = Some p \<longrightarrow> p < el_next_id s)"
| "names_given Undo_event s = True"

definition causes_given :: "'x log_op list \<Rightarrow> bool" where
  "causes_given ops \<longleftrightarrow> (\<forall>i<length ops. names_given (ops ! i) (run_log (take i ops)))"

lemma causes_given_snoc: "causes_given (ops @ [op]) \<longleftrightarrow> causes_given ops \<and> names_given op (run_log ops)"
  by (auto simp: causes_given_def nth_append less_Suc_eq)

lemma run_log_next: "length ops < 2 ^ 64 - 1 \<Longrightarrow> el_next_id (run_log ops) = of_nat (Suc (length (clock ops)))"
proof (induction ops rule: rev_induct)
  case (snoc op ops)
  then show ?case by (cases op) (simp_all add: run_log_snoc clock_append log_append_def log_undo_def Let_def)
qed (simp add: run_log_def event_log_new_def)

lemma clock_length: "length (clock ops) \<le> length ops"
  by (induction ops rule: clock.induct) simp_all

lemma run_log_ok:
  assumes "length ops < 2 ^ 64 - 1"
  shows "log_ok (run_log ops)"
  using assms
proof (induction ops rule: rev_induct)
  case Nil
  then show ?case by (simp add: run_log_def log_ok_new)
next
  case (snoc op ops)
  then have ok: "log_ok (run_log ops)" by simp
  show ?case
  proof (cases op)
    case (Append_event now event reason)
    have "Suc (length (clock ops)) < 2 ^ 64 - 1" using clock_length [of ops] snoc.prems by simp
    then have "unat (of_nat (Suc (length (clock ops))) :: u64) = Suc (length (clock ops))" "Suc (length (clock ops)) \<noteq> unat (- 1 :: u64)"
      by (simp_all only: unat_of_nat) (simp_all add: unsigned_minus_1_eq_mask mask_eq_exp_minus_1)
    then have "el_next_id (run_log ops) \<noteq> - 1" using snoc.prems run_log_next [of ops] by (metis length_append_singleton Suc_lessD)
    from log_ok_append [OF ok this] show ?thesis by (simp add: run_log_snoc Append_event)
  qed (simp add: run_log_snoc log_ok_undo [OF ok])
qed

lemma run_log_causes:
  assumes "causes_given ops"
  shows "causes_ok (run_log ops)"
  using assms
proof (induction ops rule: rev_induct)
  case Nil
  then show ?case by (simp add: run_log_def causes_ok_def event_log_new_def)
next
  case (snoc op ops)
  then have ok: "causes_ok (run_log ops)" "names_given op (run_log ops)" by (simp_all add: causes_given_snoc)
  then show ?case
    by (cases op) (auto simp: run_log_snoc causes_ok_def log_append_def log_undo_def parent_of_def Let_def dest: in_set_butlastD)
qed

lemma run_log_times:
  assumes "sorted (clock ops)"
  shows "sorted (map ee_timestamp (el_entries (run_log ops))) \<and> set (map ee_timestamp (el_entries (run_log ops))) \<subseteq> set (clock ops)"
  using assms
proof (induction ops rule: rev_induct)
  case (snoc op ops)
  then have IH: "sorted (map ee_timestamp (el_entries (run_log ops)))"
    "set (map ee_timestamp (el_entries (run_log ops))) \<subseteq> set (clock ops)" by (auto simp: clock_append sorted_append)
  show ?case
  proof (cases op)
    case (Append_event now event reason)
    then have "\<forall>t\<in>set (clock ops). t \<le> now" using snoc.prems by (simp add: clock_append sorted_append)
    with IH show ?thesis by (auto simp: run_log_snoc Append_event log_append_def Let_def sorted_append clock_append)
  next
    case Undo_event
    have "sorted (butlast (map ee_timestamp (el_entries (run_log ops))))" using IH(1) by (simp add: butlast_conv_take sorted_wrt_take)
    with IH show ?thesis
      by (auto simp: run_log_snoc Undo_event log_undo_def clock_append map_butlast dest: in_set_butlastD)
  qed
qed (simp add: run_log_def event_log_new_def)

lemma dropWhile_sorted:
  fixes t :: "'b::linorder"
  shows "sorted (map f xs) \<Longrightarrow> dropWhile (\<lambda>x. f x < t) xs = filter (\<lambda>x. t \<le> f x) xs"
  by (induction xs) (auto simp: not_less not_le intro!: filter_True [symmetric] intro: order_trans)

lemma find_last: "find q xs = None \<Longrightarrow> find q (xs @ [x]) = (if q x then Some x else None)"
  by (induction xs) (auto split: if_splits)

text \<open>Along a chain of causes identifiers decrease.\<close>

lemma cause_chain_decreasing:
  assumes "log_ok s" and "causes_ok s"
  shows "cause_chain s c es \<Longrightarrow> sorted_wrt (\<lambda>e e'. ee_id e' < ee_id e) es \<and> (\<forall>i. c = Some i \<longrightarrow> (\<forall>e\<in>set es. ee_id e \<le> i)) \<and> (c = None \<longrightarrow> es = [])"
proof (induction es arbitrary: c)
  case (Cons e es)
  then have c: "c = Some (ee_id e)" "get_event s (ee_id e) = Some e" "cause_chain s (parent_of e) es" by simp_all
  have "e \<in> set (el_entries s)" using c(2) get_event_iff [OF assms(1)] by blast
  then have less: "parent_of e = Some p \<Longrightarrow> p < ee_id e" for p using assms(2) by (auto simp: causes_ok_def)
  have "ee_id e' < ee_id e" if "e' \<in> set es" for e'
  proof (cases "parent_of e")
    case (Some p)
    then show ?thesis using Cons.IH [OF c(3)] that less [OF Some] by (auto intro: le_less_trans)
  qed (use Cons.IH [OF c(3)] that in auto)
  then show ?case using Cons.IH [OF c(3)] c(1) by (auto intro: less_imp_le)
qed (simp split: option.split)

lemma cause_chain_distinct:
  assumes "log_ok s" and "causes_ok s" and "cause_chain s c es"
  shows "distinct es"
proof -
  have "sorted_wrt (\<lambda>e e'. ee_id e' < ee_id e) es" using cause_chain_decreasing [OF assms] by blast
  then show ?thesis by (induction es) auto
qed

section \<open>Properties\<close>

text \<open>A sample log: a cause, two effects of it, and an undo.\<close>

definition effect_of :: "u64 \<Rightarrow> edit_reason option" where
  "effect_of i = Some \<lparr>er_description = ''rename'', er_original_context = ''main.rs'', er_parent_event_id = Some i, er_cascade_depth = 1\<rparr>"

definition sample_log :: "unit log_op list" where
  "sample_log = [Append_event 10 (NodeRemoved 1) None, Append_event 20 (NodeRemoved 2) (effect_of 1),
     Append_event 30 (NodeRemoved 3) (effect_of 2), Append_event 30 (FileReindexed ''main.rs'') None, Undo_event]"

text \<open>C26. Reading the events since a time: when the clock never goes back, \<^verbatim>\<open>events_since\<close> returns
  exactly the entries of the log at or after the time, in the order of the log, although it only
  looks at the entries its binary search meets.\<close>

theorem events_since_exact:
  assumes "sorted (clock ops)"
  shows "events_since (run_log ops) t = filter (\<lambda>e. t \<le> ee_timestamp e) (el_entries (run_log ops))"
proof -
  let ?es = "el_entries (run_log ops)"
  have sorted: "sorted (map ee_timestamp ?es)" using run_log_times [OF assms] by simp
  have "events_since (run_log ops) t = dropWhile (\<lambda>e. ee_timestamp e < t) ?es"
    using partition_point_split [OF sorted_split [OF sorted]] by (simp add: events_since_def dropWhile_eq_drop)
  also have "\<dots> = filter (\<lambda>e. t \<le> ee_timestamp e) ?es"
    by (rule dropWhile_sorted [OF sorted])
  finally show ?thesis .
qed

theorem events_since_exact_witness:
  "sorted (clock sample_log) \<and>
   events_since (run_log sample_log) 20 = filter (\<lambda>e. 20 \<le> ee_timestamp e) (el_entries (run_log sample_log))"
proof -
  have "sorted (clock sample_log)" by code_simp
  with events_since_exact [OF this] show ?thesis by simp
qed

text \<open>C27. Following causes ends: in a log whose appendings name only identifiers given before them,
  \<^verbatim>\<open>trace_cascade\<close> returns, and what it returns is the chain of causes from the event on, up to the
  first event without a cause in the log.\<close>

theorem trace_cascade_terminates:
  assumes "length ops < 2 ^ 64 - 1" and "causes_given ops"
  shows "\<exists>es. trace_cascade (run_log ops) i = Some es \<and> cause_chain (run_log ops) (Some i) es \<and> distinct es"
proof -
  note ok = run_log_ok [OF assms(1)] and causes = run_log_causes [OF assms(2)]
  from cascade_from [OF ok causes, of "[]" "Some i"] obtain es where
    "trace_cascade (run_log ops) i = Some es" "cause_chain (run_log ops) (Some i) es" by (auto simp: trace_cascade_def)
  with cause_chain_distinct [OF ok causes] show ?thesis by blast
qed

theorem trace_cascade_terminates_witness:
  "\<exists>es. trace_cascade (run_log sample_log) 3 = Some es \<and> cause_chain (run_log sample_log) (Some 3) es \<and> distinct es"
proof (rule trace_cascade_terminates)
  have "\<forall>i\<in>set [0..<5]. names_given (sample_log ! i) (run_log (take i sample_log))"
    by (simp add: sample_log_def run_log_def upt_rec event_log_new_def log_append_def log_undo_def effect_of_def Let_def)
  then show "causes_given sample_log" by (simp add: causes_given_def sample_log_def)
qed (simp add: sample_log_def)

text \<open>C28. An event recorded as its own cause: its identifier is the next one of the log, and following
  its causes never returns.\<close>

theorem self_cause_runs_forever:
  assumes "er_parent_event_id reason = Some (el_next_id (run_log ops))" and "length ops < 2 ^ 64 - 1"
  shows "trace_cascade (run_log (ops @ [Append_event now event (Some reason)])) (el_next_id (run_log ops)) = None"
proof -
  let ?s = "run_log ops" and ?e = "\<lparr>ee_id = el_next_id (run_log ops), ee_timestamp = now, ee_event = event, ee_reason = Some reason\<rparr>"
  have "get_event ?s (el_next_id ?s) = None"
    using run_log_ok [OF assms(2)] by (auto simp: get_event_def find_None_iff log_ok_def)
  then have "get_event (run_log (ops @ [Append_event now event (Some reason)])) (el_next_id ?s) = Some ?e"
    by (simp add: get_event_def run_log_snoc log_append_def Let_def find_last)
  moreover have "parent_of ?e = Some (el_next_id ?s)" using assms(1) by (simp add: parent_of_def)
  ultimately show ?thesis using cascade_forever by (fastforce simp: trace_cascade_def)
qed

theorem self_cause_runs_forever_witness:
  "trace_cascade (run_log (sample_log @ [Append_event 40 (NodeRemoved 1) (effect_of 5)])) 5 = None"
proof -
  have given: "el_next_id (run_log sample_log) = 5" by (simp add: sample_log_def run_log_def event_log_new_def log_append_def log_undo_def Let_def)
  show ?thesis
    using self_cause_runs_forever [of "the (effect_of 5)" sample_log 40 "NodeRemoved 1"]
    unfolding given by (simp add: effect_of_def sample_log_def)
qed

text \<open>C29. The history keeps the latest queries: after any sequence of queries it holds the last
  \<^verbatim>\<open>max_records\<close> of them, oldest first, and one when that bound is zero.\<close>

theorem history_keeps_latest:
  "gh_records (record_queries qs (history_new m)) =
     drop (length qs - max 1 m) (map (\<lambda>(now, q, r). query_record_of now q r) qs) \<and>
   history_last_n (record_queries qs (history_new m)) n =
     take n (rev (drop (length qs - max 1 m) (map (\<lambda>(now, q, r). query_record_of now q r) qs))) \<and>
   length (gh_records (record_queries qs (history_new m))) = min (length qs) (max 1 m)"
  using record_queries_kept [of qs m] by (simp add: history_last_n_def)

end
