(* ===== verification/Parent_Search.thy ===== *)
theory Parent_Search
  imports Queue_Search Prelude
begin

text \<open>
  Breadth-first search for a path with a map from each found node to the node it was found from: what
  the path searches of the analysis crate share. A search takes the neighbours of a node, a test for
  the nodes seen before, a test for the nodes to leave out, the target and the depth; it leaves with
  the map as soon as it meets the target. The path is read off the map backwards.
\<close>

type_synonym 'a parents = "('a, 'a) hash_map"

definition parent_step ::
    "('a parents \<Rightarrow> 'a \<Rightarrow> bool) \<Rightarrow> ('a \<Rightarrow> bool) \<Rightarrow> 'a \<Rightarrow> 'a \<Rightarrow> nat \<Rightarrow> 'a \<Rightarrow> 'a parents \<times> ('a \<times> nat) list \<Rightarrow>
     ('a parents, 'a parents \<times> ('a \<times> nat) list) result" where
  "parent_step seen skip to_idx current depth neighbor s =
     (if seen (fst s) neighbor \<or> skip neighbor then Inr s
      else let parents = hm_insert neighbor current (fst s) in
        if neighbor = to_idx then Inl parents
        else Inr (parents, snd s @ [(neighbor, Suc depth)]))"

definition parent_pass ::
    "('a \<Rightarrow> 'a list) \<Rightarrow> ('a parents \<Rightarrow> 'a \<Rightarrow> bool) \<Rightarrow> ('a \<Rightarrow> bool) \<Rightarrow> 'a \<Rightarrow> nat \<Rightarrow> 'a parents \<times> ('a \<times> nat) list \<Rightarrow>
     ('a parents, 'a parents \<times> ('a \<times> nat) list) result" where
  "parent_pass nbrs seen skip to_idx max_depth s = (case snd s of
     [] \<Rightarrow> Inr s
   | (current, depth) # queue \<Rightarrow>
       if max_depth \<le> depth then Inr (fst s, queue)
       else for_each (parent_step seen skip to_idx current depth) (nbrs current) (fst s, queue))"

definition parent_search ::
    "('a \<Rightarrow> 'a list) \<Rightarrow> ('a parents \<Rightarrow> 'a \<Rightarrow> bool) \<Rightarrow> ('a \<Rightarrow> bool) \<Rightarrow> 'a \<Rightarrow> nat \<Rightarrow> 'a parents \<times> ('a \<times> nat) list \<Rightarrow>
     ('a parents, 'a parents \<times> ('a \<times> nat) list) result option" where
  "parent_search nbrs seen skip to_idx max_depth = loop_while (\<lambda>s. snd s \<noteq> []) (parent_pass nbrs seen skip to_idx max_depth)"

text \<open>The walk back from a node to one where the search started, with the longest path it may read.\<close>

function rebuild :: "('a \<Rightarrow> bool) \<Rightarrow> 'a parents \<Rightarrow> nat \<Rightarrow> 'a list \<Rightarrow> 'a \<Rightarrow> 'a list option" where
  "rebuild stop parents cap path cursor =
     (if stop cursor then Some path
      else case map_of parents cursor of
        None \<Rightarrow> None
      | Some parent \<Rightarrow>
          if cap < length (path @ [parent]) then None
          else rebuild stop parents cap (path @ [parent]) parent)"
  by pat_completeness auto
termination by (relation "measure (\<lambda>(stop, parents, cap, path, cursor). Suc cap - length path)") auto

declare rebuild.simps [simp del]

text \<open>The value of a path search: nothing when it does not return, no path when the loop ends, and what is
  read off the map when it leaves with one.\<close>

fun path_result :: "('a parents, 's) result option \<Rightarrow> ('a parents \<Rightarrow> 'b option) \<Rightarrow> 'b option option" where
  "path_result None f = None"
| "path_result (Some (Inl m)) f = Some (f m)"
| "path_result (Some (Inr s)) f = Some None"

lemma path_result_map: "path_result r (\<lambda>m. map_option g (f m)) = map_option (map_option g) (path_result r f)"
  by (cases "(r, f)" rule: path_result.cases) simp_all

section \<open>Distances\<close>

definition level :: "('a \<Rightarrow> 'a list) \<Rightarrow> 'a set \<Rightarrow> 'a \<Rightarrow> nat" where
  "level nxt S v = (LEAST k. v \<in> ball nxt S k)"

lemma level_ball: "v \<in> ball nxt S k \<Longrightarrow> v \<in> ball nxt S (level nxt S v) \<and> level nxt S v \<le> k"
  using LeastI [of "\<lambda>k. v \<in> ball nxt S k" k] Least_le [of "\<lambda>k. v \<in> ball nxt S k" k] by (simp add: level_def)

lemma level_start: "v \<in> S \<Longrightarrow> level nxt S v = 0"
  using level_ball [of v nxt S 0] by simp

lemma level_eq: "v \<in> ball nxt S d \<Longrightarrow> \<forall>k<d. v \<notin> ball nxt S k \<Longrightarrow> level nxt S v = d"
  using level_ball [of v nxt S d] by (metis le_neq_implies_less)

lemma level_next:
  assumes "x \<in> ball nxt S d" and "y \<in> set (nxt x)" and "y \<notin> ball nxt S d"
  shows "level nxt S y = Suc d"
proof (rule level_eq)
  show "y \<in> ball nxt S (Suc d)" using assms(1,2) by auto
  show "\<forall>k<Suc d. y \<notin> ball nxt S k" using assms(3) subsetD [OF ball_mono [of _ d nxt S]] by (metis less_Suc_eq_le)
qed

section \<open>Marks\<close>

text \<open>How a search tells the nodes it saw, and the nodes it started from, from the map: a start is one,
  and so is every key; a new key is no start.\<close>

locale parent_marks =
  fixes seen :: "'a parents \<Rightarrow> 'a \<Rightarrow> bool" and stop :: "'a parents \<Rightarrow> 'a \<Rightarrow> bool"
  assumes seen_iff: "seen m v \<longleftrightarrow> stop m v \<or> hm_contains v m"
    and stop_insert: "\<not> seen m v \<Longrightarrow> p \<noteq> v \<Longrightarrow> stop (hm_insert v p m) c \<longleftrightarrow> stop m c"
begin

definition parents_ok :: "('a \<Rightarrow> 'a list) \<Rightarrow> 'a set \<Rightarrow> 'a parents \<Rightarrow> bool" where
  "parents_ok nxt S m \<longleftrightarrow> hm_wf m \<and> (\<forall>c. stop m c \<longleftrightarrow> c \<in> S) \<and>
     (\<forall>v p. v \<notin> S \<longrightarrow> map_of m v = Some p \<longrightarrow> seen m p \<and> v \<in> set (nxt p) \<and> level nxt S v = Suc (level nxt S p))"

lemma parents_okD:
  assumes "parents_ok nxt S m"
  shows "hm_wf m" "stop m c \<longleftrightarrow> c \<in> S" "seen m v \<longleftrightarrow> v \<in> S \<or> hm_contains v m"
    "v \<notin> S \<Longrightarrow> map_of m v = Some p \<Longrightarrow> seen m p \<and> v \<in> set (nxt p) \<and> level nxt S v = Suc (level nxt S p)"
  using assms unfolding parents_ok_def seen_iff by blast+

lemma parents_ok_insert:
  assumes ok: "parents_ok nxt S m" and x: "seen m x" and y: "\<not> seen m y" "y \<in> set (nxt x)" "level nxt S y = Suc (level nxt S x)"
  shows "parents_ok nxt S (hm_insert y x m)" "Collect (seen (hm_insert y x m)) = insert y (Collect (seen m))"
proof -
  have "x \<noteq> y" using x y(1) by blast
  note stop = stop_insert [OF y(1) this]
  have seen: "seen (hm_insert y x m) v \<longleftrightarrow> v = y \<or> seen m v" for v
    by (auto simp: seen_iff stop hm_contains_iff)
  then show "Collect (seen (hm_insert y x m)) = insert y (Collect (seen m))" by auto
  show "parents_ok nxt S (hm_insert y x m)"
    unfolding parents_ok_def
  proof (intro conjI allI impI)
    show "hm_wf (hm_insert y x m)" using parents_okD(1) [OF ok] by simp
    show "stop (hm_insert y x m) c \<longleftrightarrow> c \<in> S" for c using parents_okD(2) [OF ok] by (simp add: stop)
    fix v p assume v: "v \<notin> S" "map_of (hm_insert y x m) v = Some p"
    show "seen (hm_insert y x m) p" "v \<in> set (nxt p)" "level nxt S v = Suc (level nxt S p)"
      using v x y parents_okD(4) [OF ok, of v p] by (auto simp: seen split: if_splits)
  qed
qed

text \<open>The scan of the neighbours of a node is the one of the bounded search, until it meets the target.\<close>

lemma parent_scan:
  assumes "parents_ok nxt S m" and "seen m x" and "set (filter (\<lambda>y. \<not> skip y) xs) \<subseteq> set (nxt x)" and "level nxt S x = d"
    and "\<And>y. y \<in> set (nxt x) \<Longrightarrow> \<not> seen m y \<Longrightarrow> level nxt S y = Suc d" and "\<not> seen m to_idx"
  shows "(\<exists>m' q'. for_each (parent_step seen skip to_idx x d) xs (m, q) = Inr (m', q') \<and> parents_ok nxt S m' \<and> \<not> seen m' to_idx \<and>
      (Collect (seen m'), q') = enqueue (Suc d) (filter (\<lambda>y. \<not> skip y) xs) (Collect (seen m), q)) \<or>
    (\<exists>m'. for_each (parent_step seen skip to_idx x d) xs (m, q) = Inl m' \<and> parents_ok nxt S m' \<and> seen m' to_idx \<and>
      level nxt S to_idx = Suc d \<and> to_idx \<in> set (nxt x))"
  using assms
proof (induction xs arbitrary: m q)
  case Nil
  then show ?case by (simp add: enqueue_def)
next
  case (Cons y ys)
  show ?case
  proof (cases "seen m y \<or> skip y")
    case True
    then have "parent_step seen skip to_idx x d y (m, q) = Inr (m, q)" by (simp add: parent_step_def)
    moreover have "enqueue (Suc d) (filter (\<lambda>y. \<not> skip y) (y # ys)) (Collect (seen m), q) =
        enqueue (Suc d) (filter (\<lambda>y. \<not> skip y) ys) (Collect (seen m), q)"
      using True by (auto simp: enqueue_def push_back_def)
    moreover have "set (filter (\<lambda>y. \<not> skip y) ys) \<subseteq> set (nxt x)" using Cons.prems(3) by (auto split: if_splits)
    ultimately show ?thesis using Cons.IH [OF Cons.prems(1,2) _ Cons.prems(4-6), of q] by (simp del: filter.simps)
  next
    case False
    then have y: "\<not> seen m y" "\<not> skip y" "y \<in> set (nxt x)" using Cons.prems(3) by auto
    have lev: "level nxt S y = Suc d" by (rule Cons.prems(5) [OF y(3,1)])
    let ?m = "hm_insert y x m"
    have ok: "parents_ok nxt S ?m" and seen: "Collect (seen ?m) = insert y (Collect (seen m))"
      using parents_ok_insert [OF Cons.prems(1,2) y(1,3)] lev Cons.prems(4) by simp_all
    then have seen': "seen ?m v \<longleftrightarrow> v = y \<or> seen m v" for v by auto
    show ?thesis
    proof (cases "y = to_idx")
      case True
      then have "parent_step seen skip to_idx x d y (m, q) = Inl ?m" using False by (simp add: parent_step_def)
      moreover have "seen ?m to_idx" using seen' True by simp
      ultimately show ?thesis using ok lev y(3) True by simp
    next
      case other: False
      then have step: "parent_step seen skip to_idx x d y (m, q) = Inr (?m, q @ [(y, Suc d)])"
        using False by (simp add: parent_step_def)
      have q: "enqueue (Suc d) (filter (\<lambda>y. \<not> skip y) (y # ys)) (Collect (seen m), q) =
          enqueue (Suc d) (filter (\<lambda>y. \<not> skip y) ys) (Collect (seen ?m), q @ [(y, Suc d)])"
        using y by (simp add: enqueue_def push_back_def seen)
      have "set (filter (\<lambda>y. \<not> skip y) ys) \<subseteq> set (nxt x)" using Cons.prems(3) by (auto split: if_splits)
      note IH = Cons.IH [OF ok _ this Cons.prems(4), of "q @ [(y, Suc d)]"]
      show ?thesis unfolding q for_each.simps step and_then_simps
      proof (rule IH)
        show "seen ?m x" using Cons.prems(2) seen' by blast
        show "level nxt S z = Suc d" if "z \<in> set (nxt x)" "\<not> seen ?m z" for z
          using Cons.prems(5) [OF that(1)] that(2) seen' by blast
        show "\<not> seen ?m to_idx" using Cons.prems(6) other seen' [of to_idx] by auto
      qed
    qed
  qed
qed

definition found_by :: "('a \<Rightarrow> 'a list) \<Rightarrow> nat \<Rightarrow> 'a set \<Rightarrow> 'a set \<Rightarrow> 'a parents \<times> ('a \<times> nat) list \<Rightarrow> bool" where
  "found_by nxt depth S R s \<longleftrightarrow> parents_ok nxt S (fst s) \<and> Collect (seen (fst s)) \<subseteq> R \<and>
     depth_inv nxt depth S (Collect (seen (fst s)), snd s)"

lemma parent_pass_step:
  assumes inv: "found_by nxt depth S R s" and to_idx: "\<not> seen (fst s) to_idx" and more: "snd s \<noteq> []"
    and nxt: "\<And>v. nxt v = filter (\<lambda>y. \<not> skip y) (nbrs v)"
    and R: "finite R" "\<And>v. v \<in> R \<Longrightarrow> set (nxt v) \<subseteq> R"
  shows "(\<exists>s'. parent_pass nbrs seen skip to_idx depth s = Inr s' \<and> (found_by nxt depth S R s' \<and> \<not> seen (fst s') to_idx) \<and>
      queue_work R (Collect (seen (fst s')), snd s') < queue_work R (Collect (seen (fst s)), snd s)) \<or>
    (\<exists>m. parent_pass nbrs seen skip to_idx depth s = Inl m \<and> parents_ok nxt S m \<and> seen m to_idx \<and>
      level nxt S to_idx \<le> depth \<and> to_idx \<in> ball nxt S depth)"
proof -
  obtain m x d q where s: "s = (m, (x, d) # q)" using more by (cases s; cases "snd s") auto
  note I = inv [unfolded s found_by_def fst_conv snd_conv]
  note D = depth_invD [OF conjunct2 [OF conjunct2 [OF I]]]
  have x: "seen m x" "x \<in> ball nxt S d" "d \<le> depth" "level nxt S x = d"
    using D(3) [of x d] level_eq [of x nxt S d] by auto
  show ?thesis
  proof (cases "depth \<le> d")
    case True
    then have "parent_pass nbrs seen skip to_idx depth s = Inr (m, q)"
      "depth_pass nxt depth (Collect (seen m), (x, d) # q) = (Collect (seen m), q)"
      by (simp_all add: parent_pass_def depth_pass_def s)
    with depth_pass_inv [OF conjunct2 [OF conjunct2 [OF I]]] I to_idx show ?thesis
      by (simp add: found_by_def s queue_work_def)
  next
    case False
    then have pass: "parent_pass nbrs seen skip to_idx depth s = for_each (parent_step seen skip to_idx x d) (nbrs x) (m, q)"
      "depth_pass nxt depth (Collect (seen m), (x, d) # q) = enqueue (Suc d) (nxt x) (Collect (seen m), q)"
      by (simp_all add: parent_pass_def depth_pass_def s)
    have "level nxt S y = Suc d" if "y \<in> set (nxt x)" "\<not> seen m y" for y
      using level_next [OF x(2) that(1)] D(4) that(2) by blast
    then consider
        (go) m' q' where "for_each (parent_step seen skip to_idx x d) (nbrs x) (m, q) = Inr (m', q')" "parents_ok nxt S m'"
          "\<not> seen m' to_idx" "(Collect (seen m'), q') = enqueue (Suc d) (nxt x) (Collect (seen m), q)"
      | (found) m' where "for_each (parent_step seen skip to_idx x d) (nbrs x) (m, q) = Inl m'" "parents_ok nxt S m'" "seen m' to_idx"
          "level nxt S to_idx = Suc d" "to_idx \<in> set (nxt x)"
      using parent_scan [of nxt S m x skip "nbrs x" d to_idx q] I x(1,4) to_idx by (auto simp: nxt s)
    then show ?thesis
    proof cases
      case go
      have R': "set (nxt x) \<subseteq> R" "Collect (seen m) \<subseteq> R" using I x(1) R(2) by auto
      have inv': "depth_inv nxt depth S (Collect (seen m'), q')"
        using depth_pass_inv [OF conjunct2 [OF conjunct2 [OF I]]] by (simp add: pass go(4))
      have work: "queue_work R (Collect (seen m'), q') \<le> queue_work R (Collect (seen m), q)"
        using enqueue_work [OF R(1) R'(1)] by (simp add: go(4))
      have "Collect (seen m') \<subseteq> R" using arg_cong [where f = fst, OF go(4)] R' by (simp add: enqueue_visited)
      then show ?thesis using pass(1) go(1-3) inv' work by (simp add: found_by_def s queue_work_def)
    next
      case found
      have "to_idx \<in> ball nxt S (Suc d)" using found(5) x(2) by auto
      then have "to_idx \<in> ball nxt S depth" using ball_mono [of "Suc d" depth nxt S] False by (meson not_less_eq_eq subsetD)
      then show ?thesis using pass(1) found False by auto
    qed
  qed
qed

text \<open>The search leaves with the map when the target is within the depth, and ends without it otherwise.\<close>

lemma parent_search_result:
  assumes start: "parents_ok nxt S m" "(Collect (seen m), q) = enqueue 0 starts ({}, [])" "set starts = S" "to_idx \<notin> S"
    and nxt: "\<And>v. nxt v = filter (\<lambda>y. \<not> skip y) (nbrs v)"
    and R: "finite R" "S \<subseteq> R" "\<And>v. v \<in> R \<Longrightarrow> set (nxt v) \<subseteq> R"
  shows "(\<exists>m'. parent_search nbrs seen skip to_idx depth (m, q) = Some (Inl m') \<and> parents_ok nxt S m' \<and> seen m' to_idx \<and>
      level nxt S to_idx \<le> depth \<and> to_idx \<in> ball nxt S depth) \<or>
    (\<exists>s. parent_search nbrs seen skip to_idx depth (m, q) = Some (Inr s) \<and> to_idx \<notin> ball nxt S depth)"
proof -
  let ?I = "\<lambda>s. found_by nxt depth S R s \<and> \<not> seen (fst s) to_idx"
  let ?Q = "\<lambda>m'. parents_ok nxt S m' \<and> seen m' to_idx \<and> level nxt S to_idx \<le> depth \<and> to_idx \<in> ball nxt S depth"
  have S: "Collect (seen m) = S" using arg_cong [where f = fst, OF start(2)] start(3) by (simp add: enqueue_visited)
  have "?I (m, q)"
    using start(1,4) R(2) depth_inv_start [of nxt depth starts] S by (auto simp: found_by_def start(2,3))
  from loop_while_total_exit [OF wf_measure [of "\<lambda>s. queue_work R (Collect (seen (fst s)), snd s)"], where I = ?I and
      b = "\<lambda>s. snd s \<noteq> []" and step = "parent_pass nbrs seen skip to_idx depth" and Q = ?Q, OF this]
  consider s where "parent_search nbrs seen skip to_idx depth (m, q) = Some (Inr s)" "?I s" "snd s = []"
    | m' where "parent_search nbrs seen skip to_idx depth (m, q) = Some (Inl m')" "?Q m'"
    using parent_pass_step [where nxt = nxt and nbrs = nbrs and skip = skip and to_idx = to_idx, OF _ _ _ nxt R(1,3)]
    unfolding parent_search_def by (auto simp: in_measure)
  then show ?thesis
  proof cases
    case (1 s)
    then have "depth_inv nxt depth S (Collect (seen (fst s)), [])" by (simp add: found_by_def)
    then have "Collect (seen (fst s)) = ball nxt S depth" by (rule depth_inv_end)
    then show ?thesis using 1 by blast
  qed blast
qed

text \<open>Walking back from a seen node reads a path of the length of its distance.\<close>

lemma level_bound:
  assumes ok: "parents_ok nxt S m" and v: "seen m v"
  shows "level nxt S v \<le> length m"
proof -
  have "{1..level nxt S v} \<subseteq> level nxt S ` dom (map_of m)"
    using v
  proof (induction "level nxt S v" arbitrary: v)
    case (Suc n)
    then have "v \<notin> S" using level_start by fastforce
    then have "hm_contains v m" using Suc.prems parents_okD(3) [OF ok] by blast
    then obtain p where p: "map_of m v = Some p" by (auto simp: hm_contains_iff)
    from parents_okD(4) [OF ok \<open>v \<notin> S\<close> p] Suc.hyps have "seen m p" "n = level nxt S p" by auto
    then have "{1..n} \<subseteq> level nxt S ` dom (map_of m)" using Suc.hyps(1) by blast
    moreover have "Suc n \<in> level nxt S ` dom (map_of m)" using p Suc.hyps(2) by force
    ultimately show ?case unfolding Suc.hyps(2) [symmetric] by (auto simp: atLeastAtMostSuc_conv)
  qed simp
  then have "card {1..level nxt S v} \<le> card (level nxt S ` dom (map_of m))"
    by (intro card_mono) (simp_all add: finite_dom_map_of)
  also have "\<dots> \<le> card (dom (map_of m))" by (intro card_image_le finite_dom_map_of)
  finally show ?thesis using hm_len [OF parents_okD(1) [OF ok]] by simp
qed

lemma rebuild_path:
  assumes ok: "parents_ok nxt S m"
  shows "seen m v \<Longrightarrow> level nxt S v + length path \<le> cap \<Longrightarrow>
    \<exists>p. rebuild (stop m) m cap path v = Some (path @ p) \<and> length p = level nxt S v \<and>
      successively (\<lambda>a b. a \<in> set (nxt b)) (v # p) \<and> last (v # p) \<in> S"
proof (induction "level nxt S v" arbitrary: v path)
  case 0
  show ?case
  proof (cases "v \<in> S")
    case True
    then have "rebuild (stop m) m cap path v = Some path" using parents_okD(2) [OF ok] by (simp add: rebuild.simps)
    with True 0 show ?thesis by (intro exI [of _ "[]"]) simp
  next
    case False
    then have "hm_contains v m" using 0 parents_okD(3) [OF ok] by blast
    then obtain p where "map_of m v = Some p" by (auto simp: hm_contains_iff)
    from parents_okD(4) [OF ok False this] 0 show ?thesis by simp
  qed
next
  case (Suc n)
  then have v: "v \<notin> S" using level_start by fastforce
  then have "hm_contains v m" using Suc.prems parents_okD(3) [OF ok] by blast
  then obtain p where p: "map_of m v = Some p" by (auto simp: hm_contains_iff)
  from parents_okD(4) [OF ok v p] Suc.hyps(2) have next_p: "seen m p" "n = level nxt S p" "v \<in> set (nxt p)" by auto
  have "level nxt S p + length (path @ [p]) \<le> cap" using Suc.prems(2) Suc.hyps(2) next_p(2) by simp
  from Suc.hyps(1) [OF next_p(2,1) this] obtain ps where
    ps: "rebuild (stop m) m cap (path @ [p]) p = Some ((path @ [p]) @ ps)" "length ps = level nxt S p"
    "successively (\<lambda>a b. a \<in> set (nxt b)) (p # ps)" "last (p # ps) \<in> S" by blast
  have "rebuild (stop m) m cap path v = Some (path @ p # ps)"
    using ps(1) p v parents_okD(2) [OF ok] Suc.prems(2) Suc.hyps(2) by (subst rebuild.simps) simp
  then show ?case using ps next_p Suc.hyps(2) by (intro exI [of _ "p # ps"]) simp
qed

text \<open>A search that read its path: a shortest one from where it started to the target.\<close>

lemma search_path:
  assumes "parents_ok nxt S m" "(Collect (seen m), q) = enqueue 0 starts ({}, [])" "set starts = S" "to_idx \<notin> S"
    and "\<And>v. nxt v = filter (\<lambda>y. \<not> skip y) (nbrs v)"
    and "finite R" "S \<subseteq> R" "\<And>v. v \<in> R \<Longrightarrow> set (nxt v) \<subseteq> R"
  shows "\<exists>r. path_result (parent_search nbrs seen skip to_idx depth (m, q))
        (\<lambda>m. map_option rev (rebuild (stop m) m (Suc (length m)) [to_idx] to_idx)) = Some r \<and>
    (case r of None \<Rightarrow> to_idx \<notin> ball nxt S depth
     | Some p \<Rightarrow> p \<noteq> [] \<and> hd p \<in> S \<and> last p = to_idx \<and> successively (\<lambda>a b. b \<in> set (nxt a)) p \<and>
         length p = Suc (level nxt S to_idx) \<and> to_idx \<in> ball nxt S depth)"
proof -
  consider m' where "parent_search nbrs seen skip to_idx depth (m, q) = Some (Inl m')" "parents_ok nxt S m'" "seen m' to_idx"
      "to_idx \<in> ball nxt S depth"
    | s where "parent_search nbrs seen skip to_idx depth (m, q) = Some (Inr s)" "to_idx \<notin> ball nxt S depth"
    using parent_search_result [OF assms(1-7), of depth] assms(8) by blast
  then show ?thesis
  proof cases
    case (1 m')
    note found = 1(1) and ok = 1(2) and to_idx = 1(3,4)
  have "level nxt S to_idx + length [to_idx] \<le> Suc (length m')" using level_bound [OF ok to_idx(1)] by simp
  from rebuild_path [OF ok to_idx(1) this] obtain p where
    p: "rebuild (stop m') m' (Suc (length m')) [to_idx] to_idx = Some (to_idx # p)" "length p = level nxt S to_idx"
      "successively (\<lambda>a b. a \<in> set (nxt b)) (to_idx # p)" "last (to_idx # p) \<in> S" by auto
  have "successively (\<lambda>a b. b \<in> set (nxt a)) (rev (to_idx # p))" unfolding successively_rev by (rule p(3))
  with p to_idx(2) found show ?thesis by (intro exI [of _ "Some (rev (to_idx # p))"]) (simp add: hd_rev last_rev del: rev.simps)
  qed auto
qed

end

section \<open>Searches under a renaming\<close>

text \<open>The neighbours of the vertices of a set are, after an injective renaming, the successors of a relation:
  vertices are the slots of a graph or the numbers of a snapshot, their names the identifiers.\<close>

definition traces :: "('a \<Rightarrow> 'b) \<Rightarrow> 'a set \<Rightarrow> ('a \<Rightarrow> 'a list) \<Rightarrow> ('b \<times> 'b) set \<Rightarrow> bool" where
  "traces f R nxt E \<longleftrightarrow> inj_on f R \<and> (\<forall>i\<in>R. set (nxt i) \<subseteq> R \<and> f ` set (nxt i) = {w. (f i, w) \<in> E})"

lemma tracesD:
  assumes "traces f R nxt E"
  shows "inj_on f R" "i \<in> R \<Longrightarrow> set (nxt i) \<subseteq> R" "i \<in> R \<Longrightarrow> f ` set (nxt i) = {w. (f i, w) \<in> E}"
    "i \<in> R \<Longrightarrow> w \<in> f ` set (nxt i) \<longleftrightarrow> (f i, w) \<in> E"
  using assms unfolding traces_def by auto

lemma traces_ball:
  assumes trace: "traces f R nxt E" and S: "S \<subseteq> R"
  shows "ball nxt S k \<subseteq> R" "f ` ball nxt S k = {w. \<exists>u\<in>f ` S. \<exists>j\<le>k. (u, w) \<in> E ^^ j}"
proof -
  show sub: "ball nxt S k \<subseteq> R" for k
    using tracesD(2) [OF trace] S by (induction k) auto
  show "f ` ball nxt S k = {w. \<exists>u\<in>f ` S. \<exists>j\<le>k. (u, w) \<in> E ^^ j}"
  proof (induction k)
    case (Suc k)
    have split: "(\<exists>j\<le>Suc k. (x, z) \<in> E ^^ j) \<longleftrightarrow> (\<exists>j\<le>k. (x, z) \<in> E ^^ j) \<or> (\<exists>j\<le>k. (x, z) \<in> E ^^ Suc j)" for x z
      by (metis Suc_le_mono le_SucE le_SucI le_refl)
    have "f ` (\<Union>x\<in>ball nxt S k. set (nxt x)) = (\<Union>x\<in>ball nxt S k. {w. (f x, w) \<in> E})"
      unfolding image_UN by (rule SUP_cong [OF refl], rule tracesD(3) [OF trace]) (use sub in blast)
    also have "\<dots> = {w. \<exists>v\<in>f ` ball nxt S k. (v, w) \<in> E}" by blast
    also have "\<dots> = {w. \<exists>u\<in>f ` S. \<exists>j\<le>k. (u, w) \<in> E ^^ Suc j}"
      unfolding Suc by auto
    finally show ?case unfolding ball.simps image_Un Suc split by blast
  qed auto
qed

lemma traces_in_ball:
  assumes trace: "traces f R nxt E" and S: "S \<subseteq> R" and i: "i \<in> R"
  shows "i \<in> ball nxt S k \<longleftrightarrow> (\<exists>u\<in>f ` S. \<exists>j\<le>k. (u, f i) \<in> E ^^ j)"
proof -
  have "i \<in> ball nxt S k \<longleftrightarrow> f i \<in> f ` ball nxt S k"
    using inj_on_image_mem_iff [OF tracesD(1) [OF trace] i traces_ball(1) [OF trace S]] by simp
  then show ?thesis unfolding traces_ball(2) [OF trace S] by blast
qed

end
