(* ===== verification/Graph_Paths.thy ===== *)
theory Graph_Paths
  imports Code_Graph_Queries Parent_Search
begin

text \<open>
  The path searches of the analysis crate (\<^verbatim>\<open>traversal/mod.rs\<close>): a shortest path between two nodes,
  from any of several sources, and around nodes or edges to avoid. Each is the search of
  \<open>Parent_Search\<close> on the slots of the graph, with its own test for the nodes seen before; the
  outcome is None when the search does not return, which the lemmas exclude.
\<close>

section \<open>The searches\<close>

definition out_neighbours :: "('g, 'x) graph_ops \<Rightarrow> 'g code_graph \<Rightarrow> nat \<Rightarrow> nat list" where
  "out_neighbours P s i = map fst (pg_out P (cg_graph s) i)"

text \<open>\<^verbatim>\<open>filter_map(|idx| graph.node_id_for(idx).cloned())\<close>\<close>

definition path_ids :: "('g, 'x) graph_ops \<Rightarrow> 'g code_graph \<Rightarrow> nat list \<Rightarrow> nat list" where
  "path_ids P s p = List.map_filter (node_id_for P s) p"

definition reconstruct_path :: "('g, 'x) graph_ops \<Rightarrow> 'g code_graph \<Rightarrow> nat \<Rightarrow> nat \<Rightarrow> nat parents \<Rightarrow> nat list option" where
  "reconstruct_path P s from_idx to_idx parents =
     map_option (\<lambda>p. path_ids P s (rev p)) (rebuild (\<lambda>c. c = from_idx) parents (Suc (length parents)) [to_idx] to_idx)"

definition seen_from :: "nat \<Rightarrow> nat parents \<Rightarrow> nat \<Rightarrow> bool" where
  "seen_from from_idx parents n \<longleftrightarrow> n = from_idx \<or> hm_contains n parents"

definition find_path :: "('g, 'x) graph_ops \<Rightarrow> 'g code_graph \<Rightarrow> nat \<Rightarrow> nat \<Rightarrow> nat \<Rightarrow> nat list option option" where
  "find_path P s source target max_depth = (case (resolve s source, resolve s target) of
     (Some from_idx, Some to_idx) \<Rightarrow>
       if from_idx = to_idx then Some (Some [source])
       else path_result
         (parent_search (out_neighbours P s) (seen_from from_idx) (\<lambda>_. False) to_idx max_depth ([], [(from_idx, 0)]))
         (reconstruct_path P s from_idx to_idx)
   | _ \<Rightarrow> Some None)"

definition reconstruct_path_multi_source :: "('g, 'x) graph_ops \<Rightarrow> 'g code_graph \<Rightarrow> nat \<Rightarrow> nat parents \<Rightarrow> nat list option" where
  "reconstruct_path_multi_source P s target_idx parents =
     map_option (\<lambda>p. path_ids P s (rev p))
       (rebuild (\<lambda>c. map_of parents c = Some c) parents (Suc (length parents)) [target_idx] target_idx)"

text \<open>A source that is the target leaves the loop with the path of this one node.\<close>

definition seed_source ::
    "'g code_graph \<Rightarrow> nat \<Rightarrow> nat \<Rightarrow> nat parents \<times> (nat \<times> nat) list \<Rightarrow> (nat list, nat parents \<times> (nat \<times> nat) list) result" where
  "seed_source s target_idx src st = (case resolve s src of
     None \<Rightarrow> Inr st
   | Some idx \<Rightarrow>
       if idx = target_idx then Inl [src]
       else if hm_contains idx (fst st) then Inr st
       else Inr (hm_insert idx idx (fst st), snd st @ [(idx, 0)]))"

definition find_path_multi_source :: "('g, 'x) graph_ops \<Rightarrow> 'g code_graph \<Rightarrow> nat list \<Rightarrow> nat \<Rightarrow> nat \<Rightarrow> nat list option option" where
  "find_path_multi_source P s sources target max_depth =
     (if sources = [] then Some None
      else case resolve s target of
        None \<Rightarrow> Some None
      | Some target_idx \<Rightarrow>
          (case for_each (seed_source s target_idx) sources ([], []) of
             Inl path \<Rightarrow> Some (Some path)
           | Inr st \<Rightarrow>
               if snd st = [] then Some None
               else path_result
                 (parent_search (out_neighbours P s) (\<lambda>parents n. hm_contains n parents) (\<lambda>_. False) target_idx max_depth st)
                 (reconstruct_path_multi_source P s target_idx)))"

text \<open>The test of a node to avoid reads the weight of its slot.\<close>

definition avoided_at :: "('g, 'x) graph_ops \<Rightarrow> 'g code_graph \<Rightarrow> (nat \<Rightarrow> 'x node_data_scheme \<Rightarrow> bool) \<Rightarrow> nat \<Rightarrow> nat \<Rightarrow> bool" where
  "avoided_at P s avoid_node i u = (case pg_weight P (cg_graph s) i of None \<Rightarrow> False | Some data \<Rightarrow> avoid_node u data)"

definition avoided :: "('g, 'x) graph_ops \<Rightarrow> 'g code_graph \<Rightarrow> (nat \<Rightarrow> 'x node_data_scheme \<Rightarrow> bool) \<Rightarrow> nat \<Rightarrow> bool" where
  "avoided P s avoid_node i = (case node_id_for P s i of None \<Rightarrow> False | Some u \<Rightarrow> avoided_at P s avoid_node i u)"

definition find_path_avoiding ::
    "('g, 'x) graph_ops \<Rightarrow> 'g code_graph \<Rightarrow> nat \<Rightarrow> nat \<Rightarrow> nat \<Rightarrow> (nat \<Rightarrow> 'x node_data_scheme \<Rightarrow> bool) \<Rightarrow> nat list option option" where
  "find_path_avoiding P s source target max_depth avoid_node = (case (resolve s source, resolve s target) of
     (Some from_idx, Some to_idx) \<Rightarrow>
       if avoided_at P s avoid_node from_idx source then Some None
       else if avoided_at P s avoid_node to_idx target then Some None
       else if from_idx = to_idx then Some (Some [source])
       else path_result
         (parent_search (out_neighbours P s) (seen_from from_idx) (\<lambda>n. n \<noteq> to_idx \<and> avoided P s avoid_node n) to_idx max_depth
           ([], [(from_idx, 0)]))
         (reconstruct_path P s from_idx to_idx)
   | _ \<Rightarrow> Some None)"

definition find_path_avoiding_edge ::
    "('g, 'x) graph_ops \<Rightarrow> 'g code_graph \<Rightarrow> nat \<Rightarrow> nat \<Rightarrow> nat \<Rightarrow> (edge_data \<Rightarrow> bool) \<Rightarrow> nat list option option" where
  "find_path_avoiding_edge P s source target max_depth avoid_edge = (case (resolve s source, resolve s target) of
     (Some from_idx, Some to_idx) \<Rightarrow>
       if from_idx = to_idx then Some (Some [source])
       else path_result
         (parent_search (\<lambda>i. map fst (filter (\<lambda>(_, e). \<not> avoid_edge e) (pg_out P (cg_graph s) i))) (seen_from from_idx)
           (\<lambda>_. False) to_idx max_depth ([], [(from_idx, 0)]))
         (reconstruct_path P s from_idx to_idx)
   | _ \<Rightarrow> Some None)"

section \<open>The two ways of marking\<close>

interpretation from_one: parent_marks "seen_from i" "\<lambda>parents c. c = i"
  by unfold_locales (auto simp: seen_from_def)

interpretation from_many: parent_marks "\<lambda>parents n. hm_contains n parents" "\<lambda>parents c. map_of parents c = Some c"
  by unfold_locales (auto simp: hm_contains_iff)

section \<open>Paths between identifiers\<close>

definition walk_in :: "(nat \<times> nat) set \<Rightarrow> nat list \<Rightarrow> bool" where
  "walk_in E p \<longleftrightarrow> p \<noteq> [] \<and> successively (\<lambda>u w. (u, w) \<in> E) p"

text \<open>What a path search from a set of nodes promises, over the edges it may use: a shortest path within the
  depth, or none when there is none.\<close>

definition shortest_path_promise :: "(nat \<times> nat) set \<Rightarrow> nat set \<Rightarrow> nat \<Rightarrow> nat \<Rightarrow> nat list option \<Rightarrow> bool" where
  "shortest_path_promise E U b depth r \<longleftrightarrow> (case r of
     None \<Rightarrow> \<forall>u\<in>U. \<forall>k\<le>depth. (u, b) \<notin> E ^^ k
   | Some p \<Rightarrow> walk_in E p \<and> hd p \<in> U \<and> last p = b \<and> length p \<le> Suc depth \<and>
       (\<forall>u\<in>U. \<forall>k. (u, b) \<in> E ^^ k \<longrightarrow> length p \<le> Suc k))"

definition edges_of :: "('g, 'x) graph_ops \<Rightarrow> 'g code_graph \<Rightarrow> (edge_data \<Rightarrow> bool) \<Rightarrow> (nat \<times> nat) set" where
  "edges_of P s Q = {(u, w). \<exists>es e. get_edges_from P s u = Some es \<and> (w, e) \<in> set es \<and> Q e}"

context stable_graph
begin

abbreviation live :: "'g code_graph \<Rightarrow> nat set" where
  "live s \<equiv> dom (pg_weight P (cg_graph s))"

lemma live_finite: "slots_ok P ok s \<Longrightarrow> finite (live s)"
  using live [OF slots_okD(1)] by (metis List.finite_set)

lemma slot_id_inj:
  assumes "slots_ok P ok s" and "i \<in> live s" and "j \<in> live s" and "slot_id P (cg_graph s) i = slot_id P (cg_graph s) j"
  shows "i = j"
proof -
  have "resolve s (slot_id P (cg_graph s) i) = Some j" unfolding assms(4) by (rule resolve_slot_id [OF assms(1,3)])
  then show ?thesis unfolding resolve_slot_id [OF assms(1,2)] by simp
qed

lemma node_id_for_slot: "i \<in> live s \<Longrightarrow> node_id_for P s i = Some (slot_id P (cg_graph s) i)"
  by (auto simp: node_id_for_def slot_id_def)

lemma path_ids_slots: "set p \<subseteq> live s \<Longrightarrow> path_ids P s p = map (slot_id P (cg_graph s)) p"
  by (induction p) (auto simp: path_ids_def map_filter_simps node_id_for_slot)

lemma resolve_live:
  assumes "slots_ok P ok s" and "resolve s u = Some i"
  shows "i \<in> live s" "slot_id P (cg_graph s) i = u"
  using slots_okD(3) [OF assms] by (auto simp: slot_id_def)

text \<open>The edges of a slot that pass a test, by identifier.\<close>

lemma edges_slots:
  assumes s: "slots_ok P ok s" and i: "i \<in> live s"
  shows "(slot_id P (cg_graph s) i, w) \<in> edges_of P s Q \<longleftrightarrow>
    (\<exists>j e. (j, e) \<in> set (pg_out P (cg_graph s) i) \<and> w = slot_id P (cg_graph s) j \<and> Q e)"
proof -
  obtain es where es: "get_edges_from P s (slot_id P (cg_graph s) i) = Some es" "mset es = out_ids P s (slot_id P (cg_graph s) i)"
    using edges_from [OF s] by blast
  have "out_ids P s (slot_id P (cg_graph s) i) = image_mset (renamed P (cg_graph s)) (mset (pg_out P (cg_graph s) i))"
    using resolve_slot_id [OF s i] by (simp add: out_ids_def)
  then have "mset es = mset (map (renamed P (cg_graph s)) (pg_out P (cg_graph s) i))" using es(2) by simp
  then have "set es = set (map (renamed P (cg_graph s)) (pg_out P (cg_graph s) i))" by (rule mset_eq_setD)
  then have "(w, e) \<in> set es \<longleftrightarrow> (\<exists>j. (j, e) \<in> set (pg_out P (cg_graph s) i) \<and> w = slot_id P (cg_graph s) j)" for e
    by (force simp: renamed_def image_iff)
  then show ?thesis using es(1) by (auto simp: edges_of_def)
qed

lemma out_live: "slots_ok P ok s \<Longrightarrow> (j, e) \<in> set (pg_out P (cg_graph s) i) \<Longrightarrow> j \<in> live s"
  using ends [OF slots_okD(1)] by blast

text \<open>A search on slots is a search on identifiers.\<close>

definition follows :: "'g code_graph \<Rightarrow> (nat \<Rightarrow> nat list) \<Rightarrow> (nat \<times> nat) set \<Rightarrow> bool" where
  "follows s = traces (slot_id P (cg_graph s)) (live s)"

lemma followsI:
  assumes "slots_ok P ok s"
    and "\<And>i. i \<in> live s \<Longrightarrow> set (nxt i) \<subseteq> live s"
    and "\<And>i. i \<in> live s \<Longrightarrow> slot_id P (cg_graph s) ` set (nxt i) = {w. (slot_id P (cg_graph s) i, w) \<in> E}"
  shows "follows s nxt E"
proof -
  have "inj_on (slot_id P (cg_graph s)) (live s)" by (rule inj_onI) (rule slot_id_inj [OF assms(1)])
  then show ?thesis using assms(2,3) by (simp add: follows_def traces_def)
qed

lemma followsD:
  assumes "follows s nxt E" and "i \<in> live s"
  shows "set (nxt i) \<subseteq> live s" "w \<in> slot_id P (cg_graph s) ` set (nxt i) \<longleftrightarrow> (slot_id P (cg_graph s) i, w) \<in> E"
  using tracesD(2,4) [OF assms(1) [unfolded follows_def] assms(2)] by simp_all

lemma slot_walk:
  assumes nxt: "follows s nxt E" and p: "p \<noteq> []" "hd p \<in> live s" "successively (\<lambda>a b. b \<in> set (nxt a)) p"
  shows "set p \<subseteq> live s \<and> walk_in E (map (slot_id P (cg_graph s)) p)"
  using p
proof (induction p rule: induct_list012)
  case (3 a b p)
  then have "b \<in> live s" using followsD(1) [OF nxt, of a] by auto
  with 3 have IH: "set (b # p) \<subseteq> live s" "walk_in E (map (slot_id P (cg_graph s)) (b # p))" by simp_all
  have "(slot_id P (cg_graph s) a, slot_id P (cg_graph s) b) \<in> E"
    using 3(3-5) followsD(2) [OF nxt, of a "slot_id P (cg_graph s) b"] by auto
  with IH 3(4) show ?case by (simp add: walk_in_def)
qed (simp_all add: walk_in_def)

lemma slot_promise:
  assumes s: "slots_ok P ok s" and nxt: "follows s nxt E" and S: "S \<subseteq> live s" and i: "i \<in> live s"
    and r: "case r of None \<Rightarrow> i \<notin> ball nxt S depth
     | Some p \<Rightarrow> p \<noteq> [] \<and> hd p \<in> S \<and> last p = i \<and> successively (\<lambda>a b. b \<in> set (nxt a)) p \<and>
         length p = Suc (level nxt S i) \<and> i \<in> ball nxt S depth"
  shows "shortest_path_promise E (slot_id P (cg_graph s) ` S) (slot_id P (cg_graph s) i) depth (map_option (path_ids P s) r)"
proof -
  let ?f = "slot_id P (cg_graph s)"
  note in_ball = traces_in_ball [OF nxt [unfolded follows_def] S i]
  show ?thesis
  proof (cases r)
    case None
    then show ?thesis using r in_ball [of depth] by (auto simp: shortest_path_promise_def)
  next
    case (Some p)
    with r have p: "p \<noteq> []" "hd p \<in> S" "last p = i" "successively (\<lambda>a b. b \<in> set (nxt a)) p"
      "length p = Suc (level nxt S i)" "i \<in> ball nxt S depth" by auto
    then have "hd p \<in> live s" using S by blast
    note walk = slot_walk [OF nxt p(1) this p(4)]
    have ids: "path_ids P s p = map ?f p" using path_ids_slots walk by blast
    have "length p \<le> Suc k" if "u \<in> ?f ` S" "(u, ?f i) \<in> E ^^ k" for u k
    proof -
      have "i \<in> ball nxt S k" using in_ball [of k] that by blast
      then show ?thesis using level_ball p(5) by fastforce
    qed
    moreover have "length p \<le> Suc depth" using level_ball [OF p(6)] p(5) by simp
    ultimately show ?thesis
      using walk p(1-3) by (auto simp: Some ids shortest_path_promise_def hd_map last_map)
  qed
qed

lemma follows_filtered:
  assumes "slots_ok P ok s"
  shows "follows s (\<lambda>i. map fst (filter (\<lambda>(_, e). Q e) (pg_out P (cg_graph s) i))) (edges_of P s Q)"
proof (rule followsI [OF assms])
  fix i assume i: "i \<in> live s"
  show "set (map fst (filter (\<lambda>(_, e). Q e) (pg_out P (cg_graph s) i))) \<subseteq> live s"
  proof
    fix j assume "j \<in> set (map fst (filter (\<lambda>(_, e). Q e) (pg_out P (cg_graph s) i)))"
    then obtain e where "(j, e) \<in> set (pg_out P (cg_graph s) i)" by auto
    then show "j \<in> live s" by (rule out_live [OF assms])
  qed
  show "slot_id P (cg_graph s) ` set (map fst (filter (\<lambda>(_, e). Q e) (pg_out P (cg_graph s) i))) =
      {w. (slot_id P (cg_graph s) i, w) \<in> edges_of P s Q}"
    by (force simp: edges_slots [OF assms i] image_iff)
qed

lemma one_source:
  assumes s: "slots_ok P ok s" and ends: "resolve s a = Some i" "resolve s b = Some j" "i \<noteq> j"
    and nxt: "\<And>v. nxt v = filter (\<lambda>y. \<not> skip y) (nbrs v)" and follow: "follows s nxt E"
  shows "\<exists>r. path_result (parent_search nbrs (seen_from i) skip j depth ([], [(i, 0)])) (reconstruct_path P s i j) = Some r \<and>
    shortest_path_promise E {a} b depth r"
proof -
  have S: "{i} \<subseteq> live s" "j \<in> live s" using resolve_live(1) [OF s] ends by auto
  have "\<exists>r. path_result (parent_search nbrs (seen_from i) skip j depth ([], [(i, 0)]))
        (\<lambda>m. map_option rev (rebuild (\<lambda>c. c = i) m (Suc (length m)) [j] j)) = Some r \<and>
    (case r of None \<Rightarrow> j \<notin> ball nxt {i} depth
     | Some p \<Rightarrow> p \<noteq> [] \<and> hd p \<in> {i} \<and> last p = j \<and> successively (\<lambda>a b. b \<in> set (nxt a)) p \<and>
         length p = Suc (level nxt {i} j) \<and> j \<in> ball nxt {i} depth)"
  proof (rule from_one.search_path [where starts = "[i]" and R = "live s"])
    show "from_one.parents_ok i nxt {i} []" by (simp add: from_one.parents_ok_def)
    show "(Collect (seen_from i []), [(i, 0)]) = enqueue 0 [i] ({}, [])"
      by (auto simp: enqueue_def push_back_def seen_from_def hm_contains_def)
    show "set (nxt v) \<subseteq> live s" if "v \<in> live s" for v using followsD(1) [OF follow that] .
  qed (use S ends(3) live_finite [OF s] nxt in auto)
  then obtain r where r: "path_result (parent_search nbrs (seen_from i) skip j depth ([], [(i, 0)]))
        (\<lambda>m. map_option rev (rebuild (\<lambda>c. c = i) m (Suc (length m)) [j] j)) = Some r"
    "case r of None \<Rightarrow> j \<notin> ball nxt {i} depth
     | Some p \<Rightarrow> p \<noteq> [] \<and> hd p \<in> {i} \<and> last p = j \<and> successively (\<lambda>a b. b \<in> set (nxt a)) p \<and>
         length p = Suc (level nxt {i} j) \<and> j \<in> ball nxt {i} depth" by blast
  have "reconstruct_path P s i j = (\<lambda>m. map_option (path_ids P s) (map_option rev (rebuild (\<lambda>c. c = i) m (Suc (length m)) [j] j)))"
    by (simp add: fun_eq_iff reconstruct_path_def option.map_comp comp_def)
  then have "path_result (parent_search nbrs (seen_from i) skip j depth ([], [(i, 0)])) (reconstruct_path P s i j) =
      Some (map_option (path_ids P s) r)" by (simp only: path_result_map [where f = "\<lambda>m. map_option rev (rebuild (\<lambda>c. c = i) m (Suc (length m)) [j] j)"] r(1) option.map)
  moreover have "shortest_path_promise E {a} b depth (map_option (path_ids P s) r)"
    using slot_promise [OF s follow S r(2)] resolve_live(2) [OF s] ends by simp
  ultimately show ?thesis by blast
qed

lemma promise_trivial: "shortest_path_promise E {a} a depth (Some [a])"
  by (simp add: shortest_path_promise_def walk_in_def)

lemma find_path_promise:
  assumes s: "slots_ok P ok s"
  shows "\<exists>r. find_path P s a b depth = Some r \<and>
    (if get_node P s a \<noteq> None \<and> get_node P s b \<noteq> None
     then shortest_path_promise (edges_of P s (\<lambda>_. True)) {a} b depth r else r = None)"
proof (cases "resolve s a"; cases "resolve s b")
  fix i j assume ij: "resolve s a = Some i" "resolve s b = Some j"
  then have present: "get_node P s a \<noteq> None \<and> get_node P s b \<noteq> None" using resolve_get_node [OF s] by (metis option.distinct(1))
  show ?thesis
  proof (cases "i = j")
    case True
    then have "a = b" using resolve_live(2) [OF s] ij by blast
    then show ?thesis using ij True present promise_trivial by (simp add: find_path_def)
  next
    case False
    have "follows s (out_neighbours P s) (edges_of P s (\<lambda>_. True))"
      using follows_filtered [OF s, of "\<lambda>_. True"] by (simp add: out_neighbours_def [abs_def] case_prod_beta')
    from one_source [OF s ij False _ this, of "\<lambda>_. False" "out_neighbours P s" depth]
    show ?thesis using ij False present by (simp add: find_path_def)
  qed
qed (use resolve_get_node [OF s, of a] resolve_get_node [OF s, of b] in \<open>simp_all add: find_path_def\<close>)

lemma find_path_avoiding_edge_promise:
  assumes s: "slots_ok P ok s"
  shows "\<exists>r. find_path_avoiding_edge P s a b depth avoid = Some r \<and>
    (if get_node P s a \<noteq> None \<and> get_node P s b \<noteq> None
     then shortest_path_promise (edges_of P s (\<lambda>e. \<not> avoid e)) {a} b depth r else r = None)"
proof (cases "resolve s a"; cases "resolve s b")
  fix i j assume ij: "resolve s a = Some i" "resolve s b = Some j"
  then have present: "get_node P s a \<noteq> None \<and> get_node P s b \<noteq> None" using resolve_get_node [OF s] by (metis option.distinct(1))
  show ?thesis
  proof (cases "i = j")
    case True
    then have "a = b" using resolve_live(2) [OF s] ij by blast
    then show ?thesis using ij True present promise_trivial by (simp add: find_path_avoiding_edge_def)
  next
    case False
    from one_source [OF s ij False _ follows_filtered [OF s, of "\<lambda>e. \<not> avoid e"], of "\<lambda>_. False"
        "\<lambda>i. map fst (filter (\<lambda>(_, e). \<not> avoid e) (pg_out P (cg_graph s) i))" depth]
    show ?thesis using ij False present by (simp add: find_path_avoiding_edge_def)
  qed
qed (use resolve_get_node [OF s, of a] resolve_get_node [OF s, of b] in \<open>simp_all add: find_path_avoiding_edge_def\<close>)

end

text \<open>The nodes a search may not pass.\<close>

definition is_avoided :: "('g, 'x) graph_ops \<Rightarrow> 'g code_graph \<Rightarrow> (nat \<Rightarrow> 'x node_data_scheme \<Rightarrow> bool) \<Rightarrow> nat \<Rightarrow> bool" where
  "is_avoided P s avoid u \<longleftrightarrow> (\<exists>n. get_node P s u = Some n \<and> avoid u n)"

context stable_graph
begin

lemma avoided_at_slot:
  assumes "slots_ok P ok s" and "resolve s u = Some i"
  shows "avoided_at P s avoid i u \<longleftrightarrow> is_avoided P s avoid u"
  using slots_okD(3) [OF assms] assms(2) by (auto simp: avoided_at_def is_avoided_def get_node_def)

lemma avoided_slot:
  assumes "slots_ok P ok s" and "i \<in> live s"
  shows "avoided P s avoid i \<longleftrightarrow> is_avoided P s avoid (slot_id P (cg_graph s) i)"
  using avoided_at_slot [OF assms(1) resolve_slot_id [OF assms]] node_id_for_slot [OF assms(2)] by (simp add: avoided_def)

lemma find_path_avoiding_promise:
  assumes s: "slots_ok P ok s"
  shows "\<exists>r. find_path_avoiding P s a b depth avoid = Some r \<and>
    (if get_node P s a \<noteq> None \<and> get_node P s b \<noteq> None \<and> \<not> is_avoided P s avoid a \<and> \<not> is_avoided P s avoid b
     then shortest_path_promise {(u, w) \<in> edges_of P s (\<lambda>_. True). \<not> is_avoided P s avoid w} {a} b depth r else r = None)"
proof (cases "resolve s a"; cases "resolve s b")
  fix i j assume ij: "resolve s a = Some i" "resolve s b = Some j"
  then have present: "get_node P s a \<noteq> None" "get_node P s b \<noteq> None" using resolve_get_node [OF s] by (metis option.distinct(1))+
  note at = avoided_at_slot [OF s ij(1)] avoided_at_slot [OF s ij(2)]
  show ?thesis
  proof (cases "is_avoided P s avoid a \<or> is_avoided P s avoid b")
    case True
    then show ?thesis using ij at by (auto simp: find_path_avoiding_def)
  next
    case free: False
    show ?thesis
    proof (cases "i = j")
      case True
      then have "a = b" using resolve_live(2) [OF s] ij by blast
      then show ?thesis using ij True present promise_trivial at free by (simp add: find_path_avoiding_def)
    next
      case False
      let ?nxt = "\<lambda>v. filter (\<lambda>n. \<not> (n \<noteq> j \<and> avoided P s avoid n)) (out_neighbours P s v)"
      let ?E = "{(u, w) \<in> edges_of P s (\<lambda>_. True). \<not> is_avoided P s avoid w}"
      have all: "follows s (out_neighbours P s) (edges_of P s (\<lambda>_. True))"
        using follows_filtered [OF s, of "\<lambda>_. True"] by (simp add: out_neighbours_def [abs_def] case_prod_beta')
      have "follows s ?nxt ?E"
      proof (rule followsI [OF s])
        fix v assume v: "v \<in> live s"
        note sub = followsD(1) [OF all v]
        show "set (?nxt v) \<subseteq> live s" using sub by auto
        have free_to: "\<not> (n \<noteq> j \<and> avoided P s avoid n) \<longleftrightarrow> \<not> is_avoided P s avoid (slot_id P (cg_graph s) n)" if "n \<in> live s" for n
          using avoided_slot [OF s that] free resolve_live [OF s ij(2)] by auto
        have "set (?nxt v) = {n \<in> set (out_neighbours P s v). \<not> is_avoided P s avoid (slot_id P (cg_graph s) n)}"
          unfolding set_filter by (rule Collect_cong, rule conj_cong [OF refl], rule free_to, use sub in blast)
        then have "slot_id P (cg_graph s) ` set (?nxt v) =
            {w \<in> slot_id P (cg_graph s) ` set (out_neighbours P s v). \<not> is_avoided P s avoid w}" by auto
        also have "\<dots> = {w. (slot_id P (cg_graph s) v, w) \<in> ?E}" using followsD(2) [OF all v] by auto
        finally show "slot_id P (cg_graph s) ` set (?nxt v) = {w. (slot_id P (cg_graph s) v, w) \<in> ?E}" .
      qed
      from one_source [OF s ij False _ this, of "\<lambda>n. n \<noteq> j \<and> avoided P s avoid n" "out_neighbours P s" depth]
      show ?thesis using ij False present at free by (simp add: find_path_avoiding_def)
    qed
  qed
qed (use resolve_get_node [OF s, of a] resolve_get_node [OF s, of b] in \<open>simp_all add: find_path_avoiding_def\<close>)

end

section \<open>Several sources\<close>

text \<open>The state after a list of slots is seeded.\<close>

definition seeded :: "nat list \<Rightarrow> nat parents \<times> (nat \<times> nat) list \<Rightarrow> bool" where
  "seeded is st \<longleftrightarrow> hm_wf (fst st) \<and> (\<forall>i. map_of (fst st) i = (if i \<in> set is then Some i else None)) \<and>
     (set is, snd st) = enqueue 0 is ({}, [])"

lemma seeded_step:
  assumes "seeded is st"
  shows "seeded (is @ [i]) (if hm_contains i (fst st) then st else (hm_insert i i (fst st), snd st @ [(i, 0)]))"
proof -
  have old: "hm_wf (fst st)" "\<And>j. map_of (fst st) j = (if j \<in> set is then Some j else None)"
    "enqueue 0 is ({}, []) = (set is, snd st)" using assms by (simp_all add: seeded_def)
  have "enqueue 0 (is @ [i]) ({}, []) = push_back 0 i (set is, snd st)" using old(3) by (simp add: enqueue_def)
  then show ?thesis using old(1,2) by (auto simp: seeded_def hm_contains_iff push_back_def insert_absorb)
qed

lemma seed_sources:
  assumes "seeded is st"
  shows "(\<exists>u\<in>set srcs. resolve s u = Some j \<and> for_each (seed_source s j) srcs st = Inl [u]) \<or>
    (\<forall>u\<in>set srcs. resolve s u \<noteq> Some j) \<and>
    (\<exists>st'. for_each (seed_source s j) srcs st = Inr st' \<and> seeded (is @ List.map_filter (resolve s) srcs) st')"
  using assms
proof (induction srcs arbitrary: "is" st)
  case Nil
  then show ?case by (simp add: map_filter_simps)
next
  case (Cons u us)
  show ?case
  proof (cases "resolve s u")
    case None
    then have "for_each (seed_source s j) (u # us) st = for_each (seed_source s j) us st" by (simp add: seed_source_def)
    with Cons.IH [OF Cons.prems] None show ?thesis by (auto simp: map_filter_simps)
  next
    case (Some i)
    show ?thesis
    proof (cases "i = j")
      case True
      with Some show ?thesis by (auto simp: seed_source_def)
    next
      case False
      let ?st = "if hm_contains i (fst st) then st else (hm_insert i i (fst st), snd st @ [(i, 0)])"
      have "for_each (seed_source s j) (u # us) st = for_each (seed_source s j) us ?st"
        using Some False by (simp add: seed_source_def)
      with Cons.IH [OF seeded_step [OF Cons.prems, of i]] Some False show ?thesis by (auto simp: map_filter_simps)
    qed
  qed
qed

context stable_graph
begin

lemma many_sources:
  assumes s: "slots_ok P ok s" and b: "resolve s b = Some j" and seeded: "seeded is st" and "set is \<subseteq> live s" and "j \<notin> set is"
  shows "\<exists>r. path_result (parent_search (out_neighbours P s) (\<lambda>parents n. hm_contains n parents) (\<lambda>_. False) j depth st)
      (reconstruct_path_multi_source P s j) = Some r \<and>
    shortest_path_promise (edges_of P s (\<lambda>_. True)) (slot_id P (cg_graph s) ` set is) b depth r"
proof -
  obtain m q where st: "st = (m, q)" by fastforce
  have m: "hm_wf m" "\<And>i. map_of m i = (if i \<in> set is then Some i else None)" "(set is, q) = enqueue 0 is ({}, [])"
    using seeded by (simp_all add: seeded_def st)
  let ?nxt = "out_neighbours P s"
  have follow: "follows s ?nxt (edges_of P s (\<lambda>_. True))"
    using follows_filtered [OF s, of "\<lambda>_. True"] by (simp add: out_neighbours_def [abs_def] case_prod_beta')
  have seen: "{n. hm_contains n m} = set is" by (auto simp: hm_contains_iff m(2))
  have "\<exists>r. path_result (parent_search ?nxt (\<lambda>parents n. hm_contains n parents) (\<lambda>_. False) j depth (m, q))
        (\<lambda>m. map_option rev (rebuild (\<lambda>c. map_of m c = Some c) m (Suc (length m)) [j] j)) = Some r \<and>
    (case r of None \<Rightarrow> j \<notin> ball ?nxt (set is) depth
     | Some p \<Rightarrow> p \<noteq> [] \<and> hd p \<in> set is \<and> last p = j \<and> successively (\<lambda>a b. b \<in> set (?nxt a)) p \<and>
         length p = Suc (level ?nxt (set is) j) \<and> j \<in> ball ?nxt (set is) depth)"
  proof (rule from_many.search_path [where starts = "is" and R = "live s"])
    show "from_many.parents_ok ?nxt (set is) m" using m(1,2) by (auto simp: from_many.parents_ok_def)
    show "({n. hm_contains n m}, q) = enqueue 0 is ({}, [])" unfolding seen by (rule m(3))
    show "set (?nxt v) \<subseteq> live s" if "v \<in> live s" for v using followsD(1) [OF follow that] .
  qed (use assms(4,5) live_finite [OF s] in auto)
  then obtain r where r: "path_result (parent_search ?nxt (\<lambda>parents n. hm_contains n parents) (\<lambda>_. False) j depth (m, q))
        (\<lambda>m. map_option rev (rebuild (\<lambda>c. map_of m c = Some c) m (Suc (length m)) [j] j)) = Some r"
    "case r of None \<Rightarrow> j \<notin> ball ?nxt (set is) depth
     | Some p \<Rightarrow> p \<noteq> [] \<and> hd p \<in> set is \<and> last p = j \<and> successively (\<lambda>a b. b \<in> set (?nxt a)) p \<and>
         length p = Suc (level ?nxt (set is) j) \<and> j \<in> ball ?nxt (set is) depth" by blast
  have "reconstruct_path_multi_source P s j =
      (\<lambda>m. map_option (path_ids P s) (map_option rev (rebuild (\<lambda>c. map_of m c = Some c) m (Suc (length m)) [j] j)))"
    by (simp add: fun_eq_iff reconstruct_path_multi_source_def option.map_comp comp_def)
  then have "path_result (parent_search ?nxt (\<lambda>parents n. hm_contains n parents) (\<lambda>_. False) j depth (m, q)) (reconstruct_path_multi_source P s j) =
      Some (map_option (path_ids P s) r)"
    by (simp only: path_result_map [where f = "\<lambda>m. map_option rev (rebuild (\<lambda>c. map_of m c = Some c) m (Suc (length m)) [j] j)"]
        r(1) option.map)
  moreover have "j \<in> live s" "slot_id P (cg_graph s) j = b" using resolve_live [OF s b] .
  ultimately show ?thesis using slot_promise [OF s follow assms(4) \<open>j \<in> live s\<close> r(2)] by (auto simp: st)
qed

lemma find_path_multi_source_promise:
  assumes s: "slots_ok P ok s"
  shows "\<exists>r. find_path_multi_source P s sources b depth = Some r \<and>
    (if get_node P s b \<noteq> None
     then shortest_path_promise (edges_of P s (\<lambda>_. True)) {u \<in> set sources. get_node P s u \<noteq> None} b depth r else r = None)"
proof (cases "resolve s b")
  case None
  then show ?thesis using resolve_get_node [OF s, of b] by (simp add: find_path_multi_source_def)
next
  case (Some j)
  then have b: "get_node P s b \<noteq> None" using resolve_get_node [OF s, of b] by simp
  have U: "{u \<in> set sources. get_node P s u \<noteq> None} = slot_id P (cg_graph s) ` set (List.map_filter (resolve s) sources)"
    (is "?U = ?f ` set ?is")
  proof -
    have "u \<in> ?f ` set ?is \<longleftrightarrow> u \<in> ?U" for u
    proof
      assume "u \<in> ?f ` set ?is"
      then obtain v i where "v \<in> set sources" "resolve s v = Some i" "u = ?f i" by (auto simp: List.map_filter_def)
      then show "u \<in> ?U" using resolve_live(2) [OF s] resolve_get_node [OF s, of v] by auto
    next
      assume u: "u \<in> ?U"
      then obtain i where i: "resolve s u = Some i" using resolve_get_node [OF s, of u] by auto
      with u have "i \<in> set ?is" by (force simp: List.map_filter_def)
      then show "u \<in> ?f ` set ?is" using resolve_live(2) [OF s i] by blast
    qed
    then show ?thesis by blast
  qed
  have start: "seeded [] ([], [])" by (simp add: seeded_def enqueue_def)
  show ?thesis
  proof (cases "sources = []")
    case True
    then show ?thesis using b by (simp add: find_path_multi_source_def shortest_path_promise_def)
  next
    case more: False
    from seed_sources [OF start, of sources s j] consider
        (hit) u where "u \<in> set sources" "resolve s u = Some j" "for_each (seed_source s j) sources ([], []) = Inl [u]"
      | (go) st where "\<forall>u\<in>set sources. resolve s u \<noteq> Some j" "for_each (seed_source s j) sources ([], []) = Inr st" "seeded ?is st"
      by auto
    then show ?thesis
    proof cases
      case hit
      have "u = b" using resolve_live(2) [OF s hit(2)] resolve_live(2) [OF s Some] by simp
      then have "shortest_path_promise (edges_of P s (\<lambda>_. True)) ?U b depth (Some [u])"
        using hit(1) b by (simp add: shortest_path_promise_def walk_in_def)
      then show ?thesis using hit(3) more Some b by (simp add: find_path_multi_source_def)
    next
      case go
      show ?thesis
      proof (cases "snd st = []")
        case True
        then have "enqueue 0 ?is ({}, []) = (set ?is, [])" using go(3) by (simp add: seeded_def)
        then have "?is = []" using enqueue_queue [of 0 ?is "({}, [])"] by auto
        then have "?U = {}" using U by simp
        then have "shortest_path_promise (edges_of P s (\<lambda>_. True)) ?U b depth None"
          by (simp only: shortest_path_promise_def option.case ball_empty)
        then show ?thesis using go(2) True more Some b by (simp add: find_path_multi_source_def)
      next
        case False
        have "i \<in> live s \<and> i \<noteq> j" if "i \<in> set ?is" for i
        proof -
          from that obtain u where "u \<in> set sources" "resolve s u = Some i" by (auto simp: List.map_filter_def)
          then show ?thesis using go(1) resolve_live(1) [OF s, of u i] by blast
        qed
        then have "set ?is \<subseteq> live s" "j \<notin> set ?is" by blast+
        from many_sources [OF s Some go(3) this, of depth, folded U] show ?thesis
          using go(2) False more Some b by (simp add: find_path_multi_source_def)
      qed
    qed
  qed
qed

end

end
