(* ===== verification/Graph_Path_Properties.thy ===== *)
theory Graph_Path_Properties
  imports Graph_Paths Code_Graph_Properties
begin

text \<open>
  Properties of the path searches on every code graph its operations can build, with any library graph that
  keeps the laws.
\<close>



end
