(* ===== verification/Graph_Traverse.thy ===== *)
theory Graph_Traverse
  imports Graph_Paths
begin

text \<open>
  The bounded breadth-first traversal of the analysis crate (\<^verbatim>\<open>traversal/mod.rs\<close>), layer by layer, with
  a bound on the depth and on the number of nodes. The two implementations, on the graph and on a
  snapshot of it, share the loops below; they differ in where the neighbours of a vertex come from.
\<close>

section \<open>Configuration and result\<close>

datatype traversal_direction = TD_Outgoing | TD_Incoming | TD_Both

record traversal_config =
  tc_max_depth :: nat
  tc_max_nodes :: nat
  tc_direction :: traversal_direction
  tc_parallel :: bool

definition PARALLEL_THRESHOLD :: nat where
  "PARALLEL_THRESHOLD = 64"

definition CSR_SIZE_THRESHOLD :: nat where
  "CSR_SIZE_THRESHOLD = 1024"

definition traversal_config_default :: traversal_config where
  "traversal_config_default = \<lparr>tc_max_depth = 3, tc_max_nodes = 100, tc_direction = TD_Outgoing, tc_parallel = False\<rparr>"

record traversal_result =
  tr_nodes :: "nat list"
  tr_edges :: "(nat \<times> nat) list"
  tr_depth_reached :: nat
  tr_was_truncated :: bool
  tr_cycles_detected_at :: "nat list"

definition nothing_found :: traversal_result where
  "nothing_found = \<lparr>tr_nodes = [], tr_edges = [], tr_depth_reached = 0, tr_was_truncated = False, tr_cycles_detected_at = []\<rparr>"

section \<open>The loops\<close>

record walk_state =
  ls_nodes :: "nat list"
  ls_edges :: "(nat \<times> nat) list"
  ls_cycles :: "nat list"
  ls_visited :: "nat set"
  ls_next :: "nat list"

text \<open>The loop over the neighbours is left when the result is full, or by the panic of an index.\<close>

datatype layer_exit = Truncated walk_state | Panicked

definition take_neighbour :: "(nat \<Rightarrow> nat option) \<Rightarrow> nat \<Rightarrow> nat \<Rightarrow> walk_state \<Rightarrow> (layer_exit, walk_state) result" where
  "take_neighbour id_of max_nodes nbr st =
     (if max_nodes \<le> length (ls_nodes st) then Inl (Truncated st)
      else Inr (st\<lparr>ls_visited := insert nbr (ls_visited st),
                  ls_nodes := (case id_of nbr of None \<Rightarrow> ls_nodes st | Some nbr_id \<Rightarrow> ls_nodes st @ [nbr_id]),
                  ls_next := ls_next st @ [nbr]\<rparr>))"

definition visit_neighbour ::
    "(nat \<Rightarrow> nat option) \<Rightarrow> nat \<Rightarrow> nat \<times> nat \<Rightarrow> walk_state \<Rightarrow> (layer_exit, walk_state) result" where
  "visit_neighbour id_of max_nodes pair st = (case (id_of (fst pair), id_of (snd pair)) of
     (Some cur_id, Some nbr_id) \<Rightarrow>
       (let st = st\<lparr>ls_edges := ls_edges st @ [(cur_id, nbr_id)]\<rparr> in
        if snd pair \<in> ls_visited st then Inr (st\<lparr>ls_cycles := ls_cycles st @ [nbr_id]\<rparr>)
        else take_neighbour id_of max_nodes (snd pair) st)
   | _ \<Rightarrow> take_neighbour id_of max_nodes (snd pair) st)"

definition expand_current ::
    "(nat \<Rightarrow> nat list option) \<Rightarrow> (nat \<Rightarrow> nat option) \<Rightarrow> nat \<Rightarrow> nat \<Rightarrow> walk_state \<Rightarrow> (layer_exit, walk_state) result" where
  "expand_current nbrs_of id_of max_nodes current st = (case nbrs_of current of
     None \<Rightarrow> Inl Panicked
   | Some ns \<Rightarrow> for_each (\<lambda>n. visit_neighbour id_of max_nodes (current, n)) ns st)"

definition expand_layer ::
    "(nat \<Rightarrow> nat list option) \<Rightarrow> (nat \<Rightarrow> nat option) \<Rightarrow> nat \<Rightarrow> nat list \<Rightarrow> walk_state \<Rightarrow> (layer_exit, walk_state) result" where
  "expand_layer nbrs_of id_of max_nodes layer = for_each (expand_current nbrs_of id_of max_nodes) layer"

text \<open>The loop over the depths, with the number of them left; the value is the last state, the depth
  reached, and whether the result is truncated.\<close>

fun layers ::
    "(nat list \<Rightarrow> walk_state \<Rightarrow> (layer_exit, walk_state) result) \<Rightarrow> nat \<Rightarrow> nat \<Rightarrow> nat list \<Rightarrow> nat \<Rightarrow> walk_state \<Rightarrow>
     (walk_state \<times> nat \<times> bool) option" where
  "layers expand 0 depth current reached st = Some (st, reached, False)"
| "layers expand (Suc left) depth current reached st =
     (if current = [] then Some (st, reached, False)
      else case expand current (st\<lparr>ls_next := []\<rparr>) of
          Inl Panicked \<Rightarrow> None
        | Inl (Truncated st) \<Rightarrow> Some (st, depth, True)
        | Inr st \<Rightarrow> layers expand left (Suc depth) (ls_next st) (if ls_next st \<noteq> [] then Suc depth else depth) st)"

definition start_state :: "nat \<Rightarrow> nat \<Rightarrow> walk_state" where
  "start_state start vertex = \<lparr>ls_nodes = [start], ls_edges = [], ls_cycles = [], ls_visited = {vertex}, ls_next = []\<rparr>"

definition traversal_of :: "walk_state \<times> nat \<times> bool \<Rightarrow> traversal_result" where
  "traversal_of r = (case r of (st, reached, was_truncated) \<Rightarrow>
     \<lparr>tr_nodes = ls_nodes st, tr_edges = ls_edges st, tr_depth_reached = reached, tr_was_truncated = was_truncated,
      tr_cycles_detected_at = ls_cycles st\<rparr>)"

section \<open>On the graph\<close>

definition in_neighbours :: "('g, 'x) graph_ops \<Rightarrow> 'g code_graph \<Rightarrow> nat \<Rightarrow> nat list" where
  "in_neighbours P s i = map fst (pg_in P (cg_graph s) i)"

definition directed_neighbours :: "('g, 'x) graph_ops \<Rightarrow> 'g code_graph \<Rightarrow> traversal_direction \<Rightarrow> nat \<Rightarrow> nat list" where
  "directed_neighbours P s dir i = (case dir of
     TD_Outgoing \<Rightarrow> out_neighbours P s i
   | TD_Incoming \<Rightarrow> in_neighbours P s i
   | TD_Both \<Rightarrow> out_neighbours P s i @ in_neighbours P s i)"

definition traverse_petgraph :: "('g, 'x) graph_ops \<Rightarrow> 'g code_graph \<Rightarrow> nat \<Rightarrow> traversal_config \<Rightarrow> traversal_result option" where
  "traverse_petgraph P s start config = (case resolve s start of
     None \<Rightarrow> Some nothing_found
   | Some start_idx \<Rightarrow>
       map_option traversal_of
         (layers (expand_layer (\<lambda>i. Some (directed_neighbours P s (tc_direction config) i)) (node_id_for P s) (tc_max_nodes config))
           (tc_max_depth config) 0 [start_idx] 0 (start_state start start_idx)))"

section \<open>The scan of a layer\<close>

text \<open>A layer is scanned edge by edge.\<close>

definition layer_pairs :: "(nat \<Rightarrow> nat list) \<Rightarrow> nat list \<Rightarrow> (nat \<times> nat) list" where
  "layer_pairs nxt layer = concat (map (\<lambda>c. map (Pair c) (nxt c)) layer)"

lemma for_each_map: "for_each f (map g xs) = for_each (\<lambda>x. f (g x)) xs"
proof
  show "for_each f (map g xs) st = for_each (\<lambda>x. f (g x)) xs st" for st
    by (induction xs arbitrary: st) (auto intro: and_then_cong)
qed

lemma expand_layer_pairs:
  assumes "\<And>c. c \<in> set layer \<Longrightarrow> nbrs_of c = Some (nxt c)"
  shows "expand_layer nbrs_of id_of max_nodes layer st = for_each (visit_neighbour id_of max_nodes) (layer_pairs nxt layer) st"
  using assms
proof (induction layer arbitrary: st)
  case (Cons c layer)
  have "expand_layer nbrs_of id_of max_nodes (c # layer) st =
      and_then (expand_current nbrs_of id_of max_nodes c st) (expand_layer nbrs_of id_of max_nodes layer)"
    by (simp add: expand_layer_def)
  also have "\<dots> = and_then (for_each (visit_neighbour id_of max_nodes) (map (Pair c) (nxt c)) st)
      (for_each (visit_neighbour id_of max_nodes) (layer_pairs nxt layer))"
    using Cons by (intro and_then_cong) (simp_all add: expand_current_def for_each_map)
  also have "\<dots> = for_each (visit_neighbour id_of max_nodes) (layer_pairs nxt (c # layer)) st"
    by (simp add: layer_pairs_def for_each_append)
  finally show ?case .
qed (simp add: expand_layer_def layer_pairs_def)

text \<open>What a state holds when the vertices listed in \<open>vs\<close> were visited, \<open>ns\<close> of them in this layer.\<close>

definition layer_ok :: "(nat \<Rightarrow> nat option) \<Rightarrow> nat list \<Rightarrow> nat list \<Rightarrow> walk_state \<Rightarrow> bool" where
  "layer_ok id_of vs ns st \<longleftrightarrow> ls_visited st = set vs \<and> distinct vs \<and> map id_of vs = map Some (ls_nodes st) \<and> ls_next st = ns"

lemma visit_neighbour_step:
  assumes ok: "layer_ok id_of vs ns st" and ids: "id_of (fst p) \<noteq> None" "id_of (snd p) \<noteq> None"
  shows "if snd p \<in> set vs then \<exists>st'. visit_neighbour id_of max_nodes p st = Inr st' \<and> layer_ok id_of vs ns st'
    else if max_nodes \<le> length vs then \<exists>st'. visit_neighbour id_of max_nodes p st = Inl (Truncated st') \<and> layer_ok id_of vs ns st'
    else \<exists>st'. visit_neighbour id_of max_nodes p st = Inr st' \<and> layer_ok id_of (vs @ [snd p]) (ns @ [snd p]) st'"
proof -
  have "length (ls_nodes st) = length vs" using ok by (metis layer_ok_def length_map)
  with assms show ?thesis by (auto simp: layer_ok_def visit_neighbour_def take_neighbour_def Let_def)
qed

lemma scan_layer:
  assumes "layer_ok id_of vs ns st" and "\<forall>p\<in>set ps. id_of (fst p) \<noteq> None \<and> id_of (snd p) \<noteq> None"
  shows "(\<exists>st' new. for_each (visit_neighbour id_of max_nodes) ps st = Inr st' \<and> layer_ok id_of (vs @ new) (ns @ new) st' \<and>
      set (vs @ new) = set vs \<union> snd ` set ps \<and> length (vs @ new) \<le> max (length vs) max_nodes) \<or>
    (\<exists>st' new. for_each (visit_neighbour id_of max_nodes) ps st = Inl (Truncated st') \<and> layer_ok id_of (vs @ new) (ns @ new) st' \<and>
      set new \<subseteq> snd ` set ps \<and> length (vs @ new) = max (length vs) max_nodes \<and> \<not> snd ` set ps \<subseteq> set (vs @ new))"
  using assms
proof (induction ps arbitrary: vs ns st)
  case Nil
  then show ?case by (intro disjI1 exI [of _ st] exI [of _ "[]"]) simp
next
  case (Cons p ps)
  have step: "if snd p \<in> set vs then \<exists>st'. visit_neighbour id_of max_nodes p st = Inr st' \<and> layer_ok id_of vs ns st'
    else if max_nodes \<le> length vs then \<exists>st'. visit_neighbour id_of max_nodes p st = Inl (Truncated st') \<and> layer_ok id_of vs ns st'
    else \<exists>st'. visit_neighbour id_of max_nodes p st = Inr st' \<and> layer_ok id_of (vs @ [snd p]) (ns @ [snd p]) st'"
    using visit_neighbour_step [OF Cons.prems(1), of p max_nodes] Cons.prems(2) by simp
  have rest: "\<forall>q\<in>set ps. id_of (fst q) \<noteq> None \<and> id_of (snd q) \<noteq> None" using Cons.prems(2) by simp
  show ?case
  proof (cases "snd p \<in> set vs")
    case True
    with step obtain st' where st': "visit_neighbour id_of max_nodes p st = Inr st'" "layer_ok id_of vs ns st'" by auto
    from Cons.IH [OF st'(2) rest] show ?thesis
    proof (elim disjE exE conjE)
      fix t xs assume "for_each (visit_neighbour id_of max_nodes) ps st' = Inr t" "layer_ok id_of (vs @ xs) (ns @ xs) t"
        "set (vs @ xs) = set vs \<union> snd ` set ps" "length (vs @ xs) \<le> max (length vs) max_nodes"
      then show ?thesis using True by (intro disjI1 exI [of _ t] exI [of _ xs]) (auto simp: st'(1))
    next
      fix t xs assume "for_each (visit_neighbour id_of max_nodes) ps st' = Inl (Truncated t)" "layer_ok id_of (vs @ xs) (ns @ xs) t"
        "set xs \<subseteq> snd ` set ps" "length (vs @ xs) = max (length vs) max_nodes" "\<not> snd ` set ps \<subseteq> set (vs @ xs)"
      then show ?thesis using True by (intro disjI2 exI [of _ t] exI [of _ xs]) (auto simp: st'(1))
    qed
  next
    case new: False
    show ?thesis
    proof (cases "max_nodes \<le> length vs")
      case True
      with new step obtain st' where "visit_neighbour id_of max_nodes p st = Inl (Truncated st')" "layer_ok id_of vs ns st'" by auto
      with new True show ?thesis by (intro disjI2 exI [of _ st'] exI [of _ "[]"]) simp
    next
      case False
      with new step obtain st' where st': "visit_neighbour id_of max_nodes p st = Inr st'"
          "layer_ok id_of (vs @ [snd p]) (ns @ [snd p]) st'" by auto
      from Cons.IH [OF st'(2) rest] show ?thesis
      proof (elim disjE exE conjE)
        fix t xs assume "for_each (visit_neighbour id_of max_nodes) ps st' = Inr t" "layer_ok id_of ((vs @ [snd p]) @ xs) ((ns @ [snd p]) @ xs) t"
          "set ((vs @ [snd p]) @ xs) = set (vs @ [snd p]) \<union> snd ` set ps" "length ((vs @ [snd p]) @ xs) \<le> max (length (vs @ [snd p])) max_nodes"
        then show ?thesis using False by (intro disjI1 exI [of _ t] exI [of _ "snd p # xs"]) (auto simp: st'(1))
      next
        fix t xs assume "for_each (visit_neighbour id_of max_nodes) ps st' = Inl (Truncated t)" "layer_ok id_of ((vs @ [snd p]) @ xs) ((ns @ [snd p]) @ xs) t"
          "set xs \<subseteq> snd ` set ps" "length ((vs @ [snd p]) @ xs) = max (length (vs @ [snd p])) max_nodes" "\<not> snd ` set ps \<subseteq> set ((vs @ [snd p]) @ xs)"
        then show ?thesis using False by (intro disjI2 exI [of _ t] exI [of _ "snd p # xs"]) (auto simp: st'(1))
      qed
    qed
  qed
qed

section \<open>All layers\<close>

lemma level_le: "v \<in> ball nxt S d \<Longrightarrow> level nxt S v \<le> d"
  using level_ball [of v nxt S d] by blast

lemma level_new: "v \<in> ball nxt S (Suc d) \<Longrightarrow> v \<notin> ball nxt S d \<Longrightarrow> level nxt S v = Suc d"
  using level_ball [of v nxt S "Suc d"] ball_mono [of "level nxt S v" d nxt S] by (metis le_SucE subsetD)

lemma level_above: "v \<notin> ball nxt S d \<Longrightarrow> v \<in> ball nxt S k \<Longrightarrow> d < level nxt S v"
  using level_ball [of v nxt S k] ball_mono [of "level nxt S v" d nxt S] by (metis not_le subsetD)

lemma level_pred:
  assumes "v \<in> ball nxt S (Suc d)" and "v \<notin> ball nxt S d"
  shows "\<exists>u\<in>ball nxt S d. level nxt S u = d \<and> v \<in> set (nxt u)"
proof -
  from assms obtain u where u: "u \<in> ball nxt S d" "v \<in> set (nxt u)" by auto
  have "level nxt S u = d"
  proof (rule ccontr)
    assume "level nxt S u \<noteq> d"
    then have less: "Suc (level nxt S u) \<le> d" using level_le [OF u(1)] by simp
    have "v \<in> ball nxt S (Suc (level nxt S u))" using level_ball [OF u(1)] u(2) by auto
    then show False using assms(2) ball_mono [OF less, of nxt S] by blast
  qed
  with u show ?thesis by blast
qed

lemma ball_stop:
  assumes "{v \<in> ball nxt S d. level nxt S v = d} = {}"
  shows "ball nxt S (d + j) = ball nxt S d"
proof (induction j)
  case (Suc j)
  have "ball nxt S (Suc d) \<subseteq> ball nxt S d"
  proof
    show "v \<in> ball nxt S d" if "v \<in> ball nxt S (Suc d)" for v using level_pred [OF that] assms by blast
  qed
  then have "ball nxt S (Suc d) = ball nxt S d" by (rule equalityI) (rule ball_mono, simp)
  then show ?case unfolding add_Suc_right ball.simps Suc by simp
qed simp

lemma layer_pairs_set: "p \<in> set (layer_pairs nxt layer) \<longleftrightarrow> fst p \<in> set layer \<and> snd p \<in> set (nxt (fst p))"
  by (cases p) (auto simp: layer_pairs_def)

lemma next_ball:
  assumes "set layer = {v \<in> ball nxt S d. level nxt S v = d}"
  shows "ball nxt S d \<union> snd ` set (layer_pairs nxt layer) = ball nxt S (Suc d)"
proof -
  have "snd ` set (layer_pairs nxt layer) = (\<Union>u\<in>set layer. set (nxt u))" by (simp add: layer_pairs_def image_UN image_image)
  also have "ball nxt S d \<union> \<dots> = ball nxt S (Suc d)"
  proof (intro equalityI subsetI)
    fix v assume "v \<in> ball nxt S (Suc d)"
    then show "v \<in> ball nxt S d \<union> (\<Union>u\<in>set layer. set (nxt u))"
      using level_pred [of v nxt S d] unfolding assms by (cases "v \<in> ball nxt S d") auto
  qed (auto simp: assms)
  finally show ?thesis .
qed

text \<open>What the traversal promises: at most the bound of vertices, nearest first, all within the depth unless
  the bound cuts it off.\<close>

definition nearest_first :: "('a \<Rightarrow> 'a list) \<Rightarrow> 'a \<Rightarrow> nat \<Rightarrow> nat \<Rightarrow> 'a list \<Rightarrow> bool \<Rightarrow> bool" where
  "nearest_first nxt v depth bound vs partial \<longleftrightarrow> distinct vs \<and> vs \<noteq> [] \<and> hd vs = v \<and> sorted (map (level nxt {v}) vs) \<and>
     set vs \<subseteq> ball nxt {v} depth \<and> length vs \<le> max 1 bound \<and>
     (\<forall>y\<in>ball nxt {v} depth - set vs. \<forall>x\<in>set vs. level nxt {v} x \<le> level nxt {v} y) \<and>
     (if partial then length vs = max 1 bound \<and> set vs \<noteq> ball nxt {v} depth else set vs = ball nxt {v} depth)"

lemma sorted_levels:
  fixes d :: nat
  assumes "sorted (map f xs)" and "\<And>x. x \<in> set xs \<Longrightarrow> f x \<le> d" and "\<And>y. y \<in> set ys \<Longrightarrow> f y = Suc d"
  shows "sorted (map f (xs @ ys))"
proof -
  have "sorted (map f ys)" using assms(3) by (induction ys) auto
  moreover have "f x \<le> f y" if "x \<in> set xs" "y \<in> set ys" for x y using assms(2) [OF that(1)] assms(3) [OF that(2)] by simp
  ultimately show ?thesis using assms(1) by (simp add: sorted_append)
qed

lemma layers_nearest:
  assumes ids: "\<And>v. v \<in> R \<Longrightarrow> id_of v \<noteq> None" and closed: "\<And>v. v \<in> R \<Longrightarrow> set (nxt v) \<subseteq> R"
    and nbrs_of: "\<And>v. v \<in> R \<Longrightarrow> nbrs_of v = Some (nxt v)" and v: "v \<in> R"
  shows "layer_ok id_of vs ns st \<Longrightarrow> vs \<noteq> [] \<Longrightarrow> hd vs = v \<Longrightarrow> sorted (map (level nxt {v}) vs) \<Longrightarrow> set vs = ball nxt {v} d \<Longrightarrow>
    set current = {u \<in> ball nxt {v} d. level nxt {v} u = d} \<Longrightarrow> length vs \<le> max 1 bound \<Longrightarrow>
    \<exists>st' reached partial vs' ns'. layers (expand_layer nbrs_of id_of bound) left d current r st = Some (st', reached, partial) \<and>
      layer_ok id_of vs' ns' st' \<and> nearest_first nxt v (d + left) bound vs' partial"
proof (induction left arbitrary: d current r st vs ns)
  case 0
  then have "nearest_first nxt v (d + 0) bound vs False" by (simp add: nearest_first_def layer_ok_def)
  with 0 show ?case by auto
next
  case (Suc left)
  note st = Suc.prems
  have in_R: "ball nxt {v} k \<subseteq> R" for k using v closed by (induction k) auto
  show ?case
  proof (cases "current = []")
    case True
    then have "ball nxt {v} (d + Suc left) = ball nxt {v} d" using st(6) by (intro ball_stop) auto
    then have "nearest_first nxt v (d + Suc left) bound vs False" using st by (simp add: nearest_first_def layer_ok_def)
    with True st(1) show ?thesis by auto
  next
    case False
    let ?st = "st\<lparr>ls_next := []\<rparr>" and ?ps = "layer_pairs nxt current"
    have layer: "set current \<subseteq> R" using st(6) in_R by blast
    have expand: "expand_layer nbrs_of id_of bound current ?st = for_each (visit_neighbour id_of bound) ?ps ?st"
      by (rule expand_layer_pairs) (use layer nbrs_of in blast)
    have start: "layer_ok id_of vs [] ?st" using st(1) by (simp add: layer_ok_def)
    have pairs: "\<forall>p\<in>set ?ps. id_of (fst p) \<noteq> None \<and> id_of (snd p) \<noteq> None"
      using layer closed ids by (meson layer_pairs_set subsetD)
    have whole: "set vs \<union> snd ` set ?ps = ball nxt {v} (Suc d)" unfolding st(5) by (rule next_ball [OF st(6)])
    have more: "ball nxt {v} (Suc d) \<subseteq> ball nxt {v} (d + Suc left)" by (rule ball_mono) simp
    have old: "level nxt {v} x \<le> d" if "x \<in> set vs" for x using that level_le unfolding st(5) by fast
    have one: "1 \<le> length vs" using st(2) by (simp add: Suc_leI)
    from scan_layer [OF start pairs, of bound] show ?thesis
    proof (elim disjE exE conjE)
      fix t new assume run: "for_each (visit_neighbour id_of bound) ?ps ?st = Inr t" and ok: "layer_ok id_of (vs @ new) ([] @ new) t"
        and all: "set (vs @ new) = set vs \<union> snd ` set ?ps" and len: "length (vs @ new) \<le> max (length vs) bound"
      have all': "set (vs @ new) = ball nxt {v} (Suc d)" using all whole by simp
      have "distinct (vs @ new)" using ok by (simp add: layer_ok_def)
      then have new: "set new = ball nxt {v} (Suc d) - ball nxt {v} d" using all' st(5) by auto
      then have level_new': "level nxt {v} x = Suc d" if "x \<in> set new" for x using level_new that by fast
      have "set new = {u \<in> ball nxt {v} (Suc d). level nxt {v} u = Suc d}"
      proof (intro set_eqI)
        fix u show "u \<in> set new \<longleftrightarrow> u \<in> {u \<in> ball nxt {v} (Suc d). level nxt {v} u = Suc d}"
          using level_new [of u nxt "{v}" d] level_le [of u nxt "{v}" d] unfolding new by (cases "u \<in> ball nxt {v} d") auto
      qed
      moreover have "sorted (map (level nxt {v}) (vs @ new))"
        by (rule sorted_levels [OF st(4)]) (use old level_new' in simp_all)
      moreover have "length (vs @ new) \<le> max 1 bound" using len st(7) one by linarith
      moreover have "layers (expand_layer nbrs_of id_of bound) (Suc left) d current r st =
          layers (expand_layer nbrs_of id_of bound) left (Suc d) new (if new \<noteq> [] then Suc d else d) t"
        using False ok by (simp add: expand run layer_ok_def)
      ultimately show ?thesis
        using Suc.IH [of "vs @ new" new t "Suc d" new "if new \<noteq> [] then Suc d else d"] ok st(2,3) all' by auto
    next
      fix t new assume run: "for_each (visit_neighbour id_of bound) ?ps ?st = Inl (Truncated t)" and ok: "layer_ok id_of (vs @ new) ([] @ new) t"
        and sub: "set new \<subseteq> snd ` set ?ps" and len: "length (vs @ new) = max (length vs) bound"
        and miss: "\<not> snd ` set ?ps \<subseteq> set (vs @ new)"
      have dist: "distinct (vs @ new)" using ok by (simp add: layer_ok_def)
      then have new: "set new \<subseteq> ball nxt {v} (Suc d) - ball nxt {v} d" using sub whole st(5) by auto
      then have level_new': "level nxt {v} x = Suc d" if "x \<in> set new" for x using level_new that by fast
      have "set vs \<subseteq> ball nxt {v} (d + Suc left)" unfolding st(5) by (rule ball_mono) simp
      moreover have "set new \<subseteq> ball nxt {v} (d + Suc left)" using new more by blast
      ultimately have "set (vs @ new) \<subseteq> ball nxt {v} (d + Suc left)" unfolding set_append by (rule Un_least)
      moreover have "sorted (map (level nxt {v}) (vs @ new))"
        by (rule sorted_levels [OF st(4)]) (use old level_new' in simp_all)
      moreover have "length (vs @ new) = max 1 bound" using len st(7) one by linarith
      moreover have "set (vs @ new) \<noteq> ball nxt {v} (d + Suc left)" using miss whole more by blast
      moreover have "level nxt {v} x \<le> level nxt {v} y"
        if y: "y \<in> ball nxt {v} (d + Suc left) - set (vs @ new)" and x: "x \<in> set (vs @ new)" for x y
      proof -
        have "y \<notin> ball nxt {v} d" using y st(5) by simp
        then have "Suc d \<le> level nxt {v} y" using level_above y by (metis DiffD1 Suc_leI)
        moreover have "level nxt {v} x \<le> Suc d" using x old level_new' by fastforce
        ultimately show ?thesis by simp
      qed
      ultimately have "nearest_first nxt v (d + Suc left) bound (vs @ new) True"
        using dist st(2,3) by (simp add: nearest_first_def)
      moreover have "layers (expand_layer nbrs_of id_of bound) (Suc left) d current r st = Some (t, d, True)"
        using False by (simp add: expand run)
      ultimately show ?thesis using ok by blast
    qed
  qed
qed

section \<open>The promise by identifier\<close>

definition directed_edges :: "(nat \<times> nat) set \<Rightarrow> traversal_direction \<Rightarrow> (nat \<times> nat) set" where
  "directed_edges E dir = (case dir of TD_Outgoing \<Rightarrow> E | TD_Incoming \<Rightarrow> E\<inverse> | TD_Both \<Rightarrow> E \<union> E\<inverse>)"

definition within :: "(nat \<times> nat) set \<Rightarrow> nat \<Rightarrow> nat \<Rightarrow> nat set" where
  "within E u depth = {w. \<exists>k\<le>depth. (u, w) \<in> E ^^ k}"

definition distance :: "(nat \<times> nat) set \<Rightarrow> nat \<Rightarrow> nat \<Rightarrow> nat" where
  "distance E u w = (LEAST k. (u, w) \<in> E ^^ k)"

definition traversal_promise :: "(nat \<times> nat) set \<Rightarrow> nat \<Rightarrow> traversal_config \<Rightarrow> traversal_result \<Rightarrow> bool" where
  "traversal_promise E start config r \<longleftrightarrow> distinct (tr_nodes r) \<and> tr_nodes r \<noteq> [] \<and> hd (tr_nodes r) = start \<and>
     sorted (map (distance E start) (tr_nodes r)) \<and> set (tr_nodes r) \<subseteq> within E start (tc_max_depth config) \<and>
     length (tr_nodes r) \<le> max 1 (tc_max_nodes config) \<and>
     (\<forall>y\<in>within E start (tc_max_depth config) - set (tr_nodes r). \<forall>x\<in>set (tr_nodes r). distance E start x \<le> distance E start y) \<and>
     (if tr_was_truncated r
      then length (tr_nodes r) = max 1 (tc_max_nodes config) \<and> set (tr_nodes r) \<noteq> within E start (tc_max_depth config)
      else set (tr_nodes r) = within E start (tc_max_depth config))"

lemma Least_within: "(LEAST k. \<exists>j\<le>k. P j) = (LEAST j :: nat. P j)"
proof (cases "\<exists>j. P j")
  case True
  then have "P (LEAST j. P j)" by (rule LeastI_ex)
  then show ?thesis by (intro Least_equality) (auto intro: Least_le order_trans)
qed simp

section \<open>The traversal under a renaming\<close>

lemma level_distance:
  assumes "traces f R nxt E" and "i \<in> R" and "j \<in> R"
  shows "level nxt {i} j = distance E (f i) (f j)"
  using traces_in_ball [OF assms(1) _ assms(3), of "{i}"] assms(2) unfolding level_def distance_def by (simp add: Least_within)

lemma nearest_promise:
  assumes trace: "traces f R nxt E" and i: "i \<in> R"
    and nearest: "nearest_first nxt i (tc_max_depth config) (tc_max_nodes config) vs (tr_was_truncated r)"
    and nodes: "tr_nodes r = map f vs"
  shows "traversal_promise E (f i) config r"
proof -
  let ?B = "ball nxt {i} (tc_max_depth config)"
  have S: "{i} \<subseteq> R" using i by simp
  note N = nearest [unfolded nearest_first_def]
  have B: "?B \<subseteq> R" by (rule traces_ball(1) [OF trace S])
  have vs: "set vs \<subseteq> ?B" using N by blast
  have W: "f ` ?B = within E (f i) (tc_max_depth config)" unfolding traces_ball(2) [OF trace S] by (simp add: within_def)
  have inj: "inj_on f ?B" by (rule inj_on_subset [OF tracesD(1) [OF trace] B])
  have dist: "level nxt {i} j = distance E (f i) (f j)" if "j \<in> ?B" for j
    using level_distance [OF trace i] that B by blast
  have levels: "map (level nxt {i}) vs = map (distance E (f i)) (tr_nodes r)"
    using dist vs unfolding nodes map_map by (intro map_cong refl) (auto simp: subset_eq)
  have set: "set (tr_nodes r) = f ` set vs" by (simp add: nodes)
  show ?thesis unfolding traversal_promise_def W [symmetric]
  proof (intro conjI ballI)
    show "distinct (tr_nodes r)" using N inj_on_subset [OF inj vs] by (simp add: nodes distinct_map)
    show "tr_nodes r \<noteq> []" "hd (tr_nodes r) = f i" "length (tr_nodes r) \<le> max 1 (tc_max_nodes config)"
      using N by (simp_all add: nodes hd_map)
    show "sorted (map (distance E (f i)) (tr_nodes r))" unfolding levels [symmetric] using N by blast
    show "set (tr_nodes r) \<subseteq> f ` ?B" unfolding set by (rule image_mono [OF vs])
    fix y x assume "y \<in> f ` ?B - set (tr_nodes r)" "x \<in> set (tr_nodes r)"
    then obtain j k where j: "j \<in> ?B" "j \<notin> set vs" "y = f j" and k: "k \<in> set vs" "x = f k" unfolding set by blast
    then have "level nxt {i} k \<le> level nxt {i} j" using N by blast
    then show "distance E (f i) x \<le> distance E (f i) y" using dist [OF j(1)] dist [OF subsetD [OF vs k(1)]] j k by simp
  next
    have "f ` set vs = f ` ?B \<longleftrightarrow> set vs = ?B" using inj_on_image_eq_iff [OF inj vs] by simp
    then show "if tr_was_truncated r then length (tr_nodes r) = max 1 (tc_max_nodes config) \<and> set (tr_nodes r) \<noteq> f ` ?B
        else set (tr_nodes r) = f ` ?B"
      using N unfolding set by (simp add: nodes split: if_splits)
  qed
qed

lemma layers_promise:
  assumes trace: "traces f R nxt E" and i: "i \<in> R" and ids: "\<And>v. v \<in> R \<Longrightarrow> id_of v = Some (f v)"
    and nbrs_of: "\<And>v. v \<in> R \<Longrightarrow> nbrs_of v = Some (nxt v)"
  shows "\<exists>r. map_option traversal_of (layers (expand_layer nbrs_of id_of (tc_max_nodes config)) (tc_max_depth config) 0 [i] 0
      (start_state (f i) i)) = Some r \<and> traversal_promise E (f i) config r"
proof -
  have start: "layer_ok id_of [i] [] (start_state (f i) i)" using ids [OF i] by (simp add: layer_ok_def start_state_def)
  have "\<exists>st' reached partial vs' ns'. layers (expand_layer nbrs_of id_of (tc_max_nodes config)) (tc_max_depth config) 0 [i] 0
        (start_state (f i) i) = Some (st', reached, partial) \<and> layer_ok id_of vs' ns' st' \<and>
      nearest_first nxt i (0 + tc_max_depth config) (tc_max_nodes config) vs' partial"
    by (rule layers_nearest [OF _ tracesD(2) [OF trace] nbrs_of i start]) (use ids in \<open>auto simp: level_start\<close>)
  then obtain st' reached partial vs' ns' where run:
      "layers (expand_layer nbrs_of id_of (tc_max_nodes config)) (tc_max_depth config) 0 [i] 0 (start_state (f i) i) =
        Some (st', reached, partial)"
      "layer_ok id_of vs' ns' st'" "nearest_first nxt i (tc_max_depth config) (tc_max_nodes config) vs' partial" by auto
  have "set vs' \<subseteq> R" using run(3) traces_ball(1) [OF trace, of "{i}"] i by (auto simp: nearest_first_def)
  then have "map id_of vs' = map Some (map f vs')" using ids by auto
  moreover have "map id_of vs' = map Some (ls_nodes st')" using run(2) by (simp add: layer_ok_def)
  ultimately have "map Some (ls_nodes st') = map Some (map f vs')" by simp
  then have "ls_nodes st' = map f vs'" by (metis inj_map_eq_map inj_Some)
  then have "traversal_promise E (f i) config (traversal_of (st', reached, partial))"
    using run(3) by (intro nearest_promise [OF trace i]) (simp_all add: traversal_of_def)
  then show ?thesis using run(1) by simp
qed

context stable_graph
begin

lemma edges_of_live:
  assumes s: "slots_ok P ok s" and "(u, w) \<in> edges_of P s Q"
  shows "resolve s u \<noteq> None" "resolve s w \<noteq> None"
proof -
  from assms(2) obtain es e where es: "get_edges_from P s u = Some es" "(w, e) \<in> set es" by (auto simp: edges_of_def)
  obtain es' where "get_edges_from P s u = Some es'" "mset es' = out_ids P s u" using edges_from [OF s] by blast
  with es have "(w, e) \<in># out_ids P s u" by (metis option.inject set_mset_mset)
  from out_ids_ends [OF s this] show "resolve s u \<noteq> None" "resolve s w \<noteq> None" .
qed

lemma in_out: "slots_ok P ok s \<Longrightarrow> (j, e) \<in> set (pg_in P (cg_graph s) i) \<longleftrightarrow> (i, e) \<in> set (pg_out P (cg_graph s) j)"
  using dual [OF slots_okD(1), of s i j e] by (metis count_mset_0_iff)

lemma follows_in:
  assumes s: "slots_ok P ok s"
  shows "follows s (in_neighbours P s) ((edges_of P s (\<lambda>_. True))\<inverse>)"
proof (rule followsI [OF s])
  fix i assume i: "i \<in> live s"
  have from_j: "j \<in> live s" if "(i, e) \<in> set (pg_out P (cg_graph s) j)" for j e using ends [OF slots_okD(1) [OF s] that] by blast
  show "set (in_neighbours P s i) \<subseteq> live s"
    using from_j in_out [OF s] by (fastforce simp: in_neighbours_def)
  have "w \<in> slot_id P (cg_graph s) ` set (in_neighbours P s i) \<longleftrightarrow> (w, slot_id P (cg_graph s) i) \<in> edges_of P s (\<lambda>_. True)" for w
  proof
    assume "w \<in> slot_id P (cg_graph s) ` set (in_neighbours P s i)"
    then obtain j e where j: "(i, e) \<in> set (pg_out P (cg_graph s) j)" "w = slot_id P (cg_graph s) j"
      using in_out [OF s] by (auto simp: in_neighbours_def)
    show "(w, slot_id P (cg_graph s) i) \<in> edges_of P s (\<lambda>_. True)"
      unfolding j(2) edges_slots [OF s from_j [OF j(1)]] using j(1) by blast
  next
    assume edge: "(w, slot_id P (cg_graph s) i) \<in> edges_of P s (\<lambda>_. True)"
    obtain j where "resolve s w = Some j" using edges_of_live(1) [OF s edge] by blast
    note j = resolve_live [OF s this]
    from edge obtain k e where k: "(k, e) \<in> set (pg_out P (cg_graph s) j)" "slot_id P (cg_graph s) i = slot_id P (cg_graph s) k"
      unfolding j(2) [symmetric] edges_slots [OF s j(1)] by blast
    have "k = i" using slot_id_inj [OF s i out_live [OF s k(1)] k(2)] by simp
    then have "(j, e) \<in> set (pg_in P (cg_graph s) i)" using k(1) in_out [OF s] by blast
    then show "w \<in> slot_id P (cg_graph s) ` set (in_neighbours P s i)"
      using j(2) by (force simp: in_neighbours_def)
  qed
  then show "slot_id P (cg_graph s) ` set (in_neighbours P s i) = {w. (slot_id P (cg_graph s) i, w) \<in> (edges_of P s (\<lambda>_. True))\<inverse>}"
    by auto
qed

lemma follows_out: "slots_ok P ok s \<Longrightarrow> follows s (out_neighbours P s) (edges_of P s (\<lambda>_. True))"
  using follows_filtered [of s "\<lambda>_. True"] by (simp add: out_neighbours_def [abs_def] case_prod_beta')

lemma follows_directed:
  assumes s: "slots_ok P ok s"
  shows "follows s (directed_neighbours P s dir) (directed_edges (edges_of P s (\<lambda>_. True)) dir)"
proof (cases dir)
  case TD_Both
  note out = followsD [OF follows_out [OF s]] and inn = followsD [OF follows_in [OF s]]
  show ?thesis unfolding TD_Both directed_edges_def directed_neighbours_def traversal_direction.case
  proof (rule followsI [OF s])
    fix i assume i: "i \<in> live s"
    show "set (out_neighbours P s i @ in_neighbours P s i) \<subseteq> live s" using out(1) [OF i] inn(1) [OF i] by simp
    show "slot_id P (cg_graph s) ` set (out_neighbours P s i @ in_neighbours P s i) =
        {w. (slot_id P (cg_graph s) i, w) \<in> edges_of P s (\<lambda>_. True) \<union> (edges_of P s (\<lambda>_. True))\<inverse>}"
      unfolding set_append image_Un using out(2) [OF i] inn(2) [OF i] by blast
  qed
qed (use follows_out [OF s] follows_in [OF s] in \<open>simp_all add: directed_edges_def directed_neighbours_def [abs_def]\<close>)

lemma traverse_petgraph_promise:
  assumes s: "slots_ok P ok s" and present: "get_node P s u \<noteq> None"
  shows "\<exists>r. traverse_petgraph P s u config = Some r \<and>
    traversal_promise (directed_edges (edges_of P s (\<lambda>_. True)) (tc_direction config)) u config r"
proof -
  obtain i where i: "resolve s u = Some i" using resolve_get_node [OF s, of u] present by auto
  note live_i = resolve_live [OF s i]
  from layers_promise [OF follows_directed [OF s, of "tc_direction config", unfolded follows_def] live_i(1) node_id_for_slot, where config = config
      and nbrs_of = "\<lambda>i. Some (directed_neighbours P s (tc_direction config) i)"]
  show ?thesis using i live_i(2) by (simp add: traverse_petgraph_def)
qed

end

end
