(* ===== verification/Csr_Snapshot.thy ===== *)
theory Csr_Snapshot
  imports Graph_Traverse
begin

text \<open>
  The read-only snapshot of the code graph in compressed sparse rows (\<^verbatim>\<open>csr.rs\<close>), and the traversal that
  runs on it (\<^verbatim>\<open>traverse_csr\<close>). A vertex is the position of a slot in a breadth-first order; positions and
  lengths are cast to 32 bits as in the code. The value None is the panic of an index out of range or a
  loop that does not end; the lemmas exclude both.
\<close>

section \<open>Snapshots\<close>

datatype edge_kind_tag = Tag_Calls | Tag_UnresolvedCall | Tag_UsesType | Tag_References | Tag_Contains | Tag_Implements
  | Tag_ExternalCall | Tag_Extends | Tag_Returns | Tag_TypeOf

fun from_kind :: "analysis_edge_kind \<Rightarrow> edge_kind_tag" where
  "from_kind AE_Calls = Tag_Calls"
| "from_kind (AE_UnresolvedCall _) = Tag_UnresolvedCall"
| "from_kind AE_UsesType = Tag_UsesType"
| "from_kind AE_References = Tag_References"
| "from_kind AE_Contains = Tag_Contains"
| "from_kind AE_Implements = Tag_Implements"
| "from_kind (AE_ExternalCall _ _) = Tag_ExternalCall"
| "from_kind AE_Extends = Tag_Extends"
| "from_kind AE_Returns = Tag_Returns"
| "from_kind AE_TypeOf = Tag_TypeOf"

record csr_snapshot =
  cs_n :: nat
  cs_m :: nat
  cs_out_row_ptrs :: "nat list"
  cs_out_col_indices :: "nat list"
  cs_out_edge_kinds :: "edge_kind_tag list"
  cs_in_row_ptrs :: "nat list"
  cs_in_col_indices :: "nat list"
  cs_in_edge_kinds :: "edge_kind_tag list"
  cs_vertex_to_id :: "nat list"
  cs_id_to_vertex :: "(nat, nat) hash_map"
  cs_source_revision :: u64

text \<open>The cast of a length to 32 bits.\<close>

definition as_u32 :: "nat \<Rightarrow> nat" where
  "as_u32 n = n mod 2 ^ 32"

definition csr_empty :: "u64 \<Rightarrow> csr_snapshot" where
  "csr_empty revision = \<lparr>cs_n = 0, cs_m = 0, cs_out_row_ptrs = [0], cs_out_col_indices = [], cs_out_edge_kinds = [],
     cs_in_row_ptrs = [0], cs_in_col_indices = [], cs_in_edge_kinds = [], cs_vertex_to_id = [], cs_id_to_vertex = [],
     cs_source_revision = revision\<rparr>"

section \<open>The order of the vertices\<close>

text \<open>\<^verbatim>\<open>if visited.insert(n, ()).is_none() { queue.push_back(n) }\<close>\<close>

definition push_unseen :: "nat \<Rightarrow> nat set \<times> nat list \<Rightarrow> nat set \<times> nat list" where
  "push_unseen n s = (if n \<in> fst s then s else (insert n (fst s), snd s @ [n]))"

definition relabel_pass :: "(nat \<Rightarrow> nat list) \<Rightarrow> (nat \<Rightarrow> nat list) \<Rightarrow> (nat set \<times> nat list) \<times> nat list \<Rightarrow> (nat set \<times> nat list) \<times> nat list" where
  "relabel_pass out_of in_of s = (case s of
     ((visited, []), order) \<Rightarrow> s
   | ((visited, i # queue), order) \<Rightarrow>
       (fold push_unseen (in_of i) (fold push_unseen (out_of i) (visited, queue)), order @ [i]))"

definition relabel_seed :: "(nat \<Rightarrow> nat list) \<Rightarrow> (nat \<Rightarrow> nat list) \<Rightarrow> nat \<Rightarrow> nat set \<times> nat list \<Rightarrow> (nat set \<times> nat list) option" where
  "relabel_seed out_of in_of seed s =
     (if seed \<in> fst s then Some s
      else map_option (\<lambda>t. (fst (fst t), snd t))
        (while_option (\<lambda>t. snd (fst t) \<noteq> []) (relabel_pass out_of in_of) ((insert seed (fst s), [seed]), snd s)))"

fun relabel_seeds :: "(nat \<Rightarrow> nat list) \<Rightarrow> (nat \<Rightarrow> nat list) \<Rightarrow> nat list \<Rightarrow> nat set \<times> nat list \<Rightarrow> (nat set \<times> nat list) option" where
  "relabel_seeds out_of in_of [] s = Some s"
| "relabel_seeds out_of in_of (seed # seeds) s =
     Option.bind (relabel_seed out_of in_of seed s) (relabel_seeds out_of in_of seeds)"

definition bfs_relabel :: "('g, 'x) graph_ops \<Rightarrow> 'g code_graph \<Rightarrow> nat list option" where
  "bfs_relabel P s =
     (let seeds = sort_key (\<lambda>i. - int (length (out_neighbours P s i) + length (in_neighbours P s i))) (pg_indices P (cg_graph s))
      in map_option snd (relabel_seeds (out_neighbours P s) (in_neighbours P s) seeds ({}, [])))"

section \<open>The rows\<close>

text \<open>A map from the entries of a list to their positions.\<close>

definition positions :: "nat list \<Rightarrow> (nat, nat) hash_map" where
  "positions xs = fold (\<lambda>(i, x) m. hm_insert x (as_u32 i) m) (List.enumerate 0 xs) []"

definition csr_row :: "(nat, nat) hash_map \<Rightarrow> (nat \<times> edge_data) list \<Rightarrow> (nat \<times> edge_kind_tag) list" where
  "csr_row petgraph_to_csr edges =
     sort_key fst (List.map_filter (\<lambda>(t, e). map_option (\<lambda>c. (c, from_kind (ed_kind e))) (map_of petgraph_to_csr t)) edges)"

text \<open>The count of the edges, the pointers, the columns and the kinds.\<close>

type_synonym csr_rows = "nat \<times> nat list \<times> nat list \<times> edge_kind_tag list"

definition push_row :: "(nat \<times> edge_kind_tag) list \<Rightarrow> csr_rows \<Rightarrow> csr_rows" where
  "push_row row st = (case st of (m, ptrs, col, kinds) \<Rightarrow>
     (let col = col @ map fst row; kinds = kinds @ map snd row in
      (m + (length col - last ptrs), ptrs @ [as_u32 (length col)], col, kinds)))"

definition csr_rows_of :: "(nat \<times> edge_kind_tag) list list \<Rightarrow> csr_rows" where
  "csr_rows_of rows = fold push_row rows (0, [0], [], [])"

definition csr_build :: "('g, 'x) graph_ops \<Rightarrow> 'g code_graph \<Rightarrow> csr_snapshot option" where
  "csr_build P s = (let n = length (pg_indices P (cg_graph s)) in
     if n = 0 then Some (csr_empty (cg_revision s))
     else case bfs_relabel P s of
       None \<Rightarrow> None
     | Some order \<Rightarrow>
         (case those (map (node_id_for P s) order) of
            None \<Rightarrow> Some (csr_empty (cg_revision s))
          | Some vertex_to_id \<Rightarrow>
              if length order < n then None
              else let to_csr = positions order;
                (m, out_ptrs, out_col, out_kinds) = csr_rows_of (map (\<lambda>i. csr_row to_csr (pg_out P (cg_graph s) i)) (take n order));
                (_, in_ptrs, in_col, in_kinds) = csr_rows_of (map (\<lambda>i. csr_row to_csr (pg_in P (cg_graph s) i)) (take n order)) in
                Some \<lparr>cs_n = n, cs_m = m, cs_out_row_ptrs = out_ptrs, cs_out_col_indices = out_col, cs_out_edge_kinds = out_kinds,
                  cs_in_row_ptrs = in_ptrs, cs_in_col_indices = in_col, cs_in_edge_kinds = in_kinds,
                  cs_vertex_to_id = vertex_to_id, cs_id_to_vertex = positions vertex_to_id,
                  cs_source_revision = cg_revision s\<rparr>))"

section \<open>Reading a snapshot\<close>

definition row_slice :: "nat list \<Rightarrow> 'a list \<Rightarrow> nat \<Rightarrow> 'a list option" where
  "row_slice ptrs col v = (if Suc v < length ptrs \<and> ptrs ! v \<le> ptrs ! Suc v \<and> ptrs ! Suc v \<le> length col
     then Some (take (ptrs ! Suc v - ptrs ! v) (drop (ptrs ! v) col)) else None)"

definition csr_out_neighbours :: "csr_snapshot \<Rightarrow> nat \<Rightarrow> nat list option" where
  "csr_out_neighbours c v = row_slice (cs_out_row_ptrs c) (cs_out_col_indices c) v"

definition csr_in_neighbours :: "csr_snapshot \<Rightarrow> nat \<Rightarrow> nat list option" where
  "csr_in_neighbours c v = row_slice (cs_in_row_ptrs c) (cs_in_col_indices c) v"

definition csr_out_kinds :: "csr_snapshot \<Rightarrow> nat \<Rightarrow> edge_kind_tag list option" where
  "csr_out_kinds c v = row_slice (cs_out_row_ptrs c) (cs_out_edge_kinds c) v"

definition csr_in_kinds :: "csr_snapshot \<Rightarrow> nat \<Rightarrow> edge_kind_tag list option" where
  "csr_in_kinds c v = row_slice (cs_in_row_ptrs c) (cs_in_edge_kinds c) v"

text \<open>The degrees; a negative difference of two pointers, which no snapshot has, is a panic.\<close>

definition row_length :: "nat list \<Rightarrow> nat \<Rightarrow> nat option" where
  "row_length ptrs v = (if Suc v < length ptrs \<and> ptrs ! v \<le> ptrs ! Suc v then Some (ptrs ! Suc v - ptrs ! v) else None)"

definition csr_out_degree :: "csr_snapshot \<Rightarrow> nat \<Rightarrow> nat option" where
  "csr_out_degree c v = row_length (cs_out_row_ptrs c) v"

definition csr_in_degree :: "csr_snapshot \<Rightarrow> nat \<Rightarrow> nat option" where
  "csr_in_degree c v = row_length (cs_in_row_ptrs c) v"

definition vertex_of :: "csr_snapshot \<Rightarrow> nat \<Rightarrow> nat option" where
  "vertex_of c u = map_of (cs_id_to_vertex c) u"

definition csr_id_of :: "csr_snapshot \<Rightarrow> nat \<Rightarrow> nat option" where
  "csr_id_of c v = (if v < length (cs_vertex_to_id c) then Some (cs_vertex_to_id c ! v) else None)"

definition is_stale :: "csr_snapshot \<Rightarrow> 'g code_graph \<Rightarrow> bool" where
  "is_stale c s \<longleftrightarrow> cg_revision s \<noteq> cs_source_revision c"

definition matches_revision :: "csr_snapshot \<Rightarrow> u64 \<Rightarrow> bool" where
  "matches_revision c revision \<longleftrightarrow> cs_source_revision c = revision"

section \<open>The traversal of a snapshot\<close>

definition csr_directed :: "csr_snapshot \<Rightarrow> traversal_direction \<Rightarrow> nat \<Rightarrow> nat list option" where
  "csr_directed c dir v = (case dir of
     TD_Outgoing \<Rightarrow> csr_out_neighbours c v
   | TD_Incoming \<Rightarrow> csr_in_neighbours c v
   | TD_Both \<Rightarrow> Option.bind (csr_out_neighbours c v) (\<lambda>out. map_option (\<lambda>ins. out @ ins) (csr_in_neighbours c v)))"

text \<open>The sum of the degrees over a layer. The code does nothing with it, but it reads the pointers.\<close>

definition csr_degree :: "csr_snapshot \<Rightarrow> traversal_direction \<Rightarrow> nat \<Rightarrow> nat option" where
  "csr_degree c dir v = (case dir of
     TD_Outgoing \<Rightarrow> csr_out_degree c v
   | TD_Incoming \<Rightarrow> csr_in_degree c v
   | TD_Both \<Rightarrow> Option.bind (csr_out_degree c v) (\<lambda>out. map_option (\<lambda>ins. out + ins) (csr_in_degree c v)))"

definition workload :: "csr_snapshot \<Rightarrow> traversal_direction \<Rightarrow> nat list \<Rightarrow> nat option" where
  "workload c dir current = map_option sum_list (those (map (csr_degree c dir) current))"

text \<open>\<^verbatim>\<open>slice::chunks\<close>\<close>

function slice_chunks :: "nat \<Rightarrow> 'a list \<Rightarrow> 'a list list" where
  "slice_chunks k xs = (if xs = [] \<or> k = 0 then [] else take k xs # slice_chunks k (drop k xs))"
  by pat_completeness auto
termination by (relation "measure (\<lambda>(k, xs). length xs)") auto

declare slice_chunks.simps [simp del]

definition worker_count_for :: "nat \<Rightarrow> nat \<Rightarrow> nat" where
  "worker_count_for available work_items = (if work_items < 1 then 1 else if available < work_items then available else work_items)"

text \<open>What one worker emits for its chunk, and the merge of the batches in the order of their slots.\<close>

definition chunk_pairs :: "csr_snapshot \<Rightarrow> traversal_direction \<Rightarrow> nat list \<Rightarrow> (nat \<times> nat) list option" where
  "chunk_pairs c dir chunk = map_option concat (those (map (\<lambda>cur. map_option (map (Pair cur)) (csr_directed c dir cur)) chunk))"

definition expand_parallel :: "csr_snapshot \<Rightarrow> nat \<Rightarrow> traversal_config \<Rightarrow> nat list \<Rightarrow> walk_state \<Rightarrow> (layer_exit, walk_state) result" where
  "expand_parallel c available config current st =
     (let worker_count = worker_count_for available (length current);
          chunk_size = max 64 (length current div max worker_count 1) in
      case those (map (chunk_pairs c (tc_direction config)) (slice_chunks chunk_size current)) of
        None \<Rightarrow> Inl Panicked
      | Some batches \<Rightarrow> for_each (for_each (visit_neighbour (csr_id_of c) (tc_max_nodes config))) batches st)"

definition csr_expand :: "csr_snapshot \<Rightarrow> nat \<Rightarrow> traversal_config \<Rightarrow> nat list \<Rightarrow> walk_state \<Rightarrow> (layer_exit, walk_state) result" where
  "csr_expand c available config current st =
     (if workload c (tc_direction config) current = None then Inl Panicked
      else if tc_parallel config \<and> PARALLEL_THRESHOLD \<le> length current then expand_parallel c available config current st
      else expand_layer (csr_directed c (tc_direction config)) (csr_id_of c) (tc_max_nodes config) current st)"

definition traverse_csr :: "csr_snapshot \<Rightarrow> nat \<Rightarrow> nat \<Rightarrow> traversal_config \<Rightarrow> traversal_result option" where
  "traverse_csr c available start config = (case vertex_of c start of
     None \<Rightarrow> Some nothing_found
   | Some start_v \<Rightarrow>
       map_option traversal_of (layers (csr_expand c available config) (tc_max_depth config) 0 [start_v] 0 (start_state start start_v)))"

definition traverse :: "('g, 'x) graph_ops \<Rightarrow> 'g code_graph \<Rightarrow> nat \<Rightarrow> nat \<Rightarrow> traversal_config \<Rightarrow> traversal_result option" where
  "traverse P s available start config =
     (if CSR_SIZE_THRESHOLD \<le> length (pg_indices P (cg_graph s)) \<or> tc_parallel config
      then Option.bind (csr_build P s) (\<lambda>snapshot. traverse_csr snapshot available start config)
      else traverse_petgraph P s start config)"

end
