(* ===== verification/Csr_Rows.thy ===== *)
theory Csr_Rows
  imports Csr_Snapshot
begin

text \<open>
  The pieces of a snapshot: the relabelling is a permutation of the live slots, the positions are its
  inverse, and the slice of a vertex is its row.
\<close>

section \<open>The relabelling\<close>

lemma push_unseen_fold:
  "\<exists>new. fold push_unseen xs (visited, queue) = (visited \<union> set xs, queue @ new) \<and> distinct new \<and> set new = set xs - visited"
proof (induction xs arbitrary: visited queue)
  case (Cons x xs)
  show ?case
  proof (cases "x \<in> visited")
    case True
    then show ?thesis using Cons [of visited queue] by (simp add: push_unseen_def insert_absorb)
  next
    case False
    obtain new where "fold push_unseen xs (insert x visited, queue @ [x]) = (insert x visited \<union> set xs, (queue @ [x]) @ new)"
        "distinct new" "set new = set xs - insert x visited" using Cons by blast
    then have "fold push_unseen (x # xs) (visited, queue) = (visited \<union> set (x # xs), queue @ x # new)" "distinct (x # new)"
      "set (x # new) = set (x # xs) - visited" using False by (simp_all add: push_unseen_def) blast
    then show ?thesis by blast
  qed
qed simp

definition relabel_inv :: "nat set \<Rightarrow> nat set \<Rightarrow> (nat set \<times> nat list) \<times> nat list \<Rightarrow> bool" where
  "relabel_inv L V t \<longleftrightarrow> (case t of ((visited, queue), order) \<Rightarrow>
     visited = set order \<union> set queue \<and> distinct (order @ queue) \<and> visited \<subseteq> L \<and> V \<subseteq> visited)"

lemma relabel_pass_inv:
  assumes "finite L" and nbrs: "\<forall>i\<in>L. set (out_of i) \<subseteq> L \<and> set (in_of i) \<subseteq> L"
    and inv: "relabel_inv L V t" and "snd (fst t) \<noteq> []"
  shows "relabel_inv L V (relabel_pass out_of in_of t) \<and>
    card L - length (snd (relabel_pass out_of in_of t)) < card L - length (snd t)"
proof -
  obtain visited i queue ord where t: "t = ((visited, i # queue), ord)" using assms(4) by (metis list.exhaust prod.collapse)
  obtain new1 where f1: "fold push_unseen (out_of i) (visited, queue) = (visited \<union> set (out_of i), queue @ new1)"
    "distinct new1" "set new1 = set (out_of i) - visited" using push_unseen_fold by blast
  obtain new2 where f2: "fold push_unseen (in_of i) (visited \<union> set (out_of i), queue @ new1) =
      ((visited \<union> set (out_of i)) \<union> set (in_of i), (queue @ new1) @ new2)"
    "distinct new2" "set new2 = set (in_of i) - (visited \<union> set (out_of i))" using push_unseen_fold by blast
  have pass: "relabel_pass out_of in_of t = (((visited \<union> set (out_of i)) \<union> set (in_of i), (queue @ new1) @ new2), ord @ [i])"
    by (simp add: t relabel_pass_def f1(1) f2(1))
  have I: "visited = set ord \<union> set (i # queue)" "distinct (ord @ i # queue)" "visited \<subseteq> L" "V \<subseteq> visited"
    using inv by (auto simp: t relabel_inv_def)
  have "i \<in> L" using I by auto
  then have "relabel_inv L V (relabel_pass out_of in_of t)"
    unfolding pass relabel_inv_def prod.case using I f1(2,3) f2(2,3) nbrs by auto
  moreover have "length ord < card L"
  proof -
    have "length (ord @ [i]) = card (set (ord @ [i]))" using I(2) by (subst distinct_card) auto
    also have "\<dots> \<le> card L" by (rule card_mono [OF assms(1)]) (use I in auto)
    finally show ?thesis by simp
  qed
  ultimately show ?thesis by (simp add: pass) (simp add: t)
qed

definition in_order :: "nat set \<Rightarrow> nat set \<times> nat list \<Rightarrow> bool" where
  "in_order L s \<longleftrightarrow> fst s = set (snd s) \<and> distinct (snd s) \<and> fst s \<subseteq> L"

lemma relabel_seed_total:
  assumes "finite L" and "\<forall>i\<in>L. set (out_of i) \<subseteq> L \<and> set (in_of i) \<subseteq> L" and "seed \<in> L" and s: "in_order L s"
  shows "\<exists>s'. relabel_seed out_of in_of seed s = Some s' \<and> in_order L s' \<and> insert seed (fst s) \<subseteq> fst s'"
proof (cases "seed \<in> fst s")
  case False
  let ?t = "((insert seed (fst s), [seed]), snd s)"
  have "relabel_inv L (insert seed (fst s)) ?t" using s assms(3) False by (auto simp: relabel_inv_def in_order_def)
  from while_option_total [where b = "\<lambda>t. snd (fst t) \<noteq> []" and c = "relabel_pass out_of in_of" and m = "\<lambda>t. card L - length (snd t)",
      OF this relabel_pass_inv [OF assms(1,2)]]
  obtain t where "while_option (\<lambda>t. snd (fst t) \<noteq> []) (relabel_pass out_of in_of) ?t = Some t"
    "relabel_inv L (insert seed (fst s)) t" "snd (fst t) = []" by blast
  then show ?thesis using False by (auto simp: relabel_seed_def relabel_inv_def in_order_def split: prod.splits)
qed (use s in \<open>auto simp: relabel_seed_def\<close>)

lemma relabel_seeds_total:
  assumes "finite L" and "\<forall>i\<in>L. set (out_of i) \<subseteq> L \<and> set (in_of i) \<subseteq> L"
  shows "set seeds \<subseteq> L \<Longrightarrow> in_order L s \<Longrightarrow>
    \<exists>s'. relabel_seeds out_of in_of seeds s = Some s' \<and> in_order L s' \<and> set seeds \<union> fst s \<subseteq> fst s'"
proof (induction seeds arbitrary: s)
  case (Cons seed seeds)
  then obtain s1 where s1: "relabel_seed out_of in_of seed s = Some s1" "in_order L s1" "insert seed (fst s) \<subseteq> fst s1"
    using relabel_seed_total [OF assms, of seed s] by auto
  obtain s2 where s2: "relabel_seeds out_of in_of seeds s1 = Some s2" "in_order L s2" "set seeds \<union> fst s1 \<subseteq> fst s2"
    using Cons.IH [OF _ s1(2)] Cons.prems(1) by auto
  have "set (seed # seeds) \<union> fst s \<subseteq> fst s2" using s1(3) s2(3) by auto
  with s1(1) s2(1,2) show ?case by simp
qed simp

section \<open>Positions\<close>

lemma positions_fold:
  assumes "distinct xs"
  shows "map_of (fold (\<lambda>(i, x) m. hm_insert x (as_u32 i) m) (List.enumerate k xs) m) x =
    (if x \<in> set xs then Some (as_u32 (k + length (takeWhile (\<lambda>y. y \<noteq> x) xs))) else map_of m x)"
  using assms by (induction xs arbitrary: k m) auto

lemma takeWhile_less: "\<exists>x\<in>set xs. \<not> p x \<Longrightarrow> length (takeWhile p xs) < length xs"
  by (induction xs) auto

lemma positions_lookup:
  assumes "distinct xs" and "length xs \<le> 2 ^ 32"
  shows "map_of (positions xs) x = Some i \<longleftrightarrow> i < length xs \<and> xs ! i = x"
proof -
  define j where "j = length (takeWhile (\<lambda>y. y \<noteq> x) xs)"
  show ?thesis
  proof (cases "x \<in> set xs")
    case True
    then have j: "j < length xs" "xs ! j = x"
      using takeWhile_less [of xs "\<lambda>y. y \<noteq> x"] nth_length_takeWhile [of "\<lambda>y. y \<noteq> x" xs] unfolding j_def by auto
    have "map_of (positions xs) x = Some (as_u32 j)"
      unfolding positions_def positions_fold [OF assms(1)] j_def [symmetric] using True by simp
    then have "map_of (positions xs) x = Some j" using j(1) assms(2) by (simp add: as_u32_def)
    with j show ?thesis using nth_eq_iff_index_eq [OF assms(1), of i j] by auto
  next
    case False
    then show ?thesis using nth_mem [of i xs] by (auto simp: positions_def positions_fold [OF assms(1)])
  qed
qed

section \<open>Slices\<close>

fun row_ends :: "nat \<Rightarrow> 'a list list \<Rightarrow> nat list" where
  "row_ends k [] = []"
| "row_ends k (r # rs) = (k + length r) # row_ends (k + length r) rs"

lemma push_rows:
  assumes "ptrs \<noteq> []" and "last ptrs = length col" and "length col + length (concat rows) < 2 ^ 32"
  shows "fold push_row rows (m, ptrs, col, kinds) =
    (m + length (concat rows), ptrs @ row_ends (length col) rows, col @ map fst (concat rows), kinds @ map snd (concat rows))"
  using assms
proof (induction rows arbitrary: m ptrs col kinds)
  case (Cons r rows)
  have "as_u32 (length col + length r) = length col + length r" using Cons.prems(3) by (simp add: as_u32_def)
  then have "push_row r (m, ptrs, col, kinds) = (m + length r, ptrs @ [length col + length r], col @ map fst r, kinds @ map snd r)"
    using Cons.prems(2) by (simp add: push_row_def Let_def)
  then show ?case using Cons.IH [of "ptrs @ [length col + length r]" "col @ map fst r" "m + length r" "kinds @ map snd r"] Cons.prems
    by simp
qed simp

lemma csr_rows_of_eq:
  "length (concat rows) < 2 ^ 32 \<Longrightarrow>
   csr_rows_of rows = (length (concat rows), 0 # row_ends 0 rows, map fst (concat rows), map snd (concat rows))"
  unfolding csr_rows_of_def by (subst push_rows) auto

lemma row_ends_length [simp]: "length (row_ends k rows) = length rows"
  by (induction k rows rule: row_ends.induct) auto

lemma row_ends_nth: "v \<le> length rows \<Longrightarrow> (k # row_ends k rows) ! v = k + length (concat (take v rows))"
proof (induction k rows arbitrary: v rule: row_ends.induct)
  case (2 k r rs)
  then show ?case using "2.IH" [of "v - 1"] by (cases v) auto
qed simp

lemma row_ends_map: "row_ends k (map (map f) rows) = row_ends k rows"
  by (induction k rows rule: row_ends.induct) auto

lemma row_slice_nth:
  assumes "v < length rows"
  shows "row_slice (0 # row_ends 0 rows) (concat rows) v = Some (rows ! v)"
proof -
  have p: "(0 # row_ends 0 rows) ! v = length (concat (take v rows))"
    "(0 # row_ends 0 rows) ! Suc v = length (concat (take v rows)) + length (rows ! v)"
    using assms row_ends_nth [of v rows 0] row_ends_nth [of "Suc v" rows 0] by (simp_all add: take_Suc_conv_app_nth)
  have "rows = take v rows @ rows ! v # drop (Suc v) rows" using assms by (rule id_take_nth_drop)
  then have c: "concat rows = concat (take v rows) @ rows ! v @ concat (drop (Suc v) rows)"
    by (metis concat.simps(2) concat_append)
  show ?thesis using assms unfolding row_slice_def p by (simp add: c)
qed

lemma row_slice_map: "v < length rows \<Longrightarrow> row_slice (0 # row_ends 0 rows) (map f (concat rows)) v = Some (map f (rows ! v))"
  using row_slice_nth [of v "map (map f) rows"] by (simp add: row_ends_map map_concat)

lemma row_length_nth: "v < length rows \<Longrightarrow> row_length (0 # row_ends 0 rows) v = Some (length (rows ! v))"
  using row_ends_nth [of v rows 0] row_ends_nth [of "Suc v" rows 0] by (simp add: row_length_def take_Suc_conv_app_nth)

section \<open>Chunks and batches\<close>

lemma concat_slice_chunks: "0 < k \<Longrightarrow> concat (slice_chunks k xs) = xs"
  by (induction k xs rule: slice_chunks.induct) (subst slice_chunks.simps, simp)

lemma for_each_concat: "for_each (for_each f) xss st = for_each f (concat xss) st"
  by (induction xss arbitrary: st) (auto simp: for_each_append intro: and_then_cong)

lemma layer_pairs_concat: "concat (map (layer_pairs nxt) xss) = layer_pairs nxt (concat xss)"
  by (induction xss) (auto simp: layer_pairs_def)

lemma layers_cong:
  assumes agree: "\<And>layer st. set layer \<subseteq> R \<Longrightarrow> ex1 layer st = ex2 layer st"
    and keeps: "\<And>layer st st'. set layer \<subseteq> R \<Longrightarrow> ls_next st = [] \<Longrightarrow> ex2 layer st = Inr st' \<Longrightarrow> set (ls_next st') \<subseteq> R"
  shows "set current \<subseteq> R \<Longrightarrow> layers ex1 k d current r st = layers ex2 k d current r st"
proof (induction k arbitrary: d current r st)
  case (Suc k)
  have "set (ls_next st') \<subseteq> R" if "ex2 current (st\<lparr>ls_next := []\<rparr>) = Inr st'" for st'
    by (rule keeps [OF Suc.prems _ that]) simp
  then show ?case using agree [OF Suc.prems] Suc.IH by (auto split: sum.split layer_exit.split)
qed simp

lemma visit_neighbour_next: "visit_neighbour id_of m p st = Inr st' \<Longrightarrow> set (ls_next st') \<subseteq> insert (snd p) (set (ls_next st))"
  by (auto simp: visit_neighbour_def take_neighbour_def Let_def split: option.splits if_splits)

lemma visit_neighbours_next:
  "for_each (visit_neighbour id_of m) ps st = Inr st' \<Longrightarrow> set (ls_next st') \<subseteq> snd ` set ps \<union> set (ls_next st)"
proof (induction ps arbitrary: st)
  case (Cons p ps)
  then obtain t where t: "visit_neighbour id_of m p st = Inr t" "for_each (visit_neighbour id_of m) ps t = Inr st'"
    by (auto simp: and_then_Inr_iff)
  from Cons.IH [OF t(2)] visit_neighbour_next [OF t(1)] show ?case by auto
qed simp

end
