(* ===== verification/Csr_Proofs.thy ===== *)
theory Csr_Proofs
  imports Csr_Rows
begin

text \<open>
  The snapshot holds the graph: its vertices are the nodes, its rows their edges in both directions, sorted,
  with the tag of each kind. The traversal of a snapshot, serial or in chunks, therefore keeps the promise of
  the traversal of the graph.
\<close>

section \<open>What a snapshot promises\<close>

definition tagged :: "nat \<times> edge_data \<Rightarrow> nat \<times> edge_kind_tag" where
  "tagged x = (fst x, from_kind (ed_kind (snd x)))"

definition rows_hold :: "csr_snapshot \<Rightarrow> nat list option \<Rightarrow> edge_kind_tag list option \<Rightarrow> (nat \<times> edge_data) multiset \<Rightarrow> bool" where
  "rows_hold c nbrs kinds es \<longleftrightarrow> (\<exists>ns ks. nbrs = Some ns \<and> kinds = Some ks \<and> length ks = length ns \<and> sorted ns \<and>
     set ns \<subseteq> {..<cs_n c} \<and> image_mset (\<lambda>(w, k). (cs_vertex_to_id c ! w, k)) (mset (zip ns ks)) = image_mset tagged es)"

definition snapshot_promise :: "('g, 'x) graph_ops \<Rightarrow> 'g code_graph \<Rightarrow> csr_snapshot \<Rightarrow> bool" where
  "snapshot_promise P s c \<longleftrightarrow> cs_n c = length (pg_indices P (cg_graph s)) \<and> length (cs_vertex_to_id c) = cs_n c \<and>
     cs_m c = sum_list (map (\<lambda>i. length (pg_out P (cg_graph s) i)) (pg_indices P (cg_graph s))) \<and>
     cs_source_revision c = cg_revision s \<and>
     (\<forall>u v. vertex_of c u = Some v \<longleftrightarrow> csr_id_of c v = Some u) \<and>
     (\<forall>u. vertex_of c u = None \<longleftrightarrow> get_node P s u = None) \<and>
     (\<forall>u v. vertex_of c u = Some v \<longrightarrow>
        rows_hold c (csr_out_neighbours c v) (csr_out_kinds c v) (out_ids P s u) \<and>
        csr_out_degree c v = Some (size (out_ids P s u)) \<and>
        rows_hold c (csr_in_neighbours c v) (csr_in_kinds c v) (in_ids P s u) \<and>
        csr_in_degree c v = Some (size (in_ids P s u)))"

text \<open>The numbers of nodes and edges fit 32 bits.\<close>

definition fits_u32 :: "('g, 'x) graph_ops \<Rightarrow> 'g code_graph \<Rightarrow> bool" where
  "fits_u32 P s \<longleftrightarrow> length (pg_indices P (cg_graph s)) \<le> 2 ^ 32 \<and>
     sum_list (map (\<lambda>i. length (pg_out P (cg_graph s) i)) (pg_indices P (cg_graph s))) < 2 ^ 32 \<and>
     sum_list (map (\<lambda>i. length (pg_in P (cg_graph s) i)) (pg_indices P (cg_graph s))) < 2 ^ 32"

section \<open>The row of a slot\<close>

lemma map_filter_total: "\<forall>x\<in>set xs. f x = Some (g x) \<Longrightarrow> List.map_filter f xs = map g xs"
  by (induction xs) (auto simp: List.map_filter_simps)

lemma csr_row_eq:
  assumes "\<forall>x\<in>set es. map_of tc (fst x) = Some (p (fst x))"
  shows "csr_row tc es = sort_key fst (map (\<lambda>x. (p (fst x), snd (tagged x))) es)"
proof -
  have "List.map_filter (\<lambda>(t, e). map_option (\<lambda>c. (c, from_kind (ed_kind e))) (map_of tc t)) es =
      map (\<lambda>x. (p (fst x), snd (tagged x))) es"
    by (rule map_filter_total) (use assms in \<open>auto simp: tagged_def\<close>)
  then show ?thesis by (simp add: csr_row_def)
qed

lemma row_hold:
  assumes row: "row = csr_row (positions ord) es" and ord: "distinct ord" "length ord \<le> 2 ^ 32" and es: "fst ` set es \<subseteq> set ord"
  shows "length row = length es" "sorted (map fst row)" "fst ` set row \<subseteq> {..<length ord}"
    "image_mset (\<lambda>(w, k). (map f ord ! w, k)) (mset row) = image_mset (\<lambda>x. tagged (f (fst x), snd x)) (mset es)"
proof -
  define p where "p t = the (map_of (positions ord) t)" for t
  have p: "map_of (positions ord) t = Some (p t)" "p t < length ord" "ord ! p t = t" if t: "t \<in> set ord" for t
  proof -
    obtain i where "i < length ord" "ord ! i = t" using t by (auto simp: in_set_conv_nth)
    then have "map_of (positions ord) t = Some i" by (simp add: positions_lookup [OF ord])
    then show "map_of (positions ord) t = Some (p t)" by (simp add: p_def)
    then show "p t < length ord" "ord ! p t = t" by (simp_all add: positions_lookup [OF ord])
  qed
  have eq: "row = sort_key fst (map (\<lambda>x. (p (fst x), snd (tagged x))) es)"
    unfolding row by (rule csr_row_eq) (use es p(1) in blast)
  show "length row = length es" "sorted (map fst row)" by (simp_all add: eq)
  show "fst ` set row \<subseteq> {..<length ord}" using es p(2) by (auto simp: eq)
  have "image_mset (\<lambda>(w, k). (map f ord ! w, k)) (mset row) = image_mset (\<lambda>x. (map f ord ! p (fst x), snd (tagged x))) (mset es)"
    by (simp add: eq image_mset.compositionality comp_def)
  also have "\<dots> = image_mset (\<lambda>x. tagged (f (fst x), snd x)) (mset es)"
  proof (rule image_mset_cong)
    fix x assume "x \<in># mset es"
    then have "fst x \<in> set ord" using es by auto
    then show "(map f ord ! p (fst x), snd (tagged x)) = tagged (f (fst x), snd x)" using p(2,3) by (simp add: tagged_def)
  qed
  finally show "image_mset (\<lambda>(w, k). (map f ord ! w, k)) (mset row) = image_mset (\<lambda>x. tagged (f (fst x), snd x)) (mset es)" .
qed

lemma nth_option_set: "(\<exists>v. (if v < length xs then Some (xs ! v) else None) = Some u) \<longleftrightarrow> u \<in> set xs"
  unfolding in_set_conv_nth by (metis option.distinct(1) option.inject)

lemma those_map_Some: "those (map Some xs) = Some xs"
  by (induction xs) auto

lemma distinct_sum_list:
  fixes f :: "'a \<Rightarrow> nat"
  assumes "distinct xs" "distinct ys" "set xs = set ys"
  shows "sum_list (map f xs) = sum_list (map f ys)"
  using assms by (simp add: sum_list_distinct_conv_sum_set)

context stable_graph
begin

lemma nbrs_live:
  assumes s: "slots_ok P ok s" and i: "i \<in> live s"
  shows "fst ` set (pg_out P (cg_graph s) i) \<subseteq> live s" "fst ` set (pg_in P (cg_graph s) i) \<subseteq> live s"
  using followsD(1) [OF follows_out [OF s] i] followsD(1) [OF follows_in [OF s] i]
  by (simp_all add: out_neighbours_def in_neighbours_def)

lemma relabel_total:
  assumes s: "slots_ok P ok s"
  shows "\<exists>ord. bfs_relabel P s = Some ord \<and> distinct ord \<and> set ord = live s"
proof -
  let ?seeds = "sort_key (\<lambda>i. - int (length (out_neighbours P s i) + length (in_neighbours P s i))) (pg_indices P (cg_graph s))"
  have seeds: "set ?seeds = live s" using live [OF slots_okD(1) [OF s]] by simp
  have nbrs: "\<forall>i\<in>live s. set (out_neighbours P s i) \<subseteq> live s \<and> set (in_neighbours P s i) \<subseteq> live s"
    using nbrs_live [OF s] by (simp add: out_neighbours_def in_neighbours_def)
  have "in_order (live s) ({}, [])" by (simp add: in_order_def)
  from relabel_seeds_total [OF live_finite [OF s] nbrs _ this, of ?seeds] seeds
  obtain t where "relabel_seeds (out_neighbours P s) (in_neighbours P s) ?seeds ({}, []) = Some t" "in_order (live s) t"
    "live s \<subseteq> fst t" by auto
  then show ?thesis unfolding bfs_relabel_def Let_def by (intro exI [of _ "snd t"]) (auto simp: in_order_def)
qed

text \<open>The rows of one direction.\<close>

definition slot_rows :: "nat list \<Rightarrow> (nat \<Rightarrow> (nat \<times> edge_data) list) \<Rightarrow> (nat \<times> edge_kind_tag) list list" where
  "slot_rows ord es = map (\<lambda>i. csr_row (positions ord) (es i)) ord"

lemma slot_rows_hold:
  assumes ord: "distinct ord" "length ord \<le> 2 ^ 32" and es: "\<forall>i\<in>set ord. fst ` set (es i) \<subseteq> set ord"
    and c: "cs_n c = length ord" "cs_vertex_to_id c = map (slot_id P g) ord"
  shows "length (concat (slot_rows ord es)) = sum_list (map (\<lambda>i. length (es i)) ord)"
    "v < length ord \<Longrightarrow> rows_hold c (row_slice (0 # row_ends 0 (slot_rows ord es)) (map fst (concat (slot_rows ord es))) v)
       (row_slice (0 # row_ends 0 (slot_rows ord es)) (map snd (concat (slot_rows ord es))) v)
       (image_mset (renamed P g) (mset (es (ord ! v))))"
    "v < length ord \<Longrightarrow> row_length (0 # row_ends 0 (slot_rows ord es)) v = Some (length (es (ord ! v)))"
proof -
  note hold = row_hold [OF refl ord bspec [OF es]]
  have "map length (slot_rows ord es) = map (\<lambda>i. length (es i)) ord" using hold(1) by (simp add: slot_rows_def)
  then show "length (concat (slot_rows ord es)) = sum_list (map (\<lambda>i. length (es i)) ord)" by (simp add: length_concat)
  assume v: "v < length ord"
  then have rv: "v < length (slot_rows ord es)" "slot_rows ord es ! v = csr_row (positions ord) (es (ord ! v))"
    by (simp_all add: slot_rows_def)
  have i: "ord ! v \<in> set ord" using v by simp
  show "row_length (0 # row_ends 0 (slot_rows ord es)) v = Some (length (es (ord ! v)))"
    using row_length_nth [OF rv(1)] hold(1) [OF i] by (simp add: rv(2))
  let ?row = "csr_row (positions ord) (es (ord ! v))"
  have "image_mset (\<lambda>(w, k). (cs_vertex_to_id c ! w, k)) (mset ?row) = image_mset tagged (image_mset (renamed P g) (mset (es (ord ! v))))"
    unfolding c(2) hold(4) [OF i] by (simp add: image_mset.compositionality comp_def renamed_def)
  then show "rows_hold c (row_slice (0 # row_ends 0 (slot_rows ord es)) (map fst (concat (slot_rows ord es))) v)
       (row_slice (0 # row_ends 0 (slot_rows ord es)) (map snd (concat (slot_rows ord es))) v)
       (image_mset (renamed P g) (mset (es (ord ! v))))"
    unfolding rows_hold_def row_slice_map [OF rv(1)] rv(2)
    using hold(2,3) [OF i] by (intro exI [of _ "map fst ?row"] exI [of _ "map snd ?row"]) (simp add: zip_map_fst_snd c(1))
qed

lemma ids_of_slot:
  assumes s: "slots_ok P ok s" and i: "i \<in> live s"
  shows "out_ids P s (slot_id P (cg_graph s) i) = image_mset (renamed P (cg_graph s)) (mset (pg_out P (cg_graph s) i))"
    "in_ids P s (slot_id P (cg_graph s) i) = image_mset (renamed P (cg_graph s)) (mset (pg_in P (cg_graph s) i))"
  by (simp_all add: out_ids_def in_ids_def resolve_slot_id [OF s i])

lemma csr_build_live:
  assumes s: "slots_ok P ok s" and fits: "fits_u32 P s" and some: "live s \<noteq> {}"
  shows "\<exists>c. csr_build P s = Some c \<and> snapshot_promise P s c"
proof -
  let ?g = "cg_graph s"
  obtain ord where ord: "bfs_relabel P s = Some ord" "distinct ord" "set ord = live s" using relabel_total [OF s] by blast
  have idx: "distinct (pg_indices P ?g)" "set (pg_indices P ?g) = live s" using live [OF slots_okD(1) [OF s]] by simp_all
  have n: "length (pg_indices P ?g) = length ord" using idx ord(2,3) by (metis distinct_card)
  have sums: "sum_list (map f (pg_indices P ?g)) = sum_list (map f ord)" for f :: "nat \<Rightarrow> nat"
    by (rule distinct_sum_list [OF idx(1) ord(2)]) (simp add: idx(2) ord(3))
  have fits': "length ord \<le> 2 ^ 32" "sum_list (map (\<lambda>i. length (pg_out P ?g i)) ord) < 2 ^ 32"
      "sum_list (map (\<lambda>i. length (pg_in P ?g i)) ord) < 2 ^ 32"
    using fits by (simp_all add: fits_u32_def n sums)
  have ne: "ord \<noteq> []" using some unfolding ord(3) [symmetric] by auto
  let ?ids = "map (slot_id P ?g) ord"
  have "those (map (node_id_for P s) ord) = Some ?ids"
  proof -
    have "map (node_id_for P s) ord = map Some ?ids" using node_id_for_slot ord(3) by auto
    then show ?thesis by (simp only: those_map_Some)
  qed
  moreover
  let ?out = "slot_rows ord (pg_out P ?g)" and ?in = "slot_rows ord (pg_in P ?g)"
  define c where "c = \<lparr>cs_n = length ord, cs_m = length (concat ?out), cs_out_row_ptrs = 0 # row_ends 0 ?out,
    cs_out_col_indices = map fst (concat ?out), cs_out_edge_kinds = map snd (concat ?out), cs_in_row_ptrs = 0 # row_ends 0 ?in,
    cs_in_col_indices = map fst (concat ?in), cs_in_edge_kinds = map snd (concat ?in), cs_vertex_to_id = ?ids,
    cs_id_to_vertex = positions ?ids, cs_source_revision = cg_revision s\<rparr>"
  have c: "cs_n c = length ord" "cs_vertex_to_id c = ?ids" by (simp_all add: c_def)
  have near: "\<forall>i\<in>set ord. fst ` set (pg_out P ?g i) \<subseteq> set ord" "\<forall>i\<in>set ord. fst ` set (pg_in P ?g i) \<subseteq> set ord"
    unfolding ord(3) using nbrs_live [OF s] by blast+
  note out = slot_rows_hold [OF ord(2) fits'(1) near(1) c] and ins = slot_rows_hold [OF ord(2) fits'(1) near(2) c]
  ultimately have "csr_build P s = Some c"
    using ord(1) fits'(2,3) ne
    by (simp add: n csr_build_def Let_def c_def csr_rows_of_eq out(1) ins(1) slot_rows_def [symmetric])
  moreover have "distinct ?ids"
    using ord(2,3) slot_id_inj [OF s] by (auto simp: distinct_map inj_on_def)
  then have look: "vertex_of c u = Some v \<longleftrightarrow> csr_id_of c v = Some u" for u v
    using fits'(1) by (auto simp: vertex_of_def csr_id_of_def c_def positions_lookup)
  have "vertex_of c u = None \<longleftrightarrow> get_node P s u = None" for u
  proof -
    have "vertex_of c u \<noteq> None \<longleftrightarrow> (\<exists>v. csr_id_of c v = Some u)" unfolding look [symmetric] by simp
    also have "\<dots> \<longleftrightarrow> u \<in> set ?ids" unfolding csr_id_of_def c(2) by (rule nth_option_set)
    also have "\<dots> \<longleftrightarrow> (\<exists>i\<in>live s. slot_id P ?g i = u)" unfolding set_map ord(3) by blast
    also have "\<dots> \<longleftrightarrow> resolve s u \<noteq> None" using resolve_live [OF s] resolve_slot_id [OF s] by blast
    finally have "vertex_of c u \<noteq> None \<longleftrightarrow> resolve s u \<noteq> None" .
    then show ?thesis using resolve_get_node [OF s, of u] by (cases "vertex_of c u"; cases "resolve s u") simp_all
  qed
  moreover have "rows_hold c (csr_out_neighbours c v) (csr_out_kinds c v) (out_ids P s u) \<and> csr_out_degree c v = Some (size (out_ids P s u)) \<and>
      rows_hold c (csr_in_neighbours c v) (csr_in_kinds c v) (in_ids P s u) \<and> csr_in_degree c v = Some (size (in_ids P s u))"
    if uv: "vertex_of c u = Some v" for u v
  proof -
    have v: "v < length ord" "u = slot_id P ?g (ord ! v)" using uv by (auto simp: look csr_id_of_def c(2) split: if_splits)
    then have "ord ! v \<in> live s" using ord(3) nth_mem by blast
    then show ?thesis using out(2,3) [OF v(1)] ins(2,3) [OF v(1)] unfolding v(2)
      by (simp add: ids_of_slot [OF s] csr_out_neighbours_def csr_in_neighbours_def csr_out_kinds_def csr_in_kinds_def
          csr_out_degree_def csr_in_degree_def) (simp add: c_def)
  qed
  ultimately show ?thesis using look
    by (intro exI [of _ c]) (simp add: snapshot_promise_def n sums out(1), simp add: c_def out(1))
qed

lemma csr_build_total:
  assumes s: "slots_ok P ok s" and fits: "fits_u32 P s"
  shows "\<exists>c. csr_build P s = Some c \<and> snapshot_promise P s c"
proof (cases "live s = {}")
  case True
  then have "pg_indices P (cg_graph s) = []" using live [OF slots_okD(1) [OF s]] by simp
  moreover have "get_node P s u = None" for u using True get_node_iff [OF s, of u] by (cases "get_node P s u") auto
  ultimately show ?thesis by (simp add: csr_build_def csr_empty_def snapshot_promise_def vertex_of_def csr_id_of_def)
qed (rule csr_build_live [OF assms])

end

end
