(* ===== verification/Csr_Traverse.thy ===== *)
theory Csr_Traverse
  imports Csr_Proofs
begin

text \<open>
  The traversal of a snapshot keeps the promise of the traversal of the graph, whether a layer is expanded
  serially or in chunks that are merged in order, and so the choice between the two is not observable.
\<close>

lemma snapshot_promiseD:
  assumes "snapshot_promise P s c"
  shows "vertex_of c u = Some v \<longleftrightarrow> csr_id_of c v = Some u" "vertex_of c u = None \<longleftrightarrow> get_node P s u = None"
    "length (cs_vertex_to_id c) = cs_n c" "cs_n c = length (pg_indices P (cg_graph s))" "cs_source_revision c = cg_revision s"
  using assms by (simp_all add: snapshot_promise_def)

lemma row_targets:
  assumes "rows_hold c (Some ns) kinds es"
  shows "(\<lambda>w. cs_vertex_to_id c ! w) ` set ns = fst ` set_mset es" "set ns \<subseteq> {..<cs_n c}"
proof -
  obtain ks where ks: "length ks = length ns" "image_mset (\<lambda>(w, k). (cs_vertex_to_id c ! w, k)) (mset (zip ns ks)) = image_mset tagged es"
    "set ns \<subseteq> {..<cs_n c}"
    using assms by (auto simp: rows_hold_def)
  have "(\<lambda>w. cs_vertex_to_id c ! w) ` set ns = (\<lambda>w. cs_vertex_to_id c ! w) ` fst ` set (zip ns ks)"
    using ks(1) by (metis list.set_map map_fst_zip)
  also have "\<dots> = fst ` set_mset (image_mset (\<lambda>(w, k). (cs_vertex_to_id c ! w, k)) (mset (zip ns ks)))"
    by (simp add: image_image case_prod_beta')
  also have "\<dots> = fst ` set_mset es" unfolding ks(2) by (simp add: image_image tagged_def)
  finally show "(\<lambda>w. cs_vertex_to_id c ! w) ` set ns = fst ` set_mset es" .
qed (use assms in \<open>auto simp: rows_hold_def\<close>)

section \<open>A snapshot follows the edges\<close>

context stable_graph
begin

lemma edges_of_ids:
  assumes "slots_ok P ok s"
  shows "(u, w) \<in> edges_of P s (\<lambda>_. True) \<longleftrightarrow> w \<in> fst ` set_mset (out_ids P s u)"
proof -
  obtain es where es: "get_edges_from P s u = Some es" "mset es = out_ids P s u" using edges_from [OF assms] by blast
  then show ?thesis unfolding edges_of_def es(2) [symmetric] by force
qed

lemma edges_of_in_ids:
  assumes "slots_ok P ok s"
  shows "(u, w) \<in> edges_of P s (\<lambda>_. True) \<longleftrightarrow> u \<in> fst ` set_mset (in_ids P s w)"
proof -
  have "(w, e) \<in># out_ids P s u \<longleftrightarrow> (u, e) \<in># in_ids P s w" for e
    using count_in [OF assms, of w u e] by (metis count_eq_zero_iff)
  then show ?thesis unfolding edges_of_ids [OF assms] by force
qed

text \<open>What a vertex of a snapshot reads.\<close>

lemma snapshot_vertex:
  assumes s: "slots_ok P ok s" and c: "snapshot_promise P s c" and v: "v < cs_n c"
  shows "csr_id_of c v = Some (cs_vertex_to_id c ! v)"
    "\<exists>ns. csr_directed c dir v = Some ns \<and> set ns \<subseteq> {..<cs_n c} \<and>
       (\<lambda>w. cs_vertex_to_id c ! w) ` set ns = {w. (cs_vertex_to_id c ! v, w) \<in> directed_edges (edges_of P s (\<lambda>_. True)) dir}"
    "csr_degree c dir v \<noteq> None"
proof -
  let ?f = "\<lambda>w. cs_vertex_to_id c ! w" and ?E = "edges_of P s (\<lambda>_. True)"
  show id: "csr_id_of c v = Some (?f v)" using c v by (simp add: csr_id_of_def snapshot_promise_def)
  then have "vertex_of c (?f v) = Some v" using c by (simp add: snapshot_promise_def)
  with c have rows: "rows_hold c (csr_out_neighbours c v) (csr_out_kinds c v) (out_ids P s (?f v))"
      "csr_out_degree c v = Some (size (out_ids P s (?f v)))"
      "rows_hold c (csr_in_neighbours c v) (csr_in_kinds c v) (in_ids P s (?f v))"
      "csr_in_degree c v = Some (size (in_ids P s (?f v)))"
    unfolding snapshot_promise_def by blast+
  then obtain ns ms where ns: "csr_out_neighbours c v = Some ns" and ms: "csr_in_neighbours c v = Some ms"
    unfolding rows_hold_def by blast
  note out = row_targets [OF rows(1) [unfolded ns]] and inn = row_targets [OF rows(3) [unfolded ms]]
  have out': "?f ` set ns = {w. (?f v, w) \<in> ?E}" unfolding out(1) edges_of_ids [OF s] by simp
  have in': "?f ` set ms = {w. (w, ?f v) \<in> ?E}" unfolding inn(1) edges_of_in_ids [OF s] by simp
  show "\<exists>ns. csr_directed c dir v = Some ns \<and> set ns \<subseteq> {..<cs_n c} \<and> ?f ` set ns = {w. (?f v, w) \<in> directed_edges ?E dir}"
    using out(2) inn(2) out' in' by (cases dir) (auto simp: csr_directed_def directed_edges_def ns ms image_Un)
  show "csr_degree c dir v \<noteq> None" by (cases dir) (simp_all add: csr_degree_def rows(2,4))
qed

definition csr_next :: "csr_snapshot \<Rightarrow> traversal_direction \<Rightarrow> nat \<Rightarrow> nat list" where
  "csr_next c dir v = the (csr_directed c dir v)"

lemma csr_next:
  assumes "slots_ok P ok s" and "snapshot_promise P s c" and "v < cs_n c"
  shows "csr_directed c dir v = Some (csr_next c dir v)"
  using snapshot_vertex(2) [OF assms, of dir] by (auto simp: csr_next_def)

lemma csr_traces:
  assumes s: "slots_ok P ok s" and c: "snapshot_promise P s c"
  shows "traces (\<lambda>v. cs_vertex_to_id c ! v) {..<cs_n c} (csr_next c dir) (directed_edges (edges_of P s (\<lambda>_. True)) dir)"
  unfolding traces_def
proof (intro conjI ballI inj_onI)
  fix v w assume vw: "v \<in> {..<cs_n c}" "w \<in> {..<cs_n c}" "cs_vertex_to_id c ! v = cs_vertex_to_id c ! w"
  then have "csr_id_of c v = csr_id_of c w" using snapshot_vertex(1) [OF s c] by simp
  moreover obtain u where "csr_id_of c v = Some u" using snapshot_vertex(1) [OF s c] vw(1) by simp
  ultimately show "v = w" using c unfolding snapshot_promise_def by (metis option.inject)
next
  fix v assume "v \<in> {..<cs_n c}"
  from snapshot_vertex(2) [OF s c, of v dir] this
  show "set (csr_next c dir v) \<subseteq> {..<cs_n c}"
    "(\<lambda>v. cs_vertex_to_id c ! v) ` set (csr_next c dir v) =
      {w. (cs_vertex_to_id c ! v, w) \<in> directed_edges (edges_of P s (\<lambda>_. True)) dir}"
    by (auto simp: csr_next_def)
qed

section \<open>Expanding a layer\<close>

lemma chunk_pairs_eq:
  assumes s: "slots_ok P ok s" and c: "snapshot_promise P s c" and layer: "set chunk \<subseteq> {..<cs_n c}"
  shows "chunk_pairs c dir chunk = Some (layer_pairs (csr_next c dir) chunk)"
proof -
  have "map (\<lambda>cur. map_option (map (Pair cur)) (csr_directed c dir cur)) chunk = map Some (map (\<lambda>cur. map (Pair cur) (csr_next c dir cur)) chunk)"
    using layer csr_next [OF s c] by auto
  then show ?thesis by (simp add: chunk_pairs_def those_map_Some layer_pairs_def del: map_map)
qed

lemma set_slice_chunks:
  assumes "chunk \<in> set (slice_chunks k xs)"
  shows "set chunk \<subseteq> set xs"
proof (cases "k = 0")
  case False
  have "set chunk \<subseteq> set (concat (slice_chunks k xs))" using assms by auto
  then show ?thesis using False by (simp add: concat_slice_chunks)
qed (use assms in \<open>simp add: slice_chunks.simps\<close>)

lemma those_total: "\<forall>x\<in>set xs. f x \<noteq> None \<Longrightarrow> those (map f xs) \<noteq> None"
  by (induction xs) auto

lemma expand_parallel_serial:
  assumes s: "slots_ok P ok s" and c: "snapshot_promise P s c" and layer: "set current \<subseteq> {..<cs_n c}"
  shows "expand_parallel c available config current st =
    for_each (visit_neighbour (csr_id_of c) (tc_max_nodes config)) (layer_pairs (csr_next c (tc_direction config)) current) st"
proof -
  let ?k = "max 64 (length current div max (worker_count_for available (length current)) 1)"
  let ?nxt = "csr_next c (tc_direction config)"
  have "map (chunk_pairs c (tc_direction config)) (slice_chunks ?k current) = map Some (map (layer_pairs ?nxt) (slice_chunks ?k current))"
    unfolding map_map comp_def
  proof (rule map_cong [OF refl])
    fix chunk assume "chunk \<in> set (slice_chunks ?k current)"
    from order_trans [OF set_slice_chunks [OF this] layer] show "chunk_pairs c (tc_direction config) chunk = Some (layer_pairs ?nxt chunk)"
      by (rule chunk_pairs_eq [OF s c])
  qed
  then have "expand_parallel c available config current st =
      for_each (for_each (visit_neighbour (csr_id_of c) (tc_max_nodes config))) (map (layer_pairs ?nxt) (slice_chunks ?k current)) st"
    by (simp add: expand_parallel_def Let_def those_map_Some del: map_map)
  then show ?thesis by (simp add: for_each_concat layer_pairs_concat concat_slice_chunks)
qed

lemma csr_expand_pairs:
  assumes s: "slots_ok P ok s" and c: "snapshot_promise P s c" and layer: "set current \<subseteq> {..<cs_n c}"
  shows "csr_expand c available config current st =
    for_each (visit_neighbour (csr_id_of c) (tc_max_nodes config)) (layer_pairs (csr_next c (tc_direction config)) current) st"
    "expand_layer (csr_directed c (tc_direction config)) (csr_id_of c) (tc_max_nodes config) current st =
    for_each (visit_neighbour (csr_id_of c) (tc_max_nodes config)) (layer_pairs (csr_next c (tc_direction config)) current) st"
proof -
  have in_row: "v < cs_n c" if "v \<in> set current" for v using layer that by blast
  show serial: "expand_layer (csr_directed c (tc_direction config)) (csr_id_of c) (tc_max_nodes config) current st =
      for_each (visit_neighbour (csr_id_of c) (tc_max_nodes config)) (layer_pairs (csr_next c (tc_direction config)) current) st"
    by (rule expand_layer_pairs, rule csr_next [OF s c in_row])
  have "those (map (csr_degree c (tc_direction config)) current) \<noteq> None"
    by (rule those_total) (use snapshot_vertex(3) [OF s c in_row] in blast)
  then have "workload c (tc_direction config) current \<noteq> None" unfolding workload_def by simp
  then obtain w where "workload c (tc_direction config) current = Some w" by blast
  then show "csr_expand c available config current st =
      for_each (visit_neighbour (csr_id_of c) (tc_max_nodes config)) (layer_pairs (csr_next c (tc_direction config)) current) st"
    unfolding csr_expand_def serial expand_parallel_serial [OF s c layer] by simp
qed

lemma layer_pairs_live:
  assumes "slots_ok P ok s" and "snapshot_promise P s c" and "set current \<subseteq> {..<cs_n c}"
  shows "snd ` set (layer_pairs (csr_next c dir) current) \<subseteq> {..<cs_n c}"
proof (rule image_subsetI)
  fix p assume "p \<in> set (layer_pairs (csr_next c dir) current)"
  then have p: "fst p \<in> set current" "snd p \<in> set (csr_next c dir (fst p))" by (simp_all add: layer_pairs_set)
  from p(1) assms(3) have "fst p \<in> {..<cs_n c}" by blast
  from tracesD(2) [OF csr_traces [OF assms(1,2)] this] p(2) show "snd p \<in> {..<cs_n c}" by blast
qed

section \<open>The traversals\<close>

lemma traverse_csr_promise:
  assumes s: "slots_ok P ok s" and c: "snapshot_promise P s c" and present: "get_node P s u \<noteq> None"
  shows "\<exists>r. traverse_csr c available u config = Some r \<and>
    traversal_promise (directed_edges (edges_of P s (\<lambda>_. True)) (tc_direction config)) u config r"
proof -
  have "vertex_of c u \<noteq> None" using snapshot_promiseD(2) [OF c, of u] present by simp
  then obtain v where v: "vertex_of c u = Some v" by blast
  then have "csr_id_of c v = Some u" using snapshot_promiseD(1) [OF c] by blast
  then have "v < length (cs_vertex_to_id c)" "cs_vertex_to_id c ! v = u" by (simp_all add: csr_id_of_def split: if_splits)
  moreover have "length (cs_vertex_to_id c) = cs_n c" by (rule snapshot_promiseD(3) [OF c])
  ultimately have vn: "v < cs_n c" "cs_vertex_to_id c ! v = u" by simp_all
  let ?serial = "expand_layer (csr_directed c (tc_direction config)) (csr_id_of c) (tc_max_nodes config)"
  have "layers (csr_expand c available config) (tc_max_depth config) 0 [v] 0 (start_state u v) =
      layers ?serial (tc_max_depth config) 0 [v] 0 (start_state u v)"
  proof (rule layers_cong [where R = "{..<cs_n c}"])
    fix layer st assume layer: "set layer \<subseteq> {..<cs_n c}"
    show "csr_expand c available config layer st = ?serial layer st" by (simp add: csr_expand_pairs [OF s c layer])
    fix st' assume none: "ls_next st = []" and run: "?serial layer st = Inr st'"
    have "set (ls_next st') \<subseteq> snd ` set (layer_pairs (csr_next c (tc_direction config)) layer)"
      using visit_neighbours_next [OF run [unfolded csr_expand_pairs(2) [OF s c layer]]] unfolding none by simp
    also have "\<dots> \<subseteq> {..<cs_n c}" by (rule layer_pairs_live [OF s c layer])
    finally show "set (ls_next st') \<subseteq> {..<cs_n c}" .
  qed (simp add: vn(1))
  moreover have "\<exists>r. map_option traversal_of (layers ?serial (tc_max_depth config) 0 [v] 0 (start_state (cs_vertex_to_id c ! v) v)) = Some r \<and>
      traversal_promise (directed_edges (edges_of P s (\<lambda>_. True)) (tc_direction config)) (cs_vertex_to_id c ! v) config r"
    by (rule layers_promise [OF csr_traces [OF s c]]) (use vn(1) snapshot_vertex(1) [OF s c] csr_next [OF s c] in auto)
  ultimately show ?thesis by (simp add: traverse_csr_def v vn(2))
qed

lemma traverse_promise:
  assumes s: "slots_ok P ok s" and fits: "fits_u32 P s" and present: "get_node P s u \<noteq> None"
  shows "\<exists>r. traverse P s available u config = Some r \<and>
    traversal_promise (directed_edges (edges_of P s (\<lambda>_. True)) (tc_direction config)) u config r"
proof -
  obtain c where c: "csr_build P s = Some c" "snapshot_promise P s c" using csr_build_total [OF s fits] by blast
  then show ?thesis using traverse_csr_promise [OF s c(2) present] traverse_petgraph_promise [OF s present] by (simp add: traverse_def)
qed

text \<open>A start that is not there gives the empty result.\<close>

lemma traverse_absent:
  assumes s: "slots_ok P ok s" and fits: "fits_u32 P s" and absent: "get_node P s u = None"
  shows "traverse P s available u config = Some nothing_found"
proof -
  obtain c where c: "csr_build P s = Some c" "snapshot_promise P s c" using csr_build_total [OF s fits] by blast
  then have "vertex_of c u = None" using snapshot_promiseD(2) [OF c(2), of u] absent by simp
  moreover have "resolve s u = None" using resolve_get_node [OF s, of u] absent by simp
  ultimately show ?thesis by (simp add: traverse_def c(1) traverse_csr_def traverse_petgraph_def)
qed

end

text \<open>Two results that keep the promise agree on whether they are cut off.\<close>

lemma promise_truncated:
  assumes "traversal_promise E u config r"
  shows "tr_was_truncated r \<longleftrightarrow> \<not> (finite (within E u (tc_max_depth config)) \<and> card (within E u (tc_max_depth config)) \<le> max 1 (tc_max_nodes config))"
proof -
  let ?W = "within E u (tc_max_depth config)"
  have p: "distinct (tr_nodes r)" "set (tr_nodes r) \<subseteq> ?W" "length (tr_nodes r) \<le> max 1 (tc_max_nodes config)"
    "if tr_was_truncated r then length (tr_nodes r) = max 1 (tc_max_nodes config) \<and> set (tr_nodes r) \<noteq> ?W else set (tr_nodes r) = ?W"
    using assms unfolding traversal_promise_def by blast+
  have card: "card (set (tr_nodes r)) = length (tr_nodes r)" using p(1) by (rule distinct_card)
  show ?thesis
  proof (cases "tr_was_truncated r")
    case True
    then have cut_off: "length (tr_nodes r) = max 1 (tc_max_nodes config)" "set (tr_nodes r) \<subset> ?W" using p(2,4) by auto
    have "max 1 (tc_max_nodes config) < card ?W" if "finite ?W"
      using psubset_card_mono [OF that cut_off(2)] card cut_off(1) by simp
    with True show ?thesis by (meson not_le)
  next
    case False
    then have "set (tr_nodes r) = ?W" using p(4) by simp
    then have "finite ?W" "card ?W \<le> max 1 (tc_max_nodes config)" using card p(3) by (metis List.finite_set, simp)
    with False show ?thesis by blast
  qed
qed

lemma promise_unique:
  assumes r: "traversal_promise E u config r" and r': "traversal_promise E u config r'"
  shows "tr_was_truncated r = tr_was_truncated r' \<and> (\<not> tr_was_truncated r \<longrightarrow> mset (tr_nodes r) = mset (tr_nodes r'))"
proof -
  have same: "tr_was_truncated r = tr_was_truncated r'" using promise_truncated [OF r] promise_truncated [OF r'] by blast
  have "mset (tr_nodes r) = mset (tr_nodes r')" if "\<not> tr_was_truncated r"
  proof (rule set_eq_iff_mset_eq_distinct [THEN iffD1])
    show "distinct (tr_nodes r)" "distinct (tr_nodes r')" "set (tr_nodes r) = set (tr_nodes r')"
      using r r' that same by (simp_all add: traversal_promise_def)
  qed
  with same show ?thesis by blast
qed

end
