(* ===== verification/Csr_Properties.thy ===== *)
theory Csr_Properties
  imports Csr_Traverse Code_Graph_Properties
begin

text \<open>
  Properties of the snapshot and of the traversal on every code graph its operations can build, with any
  library graph that keeps the laws.
\<close>

text \<open>C32. The snapshot holds the graph: on a graph whose nodes and edges fit 32 bits the build returns; the
  vertices are numbered from 0 to the number of nodes, vertices and identifiers of present nodes map to each
  other both ways, and the row of a vertex lists, in increasing order of vertex, the other end and the tag of
  the kind of each edge that leaves its node, with multiplicity, and likewise of each edge that enters it.\<close>

theorem csr_snapshot_exact:
  assumes "stable_graph P ok" and "run_graph P ops (code_graph_new P) = Some (answers, s)" and "fits_u32 P s"
  shows "\<exists>c. csr_build P s = Some c \<and> snapshot_promise P s c"
  by (rule stable_graph.csr_build_total [OF assms(1) stable_graph.graph_okD(1) [OF assms(1) stable_graph.run_ok [OF assms(1,2)]] assms(3)])

text \<open>C31. The traversal is exact: from a present node it returns, with the start first and nearest first, at
  most as many nodes as the bound, all nodes within the depth along the direction unless the bound cuts the
  result off, which it then says. The walk of the graph and the walk of the snapshot, serial or parallel with
  any number of workers, agree on whether the result is cut off and, when it is not, on the nodes.\<close>

theorem traverse_exact:
  assumes "stable_graph P ok" and "run_graph P ops (code_graph_new P) = Some (answers, s)" and "fits_u32 P s"
    and "get_node P s u \<noteq> None"
  shows "\<exists>r r'. traverse P s available u config = Some r \<and> traverse_petgraph P s u config = Some r' \<and>
    traversal_promise (directed_edges (edges_of P s (\<lambda>_. True)) (tc_direction config)) u config r \<and>
    tr_was_truncated r = tr_was_truncated r' \<and>
    (\<not> tr_was_truncated r \<longrightarrow> mset (tr_nodes r) = mset (tr_nodes r'))"
proof -
  note s = stable_graph.graph_okD(1) [OF assms(1) stable_graph.run_ok [OF assms(1,2)]]
  from stable_graph.traverse_promise [OF assms(1) s assms(3,4)] stable_graph.traverse_petgraph_promise [OF assms(1) s assms(4)]
  show ?thesis using promise_unique by blast
qed









section \<open>Witnesses\<close>

lemma sample_fits: "fits_u32 list_graph_ops sample_graph"
proof -
  have "length (pg_indices list_graph_ops (cg_graph sample_graph)) = 2"
    "sum_list (map (\<lambda>i. length (pg_out list_graph_ops (cg_graph sample_graph) i)) (pg_indices list_graph_ops (cg_graph sample_graph))) = 1"
    "sum_list (map (\<lambda>i. length (pg_in list_graph_ops (cg_graph sample_graph) i)) (pg_indices list_graph_ops (cg_graph sample_graph))) = 1"
    by code_simp+
  then show ?thesis by (simp add: fits_u32_def)
qed

theorem csr_snapshot_exact_witness:
  "\<exists>c. csr_build list_graph_ops sample_graph = Some c \<and> snapshot_promise list_graph_ops sample_graph c"
  by (rule csr_snapshot_exact [OF list_graph.stable_graph_axioms sample_run sample_fits])

theorem traverse_exact_witness:
  "\<exists>r. traverse list_graph_ops sample_graph 8 1 traversal_config_default = Some r \<and>
     traversal_promise (edges_of list_graph_ops sample_graph (\<lambda>_. True)) 1 traversal_config_default r"
proof -
  have "get_node list_graph_ops sample_graph 1 \<noteq> None" unfolding sample_get(1) by simp
  from traverse_exact [OF list_graph.stable_graph_axioms sample_run sample_fits this, of 8 traversal_config_default]
  show ?thesis by (auto simp: directed_edges_def traversal_config_default_def)
qed

end
