(* ===== verification/Trait_Analyses.thy ===== *)
theory Trait_Analyses
  imports Graph_Traverse
begin

text \<open>
  The analyses of traits and types (\<^verbatim>\<open>traits_hierarchy.rs\<close>): the implementors of every trait, the calls that
  go through the method of a trait, and the functions clustered by the type they use most. A \<^verbatim>\<open>BTreeMap\<close> is
  an association list in the order of its keys, a \<^verbatim>\<open>BTreeSet\<close> a set.
\<close>

section \<open>Entries with sets\<close>

text \<open>\<^verbatim>\<open>m.entry(k).or_default().insert(i)\<close>\<close>

definition entry_insert :: "nat \<Rightarrow> nat \<Rightarrow> (nat \<times> nat set) list \<Rightarrow> (nat \<times> nat set) list" where
  "entry_insert k i m = bt_insert k (insert i (case map_of m k of None \<Rightarrow> {} | Some A \<Rightarrow> A)) m"

text \<open>A pass of a loop that goes on without an entry, or makes one.\<close>

definition file_under :: "('a \<Rightarrow> (nat \<times> nat) option) \<Rightarrow> 'a \<Rightarrow> (nat \<times> nat set) list \<Rightarrow> (nat \<times> nat set) list" where
  "file_under f x m = (case f x of None \<Rightarrow> m | Some (k, i) \<Rightarrow> entry_insert k i m)"

section \<open>Implementors\<close>

record trait_hierarchy =
  th_trait_id :: nat
  th_direct_impls :: "nat set"

definition implementor :: "('g, 'x) graph_ops \<Rightarrow> 'g code_graph \<Rightarrow> nat \<times> nat \<times> edge_data \<Rightarrow> (nat \<times> nat) option" where
  "implementor P s = (\<lambda>(i, j, e). if ed_kind e \<noteq> AE_Implements then None
     else Option.bind (node_id_for P s i) (\<lambda>source_id. map_option (\<lambda>target_id. (target_id, source_id)) (node_id_for P s j)))"

definition trait_hierarchies :: "('g, 'x) graph_ops \<Rightarrow> 'g code_graph \<Rightarrow> trait_hierarchy list" where
  "trait_hierarchies P s =
     (let hierarchies = fold (\<lambda>n. bt_insert (nd_id n) {}) (nodes_by_kind P s AN_Trait) [];
          hierarchies = fold (file_under (implementor P s)) (pg_edges P (cg_graph s)) hierarchies in
      map (\<lambda>(trait_id, direct_impls). \<lparr>th_trait_id = trait_id, th_direct_impls = direct_impls\<rparr>) hierarchies)"

section \<open>Calls of trait methods\<close>

record trait_dispatch_edge =
  td_caller :: nat
  td_callee :: nat
  td_trait_id :: nat

definition containing_trait :: "('g, 'x) graph_ops \<Rightarrow> 'g code_graph \<Rightarrow> nat \<Rightarrow> nat option" where
  "containing_trait P s j = (case List.map_filter (\<lambda>(i, e). if ed_kind e \<noteq> AE_Contains then None
       else Option.bind (pg_weight P (cg_graph s) i) (\<lambda>n. if nd_kind n = AN_Trait then Some (nd_id n) else None))
       (pg_in P (cg_graph s) j) of [] \<Rightarrow> None | t # _ \<Rightarrow> Some t)"

definition dispatch_call :: "('g, 'x) graph_ops \<Rightarrow> 'g code_graph \<Rightarrow> nat \<times> nat \<times> edge_data \<Rightarrow> trait_dispatch_edge option" where
  "dispatch_call P s = (\<lambda>(i, j, e). if ed_kind e \<noteq> AE_Calls then None
     else Option.bind (containing_trait P s j) (\<lambda>trait_id. Option.bind (node_id_for P s i) (\<lambda>caller_id.
       map_option (\<lambda>callee_id. \<lparr>td_caller = caller_id, td_callee = callee_id, td_trait_id = trait_id\<rparr>) (node_id_for P s j))))"

definition trait_dispatch_calls :: "('g, 'x) graph_ops \<Rightarrow> 'g code_graph \<Rightarrow> trait_dispatch_edge list" where
  "trait_dispatch_calls P s = List.map_filter (dispatch_call P s) (pg_edges P (cg_graph s))"

section \<open>Clusters\<close>

record type_cluster =
  tcl_primary_type :: nat
  tcl_functions :: "nat set"

definition count_type :: "('g, 'x) graph_ops \<Rightarrow> 'g code_graph \<Rightarrow> nat \<times> edge_data \<Rightarrow> (nat \<times> nat) list \<Rightarrow> (nat \<times> nat) list" where
  "count_type P s = (\<lambda>(j, e) counts. if ed_kind e \<noteq> AE_UsesType then counts
     else case pg_weight P (cg_graph s) j of
       None \<Rightarrow> counts
     | Some n \<Rightarrow> if nd_kind n \<notin> {AN_Struct, AN_Enum, AN_Trait} then counts
         else bt_insert (nd_id n) (Suc (case map_of counts (nd_id n) of None \<Rightarrow> 0 | Some c \<Rightarrow> c)) counts)"

definition better :: "nat \<times> nat \<Rightarrow> (nat \<times> nat) option \<Rightarrow> (nat \<times> nat) option" where
  "better = (\<lambda>(target_id, count) best. case best of
     None \<Rightarrow> Some (count, target_id)
   | Some (best_count, best_id) \<Rightarrow>
       if best_count < count \<or> count = best_count \<and> target_id < best_id then Some (count, target_id) else best)"

definition primary_type :: "('g, 'x) graph_ops \<Rightarrow> 'g code_graph \<Rightarrow> 'x node_data_scheme \<Rightarrow> (nat \<times> nat) option" where
  "primary_type P s func = Option.bind (resolve s (nd_id func)) (\<lambda>i.
     map_option (\<lambda>(_, primary). (primary, nd_id func)) (fold better (fold (count_type P s) (pg_out P (cg_graph s) i) []) None))"

text \<open>The comparison of the last sort is the size, the largest first, and then the type: two stable sorts.\<close>

definition cluster_by_primary_type :: "('g, 'x) graph_ops \<Rightarrow> 'g code_graph \<Rightarrow> type_cluster list" where
  "cluster_by_primary_type P s =
     (let clusters = fold (file_under (primary_type P s)) (nodes_by_kind P s AN_Function) [];
          out = map (\<lambda>(t, functions). \<lparr>tcl_primary_type = t, tcl_functions = functions\<rparr>) clusters in
      sort_key (\<lambda>c. - int (card (tcl_functions c))) (sort_key tcl_primary_type out))"

section \<open>Maps built by loops\<close>

lemma file_under_fold:
  assumes "bt_wf m"
  shows "bt_wf (fold (file_under f) xs m) \<and>
    (\<forall>k. map_of (fold (file_under f) xs m) k = (let A = {i. \<exists>x\<in>set xs. f x = Some (k, i)} in
       if A = {} then map_of m k else Some (A \<union> (case map_of m k of None \<Rightarrow> {} | Some B \<Rightarrow> B))))"
  using assms
proof (induction xs arbitrary: m)
  case (Cons x xs)
  show ?case
  proof (cases "f x")
    case None
    with Cons show ?thesis by (simp add: file_under_def)
  next
    case (Some y)
    obtain k i where y: "y = (k, i)" by fastforce
    let ?m = "entry_insert k i m"
    have wf: "bt_wf ?m" using Cons.prems by (simp add: entry_insert_def bt_wf_insert)
    have get: "map_of ?m l = (if l = k then Some (insert i (case map_of m k of None \<Rightarrow> {} | Some A \<Rightarrow> A)) else map_of m l)" for l
      using Cons.prems by (simp add: entry_insert_def bt_get_insert)
    have "{j. \<exists>z\<in>set (x # xs). f z = Some (l, j)} = (if l = k then {i} else {}) \<union> {j. \<exists>z\<in>set xs. f z = Some (l, j)}" for l
      using Some y by auto
    then show ?thesis using Cons.IH [OF wf] by (auto simp: file_under_def Some y get Let_def split: option.splits)
  qed
qed simp

lemma seeds_fold:
  assumes "bt_wf m"
  shows "bt_wf (fold (\<lambda>n. bt_insert (f n) {}) xs m) \<and>
    (\<forall>k. map_of (fold (\<lambda>n. bt_insert (f n) {}) xs m) k = (if k \<in> f ` set xs then Some {} else map_of m k))"
  using assms by (induction xs arbitrary: m) (auto simp: bt_wf_insert bt_get_insert)

lemma bt_entry: "bt_wf m \<Longrightarrow> (k, v) \<in> set m \<longleftrightarrow> map_of m k = Some v"
  by (metis bt_distinct map_of_eq_Some_iff)

section \<open>What the analyses find\<close>

definition of_kind :: "('g, 'x) graph_ops \<Rightarrow> 'g code_graph \<Rightarrow> analysis_node_kind set \<Rightarrow> nat set" where
  "of_kind P s K = {u. \<exists>n. get_node P s u = Some n \<and> nd_kind n \<in> K}"

text \<open>The uses of a type by a function, and the type it uses most, the one with the least identifier of several.\<close>

definition uses :: "('g, 'x) graph_ops \<Rightarrow> 'g code_graph \<Rightarrow> nat \<Rightarrow> nat \<Rightarrow> nat" where
  "uses P s f t = (if t \<in> of_kind P s {AN_Struct, AN_Enum, AN_Trait}
     then size {#x \<in># out_ids P s f. fst x = t \<and> ed_kind (snd x) = AE_UsesType#} else 0)"

definition mostly_uses :: "('g, 'x) graph_ops \<Rightarrow> 'g code_graph \<Rightarrow> nat \<Rightarrow> nat \<Rightarrow> bool" where
  "mostly_uses P s f t \<longleftrightarrow> 0 < uses P s f t \<and>
     (\<forall>t'. uses P s f t' < uses P s f t \<or> uses P s f t' = uses P s f t \<and> t \<le> t')"

context stable_graph
begin

lemma nodes_by_kind_ids:
  assumes "slots_ok P ok s"
  shows "nd_id ` set (nodes_by_kind P s k) = of_kind P s {k}"
proof -
  have "nd_id ` set (nodes_by_kind P s k) = nd_id ` {n \<in> ran (get_node P s). nd_kind n = k}"
    using node_weights_nodes(1) [OF assms] by (simp add: nodes_by_kind_def)
  then show ?thesis unfolding ids_of_nodes [OF assms] by (simp add: of_kind_def)
qed

lemma edge_of_graph: "ok g \<Longrightarrow> (i, j, e) \<in> set (pg_edges P g) \<longleftrightarrow> (j, e) \<in> set (pg_out P g i)"
  using edges [of g i j e] by (metis count_mset_0_iff)

lemma edge_ids:
  assumes s: "slots_ok P ok s"
  shows "(u, v) \<in> edges_of P s Q \<longleftrightarrow> (\<exists>i j e. (i, j, e) \<in> set (pg_edges P (cg_graph s)) \<and> Q e \<and>
    node_id_for P s i = Some u \<and> node_id_for P s j = Some v)"
proof
  assume *: "(u, v) \<in> edges_of P s Q"
  then have "resolve s u \<noteq> None" by (rule edges_of_live(1) [OF s])
  then obtain i where "resolve s u = Some i" by blast
  note i = resolve_live [OF s this]
  from * obtain j e where "(j, e) \<in> set (pg_out P (cg_graph s) i)" "v = slot_id P (cg_graph s) j" "Q e"
    unfolding i(2) [symmetric] edges_slots [OF s i(1)] by blast
  then show "\<exists>i j e. (i, j, e) \<in> set (pg_edges P (cg_graph s)) \<and> Q e \<and> node_id_for P s i = Some u \<and> node_id_for P s j = Some v"
    using edge_of_graph [OF slots_okD(1) [OF s]] out_live [OF s] node_id_for_slot i by (metis)
next
  assume "\<exists>i j e. (i, j, e) \<in> set (pg_edges P (cg_graph s)) \<and> Q e \<and> node_id_for P s i = Some u \<and> node_id_for P s j = Some v"
  then obtain i j e where e: "(j, e) \<in> set (pg_out P (cg_graph s) i)" "Q e" "node_id_for P s i = Some u" "node_id_for P s j = Some v"
    using edge_of_graph [OF slots_okD(1) [OF s]] by blast
  then have "i \<in> live s" "j \<in> live s" by (auto simp: node_id_for_def)
  then show "(u, v) \<in> edges_of P s Q" using e edges_slots [OF s, of i v Q] by (auto simp: node_id_for_slot)
qed

lemma trait_hierarchies_promise:
  assumes s: "slots_ok P ok s"
  shows "sorted_wrt (<) (map th_trait_id (trait_hierarchies P s))"
    "th_trait_id ` set (trait_hierarchies P s) = of_kind P s {AN_Trait} \<union> Range (edges_of P s (\<lambda>e. ed_kind e = AE_Implements))"
    "h \<in> set (trait_hierarchies P s) \<Longrightarrow> th_direct_impls h = {u. (u, th_trait_id h) \<in> edges_of P s (\<lambda>e. ed_kind e = AE_Implements)}"
proof -
  let ?E = "edges_of P s (\<lambda>e. ed_kind e = AE_Implements)"
  define m :: "(nat \<times> nat set) list" where "m = fold (\<lambda>n. bt_insert (nd_id n) {}) (nodes_by_kind P s AN_Trait) []"
  define m' where "m' = fold (file_under (implementor P s)) (pg_edges P (cg_graph s)) m"
  have out: "trait_hierarchies P s = map (\<lambda>(t, d). \<lparr>th_trait_id = t, th_direct_impls = d\<rparr>) m'"
    by (simp add: trait_hierarchies_def m_def m'_def)
  have m: "bt_wf m" "map_of m t = (if t \<in> of_kind P s {AN_Trait} then Some {} else None)" for t
    using seeds_fold [of "[] :: (nat \<times> nat set) list" nd_id "nodes_by_kind P s AN_Trait"] unfolding nodes_by_kind_ids [OF s] m_def by (simp_all add: bt_wf_def)
  have "{u. \<exists>x\<in>set (pg_edges P (cg_graph s)). implementor P s x = Some (t, u)} = {u. (u, t) \<in> ?E}" for t
    by (simp add: edge_ids [OF s] Bex_def split_paired_Ex implementor_def bind_eq_Some_conv) blast
  then have m': "bt_wf m'" "map_of m' t = (if {u. (u, t) \<in> ?E} = {} then map_of m t else Some {u. (u, t) \<in> ?E})" for t
    using file_under_fold [OF m(1), of "implementor P s" "pg_edges P (cg_graph s)"] m(2) unfolding m'_def [symmetric]
    by (simp_all add: Let_def)
  have ids: "map th_trait_id (trait_hierarchies P s) = map fst m'" by (auto simp: out)
  show "sorted_wrt (<) (map th_trait_id (trait_hierarchies P s))" using m'(1) by (simp add: ids bt_wf_def)
  have "th_trait_id ` set (trait_hierarchies P s) = dom (map_of m')" by (metis dom_map_of_conv_image_fst ids image_set)
  also have "\<dots> = of_kind P s {AN_Trait} \<union> Range ?E" by (auto simp: dom_def m'(2) m(2) split: if_splits)
  finally show "th_trait_id ` set (trait_hierarchies P s) = of_kind P s {AN_Trait} \<union> Range ?E" .
  assume "h \<in> set (trait_hierarchies P s)"
  then have "map_of m' (th_trait_id h) = Some (th_direct_impls h)" using bt_entry [OF m'(1)] by (auto simp: out)
  then show "th_direct_impls h = {u. (u, th_trait_id h) \<in> ?E}" by (auto simp: m' m split: if_splits)
qed

text \<open>The traits that contain a slot.\<close>

lemma containing_trait_cases:
  assumes s: "slots_ok P ok s" and v: "node_id_for P s j = Some v"
  defines "T \<equiv> {t \<in> of_kind P s {AN_Trait}. (t, v) \<in> edges_of P s (\<lambda>e. ed_kind e = AE_Contains)}"
  shows "case containing_trait P s j of None \<Rightarrow> T = {} | Some t \<Rightarrow> t \<in> T"
proof -
  let ?L = "List.map_filter (\<lambda>(i, e). if ed_kind e \<noteq> AE_Contains then None
     else Option.bind (pg_weight P (cg_graph s) i) (\<lambda>n. if nd_kind n = AN_Trait then Some (nd_id n) else None)) (pg_in P (cg_graph s) j)"
  have j: "j \<in> live s" "slot_id P (cg_graph s) j = v" using v by (auto simp: node_id_for_def slot_id_def)
  have kind: "t \<in> of_kind P s {AN_Trait} \<longleftrightarrow> (\<exists>i n. pg_weight P (cg_graph s) i = Some n \<and> nd_id n = t \<and> nd_kind n = AN_Trait)" for t
    by (auto simp: of_kind_def get_node_iff [OF s])
  have "set ?L = T"
  proof (rule set_eqI, rule iffI)
    fix t assume "t \<in> set ?L"
    then obtain i e n where e: "(i, e) \<in> set (pg_in P (cg_graph s) j)" "ed_kind e = AE_Contains"
      "pg_weight P (cg_graph s) i = Some n" "nd_kind n = AN_Trait" "nd_id n = t"
      by (auto simp: List.map_filter_def bind_eq_Some_conv split: if_splits)
    then have "(slot_id P (cg_graph s) i, v) \<in> edges_of P s (\<lambda>e. ed_kind e = AE_Contains)"
      using edges_slots [OF s, of i] in_out [OF s] j by blast
    then show "t \<in> T" using e unfolding T_def kind by (auto simp: slot_id_def)
  next
    fix t assume "t \<in> T"
    then obtain i n where i: "pg_weight P (cg_graph s) i = Some n" "nd_id n = t" "nd_kind n = AN_Trait"
      "(t, v) \<in> edges_of P s (\<lambda>e. ed_kind e = AE_Contains)" unfolding T_def kind by blast
    then have slot: "i \<in> live s" "slot_id P (cg_graph s) i = t" by (auto simp: slot_id_def)
    obtain k e where k: "(k, e) \<in> set (pg_out P (cg_graph s) i)" "v = slot_id P (cg_graph s) k" "ed_kind e = AE_Contains"
      using i(4) unfolding slot(2) [symmetric] edges_slots [OF s slot(1)] by blast
    have "k = j" by (rule slot_id_inj [OF s out_live [OF s k(1)] j(1)]) (simp add: k(2) [symmetric] j(2))
    with k have "(i, e) \<in> set (pg_in P (cg_graph s) j)" using in_out [OF s] by blast
    then show "t \<in> set ?L" using i k(3) by (force simp: List.map_filter_def bind_eq_Some_conv image_iff)
  qed
  then show ?thesis unfolding containing_trait_def by (cases ?L) auto
qed

lemma trait_dispatch_promise:
  assumes s: "slots_ok P ok s"
  defines "C \<equiv> edges_of P s (\<lambda>e. ed_kind e = AE_Calls)" and "D \<equiv> edges_of P s (\<lambda>e. ed_kind e = AE_Contains)"
  shows "d \<in> set (trait_dispatch_calls P s) \<Longrightarrow>
      (td_caller d, td_callee d) \<in> C \<and> (td_trait_id d, td_callee d) \<in> D \<and> td_trait_id d \<in> of_kind P s {AN_Trait}"
    "(u, v) \<in> C \<Longrightarrow> (t, v) \<in> D \<Longrightarrow> t \<in> of_kind P s {AN_Trait} \<Longrightarrow>
      \<exists>d\<in>set (trait_dispatch_calls P s). td_caller d = u \<and> td_callee d = v"
proof -
  assume "d \<in> set (trait_dispatch_calls P s)"
  then obtain i j e where e: "(i, j, e) \<in> set (pg_edges P (cg_graph s))" "ed_kind e = AE_Calls"
    "containing_trait P s j = Some (td_trait_id d)" "node_id_for P s i = Some (td_caller d)" "node_id_for P s j = Some (td_callee d)"
    by (auto simp: trait_dispatch_calls_def List.map_filter_def dispatch_call_def bind_eq_Some_conv split: if_splits)
  then have "(td_caller d, td_callee d) \<in> C" unfolding C_def edge_ids [OF s] by blast
  with containing_trait_cases [OF s e(5)] e(3)
  show "(td_caller d, td_callee d) \<in> C \<and> (td_trait_id d, td_callee d) \<in> D \<and> td_trait_id d \<in> of_kind P s {AN_Trait}"
    by (simp add: D_def)
next
  assume "(u, v) \<in> C" and t: "(t, v) \<in> D" "t \<in> of_kind P s {AN_Trait}"
  then obtain i j e where e: "(i, j, e) \<in> set (pg_edges P (cg_graph s))" "ed_kind e = AE_Calls"
    "node_id_for P s i = Some u" "node_id_for P s j = Some v" unfolding C_def edge_ids [OF s] by blast
  from containing_trait_cases [OF s e(4)] t obtain t' where t': "containing_trait P s j = Some t'"
    unfolding D_def by (cases "containing_trait P s j") auto
  have "dispatch_call P s (i, j, e) = Some \<lparr>td_caller = u, td_callee = v, td_trait_id = t'\<rparr>"
    by (simp add: dispatch_call_def e t')
  then have "\<lparr>td_caller = u, td_callee = v, td_trait_id = t'\<rparr> \<in> set (trait_dispatch_calls P s)"
    using e(1) by (force simp: trait_dispatch_calls_def List.map_filter_def image_iff)
  then show "\<exists>d\<in>set (trait_dispatch_calls P s). td_caller d = u \<and> td_callee d = v" by force
qed

end

section \<open>Clusters hold the functions that use a type most\<close>

definition counted :: "('g, 'x) graph_ops \<Rightarrow> 'g code_graph \<Rightarrow> nat \<Rightarrow> nat \<times> edge_data \<Rightarrow> bool" where
  "counted P s t x \<longleftrightarrow> ed_kind (snd x) = AE_UsesType \<and>
     (\<exists>n. pg_weight P (cg_graph s) (fst x) = Some n \<and> nd_kind n \<in> {AN_Struct, AN_Enum, AN_Trait} \<and> nd_id n = t)"

lemma count_type_step:
  assumes "bt_wf m"
  shows "bt_wf (count_type P s x m)"
    "map_of (count_type P s x m) t = (if counted P s t x then Some (Suc (case map_of m t of None \<Rightarrow> 0 | Some c \<Rightarrow> c)) else map_of m t)"
  using assms by (auto simp: count_type_def counted_def bt_wf_insert bt_get_insert case_prod_beta split: option.split)

lemma count_type_fold:
  assumes "bt_wf m"
  shows "bt_wf (fold (count_type P s) es m) \<and> (\<forall>t. map_of (fold (count_type P s) es m) t =
    (let c = length (filter (counted P s t) es) in if c = 0 then map_of m t
     else Some (c + (case map_of m t of None \<Rightarrow> 0 | Some d \<Rightarrow> d))))"
  using assms
proof (induction es arbitrary: m)
  case (Cons x es)
  note step = count_type_step [OF Cons.prems, of P s x]
  show ?case using Cons.IH [OF step(1)] by (simp add: step(2) Let_def split: option.split)
qed simp

definition prefers :: "nat \<times> nat \<Rightarrow> nat \<times> nat \<Rightarrow> bool" where
  "prefers a b \<longleftrightarrow> fst b < fst a \<or> fst b = fst a \<and> snd a \<le> snd b"

lemma better_fold:
  "case fold better xs b of None \<Rightarrow> xs = [] \<and> b = None
   | Some r \<Rightarrow> ((snd r, fst r) \<in> set xs \<or> b = Some r) \<and> (\<forall>(t, c)\<in>set xs. prefers r (c, t)) \<and> (\<forall>r'. b = Some r' \<longrightarrow> prefers r r')"
proof (induction xs arbitrary: b)
  case Nil
  show ?case by (cases b) (simp_all add: prefers_def)
next
  case (Cons x xs)
  obtain t c where x: "x = (t, c)" by fastforce
  have "\<exists>r'. better x b = Some r' \<and> (r' = (c, t) \<or> b = Some r') \<and> prefers r' (c, t) \<and> (\<forall>q. b = Some q \<longrightarrow> prefers r' q)"
    by (cases b) (auto simp: x better_def prefers_def)
  then obtain r' where r': "better x b = Some r'" "r' = (c, t) \<or> b = Some r'" "prefers r' (c, t)" "\<forall>q. b = Some q \<longrightarrow> prefers r' q" by blast
  have trans: "prefers p q \<Longrightarrow> prefers q r \<Longrightarrow> prefers p r" for p q r by (auto simp: prefers_def)
  from Cons.IH [of "Some r'"] obtain r where r: "fold better xs (Some r') = Some r" "(snd r, fst r) \<in> set xs \<or> r' = r"
    "\<forall>(t, c)\<in>set xs. prefers r (c, t)" "prefers r r'" by (auto split: option.splits)
  moreover have "prefers r (c, t)" "\<forall>q. b = Some q \<longrightarrow> prefers r q" using trans r(4) r'(3,4) by blast+
  moreover have "(snd r, fst r) \<in> set (x # xs) \<or> b = Some r" using r(2) r'(2) by (auto simp: x)
  moreover have "fold better (x # xs) b = Some r" using r(1) r'(1) by simp
  ultimately show ?case using x by simp
qed

lemma mostly_uses_unique: "mostly_uses P s f t \<Longrightarrow> mostly_uses P s f t' \<Longrightarrow> t = t'"
  unfolding mostly_uses_def by (metis antisym less_irrefl not_less_iff_gr_or_eq)

context stable_graph
begin

lemma counted_uses:
  assumes s: "slots_ok P ok s" and i: "i \<in> live s"
  shows "length (filter (counted P s t) (pg_out P (cg_graph s) i)) = uses P s (slot_id P (cg_graph s) i) t"
proof -
  have kind: "t \<in> of_kind P s K \<longleftrightarrow> (\<exists>k n. pg_weight P (cg_graph s) k = Some n \<and> nd_id n = t \<and> nd_kind n \<in> K)" for K
    by (auto simp: of_kind_def get_node_iff [OF s])
  have out: "out_ids P s (slot_id P (cg_graph s) i) = image_mset (renamed P (cg_graph s)) (mset (pg_out P (cg_graph s) i))"
    using resolve_slot_id [OF s i] by (simp add: out_ids_def)
  have same: "counted P s t x \<longleftrightarrow> t \<in> of_kind P s {AN_Struct, AN_Enum, AN_Trait} \<and>
      fst (renamed P (cg_graph s) x) = t \<and> ed_kind (snd (renamed P (cg_graph s) x)) = AE_UsesType"
    if x: "x \<in> set (pg_out P (cg_graph s) i)" for x
  proof -
    obtain j e where je: "x = (j, e)" by fastforce
    then have "j \<in> live s" using out_live [OF s] x by blast
    then obtain n where n: "pg_weight P (cg_graph s) j = Some n" by blast
    have same_node: "m = n" if "pg_weight P (cg_graph s) k = Some m" "nd_id m = nd_id n" for k m
      using slots_okD(4) [OF s that(1)] slots_okD(4) [OF s n] that n by simp
    have "t \<in> of_kind P s {AN_Struct, AN_Enum, AN_Trait} \<longleftrightarrow> nd_kind n \<in> {AN_Struct, AN_Enum, AN_Trait}" if t: "nd_id n = t"
    proof
      assume "t \<in> of_kind P s {AN_Struct, AN_Enum, AN_Trait}"
      then obtain k m where k: "pg_weight P (cg_graph s) k = Some m" "nd_id m = t" "nd_kind m \<in> {AN_Struct, AN_Enum, AN_Trait}"
        unfolding kind by blast
      have "m = n" using same_node [OF k(1)] k(2) t by simp
      then show "nd_kind n \<in> {AN_Struct, AN_Enum, AN_Trait}" using k(3) by simp
    next
      assume "nd_kind n \<in> {AN_Struct, AN_Enum, AN_Trait}"
      then show "t \<in> of_kind P s {AN_Struct, AN_Enum, AN_Trait}" unfolding kind using n t by blast
    qed
    then show ?thesis by (auto simp: counted_def je n slot_id_def)
  qed
  have "filter (counted P s t) (pg_out P (cg_graph s) i) = filter (\<lambda>x. t \<in> of_kind P s {AN_Struct, AN_Enum, AN_Trait} \<and>
      fst (renamed P (cg_graph s) x) = t \<and> ed_kind (snd (renamed P (cg_graph s) x)) = AE_UsesType) (pg_out P (cg_graph s) i)"
    by (rule filter_cong [OF refl]) (rule same)
  also have "length \<dots> = uses P s (slot_id P (cg_graph s) i) t"
    by (simp add: uses_def out filter_mset_image_mset comp_def flip: mset_filter)
  finally show ?thesis .
qed

lemma primary_type_iff:
  assumes s: "slots_ok P ok s" and n: "get_node P s (nd_id n) = Some n"
  shows "primary_type P s n = Some (t, f) \<longleftrightarrow> f = nd_id n \<and> mostly_uses P s f t"
proof -
  obtain i where i: "resolve s (nd_id n) = Some i" "i \<in> live s" "slot_id P (cg_graph s) i = nd_id n"
    using resolve_get_node [OF s, of "nd_id n"] resolve_live [OF s] n by fastforce
  define m where "m = fold (count_type P s) (pg_out P (cg_graph s) i) []"
  have fold: "bt_wf m" "map_of m u = (let c = length (filter (counted P s u) (pg_out P (cg_graph s) i)) in if c = 0 then None else Some c)" for u
    using count_type_fold [of "[]" P s "pg_out P (cg_graph s) i"] by (simp_all add: m_def bt_wf_def Let_def)
  have m: "bt_wf m" "map_of m u = (if uses P s (nd_id n) u = 0 then None else Some (uses P s (nd_id n) u))" for u
    using fold unfolding counted_uses [OF s i(2)] i(3) Let_def by blast+
  have entry: "(u, c) \<in> set m \<longleftrightarrow> c = uses P s (nd_id n) u \<and> 0 < c" for u c
    unfolding bt_entry [OF m(1)] m(2) by auto
  have eq: "primary_type P s n = map_option (\<lambda>r. (snd r, nd_id n)) (fold better m None)"
    by (simp add: primary_type_def i(1) m_def case_prod_beta')
  show ?thesis
  proof (cases "fold better m None")
    case None
    then have "m = []" using better_fold [of m None] by simp
    then have "uses P s (nd_id n) t = 0" using entry [of t "uses P s (nd_id n) t"] by simp
    then show ?thesis using None by (auto simp: eq mostly_uses_def)
  next
    case (Some r)
    obtain c u where r: "r = (c, u)" by fastforce
    have best: "(u, c) \<in> set m" "\<forall>(t, d)\<in>set m. prefers (c, u) (d, t)" using better_fold [of m None] Some r by auto
    have "uses P s (nd_id n) u' < c \<or> uses P s (nd_id n) u' = c \<and> u \<le> u'" for u'
      using best entry [of u' "uses P s (nd_id n) u'"] entry [of u c] by (cases "uses P s (nd_id n) u' = 0") (auto simp: prefers_def)
    then have "mostly_uses P s (nd_id n) u" using best(1) entry by (auto simp: mostly_uses_def)
    then show ?thesis using mostly_uses_unique by (auto simp: eq Some r)
  qed
qed

lemma clusters_promise:
  assumes s: "slots_ok P ok s"
  shows "sorted (map (\<lambda>c. - int (card (tcl_functions c))) (cluster_by_primary_type P s))"
    "distinct (map tcl_primary_type (cluster_by_primary_type P s))"
    "c \<in> set (cluster_by_primary_type P s) \<Longrightarrow> tcl_functions c \<noteq> {} \<and>
      tcl_functions c = {f \<in> of_kind P s {AN_Function}. mostly_uses P s f (tcl_primary_type c)}"
    "f \<in> of_kind P s {AN_Function} \<Longrightarrow> mostly_uses P s f t \<Longrightarrow> t \<in> tcl_primary_type ` set (cluster_by_primary_type P s)"
proof -
  let ?F = "\<lambda>t. {f \<in> of_kind P s {AN_Function}. mostly_uses P s f t}"
  define m where "m = fold (file_under (primary_type P s)) (nodes_by_kind P s AN_Function) []"
  let ?out = "map (\<lambda>(t, functions). \<lparr>tcl_primary_type = t, tcl_functions = functions\<rparr>) m"
  have out: "cluster_by_primary_type P s = sort_key (\<lambda>c. - int (card (tcl_functions c))) (sort_key tcl_primary_type ?out)"
    by (simp add: cluster_by_primary_type_def m_def)
  have self: "get_node P s (nd_id n) = Some n" "n \<in> set (nodes_by_kind P s AN_Function) \<Longrightarrow> nd_kind n = AN_Function"
    if "n \<in> set (nodes_by_kind P s AN_Function)" for n
    using that node_weights_nodes(1) [OF s] node_keys [OF s] by (auto simp: nodes_by_kind_def ran_def)
  have "{f. \<exists>n\<in>set (nodes_by_kind P s AN_Function). primary_type P s n = Some (t, f)} = ?F t" for t
    unfolding nodes_by_kind_ids [OF s, symmetric] using primary_type_iff [OF s self(1)] by blast
  then have m: "bt_wf m" "map_of m t = (if ?F t = {} then None else Some (?F t))" for t
    using file_under_fold [of "[]" "primary_type P s" "nodes_by_kind P s AN_Function"] unfolding m_def [symmetric]
    by (simp_all add: bt_wf_def Let_def)
  have entry: "(t, A) \<in> set m \<longleftrightarrow> A = ?F t \<and> A \<noteq> {}" for t A
    unfolding bt_entry [OF m(1)] m(2) by auto
  show "sorted (map (\<lambda>c. - int (card (tcl_functions c))) (cluster_by_primary_type P s))"
    unfolding out by (rule sorted_sort_key)
  have ids: "map tcl_primary_type ?out = map fst m" by auto
  have "mset (map tcl_primary_type (cluster_by_primary_type P s)) = mset (map tcl_primary_type ?out)"
    unfolding out by (simp only: mset_map mset_sort)
  then have "mset (map tcl_primary_type (cluster_by_primary_type P s)) = mset (map fst m)" unfolding ids .
  then show "distinct (map tcl_primary_type (cluster_by_primary_type P s))"
    using bt_distinct [OF m(1)] by (metis mset_eq_imp_distinct_iff)
  have set: "set (cluster_by_primary_type P s) = set ?out" by (simp add: out)
  show "c \<in> set (cluster_by_primary_type P s) \<Longrightarrow> tcl_functions c \<noteq> {} \<and>
      tcl_functions c = {f \<in> of_kind P s {AN_Function}. mostly_uses P s f (tcl_primary_type c)}"
    unfolding set using entry by auto
  assume "f \<in> of_kind P s {AN_Function}" "mostly_uses P s f t"
  then have "(t, ?F t) \<in> set m" unfolding entry by blast
  then show "t \<in> tcl_primary_type ` set (cluster_by_primary_type P s)" unfolding set by force
qed

end

end
