(* ===== verification/Entry_Points.thy ===== *)
theory Entry_Points
  imports Csr_Proofs Label_Patterns
begin

text \<open>
  The entry points of the code graph (\<^verbatim>\<open>analysis/algorithms.rs\<close>): which functions are entry points and of
  what kind, and how much each of them reaches.
\<close>

section \<open>Truth of a metadata value\<close>

text \<open>\<^verbatim>\<open>str::trim\<close>, on the bytes of the text.\<close>

function trim_start :: "string \<Rightarrow> string" where
  "trim_start [] = []"
| "trim_start (c # s) = (if white_width (c # s) = 0 then c # s else trim_start (drop (white_width (c # s)) (c # s)))"
  by pat_completeness auto
termination by (relation "measure length") auto

function all_white :: "string \<Rightarrow> bool" where
  "all_white [] = True"
| "all_white (c # s) = (if white_width (c # s) = 0 then False else all_white (drop (white_width (c # s)) (c # s)))"
  by pat_completeness auto
termination by (relation "measure length") auto

fun trim_end :: "string \<Rightarrow> string" where
  "trim_end [] = []"
| "trim_end (c # s) = (if all_white (c # s) then [] else c # trim_end s)"

definition metadata_flag :: "'x node_data_scheme \<Rightarrow> string \<Rightarrow> bool" where
  "metadata_flag node key = (case map_of (nd_metadata node) key of
     None \<Rightarrow> False
   | Some v \<Rightarrow> let trimmed = trim_end (trim_start v) in
       trimmed \<noteq> [] \<and> \<not> eq_ignore_ascii_case trimmed ''false'' \<and> trimmed \<noteq> ''0'')"

section \<open>Kinds of entry points\<close>

datatype analysis_entrypoint = EP_Main | EP_PublicApi | EP_Test | EP_Bench | EP_FfiExport

definition classify_function_entrypoint :: "'x node_data_scheme \<Rightarrow> analysis_entrypoint option" where
  "classify_function_entrypoint node =
     (if metadata_flag node ''test'' then Some EP_Test
      else if metadata_flag node ''bench'' then Some EP_Bench
      else if metadata_flag node ''no_mangle'' \<or> metadata_flag node ''extern'' then Some EP_FfiExport
      else if nd_name node = ''main'' then Some EP_Main
      else if nd_visibility node = AV_Public then Some EP_PublicApi
      else None)"

section \<open>Reach\<close>

text \<open>The set of visited nodes with the queue, and the greatest depth so far.\<close>

type_synonym 'a reach_search = "('a set \<times> ('a \<times> nat) list) \<times> nat"

definition reach_neighbour :: "nat \<Rightarrow> 'a \<Rightarrow> 'a reach_search \<Rightarrow> 'a reach_search" where
  "reach_neighbour nd x st = (if x \<in> fst (fst st) then st
     else (push_back nd x (fst st), if snd st < nd then nd else snd st))"

definition reach_pass :: "('a \<Rightarrow> 'a list) \<Rightarrow> 'a reach_search \<Rightarrow> 'a reach_search" where
  "reach_pass nxt st = (case snd (fst st) of
     [] \<Rightarrow> st
   | (x, d) # queue \<Rightarrow> fold (reach_neighbour (Suc d)) (nxt x) ((fst (fst st), queue), snd st))"

definition bfs_reach_metrics :: "('a \<Rightarrow> 'a list) \<Rightarrow> 'a \<Rightarrow> (nat \<times> nat) option" where
  "bfs_reach_metrics nxt start = map_option (\<lambda>st. (snd st, card (fst (fst st)) - 1))
     (while_option (\<lambda>st. snd (fst st) \<noteq> []) (reach_pass nxt) (({start}, [(start, 0)]), 0))"

section \<open>Summaries\<close>

record entrypoint_summary =
  es_node_id :: nat
  es_kind :: analysis_entrypoint
  es_fan_in :: nat
  es_fan_out :: nat
  es_max_reach_depth :: nat
  es_reach_size :: nat

definition entry_candidate :: "('g, 'x) graph_ops \<Rightarrow> 'g code_graph \<Rightarrow> nat \<Rightarrow> (nat \<times> nat \<times> analysis_entrypoint) option" where
  "entry_candidate P s idx = Option.bind (pg_weight P (cg_graph s) idx) (\<lambda>node.
     if nd_kind node \<noteq> AN_Function then None
     else map_option (\<lambda>kind. (idx, nd_id node, kind)) (classify_function_entrypoint node))"

definition entry_summary :: "('g, 'x) graph_ops \<Rightarrow> 'g code_graph \<Rightarrow> nat \<times> nat \<times> analysis_entrypoint \<Rightarrow> entrypoint_summary option" where
  "entry_summary P s = (\<lambda>(idx, node_id, kind). map_option (\<lambda>(max_reach_depth, reach_size).
     \<lparr>es_node_id = node_id, es_kind = kind, es_fan_in = length (pg_in P (cg_graph s) idx), es_fan_out = length (pg_out P (cg_graph s) idx),
      es_max_reach_depth = max_reach_depth, es_reach_size = reach_size\<rparr>) (bfs_reach_metrics (out_neighbours P s) idx))"

definition classify_entrypoints :: "('g, 'x) graph_ops \<Rightarrow> 'g code_graph \<Rightarrow> entrypoint_summary list option" where
  "classify_entrypoints P s = map_option (sort_key es_node_id)
     (those (map (entry_summary P s) (List.map_filter (entry_candidate P s) (pg_indices P (cg_graph s)))))"

section \<open>The reach is the distance of the farthest node\<close>

lemma levels_below:
  assumes "x \<in> ball nxt S d" and "level nxt S x = d"
  shows "{..d} \<subseteq> level nxt S ` ball nxt S d"
  using assms
proof (induction d arbitrary: x)
  case (Suc d)
  then have "x \<notin> ball nxt S d" using level_le [of x nxt S d] by auto
  from level_pred [OF Suc.prems(1) this] obtain u where u: "u \<in> ball nxt S d" "level nxt S u = d" by blast
  have "{..d} \<subseteq> level nxt S ` ball nxt S (Suc d)" using Suc.IH [OF u] by auto
  moreover have "Suc d \<in> level nxt S ` ball nxt S (Suc d)" using Suc.prems by (metis image_eqI)
  ultimately show ?case by (simp only: atMost_Suc insert_subset simp_thms)
qed auto

lemma level_less_card:
  assumes "finite R" and "ball nxt S d \<subseteq> R" and "x \<in> ball nxt S d" and "level nxt S x = d"
  shows "d < card R"
proof -
  have "Suc d \<le> card (level nxt S ` ball nxt S d)"
    using card_mono [OF _ levels_below [OF assms(3,4)]] finite_subset [OF assms(2,1)] by simp
  also have "\<dots> \<le> card (ball nxt S d)" by (rule card_image_le [OF finite_subset [OF assms(2,1)]])
  also have "\<dots> \<le> card R" by (rule card_mono [OF assms(1,2)])
  finally show ?thesis by simp
qed

lemma reach_neighbours:
  "fold (reach_neighbour d) xs (p, m) = (enqueue d xs p, if set xs \<subseteq> fst p then m else max m d)"
proof (induction xs arbitrary: p m)
  case (Cons x xs)
  show ?case
  proof (cases "x \<in> fst p")
    case True
    then have "reach_neighbour d x (p, m) = (p, m)" "push_back d x p = p" by (simp_all add: reach_neighbour_def push_back_def)
    with True show ?thesis by (simp add: Cons.IH enqueue_def)
  next
    case False
    then have "reach_neighbour d x (p, m) = (push_back d x p, max m d)" by (simp add: reach_neighbour_def max_def)
    moreover have "fst (push_back d x p) = insert x (fst p)" using False by (simp add: push_back_def)
    ultimately show ?thesis using False by (auto simp: Cons.IH enqueue_def max_def)
  qed
qed (simp add: enqueue_def)

definition deepest :: "('a \<Rightarrow> 'a list) \<Rightarrow> 'a set \<Rightarrow> 'a set \<Rightarrow> nat \<Rightarrow> bool" where
  "deepest nxt S V m \<longleftrightarrow> (\<exists>x\<in>V. level nxt S x = m) \<and> (\<forall>x\<in>V. level nxt S x \<le> m)"

lemma bfs_reach_metrics_exact:
  assumes R: "finite R" "start \<in> R" and nxt: "\<And>x. x \<in> R \<Longrightarrow> set (nxt x) \<subseteq> R"
  shows "\<exists>m. bfs_reach_metrics nxt start = Some (m, card (\<Union>k. ball nxt {start} k) - 1) \<and>
    deepest nxt {start} (\<Union>k. ball nxt {start} k) m"
proof -
  let ?S = "{start}" and ?D = "card R"
  have within: "ball nxt ?S k \<subseteq> R" for k by (induction k) (use R(2) nxt in auto)
  have bound: "x \<in> ball nxt ?S d \<Longrightarrow> \<forall>k<d. x \<notin> ball nxt ?S k \<Longrightarrow> d < ?D \<and> level nxt ?S x = d" for x d
  proof -
    assume x: "x \<in> ball nxt ?S d" "\<forall>k<d. x \<notin> ball nxt ?S k"
    then have "level nxt ?S x = d" unfolding level_def by (intro Least_equality) (auto intro: leI)
    with level_less_card [OF R(1) within x(1)] show "d < ?D \<and> level nxt ?S x = d" by blast
  qed
  let ?I = "\<lambda>st. depth_inv nxt ?D ?S (fst st) \<and> fst (fst st) \<subseteq> R \<and> deepest nxt ?S (fst (fst st)) (snd st)"
  have "level nxt ?S start = 0" by (simp add: level_def Least_equality)
  then have start: "?I (({start}, [(start, 0)]), 0)"
    using depth_inv_start [of nxt ?D "[start]"] R(2) by (simp add: enqueue_def push_back_def deepest_def)
  have "?I (reach_pass nxt st) \<and> queue_work R (fst (reach_pass nxt st)) < queue_work R (fst st)"
    if inv: "?I st" and more: "snd (fst st) \<noteq> []" for st
  proof -
    obtain V x d q m where st: "st = ((V, (x, d) # q), m)" using more by (cases st; cases "snd (fst st)") auto
    note D = depth_invD [OF inv [unfolded st fst_conv, THEN conjunct1]]
    have x: "x \<in> V" "x \<in> ball nxt ?S d" "\<forall>k<d. x \<notin> ball nxt ?S k" using D(3) [of x d] by auto
    have d: "d < ?D" using bound [OF x(2,3)] by blast
    have V: "V \<subseteq> R" "deepest nxt ?S V m" "depth_inv nxt ?D ?S (V, (x, d) # q)" using inv by (simp_all add: st)
    have next_R: "set (nxt x) \<subseteq> R" using nxt V(1) x(1) by blast
    have pass: "reach_pass nxt st = (enqueue (Suc d) (nxt x) (V, q), if set (nxt x) \<subseteq> V then m else max m (Suc d))"
      by (simp add: reach_pass_def st reach_neighbours)
    have same: "depth_pass nxt ?D (V, (x, d) # q) = enqueue (Suc d) (nxt x) (V, q)" using d by (simp add: depth_pass_def)
    have "depth_inv nxt ?D ?S (enqueue (Suc d) (nxt x) (V, q))" using depth_pass_inv [OF V(3)] by (simp add: same)
    moreover have "queue_work R (enqueue (Suc d) (nxt x) (V, q)) < queue_work R (V, (x, d) # q)"
      using enqueue_work [OF R(1) next_R, of "Suc d" "(V, q)"] by (simp add: queue_work_def)
    moreover have "deepest nxt ?S (V \<union> set (nxt x)) (if set (nxt x) \<subseteq> V then m else max m (Suc d))"
    proof -
      have new: "level nxt ?S y = Suc d" if "y \<in> set (nxt x)" "y \<notin> V" for y
      proof (rule level_new)
        show "y \<in> ball nxt ?S (Suc d)" using x(2) that(1) by auto
        show "y \<notin> ball nxt ?S d" using D(4) that(2) by blast
      qed
      show ?thesis
      proof (cases "set (nxt x) \<subseteq> V")
        case True
        then show ?thesis using V(2) by (simp add: Un_absorb2)
      next
        case False
        then obtain y where y: "y \<in> set (nxt x)" "y \<notin> V" by blast
        then have "\<exists>z\<in>V \<union> set (nxt x). level nxt ?S z = max m (Suc d)"
          using new [OF y] V(2) by (cases "m \<le> Suc d") (auto simp: deepest_def max_def)
        moreover have "level nxt ?S z \<le> max m (Suc d)" if "z \<in> V \<union> set (nxt x)" for z
          using that new [of z] V(2) by (cases "z \<in> V") (auto simp: deepest_def max.coboundedI1)
        ultimately show ?thesis using False by (simp add: deepest_def)
      qed
    qed
    ultimately show ?thesis using V(1) next_R unfolding pass by (simp add: enqueue_visited st)
  qed
  from while_option_total [where b = "\<lambda>st. snd (fst st) \<noteq> []", OF start this] obtain t where
    t: "while_option (\<lambda>st. snd (fst st) \<noteq> []) (reach_pass nxt) (({start}, [(start, 0)]), 0) = Some t" "?I t" "snd (fst t) = []" by blast
  obtain V m where V: "t = ((V, []), m)" using t(3) by (cases t; cases "fst t") auto
  have "ball nxt ?S k \<subseteq> ball nxt ?S ?D" for k
  proof
    fix x assume "x \<in> ball nxt ?S k"
    then have "x \<in> ball nxt ?S (level nxt ?S x)" by (rule level_ball [THEN conjunct1])
    moreover from this have "level nxt ?S x < ?D" by (rule level_less_card [OF R(1) within]) simp
    ultimately show "x \<in> ball nxt ?S ?D" using ball_mono [OF less_imp_le] by (metis subsetD)
  qed
  then have "(\<Union>k. ball nxt ?S k) = ball nxt ?S ?D" by blast
  moreover have "V = ball nxt ?S ?D" using t(2) by (intro depth_inv_end) (simp add: V)
  ultimately show ?thesis using t(1,2) by (auto simp: bfs_reach_metrics_def V)
qed

section \<open>What the entry points are\<close>

definition farthest :: "(nat \<times> nat) set \<Rightarrow> nat \<Rightarrow> nat \<Rightarrow> bool" where
  "farthest E u m \<longleftrightarrow> (\<exists>v. (u, v) \<in> E\<^sup>* \<and> distance E u v = m) \<and> (\<forall>v. (u, v) \<in> E\<^sup>* \<longrightarrow> distance E u v \<le> m)"

text \<open>A summary tells the truth of its node.\<close>

definition summary_ok :: "('g, 'x) graph_ops \<Rightarrow> 'g code_graph \<Rightarrow> entrypoint_summary \<Rightarrow> bool" where
  "summary_ok P s x \<longleftrightarrow> es_fan_in x = size (in_ids P s (es_node_id x)) \<and> es_fan_out x = size (out_ids P s (es_node_id x)) \<and>
     farthest (edges_of P s (\<lambda>_. True)) (es_node_id x) (es_max_reach_depth x) \<and>
     es_reach_size x = card ((edges_of P s (\<lambda>_. True))\<^sup>* `` {es_node_id x} - {es_node_id x})"

definition is_entry :: "('g, 'x) graph_ops \<Rightarrow> 'g code_graph \<Rightarrow> nat \<Rightarrow> analysis_entrypoint \<Rightarrow> bool" where
  "is_entry P s u k \<longleftrightarrow> (\<exists>n. get_node P s u = Some n \<and> nd_kind n = AN_Function \<and> classify_function_entrypoint n = Some k)"

lemma ball_rtrancl:
  assumes "traces f R nxt E" and "i \<in> R"
  shows "f ` (\<Union>k. ball nxt {i} k) = E\<^sup>* `` {f i}"
proof -
  have "f ` (\<Union>k. ball nxt {i} k) = (\<Union>k. {w. \<exists>j\<le>k. (f i, w) \<in> E ^^ j})"
    unfolding image_UN using traces_ball(2) [OF assms(1), of "{i}"] assms(2) by simp
  also have "\<dots> = E\<^sup>* `` {f i}" by (auto simp: rtrancl_is_UN_relpow)
  finally show ?thesis .
qed

context stable_graph
begin

lemma reach_of_slot:
  assumes s: "slots_ok P ok s" and i: "i \<in> live s"
  defines "E \<equiv> edges_of P s (\<lambda>_. True)" and "u \<equiv> slot_id P (cg_graph s) i"
  shows "\<exists>m. bfs_reach_metrics (out_neighbours P s) i = Some (m, card (E\<^sup>* `` {u} - {u})) \<and> farthest E u m"
proof -
  let ?nxt = "out_neighbours P s" and ?f = "slot_id P (cg_graph s)" and ?V = "\<Union>k. ball (out_neighbours P s) {i} k"
  have trace: "traces ?f (live s) ?nxt E" using follows_out [OF s] by (simp add: follows_def E_def)
  note V = ball_rtrancl [OF trace i]
  have sub: "?V \<subseteq> live s" using traces_ball(1) [OF trace, of "{i}"] i by blast
  obtain m where m: "bfs_reach_metrics ?nxt i = Some (m, card ?V - 1)" "deepest ?nxt {i} ?V m"
    using bfs_reach_metrics_exact [where nxt = ?nxt, OF live_finite [OF s] i tracesD(2) [OF trace]] by blast
  have "card (?f ` ?V) = card ?V" using inj_on_subset [OF tracesD(1) [OF trace] sub] by (rule card_image)
  moreover have "u \<in> E\<^sup>* `` {u}" by blast
  moreover have "finite (E\<^sup>* `` {u})" using finite_imageI [OF finite_subset [OF sub live_finite [OF s]], of ?f] V by (simp add: u_def)
  ultimately have "card ?V - 1 = card (E\<^sup>* `` {u} - {u})" unfolding V u_def by simp
  moreover have "farthest E u m"
  proof -
    have level: "level ?nxt {i} j = distance E u (?f j)" if "j \<in> ?V" for j
      unfolding u_def by (rule level_distance [OF trace i]) (use that sub in blast)
    have mem: "(u, v) \<in> E\<^sup>* \<longleftrightarrow> v \<in> ?f ` ?V" for v unfolding V by (simp add: u_def)
    show ?thesis using m(2) level unfolding farthest_def deepest_def mem by auto
  qed
  ultimately show ?thesis using m(1) by auto
qed

lemma entry_summary_ok:
  assumes s: "slots_ok P ok s" and i: "pg_weight P (cg_graph s) i = Some n"
  shows "\<exists>x. entry_summary P s (i, nd_id n, k) = Some x \<and> es_node_id x = nd_id n \<and> es_kind x = k \<and> summary_ok P s x"
proof -
  have live: "i \<in> live s" "slot_id P (cg_graph s) i = nd_id n" using i by (auto simp: slot_id_def)
  note resolved = resolve_slot_id [OF s live(1), unfolded live(2)]
  have sizes: "size (in_ids P s (nd_id n)) = length (pg_in P (cg_graph s) i)" "size (out_ids P s (nd_id n)) = length (pg_out P (cg_graph s) i)"
    by (simp_all add: in_ids_def out_ids_def resolved)
  show ?thesis using reach_of_slot [OF s live(1)] unfolding live(2) by (auto simp: entry_summary_def summary_ok_def sizes)
qed

lemma candidates:
  assumes s: "slots_ok P ok s"
  defines "cs \<equiv> List.map_filter (entry_candidate P s) (pg_indices P (cg_graph s))"
  shows "(i, u, k) \<in> set cs \<longleftrightarrow> (\<exists>n. pg_weight P (cg_graph s) i = Some n \<and> nd_id n = u \<and> nd_kind n = AN_Function \<and> classify_function_entrypoint n = Some k)"
    "distinct (map (fst \<circ> snd) cs)"
proof -
  have live: "distinct (pg_indices P (cg_graph s))" "set (pg_indices P (cg_graph s)) = live s" using live [OF slots_okD(1) [OF s]] by simp_all
  show "(i, u, k) \<in> set cs \<longleftrightarrow> (\<exists>n. pg_weight P (cg_graph s) i = Some n \<and> nd_id n = u \<and> nd_kind n = AN_Function \<and> classify_function_entrypoint n = Some k)"
    unfolding cs_def List.map_filter_def using live(2)
    by (force simp: entry_candidate_def bind_eq_Some_conv image_iff split: if_splits)
  have "map (fst \<circ> snd) cs = map (slot_id P (cg_graph s)) (filter (\<lambda>i. entry_candidate P s i \<noteq> None) (pg_indices P (cg_graph s)))"
    unfolding cs_def List.map_filter_def
    by (auto simp: entry_candidate_def slot_id_def bind_eq_Some_conv comp_def split: if_splits)
  moreover have "inj_on (slot_id P (cg_graph s)) (live s)" by (rule inj_onI) (rule slot_id_inj [OF s])
  then have "distinct (map (slot_id P (cg_graph s)) (filter (\<lambda>i. entry_candidate P s i \<noteq> None) (pg_indices P (cg_graph s))))"
    using live by (auto simp: distinct_map intro: inj_on_subset)
  ultimately show "distinct (map (fst \<circ> snd) cs)" by simp
qed

lemma classify_entrypoints_promise:
  assumes s: "slots_ok P ok s"
  shows "\<exists>es. classify_entrypoints P s = Some es \<and> sorted_wrt (<) (map es_node_id es) \<and> list_all (summary_ok P s) es \<and>
    (\<forall>u k. (\<exists>x\<in>set es. es_node_id x = u \<and> es_kind x = k) \<longleftrightarrow> is_entry P s u k)"
proof -
  let ?cs = "List.map_filter (entry_candidate P s) (pg_indices P (cg_graph s))"
  note cs = candidates [OF s]
  have "\<forall>c\<in>set ?cs. \<exists>x. entry_summary P s c = Some x \<and> es_node_id x = fst (snd c) \<and> es_kind x = snd (snd c) \<and> summary_ok P s x"
    using cs(1) entry_summary_ok [OF s] by fastforce
  then obtain f where f: "\<forall>c\<in>set ?cs. entry_summary P s c = Some (f c) \<and> es_node_id (f c) = fst (snd c) \<and> es_kind (f c) = snd (snd c) \<and> summary_ok P s (f c)"
    by metis
  then have "map (entry_summary P s) ?cs = map Some (map f ?cs)" by simp
  then have result: "classify_entrypoints P s = Some (sort_key es_node_id (map f ?cs))"
    unfolding classify_entrypoints_def by (simp only: those_map_Some option.map)
  have ids: "map es_node_id (map f ?cs) = map (fst \<circ> snd) ?cs" using f by simp
  have "distinct (map es_node_id (sort_key es_node_id (map f ?cs)))"
    using cs(2) unfolding ids [symmetric] by (metis mset_eq_imp_distinct_iff mset_map mset_sort)
  then have "sorted_wrt (<) (map es_node_id (sort_key es_node_id (map f ?cs)))"
    using sorted_sort_key [of es_node_id "map f ?cs"] by (simp add: strict_sorted_iff)
  moreover have "list_all (summary_ok P s) (sort_key es_node_id (map f ?cs))" using f by (simp add: list_all_iff)
  moreover have "(\<exists>x\<in>set (sort_key es_node_id (map f ?cs)). es_node_id x = u \<and> es_kind x = k) \<longleftrightarrow> is_entry P s u k" for u k
  proof -
    have "(\<exists>x\<in>set (sort_key es_node_id (map f ?cs)). es_node_id x = u \<and> es_kind x = k) \<longleftrightarrow> (\<exists>i. (i, u, k) \<in> set ?cs)"
      using f by force
    then show ?thesis unfolding cs(1) is_entry_def get_node_iff [OF s] by blast
  qed
  ultimately show ?thesis using result by blast
qed

end

end
