(* ===== verification/Analysis_Properties.thy ===== *)
theory Analysis_Properties
  imports Trait_Analyses Entry_Points Code_Graph_Properties
begin

text \<open>
  Properties of the analyses of traits, types and entry points on every code graph its operations can build, with
  any library graph that keeps the laws.
\<close>

text \<open>C37. The analyses of traits and types are exact: the hierarchies are those of the traits and of everything
  that is implemented, each once in the order of identifiers, with their implementors; the dispatched calls are
  the calls of functions that a trait contains, with such a trait; and the clusters hold, for a type each, the
  functions that use it most, the larger clusters first.\<close>

theorem trait_analyses_exact:
  assumes "stable_graph P ok" and "run_graph P ops (code_graph_new P) = Some (answers, s)"
  defines "implements \<equiv> edges_of P s (\<lambda>e. ed_kind e = AE_Implements)"
    and "called \<equiv> edges_of P s (\<lambda>e. ed_kind e = AE_Calls)" and "contains \<equiv> edges_of P s (\<lambda>e. ed_kind e = AE_Contains)"
  shows "sorted_wrt (<) (map th_trait_id (trait_hierarchies P s)) \<and>
    th_trait_id ` set (trait_hierarchies P s) = of_kind P s {AN_Trait} \<union> Range implements \<and>
    (\<forall>h\<in>set (trait_hierarchies P s). th_direct_impls h = {u. (u, th_trait_id h) \<in> implements}) \<and>
    (\<forall>d\<in>set (trait_dispatch_calls P s). (td_caller d, td_callee d) \<in> called \<and>
       (td_trait_id d, td_callee d) \<in> contains \<and> td_trait_id d \<in> of_kind P s {AN_Trait}) \<and>
    (\<forall>(u, v)\<in>called. (\<exists>t. (t, v) \<in> contains \<and> t \<in> of_kind P s {AN_Trait}) \<longrightarrow>
       (\<exists>d\<in>set (trait_dispatch_calls P s). td_caller d = u \<and> td_callee d = v)) \<and>
    sorted (map (\<lambda>c. - int (card (tcl_functions c))) (cluster_by_primary_type P s)) \<and>
    distinct (map tcl_primary_type (cluster_by_primary_type P s)) \<and>
    (\<forall>c\<in>set (cluster_by_primary_type P s). tcl_functions c \<noteq> {} \<and>
       tcl_functions c = {f \<in> of_kind P s {AN_Function}. mostly_uses P s f (tcl_primary_type c)}) \<and>
    (\<forall>f\<in>of_kind P s {AN_Function}. \<forall>t. mostly_uses P s f t \<longrightarrow> t \<in> tcl_primary_type ` set (cluster_by_primary_type P s))"
proof -
  note s = stable_graph.graph_okD(1) [OF assms(1) stable_graph.run_ok [OF assms(1,2)]]
  note T = stable_graph.trait_hierarchies_promise [OF assms(1) s] and D = stable_graph.trait_dispatch_promise [OF assms(1) s]
    and C = stable_graph.clusters_promise [OF assms(1) s]
  show ?thesis unfolding implements_def called_def contains_def
    by (intro conjI ballI allI impI T C(1,2) C(3) [THEN conjunct1] C(3) [THEN conjunct2] C(4) D(1) [THEN conjunct1]
        D(1) [THEN conjunct2, THEN conjunct1] D(1) [THEN conjunct2, THEN conjunct2]) (use D(2) in blast)+
qed


section \<open>Examples\<close>

theorem trait_analyses_exact_witness:
  "sorted_wrt (<) (map th_trait_id (trait_hierarchies list_graph_ops sample_graph)) \<and>
   distinct (map tcl_primary_type (cluster_by_primary_type list_graph_ops sample_graph))"
  using trait_analyses_exact [OF list_graph.stable_graph_axioms sample_run] by blast


end
