(* ===== verification/Dominators.thy ===== *)
theory Dominators
  imports Stack_Search Prelude
begin

text \<open>
  Dominators (\<^verbatim>\<open>dominators.rs\<close>): the map of immediate dominators made from what the library's algorithm
  returns, the chain of dominators of a node, and the test whether one node dominates another. The algorithm,
  \<^verbatim>\<open>petgraph::algo::dominators::simple_fast\<close>, is a parameter: it takes the neighbours of a node and the entry,
  and returns the immediate dominator of a node and the nodes a node dominates immediately.
\<close>

section \<open>The map of immediate dominators\<close>

record 'a simple_fast =
  sf_immediate_dominator :: "'a \<Rightarrow> 'a option"
  sf_immediately_dominated_by :: "'a \<Rightarrow> 'a list"

record 'a dominators =
  dm_idom :: "('a, 'a) hash_map"
  dm_root :: 'a

text \<open>The frontier has its last element first.\<close>

definition build_pass :: "'a simple_fast \<Rightarrow> 'a list \<times> ('a, 'a) hash_map \<Rightarrow> 'a list \<times> ('a, 'a) hash_map" where
  "build_pass pg st = (case fst st of
     [] \<Rightarrow> st
   | n # frontier \<Rightarrow>
       (rev (sf_immediately_dominated_by pg n) @ frontier,
        case sf_immediate_dominator pg n of Some parent \<Rightarrow> hm_insert n parent (snd st) | None \<Rightarrow> snd st))"

definition dominators_build :: "(('a \<Rightarrow> 'a list) \<Rightarrow> 'a \<Rightarrow> 'a simple_fast) \<Rightarrow> ('a \<Rightarrow> 'a list) \<Rightarrow> 'a \<Rightarrow> 'a dominators option" where
  "dominators_build algorithm nbrs entry =
     (let pg = algorithm nbrs entry in
      map_option (\<lambda>st. \<lparr>dm_idom = snd st, dm_root = entry\<rparr>)
        (while_option (\<lambda>st. fst st \<noteq> []) (build_pass pg) (rev (sf_immediately_dominated_by pg entry), [])))"

definition immediate_dominator :: "'a dominators \<Rightarrow> 'a \<Rightarrow> 'a option" where
  "immediate_dominator dm node = map_of (dm_idom dm) node"

section \<open>Chains\<close>

definition chain_pass :: "'a dominators \<Rightarrow> 'a list \<times> 'a option \<Rightarrow> 'a list \<times> 'a option" where
  "chain_pass dm st = (case snd st of
     None \<Rightarrow> st
   | Some n \<Rightarrow> (fst st @ [n], if n = dm_root dm then None else map_of (dm_idom dm) n))"

definition dominators_chain :: "'a dominators \<Rightarrow> 'a \<Rightarrow> 'a list option" where
  "dominators_chain dm node = map_option fst
     (while_option (\<lambda>st. snd st \<noteq> None) (chain_pass dm) ([], map_of (dm_idom dm) node))"

definition dominates_pass :: "'a dominators \<Rightarrow> 'a \<Rightarrow> bool \<times> 'a option \<Rightarrow> bool \<times> 'a option" where
  "dominates_pass dm a st = (case snd st of
     None \<Rightarrow> st
   | Some n \<Rightarrow> if n = a then (True, None) else if n = dm_root dm then (False, None) else (False, map_of (dm_idom dm) n))"

definition dominates :: "'a dominators \<Rightarrow> 'a \<Rightarrow> 'a \<Rightarrow> bool option" where
  "dominates dm a b = (if a = b then Some True else map_option fst
     (while_option (\<lambda>st. snd st \<noteq> None) (dominates_pass dm a) (False, map_of (dm_idom dm) b)))"

text \<open>Post-dominators are the dominators of the graph with its edges reversed, from the exit.\<close>

definition post_dominators_build :: "(('a \<Rightarrow> 'a list) \<Rightarrow> 'a \<Rightarrow> 'a simple_fast) \<Rightarrow> ('a \<Rightarrow> 'a list) \<Rightarrow> 'a \<Rightarrow> 'a dominators option" where
  "post_dominators_build algorithm nbrs_in exit_node = dominators_build algorithm nbrs_in exit_node"

section \<open>Dominance\<close>

text \<open>A node dominates another that is reachable from the root if the other cannot be reached without it.\<close>

definition without :: "('a \<times> 'a) set \<Rightarrow> 'a \<Rightarrow> ('a \<times> 'a) set" where
  "without E d = {(x, y) \<in> E. x \<noteq> d \<and> y \<noteq> d}"

definition dominates_in :: "('a \<times> 'a) set \<Rightarrow> 'a \<Rightarrow> 'a \<Rightarrow> 'a \<Rightarrow> bool" where
  "dominates_in E r d n \<longleftrightarrow> (r, n) \<in> E\<^sup>* \<and> \<not> (r \<noteq> d \<and> n \<noteq> d \<and> (r, n) \<in> (without E d)\<^sup>*)"

definition strictly :: "('a \<times> 'a) set \<Rightarrow> 'a \<Rightarrow> 'a \<Rightarrow> 'a \<Rightarrow> bool" where
  "strictly E r d n \<longleftrightarrow> dominates_in E r d n \<and> d \<noteq> n"

lemma without_or:
  assumes "(r, n) \<in> R\<^sup>*"
  shows "(r, d) \<in> R\<^sup>* \<or> r \<noteq> d \<and> n \<noteq> d \<and> (r, n) \<in> (without R d)\<^sup>*"
  using assms
proof (induction rule: rtrancl_induct)
  case (step y z)
  show ?case
  proof (cases "(r, d) \<in> R\<^sup>*")
    case False
    then have y: "r \<noteq> d" "y \<noteq> d" "(r, y) \<in> (without R d)\<^sup>*" using step.IH by auto
    have "z \<noteq> d" using False step.hyps by (metis rtrancl.rtrancl_into_rtrancl)
    with y step.hyps(2) have "(y, z) \<in> without R d" by (simp add: without_def)
    with y \<open>z \<noteq> d\<close> show ?thesis by (meson rtrancl.rtrancl_into_rtrancl)
  qed simp
qed auto

lemma without_mono: "R \<subseteq> E \<Longrightarrow> (without R d)\<^sup>* \<subseteq> (without E d)\<^sup>*"
  by (rule rtrancl_mono) (auto simp: without_def)

lemma without_sub: "without E d \<subseteq> E"
  by (auto simp: without_def)

lemma dominator_reachable: "dominates_in E r d n \<Longrightarrow> (r, d) \<in> E\<^sup>*"
  using without_or [of r n E d] by (auto simp: dominates_in_def)

lemma dominates_trans:
  assumes "dominates_in E r c d" and "dominates_in E r d n"
  shows "dominates_in E r c n"
proof (rule ccontr)
  assume "\<not> dominates_in E r c n"
  then have c: "r \<noteq> c" "n \<noteq> c" "(r, n) \<in> (without E c)\<^sup>*" using assms(2) by (auto simp: dominates_in_def)
  from without_or [OF c(3), of d] show False
  proof
    assume "(r, d) \<in> (without E c)\<^sup>*"
    then have "d = c" using assms(1) c(1) by (auto simp: dominates_in_def)
    with assms(2) c show False by (simp add: dominates_in_def)
  next
    assume "r \<noteq> d \<and> n \<noteq> d \<and> (r, n) \<in> (without (without E c) d)\<^sup>*"
    then show False using assms(2) without_mono [OF without_sub, of E c d] by (auto simp: dominates_in_def)
  qed
qed

lemma first_visit:
  assumes "(r, n) \<in> E\<^sup>*" and "r \<noteq> c"
  shows "n \<noteq> c \<and> (r, n) \<in> (without E c)\<^sup>* \<or> (\<exists>y. y \<noteq> c \<and> (r, y) \<in> (without E c)\<^sup>* \<and> (y, c) \<in> E)"
  using assms(1)
proof (induction rule: rtrancl_induct)
  case (step y z)
  then show ?case
  proof (cases "y \<noteq> c \<and> (r, y) \<in> (without E c)\<^sup>*")
    case True
    show ?thesis
    proof (cases "z = c")
      case False
      with True step.hyps(2) have "(y, z) \<in> without E c" by (simp add: without_def)
      with True False show ?thesis by (meson rtrancl.rtrancl_into_rtrancl)
    qed (use True step.hyps(2) in blast)
  qed blast
qed (simp add: assms(2))

lemma dominates_antisym:
  assumes "dominates_in E r c d" and "dominates_in E r d c"
  shows "c = d"
proof (rule ccontr)
  assume "c \<noteq> d"
  show False
  proof (cases "r = c")
    case True
    with assms(2) \<open>c \<noteq> d\<close> show False by (simp add: dominates_in_def)
  next
    case False
    have "(r, c) \<in> E\<^sup>*" using assms(2) by (simp add: dominates_in_def)
    from first_visit [OF this False] obtain y where y: "y \<noteq> c" "(r, y) \<in> (without E c)\<^sup>*" "(y, c) \<in> E" by blast
    from without_or [OF y(2), of d] show False
    proof
      assume "(r, d) \<in> (without E c)\<^sup>*"
      with assms(1) False \<open>c \<noteq> d\<close> show False by (auto simp: dominates_in_def)
    next
      assume "r \<noteq> d \<and> y \<noteq> d \<and> (r, y) \<in> (without (without E c) d)\<^sup>*"
      then have d: "r \<noteq> d" "y \<noteq> d" "(r, y) \<in> (without E d)\<^sup>*" using without_mono [OF without_sub, of E c d] by auto
      have "(y, c) \<in> without E d" using y(3) d(2) \<open>c \<noteq> d\<close> by (simp add: without_def)
      then have "(r, c) \<in> (without E d)\<^sup>*" using d(3) by (meson rtrancl.rtrancl_into_rtrancl)
      with assms(2) d(1) \<open>c \<noteq> d\<close> show False by (simp add: dominates_in_def)
    qed
  qed
qed

lemma strictly_trans: "strictly E r c d \<Longrightarrow> strictly E r d n \<Longrightarrow> strictly E r c n"
  using dominates_trans [of E r c d n] dominates_antisym [of E r c d] by (auto simp: strictly_def)

lemma root_dominated_by_none: "\<not> strictly E r d r"
  by (auto simp: strictly_def dominates_in_def)

section \<open>What the algorithm promises\<close>

text \<open>Every node that can be reached, but the root, has an immediate dominator, the closest of its strict
  dominators, and the nodes below a node are those it dominates immediately.\<close>

definition immediate :: "('a \<times> 'a) set \<Rightarrow> 'a \<Rightarrow> ('a \<Rightarrow> 'a option) \<Rightarrow> bool" where
  "immediate E r idom \<longleftrightarrow> (\<forall>n. idom n \<noteq> None \<longleftrightarrow> (r, n) \<in> E\<^sup>* \<and> n \<noteq> r) \<and>
     (\<forall>n d. idom n = Some d \<longrightarrow> strictly E r d n \<and> (\<forall>c. strictly E r c n \<longrightarrow> dominates_in E r c d))"

definition simple_fast_ok :: "('a \<times> 'a) set \<Rightarrow> 'a \<Rightarrow> 'a simple_fast \<Rightarrow> bool" where
  "simple_fast_ok E r pg \<longleftrightarrow> immediate E r (sf_immediate_dominator pg) \<and>
     (\<forall>d. distinct (sf_immediately_dominated_by pg d) \<and>
        set (sf_immediately_dominated_by pg d) = {n. sf_immediate_dominator pg n = Some d})"

lemma immediateD:
  assumes "immediate E r idom"
  shows "idom n \<noteq> None \<longleftrightarrow> (r, n) \<in> E\<^sup>* \<and> n \<noteq> r" "idom n = Some d \<Longrightarrow> strictly E r d n"
    "idom n = Some d \<Longrightarrow> strictly E r c n \<Longrightarrow> dominates_in E r c d"
proof -
  note imm = assms [unfolded immediate_def]
  show "idom n \<noteq> None \<longleftrightarrow> (r, n) \<in> E\<^sup>* \<and> n \<noteq> r" by (rule imm [THEN conjunct1, THEN spec])
  assume d: "idom n = Some d"
  note both = imm [THEN conjunct2, THEN spec, THEN spec, THEN mp, OF d]
  show "strictly E r d n" by (rule both [THEN conjunct1])
  show "strictly E r c n \<Longrightarrow> dominates_in E r c d" by (rule both [THEN conjunct2, THEN spec, THEN mp])
qed

lemma simple_fast_okD:
  assumes "simple_fast_ok E r pg"
  shows "sf_immediate_dominator pg n \<noteq> None \<longleftrightarrow> (r, n) \<in> E\<^sup>* \<and> n \<noteq> r"
    "sf_immediate_dominator pg n = Some d \<Longrightarrow> strictly E r d n"
    "distinct (sf_immediately_dominated_by pg d)"
    "set (sf_immediately_dominated_by pg d) = {n. sf_immediate_dominator pg n = Some d}"
  using assms immediateD [of E r "sf_immediate_dominator pg"] by (simp_all add: simple_fast_ok_def)

definition over :: "('a \<times> 'a) set \<Rightarrow> 'a \<Rightarrow> 'a \<Rightarrow> nat" where
  "over E r n = card {c. strictly E r c n}"

lemma strictly_finite: "finite {x. (r, x) \<in> E\<^sup>*} \<Longrightarrow> finite {c. strictly E r c n}"
  by (rule finite_subset [of _ "{x. (r, x) \<in> E\<^sup>*}"]) (auto simp: strictly_def dest: dominator_reachable)

lemma over_less:
  assumes "finite {x. (r, x) \<in> E\<^sup>*}" and "strictly E r d n"
  shows "over E r d < over E r n"
  unfolding over_def
proof (rule psubset_card_mono [OF strictly_finite [OF assms(1)]])
  show "{c. strictly E r c d} \<subset> {c. strictly E r c n}"
  proof (rule psubsetI)
    show "{c. strictly E r c d} \<subseteq> {c. strictly E r c n}"
    proof
      fix c assume "c \<in> {c. strictly E r c d}"
      then have "strictly E r c n" using strictly_trans [of E r c d n] assms(2) by simp
      then show "c \<in> {c. strictly E r c n}" by simp
    qed
    have "d \<notin> {c. strictly E r c d}" by (simp add: strictly_def)
    moreover have "d \<in> {c. strictly E r c n}" using assms(2) by simp
    ultimately show "{c. strictly E r c d} \<noteq> {c. strictly E r c n}" by metis
  qed
qed

lemma strictly_step:
  assumes "immediate E r idom" and "idom n = Some d"
  shows "{c. strictly E r c n} = insert d {c. strictly E r c d}"
proof -
  note d = immediateD(2,3) [where idom = idom, OF assms]
  have "strictly E r c n \<longleftrightarrow> c = d \<or> strictly E r c d" for c
  proof
    assume "strictly E r c n"
    from d(2) [OF this] show "c = d \<or> strictly E r c d" by (simp add: strictly_def)
  next
    assume "c = d \<or> strictly E r c d"
    then show "strictly E r c n" using d(1) strictly_trans [OF _ d(1)] by (elim disjE) simp_all
  qed
  then show ?thesis by (intro set_eqI) (simp only: mem_Collect_eq insert_iff)
qed

section \<open>The map is complete\<close>

definition build_inv :: "'a simple_fast \<Rightarrow> 'a \<Rightarrow> 'a list \<times> ('a, 'a) hash_map \<Rightarrow> bool" where
  "build_inv pg r st \<longleftrightarrow> (let P = dom (map_of (snd st)) in
     distinct (fst st) \<and> set (fst st) \<inter> P = {} \<and> (\<forall>n\<in>P. map_of (snd st) n = sf_immediate_dominator pg n) \<and>
     set (fst st) \<union> P = {n. \<exists>d. sf_immediate_dominator pg n = Some d \<and> (d = r \<or> d \<in> P)})"

lemma build_pass_inv:
  assumes pg: "simple_fast_ok E r pg" and inv: "build_inv pg r (n # frontier, m)"
  shows "build_inv pg r (build_pass pg (n # frontier, m))" "\<exists>p. sf_immediate_dominator pg n = Some p"
    "dom (map_of (snd (build_pass pg (n # frontier, m)))) = insert n (dom (map_of m))" "n \<notin> dom (map_of m)"
proof -
  let ?P = "dom (map_of m)"
  have I: "distinct (n # frontier)" "set (n # frontier) \<inter> ?P = {}" "\<And>x. x \<in> ?P \<Longrightarrow> map_of m x = sf_immediate_dominator pg x"
    "set (n # frontier) \<union> ?P = {n. \<exists>d. sf_immediate_dominator pg n = Some d \<and> (d = r \<or> d \<in> ?P)}"
    using inv by (simp_all add: build_inv_def Let_def)
  from I(4) obtain p where p: "sf_immediate_dominator pg n = Some p" by auto
  then show "\<exists>p. sf_immediate_dominator pg n = Some p" by blast
  have n: "n \<noteq> r" "n \<notin> ?P" "n \<notin> set frontier" using simple_fast_okD(1) [OF pg, of n] p I(1,2) by auto
  then show "n \<notin> dom (map_of m)" by blast
  have get: "map_of (hm_insert n p m) = (map_of m)(n \<mapsto> p)" by (rule hm_get_insert)
  then show "dom (map_of (snd (build_pass pg (n # frontier, m)))) = insert n ?P" by (simp add: build_pass_def p)
  let ?new = "{x. sf_immediate_dominator pg x = Some n}"
  have "n \<notin> ?new" using simple_fast_okD(2) [OF pg, of n n] by (auto simp: strictly_def)
  moreover have "?new \<inter> (set (n # frontier) \<union> ?P) = {}" unfolding I(4) using n by auto
  moreover have "set (rev (sf_immediately_dominated_by pg n) @ frontier) \<union> insert n ?P =
      {x. \<exists>d. sf_immediate_dominator pg x = Some d \<and> (d = r \<or> d \<in> insert n ?P)}"
  proof -
    have "{x. \<exists>d. sf_immediate_dominator pg x = Some d \<and> (d = r \<or> d \<in> insert n ?P)} = (set (n # frontier) \<union> ?P) \<union> ?new"
      unfolding I(4) by blast
    then show ?thesis by (auto simp: simple_fast_okD(4) [OF pg])
  qed
  ultimately show "build_inv pg r (build_pass pg (n # frontier, m))"
    using I simple_fast_okD(3,4) [OF pg, of n] by (auto simp: build_inv_def build_pass_def Let_def p get)
qed

lemma build_complete:
  assumes pg: "simple_fast_ok E r pg" and fin: "finite {x. (r, x) \<in> E\<^sup>*}"
    and inv: "build_inv pg r ([], m)"
  shows "map_of m n = sf_immediate_dominator pg n"
proof -
  have I: "\<And>x. x \<in> dom (map_of m) \<Longrightarrow> map_of m x = sf_immediate_dominator pg x"
    "dom (map_of m) = {n. \<exists>d. sf_immediate_dominator pg n = Some d \<and> (d = r \<or> d \<in> dom (map_of m))}"
    using inv by (simp_all add: build_inv_def Let_def)
  have "n \<in> dom (map_of m)" if "sf_immediate_dominator pg n \<noteq> None" for n
    using that
  proof (induction "over E r n" arbitrary: n rule: less_induct)
    case less
    then obtain d where d: "sf_immediate_dominator pg n = Some d" by blast
    note s = simple_fast_okD(2) [OF pg d]
    have "d = r \<or> d \<in> dom (map_of m)"
    proof (cases "d = r")
      case False
      then have "sf_immediate_dominator pg d \<noteq> None"
        using simple_fast_okD(1) [OF pg, of d] dominator_reachable [OF s [unfolded strictly_def, THEN conjunct1]] by blast
      then show ?thesis using less.hyps [OF over_less [OF fin s]] by blast
    qed simp
    then show ?case using d I(2) by blast
  qed
  then show ?thesis using I(1) [of n] by (metis domIff)
qed

definition idoms_ok :: "('a \<times> 'a) set \<Rightarrow> 'a \<Rightarrow> 'a dominators \<Rightarrow> bool" where
  "idoms_ok E r dm \<longleftrightarrow> dm_root dm = r \<and> finite {x. (r, x) \<in> E\<^sup>*} \<and>
     immediate E r (map_of (dm_idom dm))"

lemma dominators_build_total:
  assumes pg: "simple_fast_ok E r (algorithm nbrs r)" and fin: "finite {x. (r, x) \<in> E\<^sup>*}"
  shows "\<exists>dm. dominators_build algorithm nbrs r = Some dm \<and> idoms_ok E r dm"
proof -
  let ?pg = "algorithm nbrs r"
  let ?N = "{x. (r, x) \<in> E\<^sup>*}"
  have start: "build_inv ?pg r (rev (sf_immediately_dominated_by ?pg r), [])"
    using simple_fast_okD(3,4) [OF pg, of r] by (auto simp: build_inv_def)
  have "build_inv ?pg r (build_pass ?pg st) \<and> card (?N - dom (map_of (snd (build_pass ?pg st)))) < card (?N - dom (map_of (snd st)))"
    if inv: "build_inv ?pg r st" and more: "fst st \<noteq> []" for st
  proof -
    obtain n q m where st: "st = (n # q, m)" using more by (cases st; cases "fst st") auto
    note step = build_pass_inv [OF pg inv [unfolded st]]
    have "n \<in> ?N" using step(2) simple_fast_okD(1) [OF pg, of n] by auto
    then have "?N - insert n (dom (map_of m)) \<subset> ?N - dom (map_of m)" using step(4) by auto
    then have "card (?N - insert n (dom (map_of m))) < card (?N - dom (map_of m))" by (rule psubset_card_mono [OF finite_Diff [OF fin]])
    then show ?thesis using step(1,3) by (simp add: st)
  qed
  from while_option_total [where b = "\<lambda>st. fst st \<noteq> []", OF start this] obtain t where
    t: "while_option (\<lambda>st. fst st \<noteq> []) (build_pass ?pg) (rev (sf_immediately_dominated_by ?pg r), []) = Some t" "build_inv ?pg r t" "fst t = []"
    by blast
  then have "build_inv ?pg r ([], snd t)" by (cases t) simp
  from build_complete [OF pg fin this] have "map_of (snd t) = sf_immediate_dominator ?pg" by (rule ext)
  then show ?thesis using t(1) pg fin by (simp add: dominators_build_def idoms_ok_def simple_fast_ok_def)
qed

section \<open>Chains list the strict dominators\<close>

lemma idoms_okD:
  assumes "idoms_ok E r dm"
  shows "dm_root dm = r" "finite {x. (r, x) \<in> E\<^sup>*}"
    "map_of (dm_idom dm) n = None \<longleftrightarrow> \<not> ((r, n) \<in> E\<^sup>* \<and> n \<noteq> r)"
    "map_of (dm_idom dm) n = Some d \<Longrightarrow> strictly E r d n"
    "map_of (dm_idom dm) n = Some d \<Longrightarrow> {c. strictly E r c n} = insert d {c. strictly E r c d}"
proof -
  have dm: "immediate E r (map_of (dm_idom dm))" "dm_root dm = r" "finite {x. (r, x) \<in> E\<^sup>*}" using assms by (auto simp: idoms_ok_def)
  then show "dm_root dm = r" "finite {x. (r, x) \<in> E\<^sup>*}" by simp_all
  show "map_of (dm_idom dm) n = None \<longleftrightarrow> \<not> ((r, n) \<in> E\<^sup>* \<and> n \<noteq> r)" using immediateD(1) [OF dm(1), of n] by blast
  show "map_of (dm_idom dm) n = Some d \<Longrightarrow> strictly E r d n" by (rule immediateD(2) [OF dm(1)])
  show "map_of (dm_idom dm) n = Some d \<Longrightarrow> {c. strictly E r c n} = insert d {c. strictly E r c d}"
    by (rule strictly_step [OF dm(1)])
qed

lemma no_idom:
  assumes "idoms_ok E r dm" and "map_of (dm_idom dm) n = None"
  shows "{c. strictly E r c n} = {}"
  using idoms_okD(3) [OF assms(1), of n] assms(2) root_dominated_by_none [of E r]
  by (auto simp: strictly_def dominates_in_def)

lemma root_ends: "idoms_ok E r dm \<Longrightarrow> (if n = dm_root dm then None else map_of (dm_idom dm) n) = map_of (dm_idom dm) n"
  using idoms_okD(1) [of E r dm] idoms_okD(3) [of E r dm n] by auto

lemma chain_loop:
  assumes ok: "idoms_ok E r dm"
  shows "\<exists>ch. while_option (\<lambda>st. snd st \<noteq> None) (chain_pass dm) (acc, map_of (dm_idom dm) n) = Some (acc @ ch, None) \<and>
    set ch = {c. strictly E r c n} \<and> sorted_wrt (\<lambda>a b. strictly E r b a) ch"
proof (induction "over E r n" arbitrary: n acc rule: less_induct)
  case less
  show ?case
  proof (cases "map_of (dm_idom dm) n")
    case None
    then show ?thesis using no_idom [OF ok None] by (simp add: while_option_unfold)
  next
    case (Some d)
    note s = idoms_okD(4) [OF ok Some]
    obtain ch where ch: "while_option (\<lambda>st. snd st \<noteq> None) (chain_pass dm) (acc @ [d], map_of (dm_idom dm) d) = Some ((acc @ [d]) @ ch, None)"
      "set ch = {c. strictly E r c d}" "sorted_wrt (\<lambda>a b. strictly E r b a) ch"
      using less [OF over_less [OF idoms_okD(2) [OF ok] s]] by blast
    have "chain_pass dm (acc, Some d) = (acc @ [d], map_of (dm_idom dm) d)" by (simp add: chain_pass_def root_ends [OF ok])
    then have "while_option (\<lambda>st. snd st \<noteq> None) (chain_pass dm) (acc, Some d) = Some (acc @ d # ch, None)"
      using ch(1) by (subst while_option_unfold) simp
    then show ?thesis using ch(2,3) idoms_okD(5) [OF ok Some] Some by (intro exI [of _ "d # ch"]) auto
  qed
qed

lemma dominators_chain_exact:
  assumes "idoms_ok E r dm"
  shows "\<exists>ch. dominators_chain dm n = Some ch \<and> set ch = {c. strictly E r c n} \<and> sorted_wrt (\<lambda>a b. strictly E r b a) ch"
  using chain_loop [OF assms, of "[]" n] by (auto simp: dominators_chain_def)

lemma dominates_loop:
  assumes ok: "idoms_ok E r dm"
  shows "while_option (\<lambda>st. snd st \<noteq> None) (dominates_pass dm a) (False, map_of (dm_idom dm) n) = Some (strictly E r a n, None)"
proof (induction "over E r n" arbitrary: n rule: less_induct)
  case less
  show ?case
  proof (cases "map_of (dm_idom dm) n")
    case None
    then show ?thesis using no_idom [OF ok None] by (auto simp: while_option_unfold)
  next
    case (Some d)
    note s = idoms_okD(4) [OF ok Some]
    show ?thesis
    proof (cases "d = a")
      case True
      then have "dominates_pass dm a (False, Some d) = (True, None)" by (simp add: dominates_pass_def)
      then show ?thesis unfolding Some using s True by (subst while_option_unfold) (simp add: while_option_unfold)
    next
      case False
      then have "dominates_pass dm a (False, Some d) = (False, map_of (dm_idom dm) d)"
        using root_ends [OF ok, of d] by (auto simp: dominates_pass_def split: if_splits)
      moreover have "strictly E r a n \<longleftrightarrow> strictly E r a d" using idoms_okD(5) [OF ok Some] False by auto
      ultimately show ?thesis using less [OF over_less [OF idoms_okD(2) [OF ok] s]] unfolding Some
        by (subst while_option_unfold) simp
    qed
  qed
qed

lemma dominates_exact:
  assumes "idoms_ok E r dm"
  shows "dominates dm a b = Some (a = b \<or> strictly E r a b)"
  using dominates_loop [OF assms] by (simp add: dominates_def)

end
