(* ===== verification/Dominator_Tree.thy ===== *)
theory Dominator_Tree
  imports Dominators Graph_Traverse
begin

text \<open>
  The dominator tree of the code graph (\<^verbatim>\<open>analysis/algorithms.rs\<close>), keyed by identifiers: made once from what
  the library's algorithm returns for the slots, and asked any number of times.
\<close>

section \<open>The tree\<close>

record dom_tree =
  dt_root :: nat
  dt_idom :: "(nat, nat) hash_map"

definition tree_entry :: "('g, 'x) graph_ops \<Rightarrow> 'g code_graph \<Rightarrow> nat simple_fast \<Rightarrow> nat \<Rightarrow> nat \<Rightarrow> (nat, nat) hash_map \<Rightarrow> (nat, nat) hash_map" where
  "tree_entry P s doms root_idx idx idom = (if idx = root_idx then idom
     else case sf_immediate_dominator doms idx of
       None \<Rightarrow> idom
     | Some dom_idx \<Rightarrow> (case (node_id_for P s idx, node_id_for P s dom_idx) of
           (Some node, Some dominator) \<Rightarrow> hm_insert node dominator idom
         | _ \<Rightarrow> idom))"

definition dominator_tree ::
    "((nat \<Rightarrow> nat list) \<Rightarrow> nat \<Rightarrow> nat simple_fast) \<Rightarrow> ('g, 'x) graph_ops \<Rightarrow> 'g code_graph \<Rightarrow> nat \<Rightarrow> dom_tree option" where
  "dominator_tree algorithm P s root = map_option (\<lambda>root_idx.
     let doms = algorithm (out_neighbours P s) root_idx in
     \<lparr>dt_root = root, dt_idom = fold (tree_entry P s doms root_idx) (pg_indices P (cg_graph s)) []\<rparr>) (resolve s root)"

definition tree_immediate_dominator :: "dom_tree \<Rightarrow> nat \<Rightarrow> nat option" where
  "tree_immediate_dominator t node = map_of (dt_idom t) node"

text \<open>The loops of the chain and of the test; a cursor that is None ends them.\<close>

definition tree_chain_pass :: "dom_tree \<Rightarrow> nat list \<times> nat option \<Rightarrow> nat list \<times> nat option" where
  "tree_chain_pass t st = (case snd st of None \<Rightarrow> st | Some d \<Rightarrow> (fst st @ [d], map_of (dt_idom t) d))"

definition tree_chain :: "dom_tree \<Rightarrow> nat \<Rightarrow> nat list option" where
  "tree_chain t node = map_option fst (while_option (\<lambda>st. snd st \<noteq> None) (tree_chain_pass t) ([], map_of (dt_idom t) node))"

definition tree_dominates_pass :: "dom_tree \<Rightarrow> nat \<Rightarrow> bool \<times> nat option \<Rightarrow> bool \<times> nat option" where
  "tree_dominates_pass t a st = (case snd st of None \<Rightarrow> st | Some d \<Rightarrow> if d = a then (True, None) else (False, map_of (dt_idom t) d))"

definition tree_dominates :: "dom_tree \<Rightarrow> nat \<Rightarrow> nat \<Rightarrow> bool option" where
  "tree_dominates t a b = (if a = b then Some True else map_option fst
     (while_option (\<lambda>st. snd st \<noteq> None) (tree_dominates_pass t a) (False, map_of (dt_idom t) b)))"

text \<open>The inner None is an absent node, the outer one a chain without an end.\<close>

definition dominator_chain ::
    "((nat \<Rightarrow> nat list) \<Rightarrow> nat \<Rightarrow> nat simple_fast) \<Rightarrow> ('g, 'x) graph_ops \<Rightarrow> 'g code_graph \<Rightarrow> nat \<Rightarrow> nat \<Rightarrow> (nat \<times> nat list) option option" where
  "dominator_chain algorithm P s root target = (case resolve s target of
     None \<Rightarrow> Some None
   | Some _ \<Rightarrow> (case dominator_tree algorithm P s root of
       None \<Rightarrow> Some None
     | Some t \<Rightarrow> map_option (\<lambda>ch. Some (target, ch)) (tree_chain t target)))"

section \<open>Dominance under a renaming\<close>

lemma image_rtrancl:
  assumes inj: "inj_on f R" and E: "E \<subseteq> R \<times> R" and x: "x \<in> R"
  shows "(f x, z) \<in> (map_prod f f ` E)\<^sup>* \<longleftrightarrow> (\<exists>y\<in>R. z = f y \<and> (x, y) \<in> E\<^sup>*)"
proof
  assume "(f x, z) \<in> (map_prod f f ` E)\<^sup>*"
  then show "\<exists>y\<in>R. z = f y \<and> (x, y) \<in> E\<^sup>*"
  proof (induction rule: rtrancl_induct)
    case (step u v)
    then obtain y a b where y: "y \<in> R" "u = f y" "(x, y) \<in> E\<^sup>*" "(a, b) \<in> E" "u = f a" "v = f b" by auto
    then have "a = y" using inj E by (auto dest: inj_onD)
    with y E show ?case by (metis SigmaD2 rtrancl.rtrancl_into_rtrancl subsetD)
  qed (use x in auto)
next
  assume "\<exists>y\<in>R. z = f y \<and> (x, y) \<in> E\<^sup>*"
  then obtain y where "z = f y" "(x, y) \<in> E\<^sup>*" by blast
  from this(2) have "(f x, f y) \<in> (map_prod f f ` E)\<^sup>*"
  proof (induction rule: rtrancl_induct)
    case (step u v)
    then show ?case by (meson map_prod_imageI rtrancl.rtrancl_into_rtrancl)
  qed simp
  with \<open>z = f y\<close> show "(f x, z) \<in> (map_prod f f ` E)\<^sup>*" by simp
qed

lemma image_without:
  assumes "inj_on f R" and "E \<subseteq> R \<times> R" and "d \<in> R"
  shows "without (map_prod f f ` E) (f d) = map_prod f f ` without E d"
proof -
  have same: "f x = f d \<longleftrightarrow> x = d" if "x \<in> R" for x using inj_on_eq_iff [OF assms(1) that assms(3)] .
  show ?thesis
  proof (rule set_eqI, rule iffI)
    fix z assume "z \<in> without (map_prod f f ` E) (f d)"
    then obtain x y where e: "z = (f x, f y)" "(x, y) \<in> E" "f x \<noteq> f d" "f y \<noteq> f d" by (auto simp: without_def)
    then have "(x, y) \<in> without E d" by (auto simp: without_def)
    then show "z \<in> map_prod f f ` without E d" by (simp only: e(1) map_prod_imageI)
  next
    fix z assume "z \<in> map_prod f f ` without E d"
    then obtain x y where e: "z = (f x, f y)" "(x, y) \<in> E" "x \<noteq> d" "y \<noteq> d" by (auto simp: without_def)
    moreover have "x \<in> R" "y \<in> R" using e(2) assms(2) by auto
    ultimately show "z \<in> without (map_prod f f ` E) (f d)" using same map_prod_imageI [OF e(2), of f f] by (simp add: without_def)
  qed
qed

lemma image_reach:
  assumes "inj_on f R" and "E \<subseteq> R \<times> R" and "x \<in> R" and "y \<in> R"
  shows "(f x, f y) \<in> (map_prod f f ` E)\<^sup>* \<longleftrightarrow> (x, y) \<in> E\<^sup>*"
  unfolding image_rtrancl [OF assms(1-3)] using assms(1,4) by (auto dest: inj_onD)

lemma image_dominates:
  assumes inj: "inj_on f R" and E: "E \<subseteq> R \<times> R" and "r \<in> R" and "d \<in> R" and "n \<in> R"
  shows "dominates_in (map_prod f f ` E) (f r) (f d) (f n) \<longleftrightarrow> dominates_in E r d n"
proof -
  have "without E d \<subseteq> R \<times> R" using E without_sub by (rule subset_trans [rotated])
  note reach = image_reach [OF inj E assms(3,5)] image_reach [OF inj this assms(3,5)]
  show ?thesis unfolding dominates_in_def image_without [OF inj E assms(4)] reach
    inj_on_eq_iff [OF inj assms(3,4)] inj_on_eq_iff [OF inj assms(5,4)] by (rule refl)
qed

lemma image_strictly:
  assumes "inj_on f R" and "E \<subseteq> R \<times> R" and "r \<in> R" and "d \<in> R" and "n \<in> R"
  shows "strictly (map_prod f f ` E) (f r) (f d) (f n) \<longleftrightarrow> strictly E r d n"
  using image_dominates [OF assms] assms(1,4,5) by (auto simp: strictly_def dest: inj_onD)

lemma strictly_in_image:
  assumes "inj_on f R" and E: "E \<subseteq> R \<times> R" and r: "r \<in> R" and "strictly (map_prod f f ` E) (f r) x z"
  shows "\<exists>d\<in>R. x = f d"
proof -
  have "(f r, x) \<in> (map_prod f f ` E)\<^sup>*" using assms(4) dominator_reachable by (auto simp: strictly_def)
  then show ?thesis unfolding image_rtrancl [OF assms(1-3)] by blast
qed

text \<open>Immediate dominators are renamed with the nodes.\<close>

lemma image_immediate:
  assumes inj: "inj_on f R" and E: "E \<subseteq> R \<times> R" and r: "r \<in> R" and imm: "immediate E r idom"
    and m: "\<And>n. n \<in> R \<Longrightarrow> m (f n) = map_option f (idom n)" "\<And>x. x \<notin> f ` R \<Longrightarrow> m x = None"
  shows "immediate (map_prod f f ` E) (f r) m"
  unfolding immediate_def
proof (intro conjI allI impI iffI)
  let ?E = "map_prod f f ` E"
  have same: "f a = f b \<longleftrightarrow> a = b" if "a \<in> R" "b \<in> R" for a b using inj that by (auto dest: inj_onD)
  have reach: "n \<in> R" if "(r, n) \<in> E\<^sup>*" for n using that by (induction rule: rtrancl_induct) (use r E in auto)
  note I = immediateD [where idom = idom, OF imm]
  fix x
  show "(f r, x) \<in> ?E\<^sup>*" "x \<noteq> f r" if some: "m x \<noteq> None"
  proof -
    have "x \<in> f ` R" by (rule ccontr) (use m(2) [of x] some in simp)
    then obtain n where n: "n \<in> R" "x = f n" by (rule imageE) simp
    then have "idom n \<noteq> None" using some m(1) [OF n(1)] by (cases "idom n") simp_all
    then have "(r, n) \<in> E\<^sup>* \<and> n \<noteq> r" unfolding I(1) .
    then show "(f r, x) \<in> ?E\<^sup>*" "x \<noteq> f r" unfolding n(2) image_reach [OF inj E r n(1)] same [OF n(1) r] by simp_all
  qed
  show "m x \<noteq> None" if "(f r, x) \<in> ?E\<^sup>* \<and> x \<noteq> f r"
  proof -
    from that obtain n where n: "n \<in> R" "x = f n" "(r, n) \<in> E\<^sup>*" unfolding image_rtrancl [OF inj E r] by blast
    with that have "(r, n) \<in> E\<^sup>* \<and> n \<noteq> r" by blast
    then have "idom n \<noteq> None" unfolding I(1) .
    then show ?thesis using m(1) [OF n(1)] n(2) by (cases "idom n") simp_all
  qed
  fix y assume y: "m x = Some y"
  have "x \<in> f ` R" by (rule ccontr) (use m(2) [of x] y in simp)
  then obtain n where n: "n \<in> R" "x = f n" by (rule imageE) simp
  with y m(1) [OF n(1)] obtain d where d: "idom n = Some d" "y = f d" by (cases "idom n") simp_all
  have "d \<in> R" by (rule reach [OF dominator_reachable [OF I(2) [OF d(1), unfolded strictly_def, THEN conjunct1]]])
  then show "strictly ?E (f r) y x" using I(2) [OF d(1)] unfolding d(2) n(2) image_strictly [OF inj E r \<open>d \<in> R\<close> n(1)] by simp
  fix c assume c: "strictly ?E (f r) c x"
  from strictly_in_image [OF inj E r c] obtain b where b: "b \<in> R" "c = f b" by blast
  with c have "strictly E r b n" unfolding n(2) by (simp add: image_strictly [OF inj E r _ n(1)])
  from I(3) [OF d(1) this] show "dominates_in ?E (f r) c y"
    unfolding b(2) d(2) image_dominates [OF inj E r b(1) \<open>d \<in> R\<close>] .
qed

section \<open>The tree is exact\<close>

definition slot_edges :: "('g, 'x) graph_ops \<Rightarrow> 'g code_graph \<Rightarrow> (nat \<times> nat) set" where
  "slot_edges P s = {(i, j). j \<in> set (out_neighbours P s i)}"

text \<open>What the library promises of its algorithm on the slots of the graph.\<close>

definition algorithm_ok :: "((nat \<Rightarrow> nat list) \<Rightarrow> nat \<Rightarrow> nat simple_fast) \<Rightarrow> ('g, 'x) graph_ops \<Rightarrow> 'g code_graph \<Rightarrow> bool" where
  "algorithm_ok algorithm P s \<longleftrightarrow> (\<forall>i\<in>dom (pg_weight P (cg_graph s)).
     simple_fast_ok (slot_edges P s) i (algorithm (out_neighbours P s) i))"

text \<open>The strict dominators of a node, the nearest first.\<close>

definition lists_dominators :: "('a \<times> 'a) set \<Rightarrow> 'a \<Rightarrow> 'a \<Rightarrow> 'a list \<Rightarrow> bool" where
  "lists_dominators E r n ch \<longleftrightarrow> set ch = {d. strictly E r d n} \<and> sorted_wrt (\<lambda>a b. strictly E r b a) ch"

definition tree_as_map :: "dom_tree \<Rightarrow> nat dominators" where
  "tree_as_map t = \<lparr>dm_idom = dt_idom t, dm_root = dt_root t\<rparr>"

lemma tree_passes:
  assumes "idoms_ok E r (tree_as_map t)"
  shows "tree_chain_pass t = chain_pass (tree_as_map t)" "tree_dominates_pass t a = dominates_pass (tree_as_map t) a"
proof -
  have root: "(if n = dt_root t then None else map_of (dt_idom t) n) = map_of (dt_idom t) n" for n
    using root_ends [OF assms, of n] unfolding tree_as_map_def dominators.select_convs .
  then have last: "n = dt_root t \<Longrightarrow> map_of (dt_idom t) n = None" for n by (metis (full_types))
  show "tree_chain_pass t = chain_pass (tree_as_map t)"
    by (rule ext) (simp add: tree_chain_pass_def chain_pass_def tree_as_map_def last split: option.split)
  show "tree_dominates_pass t a = dominates_pass (tree_as_map t) a"
    by (rule ext) (simp add: tree_dominates_pass_def dominates_pass_def tree_as_map_def last split: option.split)
qed

lemma tree_exact:
  assumes "idoms_ok E r (tree_as_map t)"
  shows "\<exists>ch. tree_chain t n = Some ch \<and> lists_dominators E r n ch"
    "tree_dominates t a b = Some (a = b \<or> strictly E r a b)"
proof -
  have "tree_chain t n = dominators_chain (tree_as_map t) n" "tree_dominates t a b = dominates (tree_as_map t) a b"
    by (simp_all add: tree_chain_def tree_dominates_def tree_passes [OF assms] dominators_chain_def dominates_def tree_as_map_def)
  then show "\<exists>ch. tree_chain t n = Some ch \<and> lists_dominators E r n ch"
    "tree_dominates t a b = Some (a = b \<or> strictly E r a b)"
    using dominators_chain_exact [OF assms, of n] dominates_exact [OF assms, of a b] by (simp_all add: lists_dominators_def)
qed

context stable_graph
begin

lemma slot_edges_live: "slots_ok P ok s \<Longrightarrow> slot_edges P s \<subseteq> live s \<times> live s"
  using ends [OF slots_okD(1)] by (auto simp: slot_edges_def out_neighbours_def; blast)

lemma slot_edges_renamed:
  assumes s: "slots_ok P ok s"
  shows "edges_of P s (\<lambda>_. True) = map_prod (slot_id P (cg_graph s)) (slot_id P (cg_graph s)) ` slot_edges P s"
proof (rule set_eqI, rule iffI)
  let ?id = "slot_id P (cg_graph s)"
  fix z assume z: "z \<in> edges_of P s (\<lambda>_. True)"
  then obtain i where i: "i \<in> live s" "fst z = ?id i"
    using edges_of_live(1) [OF s, of "fst z" "snd z"] resolve_live [OF s] by fastforce
  with z obtain j e where "(j, e) \<in> set (pg_out P (cg_graph s) i)" "snd z = ?id j"
    using edges_slots [OF s i(1), of "snd z" "\<lambda>_. True"] by (cases z) auto
  then have "(i, j) \<in> slot_edges P s" "z = map_prod ?id ?id (i, j)"
    using i(2) by (force simp: slot_edges_def out_neighbours_def, cases z) simp
  then show "z \<in> map_prod ?id ?id ` slot_edges P s" by blast
next
  let ?id = "slot_id P (cg_graph s)"
  fix z assume "z \<in> map_prod ?id ?id ` slot_edges P s"
  then obtain i j where z: "z = (?id i, ?id j)" "(i, j) \<in> slot_edges P s" by auto
  then have "i \<in> live s" using slot_edges_live [OF s] by blast
  moreover obtain e where "(j, e) \<in> set (pg_out P (cg_graph s) i)" using z(2) by (auto simp: slot_edges_def out_neighbours_def)
  ultimately show "z \<in> edges_of P s (\<lambda>_. True)" using edges_slots [OF s, of i "?id j" "\<lambda>_. True"] unfolding z(1) by blast
qed

lemma slot_id_inj_on: "slots_ok P ok s \<Longrightarrow> inj_on (slot_id P (cg_graph s)) (live s)"
  by (rule inj_onI) (rule slot_id_inj)

lemma slots_reachable: "slots_ok P ok s \<Longrightarrow> r \<in> live s \<Longrightarrow> {x. (r, x) \<in> (slot_edges P s)\<^sup>*} \<subseteq> live s"
proof
  assume s: "slots_ok P ok s" and r: "r \<in> live s"
  fix x assume "x \<in> {x. (r, x) \<in> (slot_edges P s)\<^sup>*}"
  then have "(r, x) \<in> (slot_edges P s)\<^sup>*" by simp
  then show "x \<in> live s" by (induction rule: rtrancl_induct) (use r slot_edges_live [OF s] in auto)
qed

lemma tree_entry_get:
  assumes s: "slots_ok P ok s" and r: "r \<in> live s" and doms: "simple_fast_ok (slot_edges P s) r doms" and i: "i \<in> live s"
  shows "map_of (tree_entry P s doms r i m) = (case sf_immediate_dominator doms i of None \<Rightarrow> map_of m
     | Some d \<Rightarrow> (map_of m)(slot_id P (cg_graph s) i \<mapsto> slot_id P (cg_graph s) d))"
proof (cases "sf_immediate_dominator doms i")
  case (Some d)
  have "i \<noteq> r" using simple_fast_okD(1) [OF doms, of i] Some by simp
  moreover have "d \<in> live s" using slots_reachable [OF s r] simple_fast_okD(2) [OF doms Some] dominator_reachable
    by (fastforce simp: strictly_def)
  ultimately show ?thesis by (simp add: tree_entry_def Some node_id_for_slot i)
qed (simp add: tree_entry_def)

lemma tree_fold:
  assumes s: "slots_ok P ok s" and r: "r \<in> live s" and doms: "simple_fast_ok (slot_edges P s) r doms"
  shows "set is \<subseteq> live s \<Longrightarrow> distinct is \<Longrightarrow>
    (\<forall>j\<in>live s. map_of (fold (tree_entry P s doms r) is m) (slot_id P (cg_graph s) j) =
       (case if j \<in> set is then sf_immediate_dominator doms j else None of
          None \<Rightarrow> map_of m (slot_id P (cg_graph s) j) | Some d \<Rightarrow> Some (slot_id P (cg_graph s) d))) \<and>
    (\<forall>x. x \<notin> slot_id P (cg_graph s) ` live s \<longrightarrow> map_of (fold (tree_entry P s doms r) is m) x = map_of m x)"
proof (induction "is" arbitrary: m)
  case (Cons i "is")
  then have i: "i \<in> live s" "i \<notin> set is" by auto
  note get = tree_entry_get [OF s r doms i(1), of m]
  have IH: "(\<forall>j\<in>live s. map_of (fold (tree_entry P s doms r) is (tree_entry P s doms r i m)) (slot_id P (cg_graph s) j) =
       (case if j \<in> set is then sf_immediate_dominator doms j else None of
          None \<Rightarrow> map_of (tree_entry P s doms r i m) (slot_id P (cg_graph s) j) | Some d \<Rightarrow> Some (slot_id P (cg_graph s) d))) \<and>
    (\<forall>x. x \<notin> slot_id P (cg_graph s) ` live s \<longrightarrow>
       map_of (fold (tree_entry P s doms r) is (tree_entry P s doms r i m)) x = map_of (tree_entry P s doms r i m) x)"
    using Cons by simp
  have same: "slot_id P (cg_graph s) j = slot_id P (cg_graph s) i \<longleftrightarrow> j = i" if "j \<in> live s" for j
    using slot_id_inj [OF s that i(1)] by blast
  have other: "x \<noteq> slot_id P (cg_graph s) i" if "x \<notin> slot_id P (cg_graph s) ` live s" for x using that i(1) by blast
  show ?case
  proof (intro conjI ballI allI impI)
    fix j assume j: "j \<in> live s"
    show "map_of (fold (tree_entry P s doms r) (i # is) m) (slot_id P (cg_graph s) j) =
       (case if j \<in> set (i # is) then sf_immediate_dominator doms j else None of
          None \<Rightarrow> map_of m (slot_id P (cg_graph s) j) | Some d \<Rightarrow> Some (slot_id P (cg_graph s) d))"
      using IH [THEN conjunct1, THEN bspec, OF j] i(2) same [OF j] by (cases "j = i") (simp_all add: get split: option.split)
  next
    fix x assume x: "x \<notin> slot_id P (cg_graph s) ` live s"
    show "map_of (fold (tree_entry P s doms r) (i # is) m) x = map_of m x"
      using IH [THEN conjunct2, THEN spec, THEN mp, OF x] other [OF x] by (simp add: get split: option.split)
  qed
qed simp

lemma dominator_tree_promise:
  assumes s: "slots_ok P ok s" and a: "algorithm_ok algorithm P s"
  shows "case dominator_tree algorithm P s root of
     None \<Rightarrow> get_node P s root = None
   | Some t \<Rightarrow> get_node P s root \<noteq> None \<and> idoms_ok (edges_of P s (\<lambda>_. True)) root (tree_as_map t)"
proof (cases "resolve s root")
  case None
  then show ?thesis using resolve_get_node [OF s, of root] by (simp add: dominator_tree_def)
next
  case (Some r)
  let ?id = "slot_id P (cg_graph s)"
  have r: "r \<in> live s" "?id r = root" using resolve_live [OF s Some] .
  define doms where "doms = algorithm (out_neighbours P s) r"
  have doms: "simple_fast_ok (slot_edges P s) r doms" using a r(1) by (auto simp: algorithm_ok_def doms_def)
  have ix: "distinct (pg_indices P (cg_graph s))" "set (pg_indices P (cg_graph s)) = live s"
    using live [OF slots_okD(1) [OF s]] by simp_all
  let ?m = "fold (tree_entry P s doms r) (pg_indices P (cg_graph s)) []"
  note fold = tree_fold [OF s r(1) doms, of "pg_indices P (cg_graph s)" "[]", OF eq_refl [OF ix(2)] ix(1)]
  have "immediate (map_prod ?id ?id ` slot_edges P s) (?id r) (map_of ?m)"
  proof (rule image_immediate [OF slot_id_inj_on [OF s] slot_edges_live [OF s] r(1)])
    show "immediate (slot_edges P s) r (sf_immediate_dominator doms)" using doms by (simp add: simple_fast_ok_def)
    show "map_of ?m (?id n) = map_option ?id (sf_immediate_dominator doms n)" if "n \<in> live s" for n
      using fold [THEN conjunct1, THEN bspec, OF that] that by (simp add: ix(2) split: option.split)
    show "map_of ?m x = None" if "x \<notin> ?id ` live s" for x using fold [THEN conjunct2, THEN spec, THEN mp, OF that] by simp
  qed
  then have imm: "immediate (edges_of P s (\<lambda>_. True)) root (map_of ?m)" unfolding slot_edges_renamed [OF s] r(2) .
  have "{x. (root, x) \<in> (edges_of P s (\<lambda>_. True))\<^sup>*} \<subseteq> ?id ` live s"
    unfolding slot_edges_renamed [OF s] r(2) [symmetric] image_rtrancl [OF slot_id_inj_on [OF s] slot_edges_live [OF s] r(1)] by blast
  then have "finite {x. (root, x) \<in> (edges_of P s (\<lambda>_. True))\<^sup>*}" using live_finite [OF s] by (meson finite_imageI finite_subset)
  with imm have "idoms_ok (edges_of P s (\<lambda>_. True)) root (tree_as_map \<lparr>dt_root = root, dt_idom = ?m\<rparr>)"
    by (simp add: idoms_ok_def tree_as_map_def)
  moreover have "get_node P s root \<noteq> None" using resolve_get_node [OF s, of root] Some by simp
  ultimately show ?thesis by (simp add: dominator_tree_def Some Let_def doms_def)
qed

lemma dominator_chain_promise:
  assumes s: "slots_ok P ok s" and a: "algorithm_ok algorithm P s"
  shows "\<exists>r. dominator_chain algorithm P s root target = Some r \<and> (case r of
     None \<Rightarrow> get_node P s root = None \<or> get_node P s target = None
   | Some (n, ch) \<Rightarrow> get_node P s root \<noteq> None \<and> n = target \<and> lists_dominators (edges_of P s (\<lambda>_. True)) root target ch)"
proof (cases "resolve s target")
  case None
  then show ?thesis using resolve_get_node [OF s, of target] by (simp add: dominator_chain_def)
next
  case (Some i)
  note tree = dominator_tree_promise [OF s a, of root]
  show ?thesis
  proof (cases "dominator_tree algorithm P s root")
    case None
    then show ?thesis using tree Some by (simp add: dominator_chain_def)
  next
    case t: (Some t)
    with tree have "get_node P s root \<noteq> None" and ok: "idoms_ok (edges_of P s (\<lambda>_. True)) root (tree_as_map t)" by simp_all
    with tree_exact(1) [OF ok, of target] show ?thesis using Some t by (auto simp: dominator_chain_def)
  qed
qed

end

end
