(* ===== verification/Dominator_Properties.thy ===== *)
theory Dominator_Properties
  imports Dominator_Tree Csr_Properties
begin

text \<open>
  The dominators of a code graph, on every graph its operations can build, with any library graph that keeps the
  laws and any algorithm that returns immediate dominators.
\<close>

text \<open>C39. Dominators are exact: the tree exists exactly when its root is in the graph, a node has an immediate
  dominator exactly when it can be reached and is not the root, and this is the closest of the nodes on every path
  to it; the chain of a node lists its strict dominators, each before those that dominate it, the test of
  dominance agrees, and the chain made at once is that of the tree. Every loop ends.\<close>

theorem dominator_tree_exact:
  assumes "stable_graph P ok" and "run_graph P ops (code_graph_new P) = Some (answers, s)" and "algorithm_ok algorithm P s"
  defines "E \<equiv> edges_of P s (\<lambda>_. True)"
  shows "(case dominator_tree algorithm P s root of
     None \<Rightarrow> get_node P s root = None
   | Some t \<Rightarrow> get_node P s root \<noteq> None \<and> immediate E root (tree_immediate_dominator t) \<and>
       (\<forall>n. \<exists>ch. tree_chain t n = Some ch \<and> lists_dominators E root n ch) \<and>
       (\<forall>a b. tree_dominates t a b = Some (a = b \<or> strictly E root a b))) \<and>
   (\<exists>r. dominator_chain algorithm P s root target = Some r \<and> (case r of
     None \<Rightarrow> get_node P s root = None \<or> get_node P s target = None
   | Some (n, ch) \<Rightarrow> get_node P s root \<noteq> None \<and> n = target \<and> lists_dominators E root target ch))"
proof (rule conjI)
  note s = stable_graph.graph_okD(1) [OF assms(1) stable_graph.run_ok [OF assms(1,2)]]
  note tree = stable_graph.dominator_tree_promise [OF assms(1) s assms(3), of root, folded E_def]
  show "case dominator_tree algorithm P s root of
     None \<Rightarrow> get_node P s root = None
   | Some t \<Rightarrow> get_node P s root \<noteq> None \<and> immediate E root (tree_immediate_dominator t) \<and>
       (\<forall>n. \<exists>ch. tree_chain t n = Some ch \<and> lists_dominators E root n ch) \<and>
       (\<forall>a b. tree_dominates t a b = Some (a = b \<or> strictly E root a b))"
  proof (cases "dominator_tree algorithm P s root")
    case (Some t)
    with tree have t: "get_node P s root \<noteq> None" "idoms_ok E root (tree_as_map t)" by simp_all
    have "tree_immediate_dominator t = map_of (dm_idom (tree_as_map t))"
      by (rule ext) (simp add: tree_immediate_dominator_def tree_as_map_def)
    with t(2) have "immediate E root (tree_immediate_dominator t)" by (simp add: idoms_ok_def)
    with t(1) tree_exact [OF t(2)] show ?thesis by (simp add: Some)
  qed (use tree in simp)
  show "\<exists>r. dominator_chain algorithm P s root target = Some r \<and> (case r of
     None \<Rightarrow> get_node P s root = None \<or> get_node P s target = None
   | Some (n, ch) \<Rightarrow> get_node P s root \<noteq> None \<and> n = target \<and> lists_dominators E root target ch)"
    unfolding E_def by (rule stable_graph.dominator_chain_promise [OF assms(1) s assms(3)])
qed

section \<open>A sample algorithm\<close>

text \<open>An algorithm for the dominators of a graph whose paths have at most one edge.\<close>

definition star_fast :: "(nat \<Rightarrow> nat list) \<Rightarrow> nat \<Rightarrow> nat simple_fast" where
  "star_fast nbrs r = \<lparr>sf_immediate_dominator = (\<lambda>n. if n \<noteq> r \<and> n \<in> set (nbrs r) then Some r else None),
     sf_immediately_dominated_by = (\<lambda>d. if d = r then remdups (filter (\<lambda>n. n \<noteq> r) (nbrs r)) else [])\<rparr>"

lemma star_fast_ok:
  assumes "\<And>x y. y \<in> set (nbrs x) \<Longrightarrow> nbrs y = []" and E: "E = {(x, y). y \<in> set (nbrs x)}"
  shows "simple_fast_ok E r (star_fast nbrs r)"
proof -
  have reach: "(r, n) \<in> E\<^sup>* \<longleftrightarrow> n = r \<or> n \<in> set (nbrs r)" for n
  proof
    assume "(r, n) \<in> E\<^sup>*"
    then show "n = r \<or> n \<in> set (nbrs r)" by (induction rule: rtrancl_induct) (use assms(1) [of _ r] in \<open>auto simp: E\<close>)
  qed (auto simp: E)
  have "strictly E r d n \<longleftrightarrow> d = r" if n: "n \<noteq> r" "n \<in> set (nbrs r)" for d n
  proof -
    have "(r, n) \<in> without E d" if "d \<noteq> r" "d \<noteq> n" using that n by (auto simp: without_def E)
    then show ?thesis using n reach [of n] by (auto simp: strictly_def dominates_in_def)
  qed
  moreover have "dominates_in E r r r" by (simp add: dominates_in_def)
  ultimately show ?thesis by (auto simp: simple_fast_ok_def immediate_def star_fast_def reach)
qed

lemma sample_nbrs:
  "map (out_neighbours list_graph_ops sample_graph) (pg_indices list_graph_ops (cg_graph sample_graph)) = [[1], []]"
  "pg_indices list_graph_ops (cg_graph sample_graph) = [0, 1]"
  by code_simp+

lemma sample_algorithm_ok: "algorithm_ok star_fast list_graph_ops sample_graph"
  unfolding algorithm_ok_def
proof
  fix i assume "i \<in> dom (pg_weight list_graph_ops (cg_graph sample_graph))"
  show "simple_fast_ok (slot_edges list_graph_ops sample_graph) i (star_fast (out_neighbours list_graph_ops sample_graph) i)"
  proof (rule star_fast_ok)
    note slots = list_graph.graph_okD(1) [OF sample_graph_ok]
    have live: "set (pg_indices list_graph_ops (cg_graph sample_graph)) = dom (pg_weight list_graph_ops (cg_graph sample_graph))"
      using list_graph.live [OF list_graph.slots_okD(1) [OF slots]] by blast
    fix x y z assume y: "y \<in> set (out_neighbours list_graph_ops sample_graph x)"
    then have "x \<in> dom (pg_weight list_graph_ops (cg_graph sample_graph))"
      using stable_graph.slot_edges_live [OF list_graph.stable_graph_axioms slots] by (auto simp: slot_edges_def)
    then have "x \<in> {0, 1}" unfolding live [symmetric] sample_nbrs(2) by simp
    then have "y = 1" using y sample_nbrs(1) unfolding sample_nbrs(2) by auto
    then show "out_neighbours list_graph_ops sample_graph y = []" using sample_nbrs(1) unfolding sample_nbrs(2) by simp
  qed (simp add: slot_edges_def)
qed

theorem dominator_tree_exact_witness:
  "\<exists>t. dominator_tree star_fast list_graph_ops sample_graph 1 = Some t \<and>
     tree_immediate_dominator t 1 = None \<and> (\<forall>a b. tree_dominates t a b =
       Some (a = b \<or> strictly (edges_of list_graph_ops sample_graph (\<lambda>_. True)) 1 a b))"
proof -
  note exact = dominator_tree_exact [OF list_graph.stable_graph_axioms sample_run sample_algorithm_ok, of 1 2, THEN conjunct1]
  obtain t where t: "dominator_tree star_fast list_graph_ops sample_graph 1 = Some t"
    using exact sample_get(1) by (cases "dominator_tree star_fast list_graph_ops sample_graph 1") simp_all
  with exact have imm: "immediate (edges_of list_graph_ops sample_graph (\<lambda>_. True)) 1 (tree_immediate_dominator t)"
    and dom: "\<forall>a b. tree_dominates t a b = Some (a = b \<or> strictly (edges_of list_graph_ops sample_graph (\<lambda>_. True)) 1 a b)"
    by simp_all
  have "tree_immediate_dominator t 1 = None" using immediateD(1) [OF imm, of 1] by simp
  with t dom show ?thesis by blast
qed

end
