(* ===== verification/Query_Executor.thy ===== *)
theory Query_Executor
  imports Query_Result Dominators Trait_Analyses Csr_Snapshot Label_Patterns Query_Printer
begin

text \<open>
  The executor of the query language (\<^verbatim>\<open>dsl/syntax/executor\<close>): a pipe of operations on a working set of
  nodes, path queries, set operations, and the composition of expressions. The value None is a panic or a
  loop that does not end; the lemmas exclude both.
\<close>

section \<open>What the executor is given\<close>

record pipe_state =
  ps_working_set :: "nat set"
  ps_cycles_detected :: "nat list"
  ps_metadata :: "string list"

text \<open>
  The order in which a hash set yields its elements, the folding of case, and the debug rendering of an edge
  kind and of a text, are parameters. So are the library's algorithm for dominators, and the operations that
  rest on analyses which are not modelled: the ranking, the components, the communities and the reports of the
  pipe (\<open>qe_insight\<close>).
\<close>

record ('g, 'x) query_env =
  qe_ops :: "('g, 'x) graph_ops"
  qe_order :: "nat set \<Rightarrow> nat list"
  qe_lower :: "string \<Rightarrow> string"
  qe_debug_kind :: "analysis_edge_kind \<Rightarrow> string"
  qe_debug_text :: "string \<Rightarrow> string"
  qe_workers :: nat
  qe_insight :: "'g code_graph \<Rightarrow> dsl_op \<Rightarrow> pipe_state \<Rightarrow> pipe_state"
  qe_simple_fast :: "(nat \<Rightarrow> nat list) \<Rightarrow> nat \<Rightarrow> nat simple_fast"

definition pipe_state_default :: pipe_state where
  "pipe_state_default = \<lparr>ps_working_set = {}, ps_cycles_detected = [], ps_metadata = []\<rparr>"

definition with_seed :: "nat list \<Rightarrow> pipe_state" where
  "with_seed seed = \<lparr>ps_working_set = set seed, ps_cycles_detected = [], ps_metadata = []\<rparr>"

definition note_down :: "string \<Rightarrow> pipe_state \<Rightarrow> pipe_state" where
  "note_down line st = st\<lparr>ps_metadata := ps_metadata st @ [line]\<rparr>"

definition dquote :: "string \<Rightarrow> string" where
  "dquote s = CHR 0x22 # s @ [CHR 0x22]"

section \<open>Selections\<close>

definition apply_select_fn :: "('g, 'x) query_env \<Rightarrow> 'g code_graph \<Rightarrow> string \<Rightarrow> pipe_state \<Rightarrow> pipe_state" where
  "apply_select_fn E s name st =
     (let matches = find_by_name (qe_lower E) (qe_ops E) s name; total = length matches;
          working_set = set (map nd_id (filter (\<lambda>n. nd_kind n = AN_Function) matches));
          st = st\<lparr>ps_working_set := working_set\<rparr> in
      if working_set = {} then
        (if 0 < total
         then note_down (''fn('' @ dquote name @ ''): '' @ dquote name @ '' exists but is not a function ('' @ decimal total @
                '' match(es) of other kinds) - try type('' @ dquote name @ '')'') st
         else note_down (''fn('' @ dquote name @ ''): no symbol named '' @ dquote name @ '' found'') st)
      else st)"

definition apply_select_type :: "('g, 'x) query_env \<Rightarrow> 'g code_graph \<Rightarrow> string \<Rightarrow> pipe_state \<Rightarrow> pipe_state" where
  "apply_select_type E s name st =
     (let matches = find_by_name (qe_lower E) (qe_ops E) s name; total = length matches;
          working_set = set (map nd_id (filter (\<lambda>n. nd_kind n \<in> {AN_Struct, AN_Enum, AN_Trait}) matches));
          st = st\<lparr>ps_working_set := working_set\<rparr> in
      if working_set = {} then
        (if 0 < total
         then note_down (''type('' @ dquote name @ ''): '' @ dquote name @ '' exists but is not a struct/enum/trait ('' @ decimal total @
                '' match(es) of other kinds) - try fn('' @ dquote name @ '')'') st
         else note_down (''type('' @ dquote name @ ''): no symbol named '' @ dquote name @ '' found'') st)
      else st)"

section \<open>Callers and callees\<close>

definition is_call_kind :: "analysis_edge_kind \<Rightarrow> bool" where
  "is_call_kind k = (case k of AE_Calls \<Rightarrow> True | AE_UnresolvedCall _ \<Rightarrow> True | _ \<Rightarrow> False)"

text \<open>The other ends of the call edges at a node.\<close>

definition call_ends :: "(nat \<Rightarrow> (nat \<times> edge_data) list option) \<Rightarrow> nat \<Rightarrow> nat list option" where
  "call_ends edges_at u = map_option (\<lambda>es. map fst (filter (\<lambda>e. is_call_kind (ed_kind (snd e))) es)) (edges_at u)"

definition call_step :: "(nat \<Rightarrow> (nat \<times> edge_data) list option) \<Rightarrow> nat list \<Rightarrow> nat set option" where
  "call_step edges_at ws = map_option (\<lambda>ends. set (concat ends)) (those (map (call_ends edges_at) ws))"

text \<open>The number of seeds that are in the graph and are not functions.\<close>

definition non_fn_seeds :: "('g, 'x) query_env \<Rightarrow> 'g code_graph \<Rightarrow> nat list \<Rightarrow> nat" where
  "non_fn_seeds E s ws = length (filter (\<lambda>n. nd_kind n \<noteq> AN_Function) (List.map_filter (get_node (qe_ops E) s) ws))"

definition apply_callers :: "('g, 'x) query_env \<Rightarrow> 'g code_graph \<Rightarrow> pipe_state \<Rightarrow> pipe_state option" where
  "apply_callers E s st =
     (let ws = qe_order E (ps_working_set st); seed_count = card (ps_working_set st) in
      map_option (\<lambda>new_set.
        let st = (if new_set = {} \<and> 0 < seed_count then
            if non_fn_seeds E s ws = seed_count
            then note_down (''callers: all '' @ decimal seed_count @ '' seed(s) are types, not functions - types have no call edges. Use fn('' @
                   dquote ''name'' @ '') | callers, or follow uses-type edges instead.'') st
            else note_down (''callers: '' @ decimal seed_count @
                   '' seed(s) resolved but none has callers (entry point, dead code, or dynamic dispatch)'') st
          else st) in
        st\<lparr>ps_working_set := new_set\<rparr>) (call_step (get_edges_to (qe_ops E) s) ws))"

definition apply_callees :: "('g, 'x) query_env \<Rightarrow> 'g code_graph \<Rightarrow> pipe_state \<Rightarrow> pipe_state option" where
  "apply_callees E s st =
     (let ws = qe_order E (ps_working_set st); seed_count = card (ps_working_set st) in
      map_option (\<lambda>new_set.
        let st = (if new_set = {} \<and> 0 < seed_count then
            if non_fn_seeds E s ws = seed_count
            then note_down (''callees: all '' @ decimal seed_count @ '' seed(s) are types, not functions - types have no call edges. Use fn('' @
                   dquote ''name'' @ '') | callees.'') st
            else note_down (''callees: '' @ decimal seed_count @
                   '' seed(s) resolved but none calls anything (leaf function or unresolved external calls)'') st
          else st) in
        st\<lparr>ps_working_set := new_set\<rparr>) (call_step (get_edges_from (qe_ops E) s) ws))"

section \<open>Expansion to a depth\<close>

fun traverse_all :: "(nat \<Rightarrow> traversal_result option) \<Rightarrow> nat list \<Rightarrow> nat set \<times> nat list \<Rightarrow> (nat set \<times> nat list) option" where
  "traverse_all walk_from [] acc = Some acc"
| "traverse_all walk_from (u # us) acc = Option.bind (walk_from u) (\<lambda>r.
     traverse_all walk_from us (fst acc \<union> set (tr_nodes r), snd acc @ tr_cycles_detected_at r))"

definition apply_depth :: "('g, 'x) query_env \<Rightarrow> 'g code_graph \<Rightarrow> nat \<Rightarrow> query_config \<Rightarrow> pipe_state \<Rightarrow> pipe_state option" where
  "apply_depth E s depth config st = map_option (\<lambda>(expanded, cycles).
       st\<lparr>ps_working_set := expanded, ps_cycles_detected := cycles\<rparr>)
     (traverse_all (\<lambda>u. traverse (qe_ops E) s (qe_workers E) u
         \<lparr>tc_max_depth = depth, tc_max_nodes = qc_max_nodes config, tc_direction = TD_Outgoing, tc_parallel = False\<rparr>)
       (qe_order E (ps_working_set st)) ({}, ps_cycles_detected st))"

section \<open>Filters\<close>

definition retain :: "(nat \<Rightarrow> bool) \<Rightarrow> pipe_state \<Rightarrow> pipe_state" where
  "retain keep st = st\<lparr>ps_working_set := Set.filter keep (ps_working_set st)\<rparr>"

definition node_holds :: "('g, 'x) query_env \<Rightarrow> 'g code_graph \<Rightarrow> ('x node_data_scheme \<Rightarrow> bool) \<Rightarrow> nat \<Rightarrow> bool" where
  "node_holds E s p u = (case get_node (qe_ops E) s u of None \<Rightarrow> False | Some n \<Rightarrow> p n)"

definition apply_filter :: "('g, 'x) query_env \<Rightarrow> 'g code_graph \<Rightarrow> analysis_node_kind \<Rightarrow> pipe_state \<Rightarrow> pipe_state" where
  "apply_filter E s kind = retain (node_holds E s (\<lambda>n. nd_kind n = kind))"

definition apply_since :: "('g, 'x) query_env \<Rightarrow> 'g code_graph \<Rightarrow> nat \<Rightarrow> pipe_state \<Rightarrow> pipe_state" where
  "apply_since E s since_rev = retain (node_holds E s (\<lambda>n. of_nat since_rev \<le> nd_last_modified_revision n))"

definition apply_untested :: "('g, 'x) query_env \<Rightarrow> 'g code_graph \<Rightarrow> pipe_state \<Rightarrow> pipe_state" where
  "apply_untested E s st =
     (let st = retain (node_holds E s (\<lambda>n. map_of (nd_metadata n) ''coverage_tested'' \<noteq> Some ''true'')) st in
      note_down (''untested count='' @ decimal (card (ps_working_set st))) st)"

definition possible_types_line :: "'x node_data_scheme \<Rightarrow> string option" where
  "possible_types_line n =
     (let inputs = (case map_of (nd_metadata n) ''possible_input_types'' of None \<Rightarrow> [] | Some t \<Rightarrow> [''inputs='' @ t]);
          returns = (case map_of (nd_metadata n) ''possible_return_types'' of None \<Rightarrow> [] | Some t \<Rightarrow> [''returns='' @ t]);
          parts = inputs @ returns in
      if parts = [] then None else Some (''possible_types '' @ nd_qualified_name n @ '' '' @ join '' '' parts))"

definition apply_possible_types :: "('g, 'x) query_env \<Rightarrow> 'g code_graph \<Rightarrow> pipe_state \<Rightarrow> pipe_state" where
  "apply_possible_types E s st =
     (let st = retain (node_holds E s (\<lambda>n. map_of (nd_metadata n) ''possible_input_types'' \<noteq> None \<or>
                 map_of (nd_metadata n) ''possible_return_types'' \<noteq> None)) st in
      fold note_down (List.map_filter (\<lambda>u. Option.bind (get_node (qe_ops E) s u) possible_types_line)
        (qe_order E (ps_working_set st))) st)"

section \<open>Reachability through calls\<close>

declare loop_while.simps [code]

record call_search =
  cr_visited :: "nat set"
  cr_queue :: "nat list"
  cr_cycles :: "nat list"

text \<open>The loop body is left for good when the bound is reached (Return) or the edges cannot be read (Fail).\<close>

definition call_neighbour :: "nat \<Rightarrow> call_search \<Rightarrow> call_search" where
  "call_neighbour v cl = (if v \<in> cr_visited cl then cl\<lparr>cr_cycles := cr_cycles cl @ [v]\<rparr> else cl\<lparr>cr_queue := cr_queue cl @ [v]\<rparr>)"

definition call_pass :: "(nat \<Rightarrow> nat list option) \<Rightarrow> nat \<Rightarrow> call_search \<Rightarrow> ((unit, call_search) exit, call_search) result" where
  "call_pass ends_of max_nodes cl = (case cr_queue cl of
     [] \<Rightarrow> Inr cl
   | u # queue \<Rightarrow> (let cl = cl\<lparr>cr_queue := queue\<rparr> in
       if u \<in> cr_visited cl then Inr (cl\<lparr>cr_cycles := cr_cycles cl @ [u]\<rparr>)
       else let cl = cl\<lparr>cr_visited := insert u (cr_visited cl)\<rparr> in
         case ends_of u of
           None \<Rightarrow> Inl (Fail ())
         | Some vs \<Rightarrow> (let cl = fold call_neighbour vs cl in
             if max_nodes \<le> card (cr_visited cl) then Inl (Return cl) else Inr cl)))"

definition call_reachability :: "(nat \<Rightarrow> nat list option) \<Rightarrow> nat \<Rightarrow> call_search \<Rightarrow> call_search option" where
  "call_reachability ends_of max_nodes cl =
     (case finish_loop (\<lambda>cl. cl) (loop_while (\<lambda>cl. cr_queue cl \<noteq> []) (call_pass ends_of max_nodes) cl) of
        Some (Inr cl) \<Rightarrow> Some cl
      | _ \<Rightarrow> None)"

definition apply_call_reachability :: "('g, 'x) query_env \<Rightarrow> 'g code_graph \<Rightarrow> query_config \<Rightarrow> bool \<Rightarrow> pipe_state \<Rightarrow> pipe_state option" where
  "apply_call_reachability E s config incoming st =
     map_option (\<lambda>cl. st\<lparr>ps_working_set := cr_visited cl, ps_cycles_detected := cr_cycles cl\<rparr>)
       (call_reachability (call_ends (if incoming then get_edges_to (qe_ops E) s else get_edges_from (qe_ops E) s)) (qc_max_nodes config)
         \<lparr>cr_visited = {}, cr_queue = qe_order E (ps_working_set st), cr_cycles = ps_cycles_detected st\<rparr>)"

definition apply_preconditions :: "('g, 'x) query_env \<Rightarrow> 'g code_graph \<Rightarrow> query_config \<Rightarrow> pipe_state \<Rightarrow> pipe_state option" where
  "apply_preconditions E s config = apply_call_reachability E s config True"

definition apply_taint :: "('g, 'x) query_env \<Rightarrow> 'g code_graph \<Rightarrow> query_config \<Rightarrow> pipe_state \<Rightarrow> pipe_state option" where
  "apply_taint E s config = apply_call_reachability E s config False"

section \<open>Searches over the graph\<close>

definition apply_affected :: "('g, 'x) query_env \<Rightarrow> 'g code_graph \<Rightarrow> nat \<Rightarrow> nat \<Rightarrow> pipe_state \<Rightarrow> pipe_state option" where
  "apply_affected E s depth since_rev st = map_option (\<lambda>nodes.
       (note_down (''affected depth='' @ decimal depth @ '' since='' @ decimal since_rev @ '' count='' @ decimal (card nodes)) st)
         \<lparr>ps_working_set := nodes\<rparr>)
     (nodes_changed_within_depth (qe_ops E) s (of_nat since_rev) depth)"

fun reachable_direction_name :: "closure_direction \<Rightarrow> string" where
  "reachable_direction_name CD_Outgoing = ''outgoing''"
| "reachable_direction_name CD_Incoming = ''incoming''"

definition apply_reachable_via ::
    "('g, 'x) query_env \<Rightarrow> 'g code_graph \<Rightarrow> pattern_atom list \<Rightarrow> closure_direction \<Rightarrow> pipe_state \<Rightarrow> pipe_state option" where
  "apply_reachable_via E s pattern direction st =
     (let start = ''reachable via '' @ dquote (format_pattern pattern) @ '' '' @ reachable_direction_name direction in
      if ps_working_set st = {} then Some (note_down
          (start @ '': empty working set - seed with fn('' @ dquote ''...'' @ '') or type('' @ dquote ''...'' @ '') first'') st)
      else map_option (\<lambda>found. let reached = set (concat found) in
          (note_down (start @ '' seeds='' @ decimal (card (ps_working_set st)) @ '' reached='' @ decimal (card reached)) st)
            \<lparr>ps_working_set := reached\<rparr>)
        (those (map (\<lambda>seed. reachable_targets (view_of (qe_ops E) s) seed pattern direction) (qe_order E (ps_working_set st)))))"

section \<open>Traits and types\<close>

text \<open>\<^verbatim>\<open>format!("{id:?}")\<close>\<close>

definition node_debug :: "nat \<Rightarrow> string" where
  "node_debug u = ''NodeId('' @ decimal u @ '')''"

definition node_label :: "('g, 'x) query_env \<Rightarrow> 'g code_graph \<Rightarrow> nat \<Rightarrow> string" where
  "node_label E s u = (case get_node (qe_ops E) s u of Some n \<Rightarrow> nd_qualified_name n | None \<Rightarrow> node_debug u)"

text \<open>The names of the first eight.\<close>

definition some_names :: "('g, 'x) query_env \<Rightarrow> 'g code_graph \<Rightarrow> nat list \<Rightarrow> string" where
  "some_names E s us = join '', '' (List.map_filter (\<lambda>u. map_option nd_name (get_node (qe_ops E) s u)) (take 8 us))"

definition apply_dispatch :: "('g, 'x) query_env \<Rightarrow> 'g code_graph \<Rightarrow> pipe_state \<Rightarrow> pipe_state" where
  "apply_dispatch E s st =
     (let kept = filter (\<lambda>d. ps_working_set st = {} \<or> td_caller d \<in> ps_working_set st) (trait_dispatch_calls (qe_ops E) s) in
      (fold note_down (map (\<lambda>d. ''dispatch '' @ node_label E s (td_caller d) @ '' -> '' @ node_label E s (td_trait_id d) @ ''::'' @
           node_label E s (td_callee d)) kept) st)\<lparr>ps_working_set := set (map td_caller kept)\<rparr>)"

definition cluster_members :: "nat set \<Rightarrow> type_cluster \<Rightarrow> nat list" where
  "cluster_members restrict c = filter (\<lambda>f. restrict = {} \<or> f \<in> restrict) (sorted_list_of_set (tcl_functions c))"

definition apply_cluster_by_type :: "('g, 'x) query_env \<Rightarrow> 'g code_graph \<Rightarrow> pipe_state \<Rightarrow> pipe_state" where
  "apply_cluster_by_type E s st =
     (let restrict = ps_working_set st;
          clusters = filter (\<lambda>(i, c). cluster_members restrict c \<noteq> []) (enumerate 0 (cluster_by_primary_type (qe_ops E) s)) in
      (fold note_down (map (\<lambda>(i, c). ''cluster['' @ decimal i @ ''] type='' @ node_label E s (tcl_primary_type c) @ '' size='' @
           decimal (length (cluster_members restrict c)) @ '' members=['' @ some_names E s (cluster_members restrict c) @ '']'') clusters) st)
        \<lparr>ps_working_set := set (concat (map (\<lambda>(i, c). cluster_members restrict c) clusters))\<rparr>)"

section \<open>Pipes\<close>

fun apply_pipe_op :: "('g, 'x) query_env \<Rightarrow> 'g code_graph \<Rightarrow> query_config \<Rightarrow> dsl_op \<Rightarrow> pipe_state \<Rightarrow> pipe_state option" where
  "apply_pipe_op E s config (SelectFn name) st = Some (apply_select_fn E s name st)"
| "apply_pipe_op E s config (SelectType name) st = Some (apply_select_type E s name st)"
| "apply_pipe_op E s config Callers st = apply_callers E s st"
| "apply_pipe_op E s config Callees st = apply_callees E s st"
| "apply_pipe_op E s config (Depth n) st = apply_depth E s n config st"
| "apply_pipe_op E s config (Filter kind) st = Some (apply_filter E s kind st)"
| "apply_pipe_op E s config (Show _) st = Some st"
| "apply_pipe_op E s config (Taint _) st = apply_taint E s config st"
| "apply_pipe_op E s config Preconditions st = apply_preconditions E s config st"
| "apply_pipe_op E s config (Since since_rev) st = Some (apply_since E s since_rev st)"
| "apply_pipe_op E s config (Affected n since_rev) st = apply_affected E s n since_rev st"
| "apply_pipe_op E s config Untested st = Some (apply_untested E s st)"
| "apply_pipe_op E s config PossibleTypes st = Some (apply_possible_types E s st)"
| "apply_pipe_op E s config (ReachableVia pattern direction) st = apply_reachable_via E s pattern direction st"
| "apply_pipe_op E s config Dispatch st = Some (apply_dispatch E s st)"
| "apply_pipe_op E s config ClusterByType st = Some (apply_cluster_by_type E s st)"
| "apply_pipe_op E s config op st = Some (qe_insight E s op st)"

fun apply_pipe :: "('g, 'x) query_env \<Rightarrow> 'g code_graph \<Rightarrow> query_config \<Rightarrow> dsl_op list \<Rightarrow> pipe_state \<Rightarrow> pipe_state option" where
  "apply_pipe E s config [] st = Some st"
| "apply_pipe E s config (op # ops) st = Option.bind (apply_pipe_op E s config op st) (apply_pipe E s config ops)"

text \<open>The result: the edges between the nodes of the working set, and as many of these as the bound.\<close>

definition edges_within :: "('g, 'x) query_env \<Rightarrow> 'g code_graph \<Rightarrow> nat list \<Rightarrow> (nat \<times> nat \<times> string) list option" where
  "edges_within E s node_list = map_option concat (those (map (\<lambda>u.
     map_option (\<lambda>es. map (\<lambda>(v, e). (u, v, qe_debug_kind E (ed_kind e))) (filter (\<lambda>(v, e). v \<in> set node_list) es))
       (get_edges_from (qe_ops E) s u)) node_list))"

definition pipe_finish :: "('g, 'x) query_env \<Rightarrow> 'g code_graph \<Rightarrow> query_config \<Rightarrow> pipe_state \<Rightarrow> query_result option" where
  "pipe_finish E s config st =
     (let node_list = qe_order E (ps_working_set st); total = length node_list; was_truncated = qc_max_nodes config < total in
      map_option (\<lambda>edges. \<lparr>qr_nodes = (if was_truncated then take (qc_max_nodes config) node_list else node_list), qr_edges = edges,
          qr_was_truncated = was_truncated, qr_total_before_truncation = total, qr_cycles_detected = ps_cycles_detected st,
          qr_metadata = ps_metadata st\<rparr>) (edges_within E s node_list))"

definition execute :: "('g, 'x) query_env \<Rightarrow> 'g code_graph \<Rightarrow> dsl_op list \<Rightarrow> query_config \<Rightarrow> query_result option" where
  "execute E s ops config = Option.bind (apply_pipe E s config ops pipe_state_default) (pipe_finish E s config)"

definition execute_pipe_from :: "('g, 'x) query_env \<Rightarrow> 'g code_graph \<Rightarrow> nat list \<Rightarrow> dsl_op list \<Rightarrow> query_config \<Rightarrow> query_result option" where
  "execute_pipe_from E s seed ops config = Option.bind (apply_pipe E s config ops (with_seed seed)) (pipe_finish E s config)"

end
