(* ===== verification/Call_Reach.thy ===== *)
theory Call_Reach
  imports Query_Executor
begin

text \<open>
  The search through calls reaches every node that calls lead to, unless the bound stops it, and then it has
  reached as many nodes as the bound.
\<close>

definition reach_from :: "(nat \<Rightarrow> nat list) \<Rightarrow> nat set \<Rightarrow> nat set" where
  "reach_from nxt W = {(u, v). v \<in> set (nxt u)}\<^sup>* `` W"

lemma reach_from_start: "W \<subseteq> reach_from nxt W"
  by (auto simp: reach_from_def)

lemma reach_from_step: "u \<in> reach_from nxt W \<Longrightarrow> set (nxt u) \<subseteq> reach_from nxt W"
  by (auto simp: reach_from_def intro: rtrancl_into_rtrancl)

lemma reach_from_closed:
  assumes "W \<subseteq> V" and "\<And>v. v \<in> V \<Longrightarrow> set (nxt v) \<subseteq> V"
  shows "reach_from nxt W \<subseteq> V"
proof
  fix v assume "v \<in> reach_from nxt W"
  then obtain u where u: "u \<in> W" "(u, v) \<in> {(u, v). v \<in> set (nxt u)}\<^sup>*" by (auto simp: reach_from_def)
  from u(2) show "v \<in> V" by (induction rule: rtrancl_induct) (use assms u(1) in auto)
qed

definition call_inv :: "(nat \<Rightarrow> nat list) \<Rightarrow> nat \<Rightarrow> nat set \<Rightarrow> call_search \<Rightarrow> bool" where
  "call_inv nxt bound W cl \<longleftrightarrow> cr_visited cl \<union> set (cr_queue cl) \<subseteq> reach_from nxt W \<and> W \<subseteq> cr_visited cl \<union> set (cr_queue cl) \<and>
     (\<forall>v\<in>cr_visited cl. set (nxt v) \<subseteq> cr_visited cl \<union> set (cr_queue cl)) \<and>
     (cr_visited cl = {} \<or> card (cr_visited cl) < bound)"

definition call_done :: "(nat \<Rightarrow> nat list) \<Rightarrow> nat \<Rightarrow> nat set \<Rightarrow> nat set \<Rightarrow> bool" where
  "call_done nxt bound W V \<longleftrightarrow> V \<subseteq> reach_from nxt W \<and> (card V < bound \<longrightarrow> V = reach_from nxt W) \<and> card V \<le> max 1 bound"

lemma call_neighbours:
  "cr_visited (fold call_neighbour vs cl) = cr_visited cl"
  "set (cr_queue (fold call_neighbour vs cl)) = set (cr_queue cl) \<union> (set vs - cr_visited cl)"
  "length (cr_queue (fold call_neighbour vs cl)) \<le> length (cr_queue cl) + length vs"
proof (induction vs arbitrary: cl)
  case (Cons v vs)
  { case 1 then show ?case using Cons by (simp add: call_neighbour_def)
  next case 2 then show ?case using Cons by (auto simp: call_neighbour_def)
  next case 3 then show ?case using Cons(3) [of "call_neighbour v cl"] by (simp add: call_neighbour_def split: if_splits) }
qed simp_all

definition call_work :: "(nat \<Rightarrow> nat list) \<Rightarrow> nat set \<Rightarrow> call_search \<Rightarrow> nat" where
  "call_work nxt R cl = (\<Sum>v\<in>R - cr_visited cl. length (nxt v)) + length (cr_queue cl)"

lemma call_pass_step:
  assumes fin: "finite (reach_from nxt W)" and ends: "\<And>u. ends_of u = Some (nxt u)"
    and inv: "call_inv nxt bound W cl" and more: "cr_queue cl \<noteq> []"
  shows "(\<exists>cl'. call_pass ends_of bound cl = Inr cl' \<and> call_inv nxt bound W cl' \<and>
      (cl', cl) \<in> measure (call_work nxt (reach_from nxt W))) \<or>
    (\<exists>e. call_pass ends_of bound cl = Inl e \<and> (\<exists>cl'. e = Return cl' \<and> call_done nxt bound W (cr_visited cl')))"
proof -
  obtain u queue where q: "cr_queue cl = u # queue" using more by (cases "cr_queue cl") auto
  let ?R = "reach_from nxt W" and ?V = "cr_visited cl"
  have I: "?V \<subseteq> ?R" "u \<in> ?R" "set queue \<subseteq> ?R" "W \<subseteq> insert u (?V \<union> set queue)"
      "\<forall>v\<in>?V. set (nxt v) \<subseteq> insert u (?V \<union> set queue)" "?V = {} \<or> card ?V < bound"
    using inv by (auto simp: call_inv_def q)
  show ?thesis
  proof (cases "u \<in> ?V")
    case True
    let ?cl = "cl\<lparr>cr_queue := queue, cr_cycles := cr_cycles cl @ [u]\<rparr>"
    have "call_pass ends_of bound cl = Inr ?cl" using True by (simp add: call_pass_def q)
    moreover have "call_inv nxt bound W ?cl" using I True by (simp add: call_inv_def insert_absorb)
    moreover have "call_work nxt ?R ?cl < call_work nxt ?R cl" by (simp add: call_work_def q)
    ultimately show ?thesis by auto
  next
    case False
    define cl' where "cl' = fold call_neighbour (nxt u) (cl\<lparr>cr_queue := queue, cr_visited := insert u ?V\<rparr>)"
    have cl': "cr_visited cl' = insert u ?V" "set (cr_queue cl') = set queue \<union> (set (nxt u) - insert u ?V)"
        "length (cr_queue cl') \<le> length queue + length (nxt u)"
      using call_neighbours [of "nxt u" "cl\<lparr>cr_queue := queue, cr_visited := insert u ?V\<rparr>"] by (simp_all add: cl'_def)
    have pass: "call_pass ends_of bound cl = (if bound \<le> card (cr_visited cl') then Inl (Return cl') else Inr cl')"
      using False by (simp add: call_pass_def q ends cl'_def Let_def)
    have sub: "insert u ?V \<union> set (cr_queue cl') \<subseteq> ?R" using I(1-3) reach_from_step [OF I(2)] unfolding cl'(2) by blast
    have finV: "finite ?V" by (rule finite_subset [OF I(1) fin])
    have card: "card (insert u ?V) = Suc (card ?V)" using False finV by simp
    show ?thesis
    proof (cases "bound \<le> card (cr_visited cl')")
      case True
      then have "call_done nxt bound W (cr_visited cl')" using sub I(6) card by (auto simp: call_done_def cl'(1))
      with True show ?thesis by (simp add: pass)
    next
      case more: False
      have "call_inv nxt bound W cl'"
        unfolding call_inv_def cl'(1,2) using sub I(4,5) more unfolding cl'(1,2) by auto
      moreover have "call_work nxt ?R cl' < call_work nxt ?R cl"
      proof -
        have "(\<Sum>v\<in>?R - ?V. length (nxt v)) = length (nxt u) + (\<Sum>v\<in>?R - ?V - {u}. length (nxt v))"
          by (rule sum.remove) (use fin I(2) False in auto)
        moreover have "?R - ?V - {u} = ?R - insert u ?V" by blast
        ultimately show ?thesis using cl'(3) by (simp add: call_work_def q cl'(1))
      qed
      ultimately show ?thesis using more by (simp add: pass)
    qed
  qed
qed

lemma call_reachability_done:
  assumes fin: "finite (reach_from nxt (set queue))" and ends: "\<And>u. ends_of u = Some (nxt u)"
  shows "\<exists>cl. call_reachability ends_of bound \<lparr>cr_visited = {}, cr_queue = queue, cr_cycles = cycles\<rparr> = Some cl \<and>
    call_done nxt bound (set queue) (cr_visited cl)"
proof -
  let ?cl = "\<lparr>cr_visited = {}, cr_queue = queue, cr_cycles = cycles\<rparr>" and ?W = "set queue"
  have start: "call_inv nxt bound ?W ?cl" using reach_from_start [of ?W nxt] by (simp add: call_inv_def)
  from loop_while_total_exit [where I = "call_inv nxt bound ?W" and b = "\<lambda>cl. cr_queue cl \<noteq> []" and step = "call_pass ends_of bound"
      and r = "measure (call_work nxt (reach_from nxt ?W))" and Q = "\<lambda>e. \<exists>cl. e = Return cl \<and> call_done nxt bound ?W (cr_visited cl)",
      OF wf_measure start call_pass_step [OF fin ends]]
  consider cl where "loop_while (\<lambda>cl. cr_queue cl \<noteq> []) (call_pass ends_of bound) ?cl = Some (Inr cl)" "call_inv nxt bound ?W cl" "cr_queue cl = []"
    | cl where "loop_while (\<lambda>cl. cr_queue cl \<noteq> []) (call_pass ends_of bound) ?cl = Some (Inl (Return cl))" "call_done nxt bound ?W (cr_visited cl)"
    by blast
  then show ?thesis
  proof cases
    case 1
    then have I: "cr_visited cl \<subseteq> reach_from nxt ?W" "?W \<subseteq> cr_visited cl" "\<forall>v\<in>cr_visited cl. set (nxt v) \<subseteq> cr_visited cl"
        "cr_visited cl = {} \<or> card (cr_visited cl) < bound"
      by (simp_all add: call_inv_def)
    have "reach_from nxt ?W \<subseteq> cr_visited cl" by (rule reach_from_closed [OF I(2)]) (use I(3) in blast)
    then have "call_done nxt bound ?W (cr_visited cl)" using I(1,4) by (auto simp: call_done_def)
    with 1 show ?thesis by (simp add: call_reachability_def)
  qed (simp add: call_reachability_def)
qed

end
