(* ===== verification/Query_Dominators.thy ===== *)
theory Query_Dominators
  imports Query_Executor Dominator_Tree
begin

text \<open>
  The queries for dominators (\<^verbatim>\<open>dsl/syntax/executor/dominators.rs\<close>): the choice of a root among the functions of
  the graph, and the nodes that dominate the seeds or are dominated by them. The value None is a panic or a
  loop that does not end; the lemmas exclude both.
\<close>

section \<open>The root\<close>

fun main_root :: "'g code_graph \<Rightarrow> 'x node_data_scheme list \<Rightarrow> (nat \<times> nat) option" where
  "main_root s [] = None"
| "main_root s (node # nodes) =
     (if nd_kind node = AN_Function \<and> nd_name node = ''main''
      then (case resolve s (nd_id node) of Some idx \<Rightarrow> Some (nd_id node, idx) | None \<Rightarrow> main_root s nodes)
      else main_root s nodes)"

fun better_root :: "(nat \<times> nat \<times> nat) option \<Rightarrow> nat \<times> nat \<times> nat \<Rightarrow> nat \<times> nat \<times> nat" where
  "better_root None new = new"
| "better_root (Some (best_fan_in, best_id, best_idx)) (fan_in, func, idx) =
     (if best_fan_in < fan_in \<or> fan_in = best_fan_in \<and> func < best_id then (fan_in, func, idx)
      else (best_fan_in, best_id, best_idx))"

fun best_root :: "('g, 'x) graph_ops \<Rightarrow> 'g code_graph \<Rightarrow> 'x node_data_scheme list \<Rightarrow> (nat \<times> nat \<times> nat) option \<Rightarrow>
    (nat \<times> nat \<times> nat) option option" where
  "best_root P s [] best = Some best"
| "best_root P s (func # funcs) best = (case resolve s (nd_id func) of
     None \<Rightarrow> best_root P s funcs best
   | Some idx \<Rightarrow> Option.bind (get_edges_to P s (nd_id func)) (\<lambda>es.
       best_root P s funcs (Some (better_root best (length es, nd_id func, idx)))))"

definition pick_dominator_root :: "('g, 'x) query_env \<Rightarrow> 'g code_graph \<Rightarrow> (nat \<times> nat) option option" where
  "pick_dominator_root E s = (case main_root s (find_by_name (qe_lower E) (qe_ops E) s ''main'') of
     Some root \<Rightarrow> Some (Some root)
   | None \<Rightarrow> map_option (map_option snd) (best_root (qe_ops E) s (nodes_by_kind (qe_ops E) s AN_Function) None))"

section \<open>The queries\<close>

definition fill_nodes :: "('g, 'x) query_env \<Rightarrow> query_config \<Rightarrow> query_result \<Rightarrow> nat set \<Rightarrow> query_result" where
  "fill_nodes E config result nodes =
     (let total = card nodes; was_truncated = qc_max_nodes config < total; node_list = qe_order E nodes in
      result\<lparr>qr_nodes := (if was_truncated then take (qc_max_nodes config) node_list else node_list),
        qr_was_truncated := was_truncated, qr_total_before_truncation := total\<rparr>)"

definition noted :: "string \<Rightarrow> query_result" where
  "noted line = query_result_default\<lparr>qr_metadata := [line]\<rparr>"

text \<open>The dominators of a seed.\<close>

definition seed_dominators :: "('g, 'x) graph_ops \<Rightarrow> 'g code_graph \<Rightarrow> nat dominators \<Rightarrow> nat \<Rightarrow> nat set option" where
  "seed_dominators P s dm seed = (case resolve s seed of
     None \<Rightarrow> Some {}
   | Some seed_idx \<Rightarrow> map_option (\<lambda>chain. set (List.map_filter (node_id_for P s) chain)) (dominators_chain dm seed_idx))"

definition execute_dominators_of :: "('g, 'x) query_env \<Rightarrow> 'g code_graph \<Rightarrow> nat list \<Rightarrow> query_config \<Rightarrow> query_result option" where
  "execute_dominators_of E s seeds config = Option.bind (pick_dominator_root E s) (\<lambda>root. case root of
     None \<Rightarrow> Some (noted ''dominators: no entry node available'')
   | Some (root_id, root_idx) \<Rightarrow>
       Option.bind (dominators_build (qe_simple_fast E) (out_neighbours (qe_ops E) s) root_idx) (\<lambda>dm.
         map_option (\<lambda>found. fill_nodes E config (noted (''dominators root='' @ node_label E s root_id)) (\<Union> (set found)))
           (those (map (seed_dominators (qe_ops E) s dm) seeds))))"

text \<open>The node of a slot, if its chain meets a seed.\<close>

definition seed_dominated :: "('g, 'x) graph_ops \<Rightarrow> 'g code_graph \<Rightarrow> nat dominators \<Rightarrow> nat list \<Rightarrow> nat \<Rightarrow> nat set option" where
  "seed_dominated P s dm seed_idxs idx = map_option (\<lambda>chain.
     if list_ex (\<lambda>ancestor. ancestor \<in> set seed_idxs) chain then set_option (node_id_for P s idx) else {}) (dominators_chain dm idx)"

definition execute_dominates_of :: "('g, 'x) query_env \<Rightarrow> 'g code_graph \<Rightarrow> nat list \<Rightarrow> query_config \<Rightarrow> query_result option" where
  "execute_dominates_of E s seeds config = Option.bind (pick_dominator_root E s) (\<lambda>root. case root of
     None \<Rightarrow> Some (noted ''dominates: no entry node available'')
   | Some (root_id, root_idx) \<Rightarrow>
       Option.bind (dominators_build (qe_simple_fast E) (out_neighbours (qe_ops E) s) root_idx) (\<lambda>dm.
         let result = noted (''dominates root='' @ node_label E s root_id); seed_idxs = List.map_filter (resolve s) seeds in
         if seed_idxs = [] then Some result
         else map_option (\<lambda>found. fill_nodes E config result (\<Union> (set found)))
           (those (map (seed_dominated (qe_ops E) s dm seed_idxs) (pg_indices (qe_ops E) (cg_graph s))))))"

section \<open>The root is the main function, or the one called most\<close>

definition fan_in :: "('g, 'x) graph_ops \<Rightarrow> 'g code_graph \<Rightarrow> nat \<Rightarrow> nat" where
  "fan_in P s u = size (in_ids P s u)"

definition preferred :: "('g, 'x) graph_ops \<Rightarrow> 'g code_graph \<Rightarrow> nat \<Rightarrow> nat \<Rightarrow> bool" where
  "preferred P s u v \<longleftrightarrow> fan_in P s v < fan_in P s u \<or> fan_in P s v = fan_in P s u \<and> u \<le> v"

definition is_main :: "('g, 'x) graph_ops \<Rightarrow> 'g code_graph \<Rightarrow> nat \<Rightarrow> bool" where
  "is_main P s u \<longleftrightarrow> (\<exists>n. get_node P s u = Some n \<and> nd_kind n = AN_Function \<and> nd_name n = ''main'')"

definition dominator_root :: "('g, 'x) graph_ops \<Rightarrow> 'g code_graph \<Rightarrow> nat \<Rightarrow> bool" where
  "dominator_root P s u \<longleftrightarrow> is_main P s u \<or> (\<forall>v. \<not> is_main P s v) \<and>
     u \<in> of_kind P s {AN_Function} \<and> (\<forall>v\<in>of_kind P s {AN_Function}. preferred P s u v)"

definition best_ok :: "('g, 'x) graph_ops \<Rightarrow> 'g code_graph \<Rightarrow> nat set \<Rightarrow> (nat \<times> nat \<times> nat) option \<Rightarrow> bool" where
  "best_ok P s D best \<longleftrightarrow> (case best of None \<Rightarrow> D = {}
     | Some (f, u, i) \<Rightarrow> f = fan_in P s u \<and> resolve s u = Some i \<and> u \<in> D \<and> (\<forall>v\<in>D. preferred P s u v))"

lemma preferred_refl [simp]: "preferred P s u u"
  by (simp add: preferred_def)

lemma preferred_trans: "preferred P s u v \<Longrightarrow> preferred P s v w \<Longrightarrow> preferred P s u w"
  by (auto simp: preferred_def)

lemma better_root_ok:
  assumes "best_ok P s D best" and "resolve s u = Some i"
  shows "best_ok P s (insert u D) (Some (better_root best (fan_in P s u, u, i)))"
proof (cases best)
  case None
  then show ?thesis using assms by (simp add: best_ok_def)
next
  case (Some b)
  obtain v j where b: "b = (fan_in P s v, v, j)" "resolve s v = Some j" "v \<in> D" "\<forall>w\<in>D. preferred P s v w"
    using assms(1) Some by (cases b) (auto simp: best_ok_def)
  show ?thesis
  proof (cases "fan_in P s v < fan_in P s u \<or> fan_in P s u = fan_in P s v \<and> u < v")
    case True
    then have "preferred P s u v" by (auto simp: preferred_def)
    then have "\<forall>w\<in>insert u D. preferred P s u w" using b(4) preferred_trans by fastforce
    then show ?thesis using True assms(2) by (simp add: Some b(1) best_ok_def)
  next
    case False
    then have "preferred P s v u" by (auto simp: preferred_def)
    then show ?thesis using False b(2,3,4) by (auto simp: Some b(1) best_ok_def)
  qed
qed

lemma contains_text_self: "contains_text s s"
  by (auto simp: contains_text_def intro!: bexI [of _ 0])

lemma those_all: "\<forall>x\<in>set xs. f x = Some (g x) \<Longrightarrow> those (map f xs) = Some (map g xs)"
  by (induction xs) simp_all

context stable_graph
begin

lemma node_self: "slots_ok P ok s \<Longrightarrow> n \<in> ran (get_node P s) \<Longrightarrow> get_node P s (nd_id n) = Some n"
  using node_keys [of s] by (auto simp: ran_def)

lemma node_slot: "slots_ok P ok s \<Longrightarrow> n \<in> ran (get_node P s) \<Longrightarrow> \<exists>i. resolve s (nd_id n) = Some i"
  using node_self [of s n] resolve_get_node [of s "nd_id n"] by auto

lemma main_root_found:
  assumes s: "slots_ok P ok s"
  shows "set nodes \<subseteq> ran (get_node P s) \<Longrightarrow> (case main_root s nodes of
     None \<Rightarrow> \<forall>n\<in>set nodes. \<not> (nd_kind n = AN_Function \<and> nd_name n = ''main'')
   | Some (u, i) \<Rightarrow> is_main P s u \<and> resolve s u = Some i)"
proof (induction nodes)
  case (Cons n nodes)
  then have n: "get_node P s (nd_id n) = Some n" using node_self [OF s, of n] by simp
  obtain i where "resolve s (nd_id n) = Some i" using node_slot [OF s, of n] Cons.prems by auto
  with Cons n show ?case by (auto simp: is_main_def split: option.split_asm)
qed simp

lemma best_root_total:
  assumes s: "slots_ok P ok s"
  shows "set funcs \<subseteq> ran (get_node P s) \<Longrightarrow> best_ok P s D best \<Longrightarrow>
    \<exists>best'. best_root P s funcs best = Some best' \<and> best_ok P s (D \<union> nd_id ` set funcs) best'"
proof (induction funcs arbitrary: D best)
  case (Cons n funcs)
  obtain i where i: "resolve s (nd_id n) = Some i" using node_slot [OF s, of n] Cons.prems(1) by auto
  obtain es where es: "get_edges_to P s (nd_id n) = Some es" "mset es = in_ids P s (nd_id n)" using edges_to [OF s] by blast
  have "length es = fan_in P s (nd_id n)" unfolding fan_in_def es(2) [symmetric] by simp
  moreover have "set funcs \<subseteq> ran (get_node P s)" using Cons.prems(1) by simp
  note Cons.IH [OF this better_root_ok [OF Cons.prems(2) i]]
  ultimately show ?case by (simp add: i es(1))
qed simp

lemma pick_dominator_root_promise:
  assumes s: "slots_ok P ok s" and E: "qe_ops E = P"
  shows "\<exists>r. pick_dominator_root E s = Some r \<and> (case r of None \<Rightarrow> of_kind P s {AN_Function} = {}
   | Some (u, i) \<Rightarrow> dominator_root P s u \<and> resolve s u = Some i)"
proof -
  let ?named = "find_by_name (qe_lower E) P s ''main''" and ?funs = "nodes_by_kind P s AN_Function"
  have sub: "set ?named \<subseteq> ran (get_node P s)" "set ?funs \<subseteq> ran (get_node P s)"
    using node_weights_nodes(1) [OF s] by (auto simp: find_by_name_def nodes_by_kind_def)
  note main = main_root_found [OF s sub(1)]
  show ?thesis
  proof (cases "main_root s ?named")
    case None
    have "n \<in> set ?named" if "get_node P s u = Some n" "nd_name n = ''main''" for u n
      using that node_weights_nodes(1) [OF s] by (auto simp: find_by_name_def contains_text_self ran_def)
    then have none: "\<not> is_main P s u" for u using main None by (auto simp: is_main_def)
    obtain best where best: "best_root P s ?funs None = Some best" "best_ok P s (of_kind P s {AN_Function}) best"
      using best_root_total [OF s sub(2), of "{}" None] by (auto simp: best_ok_def nodes_by_kind_ids [OF s])
    then show ?thesis using none
      by (cases best) (auto simp: pick_dominator_root_def E None best_ok_def dominator_root_def)
  next
    case (Some root)
    then show ?thesis using main by (auto simp: pick_dominator_root_def E dominator_root_def)
  qed
qed

section \<open>The nodes found\<close>

lemma slots_strictly:
  assumes s: "slots_ok P ok s" and "r \<in> live s" "d \<in> live s" "n \<in> live s"
  shows "strictly (edges_of P s (\<lambda>_. True)) (slot_id P (cg_graph s) r) (slot_id P (cg_graph s) d) (slot_id P (cg_graph s) n) \<longleftrightarrow>
    strictly (slot_edges P s) r d n"
  unfolding slot_edges_renamed [OF s] by (rule image_strictly [OF slot_id_inj_on [OF s] slot_edges_live [OF s] assms(2-4)])

lemma strict_ends:
  assumes s: "slots_ok P ok s" and "resolve s root \<noteq> None" and "strictly (edges_of P s (\<lambda>_. True)) root d n"
  shows "resolve s d \<noteq> None" "resolve s n \<noteq> None"
proof -
  have "(root, u) \<in> (edges_of P s (\<lambda>_. True))\<^sup>* \<Longrightarrow> resolve s u \<noteq> None" for u
    by (induction rule: rtrancl_induct) (use assms(2) edges_of_live(2) [OF s] in auto)
  then show "resolve s d \<noteq> None" "resolve s n \<noteq> None"
    using assms(3) dominator_reachable by (fastforce simp: strictly_def, simp add: strictly_def dominates_in_def)
qed

lemma seed_dominators_promise:
  assumes s: "slots_ok P ok s" and r: "resolve s root = Some r" and dm: "idoms_ok (slot_edges P s) r dm"
  shows "seed_dominators P s dm seed = Some {d. strictly (edges_of P s (\<lambda>_. True)) root d seed}"
proof (cases "resolve s seed")
  case None
  then show ?thesis using strict_ends(2) [OF s, of root _ seed] r by (auto simp: seed_dominators_def)
next
  case (Some i)
  note root = resolve_live [OF s r] and i = resolve_live [OF s Some]
  let ?id = "slot_id P (cg_graph s)"
  obtain ch where ch: "dominators_chain dm i = Some ch" "set ch = {c. strictly (slot_edges P s) r c i}"
    using dominators_chain_exact [OF dm] by blast
  have sub: "set ch \<subseteq> live s"
    using slots_reachable [OF s root(1)] dominator_reachable by (fastforce simp: ch(2) strictly_def)
  have "?id ` set ch = {d. strictly (edges_of P s (\<lambda>_. True)) root d seed}"
  proof (rule set_eqI, rule iffI)
    fix d assume "d \<in> ?id ` set ch"
    then obtain c where c: "d = ?id c" "c \<in> set ch" by blast
    then show "d \<in> {d. strictly (edges_of P s (\<lambda>_. True)) root d seed}"
      using slots_strictly [OF s root(1) _ i(1), of c] sub by (auto simp: ch(2) root(2) i(2))
  next
    fix d assume d: "d \<in> {d. strictly (edges_of P s (\<lambda>_. True)) root d seed}"
    then obtain c where "resolve s d = Some c" using strict_ends(1) [OF s, of root d seed] r by auto
    from resolve_live [OF s this] have c: "c \<in> live s" "?id c = d" .
    with d have "c \<in> set ch" using slots_strictly [OF s root(1) c(1) i(1)] by (simp add: ch(2) root(2) i(2))
    with c(2) show "d \<in> ?id ` set ch" by blast
  qed
  then show ?thesis using path_ids_slots [OF sub] by (simp add: seed_dominators_def Some ch(1) path_ids_def)
qed

lemma seed_dominated_promise:
  assumes s: "slots_ok P ok s" and r: "resolve s root = Some r" and dm: "idoms_ok (slot_edges P s) r dm" and i: "i \<in> live s"
  shows "seed_dominated P s dm (List.map_filter (resolve s) seeds) i =
    Some {u. u = slot_id P (cg_graph s) i \<and> (\<exists>t\<in>set seeds. strictly (edges_of P s (\<lambda>_. True)) root t u)}"
proof -
  let ?id = "slot_id P (cg_graph s)"
  note root = resolve_live [OF s r]
  obtain ch where ch: "dominators_chain dm i = Some ch" "set ch = {c. strictly (slot_edges P s) r c i}"
    using dominators_chain_exact [OF dm] by blast
  have "(\<exists>c\<in>set ch. c \<in> set (List.map_filter (resolve s) seeds)) \<longleftrightarrow> (\<exists>t\<in>set seeds. strictly (edges_of P s (\<lambda>_. True)) root t (?id i))"
  proof
    assume "\<exists>c\<in>set ch. c \<in> set (List.map_filter (resolve s) seeds)"
    then obtain c t where c: "strictly (slot_edges P s) r c i" "t \<in> set seeds" "resolve s t = Some c"
      by (auto simp: ch(2) map_filter_def)
    then show "\<exists>t\<in>set seeds. strictly (edges_of P s (\<lambda>_. True)) root t (?id i)"
      using slots_strictly [OF s root(1) _ i, of c] resolve_live [OF s c(3)] root(2) by auto
  next
    assume "\<exists>t\<in>set seeds. strictly (edges_of P s (\<lambda>_. True)) root t (?id i)"
    then obtain t where t: "t \<in> set seeds" "strictly (edges_of P s (\<lambda>_. True)) root t (?id i)" by blast
    then obtain c where c: "resolve s t = Some c" using strict_ends(1) [OF s, of root t] r by auto
    then have "c \<in> set ch" using t(2) slots_strictly [OF s root(1) _ i, of c] resolve_live [OF s c] root(2) by (simp add: ch(2))
    with t(1) c show "\<exists>c\<in>set ch. c \<in> set (List.map_filter (resolve s) seeds)" by (force simp: map_filter_def)
  qed
  then show ?thesis by (auto simp: seed_dominated_def ch(1) list_ex_iff node_id_for_slot [OF i])
qed

lemma dominators_built:
  assumes s: "slots_ok P ok s" and a: "algorithm_ok algorithm P s" and r: "r \<in> live s"
  shows "\<exists>dm. dominators_build algorithm (out_neighbours P s) r = Some dm \<and> idoms_ok (slot_edges P s) r dm"
proof (rule dominators_build_total)
  show "simple_fast_ok (slot_edges P s) r (algorithm (out_neighbours P s) r)" using a r by (auto simp: algorithm_ok_def)
  show "finite {x. (r, x) \<in> (slot_edges P s)\<^sup>*}" by (rule finite_subset [OF slots_reachable [OF s r] live_finite [OF s]])
qed

end

end
