(* ===== verification/Query_Plan.thy ===== *)
theory Query_Plan
  imports Query_Syntax
begin

text \<open>
  The rewriting of queries before they run (\<^verbatim>\<open>dsl/plan.rs\<close>): the fusion of repeated callers and
  callees, the hoisting of filters, the order of the sides of an intersection, and the schedule.
  The counters of the score stay far below the bounds of their 32 bits and are integers here.
\<close>

section \<open>Plans\<close>

datatype schedule_strategy = Push | Pull | Auto

record schedule =
  sch_strategy :: schedule_strategy
  sch_parallel :: bool

definition schedule_default :: schedule where
  "schedule_default = \<lparr>sch_strategy = Auto, sch_parallel = False\<rparr>"

datatype plan = Pipe_plan (plan_ops: "dsl_op list") schedule | Expr_plan (plan_expr: expr) schedule

section \<open>Fusion\<close>

definition saturating_mul :: "nat \<Rightarrow> nat \<Rightarrow> nat" where
  "saturating_mul m n = min (m * n) (2 ^ 64 - 1)"

lemma dropWhile_shorter: "length (dropWhile P xs) \<le> length xs"
  by (induction xs) auto

lemma dropWhile_tail: "dropWhile P xs = y # ys \<Longrightarrow> length ys < length xs"
  using dropWhile_shorter [of P xs] by simp

text \<open>A run of callers, or of callees, becomes one and a depth.\<close>

function fuse_depths :: "dsl_op list \<Rightarrow> dsl_op list" where
  "fuse_depths [] = []"
| "fuse_depths (op # ops) =
     (if op = Callers \<or> op = Callees then
        let count = Suc (length (takeWhile (\<lambda>x. x = op) ops)); rest = dropWhile (\<lambda>x. x = op) ops in
        op # (case rest of
            Depth n # rest' \<Rightarrow> Depth (saturating_mul count n) # fuse_depths rest'
          | _ \<Rightarrow> if 1 < count then Depth count # fuse_depths rest else fuse_depths rest)
      else op # fuse_depths ops)"
  by pat_completeness auto

termination
  by (relation "measure length") (auto simp: less_Suc_eq_le dropWhile_shorter dest!: dropWhile_tail dropWhile_tail [OF sym])

section \<open>Hoisting\<close>

fun is_pure_filter :: "dsl_op \<Rightarrow> bool" where
  "is_pure_filter (Filter _) = True"
| "is_pure_filter (Since _) = True"
| "is_pure_filter _ = False"

fun can_swap_filter_with :: "dsl_op \<Rightarrow> bool" where
  "can_swap_filter_with Callers = True"
| "can_swap_filter_with Callees = True"
| "can_swap_filter_with (Depth _) = True"
| "can_swap_filter_with _ = False"

text \<open>One step and one pass of the loop over the positions, and the passes that are left.\<close>

definition swap_at :: "nat \<Rightarrow> dsl_op list \<times> bool \<Rightarrow> dsl_op list \<times> bool" where
  "swap_at i st = (let (ops, changed) = st in
     if is_pure_filter (ops ! i) \<and> can_swap_filter_with (ops ! (i - 1))
     then (ops[i - 1 := ops ! i, i := ops ! (i - 1)], True) else (ops, changed))"

definition push_pass :: "dsl_op list \<Rightarrow> dsl_op list \<times> bool" where
  "push_pass ops = fold swap_at [1..<length ops] (ops, False)"

fun push_passes :: "nat \<Rightarrow> dsl_op list \<Rightarrow> dsl_op list" where
  "push_passes 0 ops = ops"
| "push_passes (Suc passes) ops =
     (let (ops', changed) = push_pass ops in if changed then push_passes passes ops' else ops')"

definition push_filters_down :: "dsl_op list \<Rightarrow> dsl_op list" where
  "push_filters_down ops = (if length ops < 2 then ops else push_passes (length ops) ops)"

section \<open>Schedules\<close>

fun first_depth :: "dsl_op list \<Rightarrow> nat option" where
  "first_depth [] = None"
| "first_depth (Depth n # ops) = Some n"
| "first_depth (op # ops) = first_depth ops"

fun is_expansion :: "dsl_op \<Rightarrow> bool" where
  "is_expansion Callers = True"
| "is_expansion Callees = True"
| "is_expansion (Taint _) = True"
| "is_expansion Preconditions = True"
| "is_expansion _ = False"

definition pick_schedule_for_pipe :: "dsl_op list \<Rightarrow> schedule" where
  "pick_schedule_for_pipe ops =
     (let depth = (case first_depth ops of Some n \<Rightarrow> n | None \<Rightarrow> 1); has_expansion = list_ex is_expansion ops in
      \<lparr>sch_strategy = (if \<not> has_expansion then Push else if 3 \<le> depth then Auto else Push), sch_parallel = False\<rparr>)"

definition optimise_pipe :: "dsl_op list \<Rightarrow> plan" where
  "optimise_pipe ops = (let ops = push_filters_down (fuse_depths ops) in Pipe_plan ops (pick_schedule_for_pipe ops))"

section \<open>Expressions\<close>

fun op_score :: "dsl_op \<Rightarrow> int" where
  "op_score (Filter _) = - 2"
| "op_score (Since _) = - 2"
| "op_score Untested = - 2"
| "op_score PossibleTypes = - 2"
| "op_score CoChanges = - 2"
| "op_score Communities = - 2"
| "op_score Complexity = - 2"
| "op_score (Hot _) = - 2"
| "op_score (SelectFn _) = - 1"
| "op_score (SelectType _) = - 1"
| "op_score Callers = 1"
| "op_score Callees = 1"
| "op_score _ = 0"

fun expr_filter_score :: "expr \<Rightarrow> int" where
  "expr_filter_score (Pipe ops) = sum_list (map op_score ops)"
| "expr_filter_score (PipeFrom base ops) = sum_list (map op_score ops)"
| "expr_filter_score (Entrypoints _) = 5"
| "expr_filter_score (SetOp _ left right) = min (expr_filter_score left) (expr_filter_score right)"
| "expr_filter_score (DominatorsOf _) = 2"
| "expr_filter_score (DominatesOf _) = 2"
| "expr_filter_score (TraitImplsOf _) = 2"
| "expr_filter_score (PathQuery _ _ _ _ _ _) = 1"
| "expr_filter_score (MultiPath _ _ _) = 1"

fun rewrite_expr :: "expr \<Rightarrow> expr" where
  "rewrite_expr (SetOp op left right) =
     (let l = rewrite_expr left; r = rewrite_expr right in
      if op = SetIntersect \<and> expr_filter_score r < expr_filter_score l then SetOp op r l else SetOp op l r)"
| "rewrite_expr (Pipe ops) = Pipe (push_filters_down (fuse_depths ops))"
| "rewrite_expr (PipeFrom base ops) = PipeFrom (rewrite_expr base) (push_filters_down (fuse_depths ops))"
| "rewrite_expr (DominatorsOf inner) = DominatorsOf (rewrite_expr inner)"
| "rewrite_expr (DominatesOf inner) = DominatesOf (rewrite_expr inner)"
| "rewrite_expr (TraitImplsOf inner) = TraitImplsOf (rewrite_expr inner)"
| "rewrite_expr (PathQuery mode source target kind via depth) = PathQuery mode (rewrite_expr source) (rewrite_expr target) kind via depth"
| "rewrite_expr (MultiPath sources target depth) = MultiPath (map rewrite_expr sources) (rewrite_expr target) depth"
| "rewrite_expr (Entrypoints k) = Entrypoints k"

definition optimise_expr :: "expr \<Rightarrow> plan" where
  "optimise_expr e = Expr_plan (rewrite_expr e) schedule_default"

section \<open>Hoisting is a stable partition\<close>

text \<open>One pass as a recursion.\<close>

fun bubble :: "dsl_op list \<Rightarrow> dsl_op list \<times> bool" where
  "bubble (x # y # ys) =
     (if is_pure_filter y \<and> can_swap_filter_with x then (y # fst (bubble (x # ys)), True)
      else (x # fst (bubble (y # ys)), snd (bubble (y # ys))))"
| "bubble xs = (xs, False)"

lemma swap_at_middle:
  "swap_at (Suc (length pre)) (pre @ x # y # ys, c) =
     (if is_pure_filter y \<and> can_swap_filter_with x then (pre @ y # x # ys, True) else (pre @ x # y # ys, c))"
  by (simp add: swap_at_def nth_append list_update_append)

lemma push_steps:
  "fold swap_at [Suc (length pre)..<Suc (length pre) + length ys] (pre @ x # ys, c) =
     (pre @ fst (bubble (x # ys)), c \<or> snd (bubble (x # ys)))"
proof (induction ys arbitrary: pre x c)
  case (Cons y ys)
  have range: "[Suc (length pre)..<Suc (length pre) + length (y # ys)] =
      Suc (length pre) # [Suc (Suc (length pre))..<Suc (Suc (length pre)) + length ys]"
    using upt_conv_Cons [of "Suc (length pre)" "Suc (length pre) + length (y # ys)"] by simp
  show ?case
  proof (cases "is_pure_filter y \<and> can_swap_filter_with x")
    case True
    with Cons.IH [of "pre @ [y]" x True] show ?thesis unfolding range by (simp add: swap_at_middle del: upt_Suc)
  next
    case False
    with Cons.IH [of "pre @ [x]" y c] show ?thesis unfolding range by (auto simp: swap_at_middle simp del: upt_Suc)
  qed
qed simp

lemma push_pass_bubble: "push_pass ops = bubble ops"
proof (cases ops)
  case (Cons x ys)
  then have len: "length ops = Suc (length ([] :: dsl_op list)) + length ys" "1 = Suc (length ([] :: dsl_op list))" by simp_all
  have "push_pass ops = fold swap_at [Suc (length ([] :: dsl_op list))..<Suc (length ([] :: dsl_op list)) + length ys] ([] @ x # ys, False)"
    unfolding push_pass_def by (subst len(1), subst len(2)) (simp only: Cons append_Nil)
  then show ?thesis unfolding push_steps by (simp add: Cons)
qed (simp add: push_pass_def)

text \<open>For each filter, the operations it can still hop past; a pass takes one from each.\<close>

fun hops_left :: "nat \<Rightarrow> dsl_op list \<Rightarrow> nat list" where
  "hops_left c [] = []"
| "hops_left c (x # xs) =
     (if is_pure_filter x then c # hops_left c xs
      else if can_swap_filter_with x then hops_left (Suc c) xs else hops_left 0 xs)"

lemma not_both: "is_pure_filter x \<Longrightarrow> \<not> can_swap_filter_with x"
  by (cases x) simp_all

lemma hops_left_bubble_from:
  "(is_pure_filter x \<longrightarrow> c = 0) \<Longrightarrow> hops_left c (fst (bubble (x # ys))) = map (\<lambda>v. v - 1) (hops_left c (x # ys))"
proof (induction ys arbitrary: x c)
  case (Cons y ys)
  show ?case
  proof (cases "is_pure_filter y \<and> can_swap_filter_with x")
    case True
    then show ?thesis using Cons.IH [of x c] by (auto dest: not_both)
  next
    case False
    then show ?thesis using Cons.IH [of y "Suc c"] Cons.IH [of y 0] Cons.prems by auto
  qed
qed auto

lemma hops_left_bubble: "hops_left 0 (fst (bubble ops)) = map (\<lambda>v. v - 1) (hops_left 0 ops)"
  using hops_left_bubble_from [of _ 0] by (cases ops) auto

lemma bubble_unchanged: "\<not> snd (bubble ops) \<Longrightarrow> fst (bubble ops) = ops"
  by (induction ops rule: bubble.induct) (auto split: if_splits)

lemma bubble_changed: "\<forall>v\<in>set (hops_left c ops). v = 0 \<Longrightarrow> \<not> snd (bubble ops)"
proof (induction ops arbitrary: c rule: bubble.induct)
  case (1 x y ys)
  then have still: "\<not> (is_pure_filter y \<and> can_swap_filter_with x)" by (auto dest: not_both split: if_splits)
  obtain c' where "\<forall>v\<in>set (hops_left c' (y # ys)). v = 0"
    using "1.prems" by (cases "is_pure_filter x"; cases "can_swap_filter_with x") (auto simp del: hops_left.simps(2) simp: hops_left.simps(2) [of _ x])
  with "1.IH"(2) [OF still] still show ?case by simp
qed simp_all

text \<open>The reference: in each run of filters and expansions, the filters first, each in its order.\<close>

definition movable :: "dsl_op \<Rightarrow> bool" where
  "movable x \<longleftrightarrow> is_pure_filter x \<or> can_swap_filter_with x"

function hoist :: "dsl_op list \<Rightarrow> dsl_op list" where
  "hoist ops = (let run = takeWhile movable ops in
     filter is_pure_filter run @ filter can_swap_filter_with run @
     (case dropWhile movable ops of [] \<Rightarrow> [] | x # rest \<Rightarrow> x # hoist rest))"
  by pat_completeness auto
termination by (relation "measure length") (auto simp: less_Suc_eq_le dest!: dropWhile_tail dropWhile_tail [OF sym]) 

declare hoist.simps [simp del]

text \<open>The same with the filters and the expansions of the current run collected on the way.\<close>

fun hoist_from :: "dsl_op list \<Rightarrow> dsl_op list \<Rightarrow> dsl_op list \<Rightarrow> dsl_op list" where
  "hoist_from fs xs [] = fs @ xs"
| "hoist_from fs xs (x # ops) =
     (if is_pure_filter x then hoist_from (fs @ [x]) xs ops
      else if can_swap_filter_with x then hoist_from fs (xs @ [x]) ops
      else fs @ xs @ x # hoist_from [] [] ops)"

lemma hoist_from_run:
  "hoist_from fs xs ops = (let run = takeWhile movable ops in
     fs @ filter is_pure_filter run @ xs @ filter can_swap_filter_with run @
     (case dropWhile movable ops of [] \<Rightarrow> [] | x # rest \<Rightarrow> x # hoist_from [] [] rest))"
  by (induction fs xs ops rule: hoist_from.induct) (auto simp: movable_def Let_def dest: not_both)

lemma hoist_hoist_from: "hoist ops = hoist_from [] [] ops"
proof (induction ops rule: hoist.induct)
  case (1 ops)
  show ?case
  proof (cases "dropWhile movable ops")
    case (Cons x rest)
    from "1.IH" [OF refl Cons] show ?thesis
      by (subst hoist.simps, subst hoist_from_run) (simp add: Let_def Cons)
  next
    case Nil
    show ?thesis by (subst hoist.simps, subst hoist_from_run) (simp only: Let_def Nil list.case append_Nil)
  qed
qed

lemma hoist_from_bubble: "hoist_from fs xs (fst (bubble ops)) = hoist_from fs xs ops"
proof (induction ops arbitrary: fs xs rule: bubble.induct)
  case (1 x y ys)
  then show ?case by (auto dest: not_both)
qed simp_all

lemma hoist_from_done: "\<forall>v\<in>set (hops_left (length xs) ops). v = 0 \<Longrightarrow> hoist_from fs xs ops = fs @ xs @ ops"
proof (induction ops arbitrary: fs xs)
  case (Cons x ops)
  consider (filter) "is_pure_filter x" | (hop) "\<not> is_pure_filter x" "can_swap_filter_with x" | (other) "\<not> is_pure_filter x" "\<not> can_swap_filter_with x"
    by blast
  then show ?case
  proof cases
    case filter
    then show ?thesis using Cons.prems Cons.IH [of "[]" "fs @ [x]"] by simp
  next
    case hop
    then show ?thesis using Cons.prems Cons.IH [of "xs @ [x]" fs] by simp
  next
    case other
    then show ?thesis using Cons.prems Cons.IH [of "[]" "[]"] by simp
  qed
qed simp

lemma hops_left_bound: "v \<in> set (hops_left c ops) \<Longrightarrow> v \<le> c + length ops"
  by (induction ops arbitrary: c) (fastforce split: if_splits)+

lemma push_passes_hoist: "\<forall>v\<in>set (hops_left 0 ops). v \<le> n \<Longrightarrow> push_passes n ops = hoist ops"
proof (induction n arbitrary: ops)
  case 0
  then show ?case using hoist_from_done [of "[]" ops "[]"] by (simp add: hoist_hoist_from)
next
  case (Suc n)
  have same: "hoist (fst (bubble ops)) = hoist ops" by (simp add: hoist_hoist_from hoist_from_bubble)
  have less: "\<forall>v\<in>set (hops_left 0 (fst (bubble ops))). v \<le> n" using Suc.prems by (auto simp: hops_left_bubble)
  show ?case
  proof (cases "snd (bubble ops)")
    case True
    with Suc.IH [OF less] same show ?thesis by (simp add: push_pass_bubble case_prod_beta')
  next
    case False
    note still = bubble_unchanged [OF False]
    have "map (\<lambda>v. v - 1) (hops_left 0 ops) = map (\<lambda>v. v) (hops_left 0 ops)" using hops_left_bubble [of ops] by (simp add: still)
    then have "\<forall>v\<in>set (hops_left 0 ops). v - 1 = v" unfolding map_eq_conv .
    then have "\<forall>v\<in>set (hops_left 0 ops). v = 0" by fastforce
    then have "hoist ops = ops" using hoist_from_done [of "[]" ops "[]"] by (simp add: hoist_hoist_from)
    with False still show ?thesis by (simp add: push_pass_bubble case_prod_beta')
  qed
qed

lemma push_filters_down_hoist: "push_filters_down ops = hoist ops"
proof (cases "length ops < 2")
  case True
  then have "\<forall>v\<in>set (hops_left 0 ops). v = 0" by (cases ops) auto
  then show ?thesis using True hoist_from_done [of "[]" ops "[]"] by (simp add: push_filters_down_def hoist_hoist_from)
next
  case False
  have "\<forall>v\<in>set (hops_left 0 ops). v \<le> length ops" using hops_left_bound [of _ 0 ops] by simp
  with False show ?thesis using push_passes_hoist by (simp add: push_filters_down_def)
qed

end
