(* ===== verification/Expression_Executor.thy ===== *)
theory Expression_Executor
  imports Query_Executor Query_Dominators Query_Plan Query_Expressions Entry_Points
begin

text \<open>
  Path queries, set operations and the composition of expressions (\<^verbatim>\<open>path_search.rs\<close>,
  \<^verbatim>\<open>path_query.rs\<close>, \<^verbatim>\<open>multi_path.rs\<close>, \<^verbatim>\<open>set.rs\<close>, \<^verbatim>\<open>entrypoints.rs\<close>, \<^verbatim>\<open>trait_impls.rs\<close>,
  \<^verbatim>\<open>expr.rs\<close> of the executor).
\<close>

section \<open>All simple paths\<close>

record simple_search =
  sp_results :: "nat list list"
  sp_emitted :: "nat set"

definition emit_path :: "nat list \<Rightarrow> simple_search \<Rightarrow> simple_search" where
  "emit_path stack st = st\<lparr>sp_results := sp_results st @ [stack], sp_emitted := sp_emitted st \<union> set stack\<rparr>"

text \<open>The loop over the neighbours; \<open>dfs\<close> is the recursive call.\<close>

fun simple_loop :: "(nat \<Rightarrow> simple_search \<Rightarrow> simple_search option) \<Rightarrow> nat \<Rightarrow> nat set \<Rightarrow> nat list \<Rightarrow> simple_search \<Rightarrow> simple_search option" where
  "simple_loop dfs budget on_stack [] st = Some st"
| "simple_loop dfs budget on_stack (v # vs) st =
     (if v \<in> on_stack then simple_loop dfs budget on_stack vs st
      else Option.bind (dfs v st) (\<lambda>st.
        if budget \<le> card (sp_emitted st) then Some st else simple_loop dfs budget on_stack vs st))"

text \<open>The length of the stack is bounded, so the recursion is on what is left of the bound.\<close>

fun simple_dfs ::
    "(nat \<Rightarrow> nat list option) \<Rightarrow> nat \<Rightarrow> nat \<Rightarrow> nat \<Rightarrow> nat \<Rightarrow> nat list \<Rightarrow> nat set \<Rightarrow> simple_search \<Rightarrow> simple_search option" where
  "simple_dfs nbrs target budget 0 u stack on_stack st = Some st"
| "simple_dfs nbrs target budget (Suc left) u stack on_stack st =
     (if u = target then Some (emit_path stack st)
      else if budget \<le> card (sp_emitted st) then Some st
      else Option.bind (nbrs u) (\<lambda>vs.
        simple_loop (\<lambda>v st. simple_dfs nbrs target budget left v (stack @ [v]) (insert v on_stack) st) budget on_stack vs st))"

definition edge_targets :: "('g, 'x) graph_ops \<Rightarrow> 'g code_graph \<Rightarrow> nat \<Rightarrow> nat list option" where
  "edge_targets P s u = map_option (map fst) (get_edges_from P s u)"

text \<open>\<^verbatim>\<open>max_depth + 1\<close> wraps around, so no stack is short enough for the greatest depth.\<close>

definition all_simple_paths_bounded :: "('g, 'x) graph_ops \<Rightarrow> 'g code_graph \<Rightarrow> nat \<Rightarrow> nat \<Rightarrow> nat \<Rightarrow> nat \<Rightarrow> nat list list option" where
  "all_simple_paths_bounded P s source target max_depth node_budget =
     map_option sp_results (simple_dfs (edge_targets P s) target node_budget (Suc max_depth mod 2 ^ 64) source [source] {source}
       \<lparr>sp_results = [], sp_emitted = {}\<rparr>)"

section \<open>Path queries\<close>

text \<open>The edges of a path with the kind of the first edge between its ends; the set of the edges emitted is
  the set of the edges listed.\<close>

definition edge_text :: "('g, 'x) query_env \<Rightarrow> 'g code_graph \<Rightarrow> nat \<Rightarrow> nat \<Rightarrow> string option" where
  "edge_text E s u v = map_option (\<lambda>es. case List.find (\<lambda>x. fst x = v) es of
       Some x \<Rightarrow> qe_debug_kind E (ed_kind (snd x)) | None \<Rightarrow> ''UnknownEdge'') (get_edges_from (qe_ops E) s u)"

record path_hits =
  ph_nodes :: "nat set"
  ph_edges :: "(nat \<times> nat \<times> string) list"

fun add_path :: "('g, 'x) query_env \<Rightarrow> 'g code_graph \<Rightarrow> nat list \<Rightarrow> path_hits \<Rightarrow> path_hits option" where
  "add_path E s [] st = Some st"
| "add_path E s [u] st = Some (st\<lparr>ph_nodes := insert u (ph_nodes st)\<rparr>)"
| "add_path E s (u # v # path) st = Option.bind (edge_text E s u v) (\<lambda>kind.
     add_path E s (v # path) (st\<lparr>ph_nodes := insert u (ph_nodes st),
       ph_edges := (if (u, v, kind) \<in> set (ph_edges st) then ph_edges st else ph_edges st @ [(u, v, kind)])\<rparr>))"

definition intermediates_ok :: "('g, 'x) query_env \<Rightarrow> 'g code_graph \<Rightarrow> analysis_node_kind \<Rightarrow> nat list \<Rightarrow> bool" where
  "intermediates_ok E s kind path \<longleftrightarrow> length path \<le> 2 \<or> list_all (node_holds E s (\<lambda>n. nd_kind n = kind)) (butlast (tl path))"

fun via_found :: "('g, 'x) query_env \<Rightarrow> 'g code_graph \<Rightarrow> analysis_edge_kind \<Rightarrow> nat list \<Rightarrow> bool option" where
  "via_found E s required (u # v # path) = Option.bind (get_edges_from (qe_ops E) s u) (\<lambda>es.
     if list_ex (\<lambda>(w, e). w = v \<and> same_discriminant (ed_kind e) required) es then Some True
     else via_found E s required (v # path))"
| "via_found E s required path = Some False"

definition path_matches_filters ::
    "('g, 'x) query_env \<Rightarrow> 'g code_graph \<Rightarrow> analysis_node_kind option \<Rightarrow> analysis_edge_kind option \<Rightarrow> nat list \<Rightarrow> bool option" where
  "path_matches_filters E s intermediate_kind via_edge path =
     (if (case intermediate_kind of None \<Rightarrow> False | Some kind \<Rightarrow> \<not> intermediates_ok E s kind path) then Some False
      else case via_edge of None \<Rightarrow> Some True | Some required \<Rightarrow> via_found E s required path)"

text \<open>The three loops are left by a break when the nodes reach the bound (Return), or by a panic (Fail).\<close>

type_synonym path_loop = "((unit, path_hits) exit, path_hits) result"

definition take_path :: "('g, 'x) query_env \<Rightarrow> 'g code_graph \<Rightarrow> query_config \<Rightarrow> (nat list \<Rightarrow> bool option) \<Rightarrow> nat list \<Rightarrow> path_hits \<Rightarrow> path_loop" where
  "take_path E s config wanted path st = (case wanted path of
     None \<Rightarrow> Inl (Fail ())
   | Some False \<Rightarrow> Inr st
   | Some True \<Rightarrow> (case add_path E s path st of
       None \<Rightarrow> Inl (Fail ())
     | Some st \<Rightarrow> if qc_max_nodes config \<le> card (ph_nodes st) then Inl (Return st) else Inr st))"

text \<open>What follows a loop that was left by a break or ended: the test for the bound again.\<close>

definition after_loop :: "query_config \<Rightarrow> path_loop \<Rightarrow> path_loop" where
  "after_loop config r = (case r of
     Inl (Fail _) \<Rightarrow> Inl (Fail ())
   | Inl (Return st) \<Rightarrow> (if qc_max_nodes config \<le> card (ph_nodes st) then Inl (Return st) else Inr st)
   | Inr st \<Rightarrow> (if qc_max_nodes config \<le> card (ph_nodes st) then Inl (Return st) else Inr st))"

definition candidate_paths :: "('g, 'x) query_env \<Rightarrow> 'g code_graph \<Rightarrow> query_config \<Rightarrow> path_mode \<Rightarrow> nat \<Rightarrow> nat \<Rightarrow> nat \<Rightarrow> nat list list option" where
  "candidate_paths E s config mode max_depth src dst = (case mode of
     Shortest \<Rightarrow> map_option (\<lambda>r. case r of None \<Rightarrow> [] | Some path \<Rightarrow> [path]) (Graph_Paths.find_path (qe_ops E) s src dst max_depth)
   | AllSimple \<Rightarrow> all_simple_paths_bounded (qe_ops E) s src dst max_depth (qc_max_nodes config))"

definition path_pairs ::
    "('g, 'x) query_env \<Rightarrow> 'g code_graph \<Rightarrow> query_config \<Rightarrow> path_mode \<Rightarrow> nat \<Rightarrow> (nat list \<Rightarrow> bool option) \<Rightarrow> nat list \<Rightarrow> nat list \<Rightarrow> path_hits \<Rightarrow> path_loop" where
  "path_pairs E s config mode max_depth wanted srcs dsts =
     for_each (\<lambda>src st. after_loop config (for_each (\<lambda>dst st. after_loop config (case candidate_paths E s config mode max_depth src dst of
         None \<Rightarrow> Inl (Fail ())
       | Some paths \<Rightarrow> for_each (take_path E s config wanted) paths st)) dsts st)) srcs"

definition leave_loop :: "path_loop \<Rightarrow> path_hits option" where
  "leave_loop r = (case r of Inl (Fail _) \<Rightarrow> None | Inl (Return st) \<Rightarrow> Some st | Inr st \<Rightarrow> Some st)"

text \<open>As many nodes as the bound, in the order of the hash set.\<close>

definition bounded_result :: "('g, 'x) query_env \<Rightarrow> query_config \<Rightarrow> nat set \<Rightarrow> (nat \<times> nat \<times> string) list \<Rightarrow> string list \<Rightarrow> query_result" where
  "bounded_result E config nodes edges metadata =
     (let total = card nodes; was_truncated = qc_max_nodes config < total; node_list = qe_order E nodes in
      \<lparr>qr_nodes = (if was_truncated then take (qc_max_nodes config) node_list else node_list), qr_edges = edges,
       qr_was_truncated = was_truncated, qr_total_before_truncation = total, qr_cycles_detected = [], qr_metadata = metadata\<rparr>)"

definition execute_path_query ::
    "('g, 'x) query_env \<Rightarrow> 'g code_graph \<Rightarrow> query_config \<Rightarrow> path_mode \<Rightarrow> analysis_node_kind option \<Rightarrow> analysis_edge_kind option \<Rightarrow>
     nat option \<Rightarrow> query_result \<Rightarrow> query_result \<Rightarrow> query_result option" where
  "execute_path_query E s config mode intermediate_kind via_edge max_depth from_set to_set =
     map_option (\<lambda>st. bounded_result E config (ph_nodes st) (ph_edges st) [])
       (leave_loop (path_pairs E s config mode (case max_depth of None \<Rightarrow> 32 | Some n \<Rightarrow> n)
         (path_matches_filters E s intermediate_kind via_edge) (qr_nodes from_set) (qr_nodes to_set) \<lparr>ph_nodes = {}, ph_edges = []\<rparr>))"

section \<open>Paths from several sources\<close>

definition name_of :: "('g, 'x) query_env \<Rightarrow> 'g code_graph \<Rightarrow> nat \<Rightarrow> string" where
  "name_of E s u = (case get_node (qe_ops E) s u of None \<Rightarrow> [] | Some n \<Rightarrow> nd_name n)"

text \<open>\<^verbatim>\<open>path[0]\<close> panics on an empty path.\<close>

fun multi_path_loop ::
    "('g, 'x) query_env \<Rightarrow> 'g code_graph \<Rightarrow> query_config \<Rightarrow> nat \<Rightarrow> nat list \<Rightarrow> nat list \<Rightarrow> path_hits \<times> string list \<Rightarrow>
     (path_hits \<times> string list) option" where
  "multi_path_loop E s config depth srcs [] st = Some st"
| "multi_path_loop E s config depth srcs (target # targets) st =
     (case find_path_multi_source (qe_ops E) s srcs target depth of
        None \<Rightarrow> None
      | Some None \<Rightarrow> multi_path_loop E s config depth srcs targets st
      | Some (Some []) \<Rightarrow> None
      | Some (Some (u # path)) \<Rightarrow> Option.bind (add_path E s (u # path) (fst st)) (\<lambda>hits.
          let metadata = snd st @ [''multi_path source='' @ qe_debug_text E (name_of E s u) @ '' to='' @ name_of E s target @
                '' len='' @ decimal (Suc (length path))] in
          if qc_max_nodes config \<le> card (ph_nodes hits) then Some (hits, metadata)
          else multi_path_loop E s config depth srcs targets (hits, metadata)))"

definition execute_multi_path ::
    "('g, 'x) query_env \<Rightarrow> 'g code_graph \<Rightarrow> query_config \<Rightarrow> nat option \<Rightarrow> query_result list \<Rightarrow> query_result \<Rightarrow> query_result option" where
  "execute_multi_path E s config max_depth results to_set =
     map_option (\<lambda>(hits, metadata). bounded_result E config (ph_nodes hits) (ph_edges hits) metadata)
       (multi_path_loop E s config (case max_depth of None \<Rightarrow> 32 | Some n \<Rightarrow> n) (qe_order E (\<Union> (set (map (set \<circ> qr_nodes) results))))
         (qr_nodes to_set) (\<lparr>ph_nodes = {}, ph_edges = []\<rparr>, []))"

section \<open>Entry points and implementors\<close>

fun from_analysis :: "analysis_entrypoint \<Rightarrow> entrypoint_kind" where
  "from_analysis EP_Main = Main"
| "from_analysis EP_PublicApi = PublicApi"
| "from_analysis EP_Test = Test"
| "from_analysis EP_Bench = Bench"
| "from_analysis EP_FfiExport = FfiExport"

fun entrypoint_debug :: "entrypoint_kind \<Rightarrow> string" where
  "entrypoint_debug Main = ''Main''"
| "entrypoint_debug PublicApi = ''PublicApi''"
| "entrypoint_debug Test = ''Test''"
| "entrypoint_debug Bench = ''Bench''"
| "entrypoint_debug FfiExport = ''FfiExport''"

definition execute_entrypoints :: "('g, 'x) query_env \<Rightarrow> 'g code_graph \<Rightarrow> entrypoint_kind option \<Rightarrow> query_config \<Rightarrow> query_result option" where
  "execute_entrypoints E s kind_filter config = map_option (\<lambda>summaries.
     let wanted = filter (\<lambda>x. case kind_filter of None \<Rightarrow> True | Some want \<Rightarrow> from_analysis (es_kind x) = want) summaries;
         nodes = map es_node_id wanted; total = length nodes; was_truncated = qc_max_nodes config < total in
     \<lparr>qr_nodes = (if was_truncated then take (qc_max_nodes config) nodes else nodes), qr_edges = [], qr_was_truncated = was_truncated,
      qr_total_before_truncation = total, qr_cycles_detected = [],
      qr_metadata = map (\<lambda>x. entrypoint_debug (from_analysis (es_kind x)) @ '' '' @ node_label E s (es_node_id x) @ '' fan_in='' @
        decimal (es_fan_in x) @ '' fan_out='' @ decimal (es_fan_out x) @ '' reach='' @ decimal (es_reach_size x)) wanted\<rparr>)
     (classify_entrypoints (qe_ops E) s)"

definition execute_trait_impls_of :: "('g, 'x) query_env \<Rightarrow> 'g code_graph \<Rightarrow> nat list \<Rightarrow> query_config \<Rightarrow> query_result" where
  "execute_trait_impls_of E s seeds config =
     (let wanted = filter (\<lambda>h. th_trait_id h \<in> set seeds) (trait_hierarchies (qe_ops E) s) in
      bounded_result E config (\<Union> (set (map th_direct_impls wanted))) []
        (map (\<lambda>h. ''trait_impls '' @ node_label E s (th_trait_id h) @ '' count='' @ decimal (card (th_direct_impls h)) @ '' impls=['' @
           some_names E s (sorted_list_of_set (th_direct_impls h)) @ '']'') wanted))"

section \<open>Set operations and expressions\<close>

definition combine_set_op :: "('g, 'x) query_env \<Rightarrow> set_op \<Rightarrow> query_result \<Rightarrow> query_result \<Rightarrow> nat \<Rightarrow> query_result" where
  "combine_set_op E op left_result right_result max_nodes =
     (let left_nodes = set (qr_nodes left_result); right_nodes = set (qr_nodes right_result);
          merged = qe_order E (case op of SetUnion \<Rightarrow> left_nodes \<union> right_nodes | SetIntersect \<Rightarrow> left_nodes \<inter> right_nodes
            | SetDiff \<Rightarrow> left_nodes - right_nodes);
          total = length merged; was_truncated = max_nodes < total in
      \<lparr>qr_nodes = (if was_truncated then take max_nodes merged else merged), qr_edges = [], qr_was_truncated = was_truncated,
       qr_total_before_truncation = total, qr_cycles_detected = [], qr_metadata = []\<rparr>)"

fun execute_expr :: "('g, 'x) query_env \<Rightarrow> 'g code_graph \<Rightarrow> query_config \<Rightarrow> expr \<Rightarrow> query_result option" where
  "execute_expr E s config (Pipe ops) = execute E s ops config"
| "execute_expr E s config (Entrypoints kind_filter) = execute_entrypoints E s kind_filter config"
| "execute_expr E s config (PathQuery mode source target kind via depth) =
     Option.bind (execute_expr E s config source) (\<lambda>from_set. Option.bind (execute_expr E s config target) (\<lambda>to_set.
       execute_path_query E s config mode kind via depth from_set to_set))"
| "execute_expr E s config (SetOp op l r) =
     Option.bind (execute_expr E s config l) (\<lambda>left_result. Option.bind (execute_expr E s config r) (\<lambda>right_result.
       Some (combine_set_op E op left_result right_result (qc_max_nodes config))))"
| "execute_expr E s config (DominatorsOf inner) =
     Option.bind (execute_expr E s config inner) (\<lambda>seed. execute_dominators_of E s (qr_nodes seed) config)"
| "execute_expr E s config (DominatesOf inner) =
     Option.bind (execute_expr E s config inner) (\<lambda>seed. execute_dominates_of E s (qr_nodes seed) config)"
| "execute_expr E s config (TraitImplsOf inner) =
     map_option (\<lambda>seed. execute_trait_impls_of E s (qr_nodes seed) config) (execute_expr E s config inner)"
| "execute_expr E s config (PipeFrom base ops) =
     Option.bind (execute_expr E s config base) (\<lambda>seed. execute_pipe_from E s (qr_nodes seed) ops config)"
| "execute_expr E s config (MultiPath sources target depth) =
     Option.bind (those (map (execute_expr E s config) sources)) (\<lambda>results.
       Option.bind (execute_expr E s config target) (\<lambda>to_set. execute_multi_path E s config depth results to_set))"

section \<open>Running a query text\<close>

definition run_query ::
    "('g, 'x) query_env \<Rightarrow> (token \<Rightarrow> string) \<Rightarrow> 'g code_graph \<Rightarrow> string \<Rightarrow> query_config \<Rightarrow> (query_error, query_result) result option" where
  "run_query E dbg s query config = (case parse_query dbg query of
     Inl e \<Rightarrow> Some (Inl e)
   | Inr ops \<Rightarrow> map_option Inr (execute E s (plan_ops (optimise_pipe ops)) config))"

end
