(* ===== verification/Simple_Paths.thy ===== *)
theory Simple_Paths
  imports Expression_Executor
begin

text \<open>
  The depth-first search for simple paths finds paths without repetition from the source to the target within
  the depth, and all of them when the budget of nodes is not used up.
\<close>

section \<open>What is left to search\<close>

fun continuations :: "(nat \<Rightarrow> nat list) \<Rightarrow> nat \<Rightarrow> nat \<Rightarrow> nat \<Rightarrow> nat set \<Rightarrow> nat list set" where
  "continuations nxt target 0 u on_stack = {}"
| "continuations nxt target (Suc left) u on_stack =
     (if u = target then {[u]}
      else (\<Union>v\<in>set (nxt u) - on_stack. (#) u ` continuations nxt target left v (insert v on_stack)))"

lemma continuations_iff:
  "u \<in> on_stack \<Longrightarrow> q \<in> continuations nxt target left u on_stack \<longleftrightarrow> q \<noteq> [] \<and> hd q = u \<and> last q = target \<and> target \<notin> set (butlast q) \<and>
     successively (\<lambda>a b. b \<in> set (nxt a)) q \<and> distinct (tl q) \<and> set (tl q) \<inter> on_stack = {} \<and> length q \<le> left"
proof (induction left arbitrary: u on_stack q)
  case (Suc left)
  show ?case
  proof (cases "u = target")
    case True
    show ?thesis
    proof (cases q)
      case (Cons a q')
      then show ?thesis using True by (cases q') auto
    qed (simp add: True)
  next
    case False
    have step: "q \<in> continuations nxt target (Suc left) u on_stack \<longleftrightarrow>
        (\<exists>v p. v \<in> set (nxt u) \<and> v \<notin> on_stack \<and> q = u # p \<and> p \<in> continuations nxt target left v (insert v on_stack))"
      using False by auto
    note IH = Suc.IH [OF insertI1]
    show ?thesis
    proof (cases q rule: remdups_adj.cases)
      case (3 a b r)
      have "q \<in> continuations nxt target (Suc left) u on_stack \<longleftrightarrow>
          a = u \<and> b \<in> set (nxt u) \<and> b \<notin> on_stack \<and> b # r \<in> continuations nxt target left b (insert b on_stack)"
        unfolding step unfolding 3 using IH [of "b # r"] by auto
      also have "\<dots> \<longleftrightarrow> q \<noteq> [] \<and> hd q = u \<and> last q = target \<and> target \<notin> set (butlast q) \<and>
          successively (\<lambda>a b. b \<in> set (nxt a)) q \<and> distinct (tl q) \<and> set (tl q) \<inter> on_stack = {} \<and> length q \<le> Suc left"
        unfolding IH 3 using False by auto
      finally show ?thesis .
    next
      case 1
      then show ?thesis unfolding step by simp
    next
      case (2 x)
      have "q \<notin> continuations nxt target (Suc left) u on_stack" unfolding step unfolding 2 using IH [of "[]"] by auto
      then show ?thesis using False by (auto simp: 2 simp del: continuations.simps)
    qed
  qed
qed auto

section \<open>The search\<close>

text \<open>What a search adds to a state: paths among those to be found, all of them when there is budget left.\<close>

definition adds :: "nat \<Rightarrow> nat list set \<Rightarrow> simple_search \<Rightarrow> simple_search \<Rightarrow> bool" where
  "adds budget ps st st' \<longleftrightarrow> (\<exists>rs. sp_results st' = sp_results st @ rs \<and> sp_emitted st' = sp_emitted st \<union> \<Union> (set ` set rs) \<and>
     set rs \<subseteq> ps \<and> (card (sp_emitted st') < budget \<longrightarrow> set rs = ps))"

lemma addsD:
  assumes "adds budget ps st st'"
  obtains rs where "sp_results st' = sp_results st @ rs" "sp_emitted st' = sp_emitted st \<union> \<Union> (set ` set rs)"
    "set rs \<subseteq> ps" "card (sp_emitted st') < budget \<longrightarrow> set rs = ps"
  using assms unfolding adds_def by blast

lemma adds_finite:
  assumes "adds budget ps st st'" and "finite (sp_emitted st)"
  shows "finite (sp_emitted st')" "card (sp_emitted st) \<le> card (sp_emitted st')"
proof -
  obtain rs where rs: "sp_emitted st' = sp_emitted st \<union> \<Union> (set ` set rs)" using assms(1) by (rule addsD)
  show "finite (sp_emitted st')" unfolding rs using assms(2) by simp
  then show "card (sp_emitted st) \<le> card (sp_emitted st')" by (rule card_mono) (simp add: rs)
qed

lemma adds_trans:
  assumes a: "adds budget ps st st1" and b: "adds budget qs st1 st2" and "finite (sp_emitted st)"
  shows "adds budget (ps \<union> qs) st st2"
proof -
  obtain rs where rs: "sp_results st1 = sp_results st @ rs" "sp_emitted st1 = sp_emitted st \<union> \<Union> (set ` set rs)"
    "set rs \<subseteq> ps" "card (sp_emitted st1) < budget \<longrightarrow> set rs = ps" using a by (rule addsD)
  obtain ts where ts: "sp_results st2 = sp_results st1 @ ts" "sp_emitted st2 = sp_emitted st1 \<union> \<Union> (set ` set ts)"
    "set ts \<subseteq> qs" "card (sp_emitted st2) < budget \<longrightarrow> set ts = qs" using b by (rule addsD)
  have "card (sp_emitted st1) \<le> card (sp_emitted st2)" by (rule adds_finite(2) [OF b adds_finite(1) [OF a assms(3)]])
  then have "card (sp_emitted st2) < budget \<longrightarrow> set (rs @ ts) = ps \<union> qs" using rs(4) ts(4) by auto
  then show ?thesis unfolding adds_def using rs(1-3) ts(1-3) by (intro exI [of _ "rs @ ts"]) auto
qed

lemma adds_stop:
  assumes "adds budget ps st st'" and "budget \<le> card (sp_emitted st')" and "ps \<subseteq> qs"
  shows "adds budget qs st st'"
proof -
  obtain rs where rs: "sp_results st' = sp_results st @ rs" "sp_emitted st' = sp_emitted st \<union> \<Union> (set ` set rs)" "set rs \<subseteq> ps"
    using assms(1) by (rule addsD)
  then show ?thesis unfolding adds_def using assms(2,3) by (intro exI [of _ rs]) auto
qed

lemma adds_refl: "adds budget {} st st"
  unfolding adds_def by (intro exI [of _ "[]"]) simp

lemma simple_loop_adds:
  assumes dfs: "\<And>v st. v \<notin> on_stack \<Longrightarrow> finite (sp_emitted st) \<Longrightarrow> \<exists>st'. dfs v st = Some st' \<and> adds budget (S v) st st'"
  shows "finite (sp_emitted st) \<Longrightarrow>
    \<exists>st'. simple_loop dfs budget on_stack vs st = Some st' \<and> adds budget (\<Union>v\<in>set vs - on_stack. S v) st st'"
proof (induction vs arbitrary: st)
  case Nil
  then show ?case by (simp add: adds_refl)
next
  case (Cons v vs)
  show ?case
  proof (cases "v \<in> on_stack")
    case True
    then show ?thesis using Cons by (simp add: insert_Diff_if)
  next
    case False
    then have split: "(\<Union>v\<in>set (v # vs) - on_stack. S v) = S v \<union> (\<Union>v\<in>set vs - on_stack. S v)" by auto
    obtain st1 where st1: "dfs v st = Some st1" "adds budget (S v) st st1" using dfs [OF False Cons.prems] by blast
    show ?thesis
    proof (cases "budget \<le> card (sp_emitted st1)")
      case True
      have "adds budget (\<Union>v\<in>set (v # vs) - on_stack. S v) st st1" unfolding split by (rule adds_stop [OF st1(2) True]) blast
      then show ?thesis using True False st1(1) by simp
    next
      case more: False
      obtain st2 where "simple_loop dfs budget on_stack vs st1 = Some st2" "adds budget (\<Union>v\<in>set vs - on_stack. S v) st1 st2"
        using Cons.IH [OF adds_finite(1) [OF st1(2) Cons.prems]] by blast
      then show ?thesis using False more st1(1) adds_trans [OF st1(2) _ Cons.prems] unfolding split by auto
    qed
  qed
qed

lemma simple_dfs_adds:
  assumes nbrs: "\<And>v. nbrs v = Some (nxt v)"
  shows "finite (sp_emitted st) \<Longrightarrow>
    \<exists>st'. simple_dfs nbrs target budget left u (pre @ [u]) on_stack st = Some st' \<and>
      adds budget ((@) pre ` continuations nxt target left u on_stack) st st'"
proof (induction left arbitrary: u pre on_stack st)
  case 0
  then show ?case by (simp add: adds_refl)
next
  case (Suc left)
  show ?case
  proof (cases "u = target")
    case True
    have "adds budget {pre @ [u]} st (emit_path (pre @ [u]) st)"
      unfolding adds_def by (intro exI [of _ "[pre @ [u]]"]) (simp add: emit_path_def)
    with True show ?thesis by simp
  next
    case False
    let ?S = "\<lambda>v. (@) (pre @ [u]) ` continuations nxt target left v (insert v on_stack)"
    have S: "(@) pre ` continuations nxt target (Suc left) u on_stack = (\<Union>v\<in>set (nxt u) - on_stack. ?S v)"
      using False by (simp add: image_UN image_image)
    show ?thesis
    proof (cases "budget \<le> card (sp_emitted st)")
      case True
      then show ?thesis using False adds_stop [OF adds_refl True] by simp
    next
      case more: False
      have "\<exists>st'. simple_loop (\<lambda>v st. simple_dfs nbrs target budget left v ((pre @ [u]) @ [v]) (insert v on_stack) st) budget on_stack (nxt u) st =
          Some st' \<and> adds budget (\<Union>v\<in>set (nxt u) - on_stack. ?S v) st st'"
        by (rule simple_loop_adds [OF _ Suc.prems]) (rule Suc.IH)
      then show ?thesis using False more by (simp add: nbrs [of u] S del: continuations.simps)
    qed
  qed
qed

section \<open>On the graph\<close>

definition simple_paths :: "(nat \<times> nat) set \<Rightarrow> nat \<Rightarrow> nat \<Rightarrow> nat \<Rightarrow> nat list set" where
  "simple_paths E a b depth = {p. p \<noteq> [] \<and> hd p = a \<and> last p = b \<and> walk_in E p \<and> distinct p \<and> length p \<le> Suc depth}"

lemma simple_paths_eq:
  assumes "\<And>u v. v \<in> set (nxt u) \<longleftrightarrow> (u, v) \<in> E"
  shows "continuations nxt b (Suc depth) a {a} = simple_paths E a b depth"
proof (rule set_eqI)
  fix q
  have ends: "b \<notin> set (butlast q) \<and> distinct (tl q) \<and> set (tl q) \<inter> {a} = {} \<longleftrightarrow> distinct q" if "q \<noteq> []" "hd q = a" "last q = b"
  proof -
    have "distinct q \<Longrightarrow> b \<notin> set (butlast q)" using that by (metis append_butlast_last_id distinct_butlast not_distinct_conv_prefix)
    moreover have "distinct q \<longleftrightarrow> a \<notin> set (tl q) \<and> distinct (tl q)" using that by (metis distinct.simps(2) list.collapse)
    ultimately show ?thesis by auto
  qed
  show "q \<in> continuations nxt b (Suc depth) a {a} \<longleftrightarrow> q \<in> simple_paths E a b depth"
    unfolding continuations_iff [OF singletonI] simple_paths_def walk_in_def assms mem_Collect_eq using ends by blast
qed

lemma simple_paths_within:
  assumes "\<And>u v. v \<in> set (nxt u) \<longleftrightarrow> (u, v) \<in> E"
  shows "continuations nxt b (Suc depth mod 2 ^ 64) a {a} \<subseteq> simple_paths E a b depth"
proof (cases "Suc depth mod 2 ^ 64")
  case (Suc m)
  then have "m \<le> depth" by (metis Suc_le_mono mod_less_eq_dividend)
  then show ?thesis unfolding Suc simple_paths_eq [of nxt, OF assms] by (auto simp: simple_paths_def)
qed simp

context stable_graph
begin

lemma edge_targets_total:
  assumes "slots_ok P ok s"
  shows "\<exists>vs. edge_targets P s u = Some vs \<and> set vs = {v. (u, v) \<in> edges_of P s (\<lambda>_. True)}"
proof -
  obtain es where "get_edges_from P s u = Some es" using edges_from [OF assms] by blast
  then show ?thesis by (force simp: edge_targets_def edges_of_def)
qed

lemma simple_paths_promise:
  assumes s: "slots_ok P ok s"
  shows "\<exists>ps. all_simple_paths_bounded P s a b depth budget = Some ps \<and> set ps \<subseteq> simple_paths (edges_of P s (\<lambda>_. True)) a b depth \<and>
    (Suc depth < 2 ^ 64 \<and> card (\<Union> (set ` set ps)) < budget \<longrightarrow> set ps = simple_paths (edges_of P s (\<lambda>_. True)) a b depth)"
proof -
  define nxt where "nxt u = the (edge_targets P s u)" for u
  have nbrs: "edge_targets P s u = Some (nxt u)" and nxt: "v \<in> set (nxt u) \<longleftrightarrow> (u, v) \<in> edges_of P s (\<lambda>_. True)" for u v
    using edge_targets_total [OF s, of u] by (auto simp: nxt_def)
  let ?st = "\<lparr>sp_results = [], sp_emitted = {}\<rparr>" and ?n = "Suc depth mod 2 ^ 64"
  obtain st' where st': "simple_dfs (edge_targets P s) b budget ?n a ([] @ [a]) {a} ?st = Some st'"
    "adds budget ((@) [] ` continuations nxt b ?n a {a}) ?st st'"
    using simple_dfs_adds [where nbrs = "edge_targets P s" and nxt = nxt and st = ?st and target = b and budget = budget and left = ?n and u = a
      and pre = "[]" and on_stack = "{a}", OF nbrs] by auto
  have "(@) [] ` X = X" for X :: "nat list set" by simp
  note added = st'(2) [unfolded this]
  obtain rs where rs: "sp_results st' = sp_results ?st @ rs" "sp_emitted st' = sp_emitted ?st \<union> \<Union> (set ` set rs)"
    "set rs \<subseteq> continuations nxt b ?n a {a}"
    "card (sp_emitted st') < budget \<longrightarrow> set rs = continuations nxt b ?n a {a}"
    using added by (rule addsD)
  have "all_simple_paths_bounded P s a b depth budget = Some rs"
    unfolding all_simple_paths_bounded_def using st'(1) rs(1) by (simp del: simple_dfs.simps)
  moreover have "set rs \<subseteq> simple_paths (edges_of P s (\<lambda>_. True)) a b depth"
    using rs(3) simple_paths_within [of nxt, OF nxt] by (rule subset_trans)
  moreover have "set rs = simple_paths (edges_of P s (\<lambda>_. True)) a b depth"
    if "Suc depth < 2 ^ 64" "card (\<Union> (set ` set rs)) < budget"
    using rs(4) that(2) simple_paths_eq [of nxt, OF nxt] unfolding rs(2) mod_less [OF that(1)] by simp
  ultimately show ?thesis by (intro exI [of _ rs]) simp
qed

end

end
