(* ===== verification/Query_Promise.thy ===== *)
theory Query_Promise
  imports Call_Reach Expression_Executor Csr_Traverse Simple_Paths
begin

text \<open>
  What a query promises, stated on sets of nodes: the relation each operation of a pipe keeps between the
  working sets before and after it, and the shape of a result. The lemmas show that the executor always
  returns and keeps these promises.
\<close>

section \<open>The promises\<close>

text \<open>A hash set yields each of its elements once; the operations that are parameters keep a set finite.\<close>

definition env_ok :: "('g, 'x) query_env \<Rightarrow> 'g code_graph \<Rightarrow> bool" where
  "env_ok E s \<longleftrightarrow> (\<forall>A. finite A \<longrightarrow> distinct (qe_order E A) \<and> set (qe_order E A) = A) \<and>
     (\<forall>op st. finite (ps_working_set st) \<longrightarrow> finite (ps_working_set (qe_insight E s op st)))"

definition calling :: "('g, 'x) graph_ops \<Rightarrow> 'g code_graph \<Rightarrow> (nat \<times> nat) set" where
  "calling P s = edges_of P s (\<lambda>e. is_call_kind (ed_kind e))"

definition nodes_where :: "('g, 'x) query_env \<Rightarrow> 'g code_graph \<Rightarrow> ('x node_data_scheme \<Rightarrow> bool) \<Rightarrow> nat set" where
  "nodes_where E s p = {u. node_holds E s p u}"

definition named_like :: "('g, 'x) query_env \<Rightarrow> string \<Rightarrow> 'x node_data_scheme \<Rightarrow> bool" where
  "named_like E name n \<longleftrightarrow> contains_text (qe_lower E (nd_name n)) (qe_lower E name)"

text \<open>Bounded expansion: within the reach, and all of it below the bound.\<close>

definition reaches_up_to :: "nat \<Rightarrow> nat set \<Rightarrow> nat set \<Rightarrow> bool" where
  "reaches_up_to bound R W' \<longleftrightarrow> W' \<subseteq> R \<and> card W' \<le> max 1 bound \<and> (card W' < bound \<longrightarrow> W' = R)"

fun op_spec :: "('g, 'x) query_env \<Rightarrow> 'g code_graph \<Rightarrow> query_config \<Rightarrow> dsl_op \<Rightarrow> nat set \<Rightarrow> nat set \<Rightarrow> bool" where
  "op_spec E s config (SelectFn name) W W' \<longleftrightarrow> W' = nodes_where E s (\<lambda>n. named_like E name n \<and> nd_kind n = AN_Function)"
| "op_spec E s config (SelectType name) W W' \<longleftrightarrow>
     W' = nodes_where E s (\<lambda>n. named_like E name n \<and> nd_kind n \<in> {AN_Struct, AN_Enum, AN_Trait})"
| "op_spec E s config Callers W W' \<longleftrightarrow> W' = {u. \<exists>w\<in>W. (u, w) \<in> calling (qe_ops E) s}"
| "op_spec E s config Callees W W' \<longleftrightarrow> W' = {w. \<exists>u\<in>W. (u, w) \<in> calling (qe_ops E) s}"
| "op_spec E s config (Depth n) W W' \<longleftrightarrow> (\<exists>part. W' = \<Union> (part ` (W \<inter> nodes_where E s (\<lambda>_. True))) \<and>
     (\<forall>u\<in>W \<inter> nodes_where E s (\<lambda>_. True). u \<in> part u \<and> card (part u) \<le> max 1 (qc_max_nodes config) \<and>
        part u \<subseteq> within (edges_of (qe_ops E) s (\<lambda>_. True)) u n \<and>
        (card (part u) < qc_max_nodes config \<longrightarrow> part u = within (edges_of (qe_ops E) s (\<lambda>_. True)) u n)))"
| "op_spec E s config (Filter kind) W W' \<longleftrightarrow> W' = W \<inter> nodes_where E s (\<lambda>n. nd_kind n = kind)"
| "op_spec E s config (Show _) W W' \<longleftrightarrow> W' = W"
| "op_spec E s config (Taint _) W W' \<longleftrightarrow> reaches_up_to (qc_max_nodes config) ((calling (qe_ops E) s)\<^sup>* `` W) W'"
| "op_spec E s config Preconditions W W' \<longleftrightarrow> reaches_up_to (qc_max_nodes config) (((calling (qe_ops E) s)\<inverse>)\<^sup>* `` W) W'"
| "op_spec E s config (Since since_rev) W W' \<longleftrightarrow> W' = W \<inter> nodes_where E s (\<lambda>n. of_nat since_rev \<le> nd_last_modified_revision n)"
| "op_spec E s config (Affected n since_rev) W W' \<longleftrightarrow>
     W' = {w. \<exists>u x. get_node (qe_ops E) s u = Some x \<and> of_nat since_rev \<le> nd_last_modified_revision x \<and>
       (\<exists>j\<le>n. (u, w) \<in> linked (qe_ops E) s ^^ j)}"
| "op_spec E s config Untested W W' \<longleftrightarrow> W' = W \<inter> nodes_where E s (\<lambda>n. map_of (nd_metadata n) ''coverage_tested'' \<noteq> Some ''true'')"
| "op_spec E s config PossibleTypes W W' \<longleftrightarrow> W' = W \<inter> nodes_where E s (\<lambda>n.
     map_of (nd_metadata n) ''possible_input_types'' \<noteq> None \<or> map_of (nd_metadata n) ''possible_return_types'' \<noteq> None)"
| "op_spec E s config (ReachableVia pattern direction) W W' \<longleftrightarrow>
     W' = {v. \<exists>u\<in>W \<inter> nodes_where E s (\<lambda>_. True). matched (view_of (qe_ops E) s) direction pattern u v}"
| "op_spec E s config Dispatch W W' \<longleftrightarrow> W' = {u. (W = {} \<or> u \<in> W) \<and> (\<exists>v t. t \<in> of_kind (qe_ops E) s {AN_Trait} \<and>
     (u, v) \<in> edges_of (qe_ops E) s (\<lambda>e. ed_kind e = AE_Calls) \<and> (t, v) \<in> edges_of (qe_ops E) s (\<lambda>e. ed_kind e = AE_Contains))}"
| "op_spec E s config ClusterByType W W' \<longleftrightarrow>
     W' = {f \<in> of_kind (qe_ops E) s {AN_Function}. (W = {} \<or> f \<in> W) \<and> (\<exists>t. mostly_uses (qe_ops E) s f t)}"
| "op_spec E s config op W W' \<longleftrightarrow> True"

fun pipe_spec :: "('g, 'x) query_env \<Rightarrow> 'g code_graph \<Rightarrow> query_config \<Rightarrow> dsl_op list \<Rightarrow> nat set \<Rightarrow> nat set \<Rightarrow> bool" where
  "pipe_spec E s config [] W W' \<longleftrightarrow> W' = W"
| "pipe_spec E s config (op # ops) W W' \<longleftrightarrow> (\<exists>V. op_spec E s config op W V \<and> pipe_spec E s config ops V W')"

text \<open>The shape of every result: no node twice, no more than the bound, and truncation reported exactly.\<close>

definition result_ok :: "query_config \<Rightarrow> query_result \<Rightarrow> bool" where
  "result_ok config r \<longleftrightarrow> distinct (qr_nodes r) \<and> length (qr_nodes r) = min (qc_max_nodes config) (qr_total_before_truncation r) \<and>
     (qr_was_truncated r \<longleftrightarrow> qc_max_nodes config < qr_total_before_truncation r)"

text \<open>The result shows the set \<open>W\<close>.\<close>

definition shows_set :: "query_config \<Rightarrow> nat set \<Rightarrow> query_result \<Rightarrow> bool" where
  "shows_set config W r \<longleftrightarrow> finite W \<and> result_ok config r \<and> set (qr_nodes r) \<subseteq> W \<and> qr_total_before_truncation r = card W"

text \<open>What a pipe promises: a set that its operations lead to, and edges that join nodes of it.\<close>

definition pipe_result :: "('g, 'x) query_env \<Rightarrow> 'g code_graph \<Rightarrow> query_config \<Rightarrow> dsl_op list \<Rightarrow> nat set \<Rightarrow> query_result \<Rightarrow> bool" where
  "pipe_result E s config ops W r \<longleftrightarrow> (\<exists>W'. pipe_spec E s config ops W W' \<and> shows_set config W' r \<and>
     (\<forall>(u, v, k)\<in>set (qr_edges r). u \<in> W' \<and> v \<in> W' \<and> (u, v) \<in> edges_of (qe_ops E) s (\<lambda>e. qe_debug_kind E (ed_kind e) = k)))"

lemma shows_set_complete:
  assumes "shows_set config W r" and "\<not> qr_was_truncated r"
  shows "set (qr_nodes r) = W"
proof (rule card_subset_eq)
  show "finite W" "set (qr_nodes r) \<subseteq> W" using assms(1) by (simp_all add: shows_set_def)
  have "card (set (qr_nodes r)) = length (qr_nodes r)" using assms(1) by (intro distinct_card) (simp add: shows_set_def result_ok_def)
  then show "card (set (qr_nodes r)) = card W" using assms by (simp add: shows_set_def result_ok_def)
qed

lemma env_orderD:
  assumes "env_ok E s" and "finite A"
  shows "distinct (qe_order E A)" "set (qe_order E A) = A" "length (qe_order E A) = card A"
proof -
  show d: "distinct (qe_order E A)" "set (qe_order E A) = A" using assms by (simp_all add: env_ok_def)
  then show "length (qe_order E A) = card A" by (metis distinct_card)
qed

lemma bounded_show:
  assumes E: "env_ok E s" and W: "finite W"
    and r: "qr_nodes r = (if qr_was_truncated r then take (qc_max_nodes config) (qe_order E W) else qe_order E W)"
      "qr_total_before_truncation r = card W" "qr_was_truncated r \<longleftrightarrow> qc_max_nodes config < card W"
  shows "shows_set config W r"
  using env_orderD [OF E W] set_take_subset [of "qc_max_nodes config" "qe_order E W"]
  by (auto simp: shows_set_def result_ok_def r W)

section \<open>Each operation\<close>

context stable_graph
begin

lemma nodes_where_get: "u \<in> nodes_where E s p \<longleftrightarrow> (\<exists>n. get_node (qe_ops E) s u = Some n \<and> p n)"
  by (auto simp: nodes_where_def node_holds_def split: option.splits)

lemma selected:
  assumes s: "slots_ok P ok s" and E: "qe_ops E = P"
  shows "set (map nd_id (filter p (find_by_name (qe_lower E) P s name))) = nodes_where E s (\<lambda>n. named_like E name n \<and> p n)"
proof -
  have "set (map nd_id (filter p (find_by_name (qe_lower E) P s name))) =
      nd_id ` {n \<in> ran (get_node P s). named_like E name n \<and> p n}"
    using node_weights_nodes(1) [OF s] by (auto simp: find_by_name_def named_like_def)
  then show ?thesis unfolding ids_of_nodes [OF s] by (auto simp: nodes_where_get E)
qed

lemma nodes_where_finite:
  assumes "graph_ok P ok s" and "qe_ops E = P"
  shows "finite (nodes_where E s p)"
  by (rule finite_subset [OF _ nodes_finite [OF assms(1)]]) (auto simp: nodes_where_get assms(2))

lemma calling_live:
  assumes "graph_ok P ok s" and "(u, w) \<in> calling P s"
  shows "u \<in> dom (get_node P s)" "w \<in> dom (get_node P s)"
proof -
  note s = graph_okD(1) [OF assms(1)]
  note live = edges_of_live [OF s assms(2) [unfolded calling_def]]
  show "u \<in> dom (get_node P s)" using live(1) resolve_get_node [OF s, of u] by (simp add: domIff)
  show "w \<in> dom (get_node P s)" using live(2) resolve_get_node [OF s, of w] by (simp add: domIff)
qed

lemma calling_iff:
  assumes "slots_ok P ok s"
  shows "(u, w) \<in> calling P s \<longleftrightarrow> (\<exists>e. (w, e) \<in># out_ids P s u \<and> is_call_kind (ed_kind e))"
proof -
  obtain es where es: "get_edges_from P s u = Some es" "mset es = out_ids P s u" using edges_from [OF assms] by blast
  show ?thesis unfolding calling_def edges_of_def es(2) [symmetric] by (simp add: es(1))
qed

text \<open>The other ends of the calls at a node.\<close>

lemma call_ends_set:
  assumes "edges_at u = Some es"
  shows "\<exists>vs. call_ends edges_at u = Some vs \<and> (\<forall>w. w \<in> set vs \<longleftrightarrow> (\<exists>e. (w, e) \<in># mset es \<and> is_call_kind (ed_kind e)))"
  using assms by (force simp: call_ends_def)

lemma call_ends_from:
  assumes "slots_ok P ok s"
  shows "\<exists>vs. call_ends (get_edges_from P s) u = Some vs \<and> set vs = {w. (u, w) \<in> calling P s}"
proof -
  obtain es where es: "get_edges_from P s u = Some es" "mset es = out_ids P s u" using edges_from [OF assms] by blast
  obtain vs where vs: "call_ends (get_edges_from P s) u = Some vs"
      "\<forall>w. w \<in> set vs \<longleftrightarrow> (\<exists>e. (w, e) \<in># mset es \<and> is_call_kind (ed_kind e))" using call_ends_set [where edges_at = "get_edges_from P s", OF es(1)] by blast
  have "set vs = {w. (u, w) \<in> calling P s}" using vs(2) unfolding es(2) calling_iff [OF assms] by blast
  with vs(1) show ?thesis by blast
qed

lemma call_ends_to:
  assumes "slots_ok P ok s"
  shows "\<exists>vs. call_ends (get_edges_to P s) u = Some vs \<and> set vs = {w. (w, u) \<in> calling P s}"
proof -
  obtain es where es: "get_edges_to P s u = Some es" "mset es = in_ids P s u" using edges_to [OF assms] by blast
  obtain vs where vs: "call_ends (get_edges_to P s) u = Some vs"
      "\<forall>w. w \<in> set vs \<longleftrightarrow> (\<exists>e. (w, e) \<in># mset es \<and> is_call_kind (ed_kind e))" using call_ends_set [where edges_at = "get_edges_to P s", OF es(1)] by blast
  have "(w, e) \<in># in_ids P s u \<longleftrightarrow> (u, e) \<in># out_ids P s w" for w e
    using count_in [OF assms, of u w e] by (metis count_eq_zero_iff)
  then have "set vs = {w. (w, u) \<in> calling P s}" using vs(2) unfolding es(2) calling_iff [OF assms] by blast
  with vs(1) show ?thesis by blast
qed

lemma call_step_total:
  assumes "\<And>u. \<exists>vs. call_ends edges_at u = Some vs \<and> set vs = succ u"
  shows "call_step edges_at ws = Some (\<Union>u\<in>set ws. succ u)"
proof -
  obtain f where f: "\<forall>u. call_ends edges_at u = Some (f u) \<and> set (f u) = succ u" using assms by metis
  have "map (call_ends edges_at) ws = map Some (map f ws)" using f by simp
  then have "call_step edges_at ws = Some (set (concat (map f ws)))" unfolding call_step_def by (simp only: those_map_Some option.map)
  then show ?thesis using f by simp
qed

text \<open>The depth operation joins bounded traversals.\<close>

lemma traverse_all_total:
  assumes "\<And>u. walk_from u = Some (r u)"
  shows "traverse_all walk_from us (A, cs) = Some (A \<union> (\<Union>u\<in>set us. set (tr_nodes (r u))), cs @ concat (map (tr_cycles_detected_at \<circ> r) us))"
  by (induction us arbitrary: A cs) (auto simp: assms)

lemma depth_part:
  assumes s: "slots_ok P ok s" and fits: "fits_u32 P s"
    and config_def: "config = \<lparr>tc_max_depth = n, tc_max_nodes = bound, tc_direction = TD_Outgoing, tc_parallel = False\<rparr>"
  shows "\<exists>r. traverse P s workers u config = Some r \<and> (if get_node P s u = None then tr_nodes r = []
    else u \<in> set (tr_nodes r) \<and> card (set (tr_nodes r)) \<le> max 1 bound \<and> set (tr_nodes r) \<subseteq> within (edges_of P s (\<lambda>_. True)) u n \<and>
      (card (set (tr_nodes r)) < bound \<longrightarrow> set (tr_nodes r) = within (edges_of P s (\<lambda>_. True)) u n))"
proof (cases "get_node P s u = None")
  case True
  then show ?thesis using traverse_absent [OF s fits True] by (simp add: nothing_found_def)
next
  case False
  obtain r where r: "traverse P s workers u config = Some r" "traversal_promise (edges_of P s (\<lambda>_. True)) u config r"
    using traverse_promise [OF s fits False, of workers config] by (auto simp: config_def directed_edges_def)
  have p: "distinct (tr_nodes r)" "tr_nodes r \<noteq> []" "hd (tr_nodes r) = u" "length (tr_nodes r) \<le> max 1 bound"
      "set (tr_nodes r) \<subseteq> within (edges_of P s (\<lambda>_. True)) u n"
      "if tr_was_truncated r then length (tr_nodes r) = max 1 bound else set (tr_nodes r) = within (edges_of P s (\<lambda>_. True)) u n"
    using r(2) by (auto simp: traversal_promise_def config_def split: if_splits)
  have card: "card (set (tr_nodes r)) = length (tr_nodes r)" by (rule distinct_card [OF p(1)])
  have "u \<in> set (tr_nodes r)" using p(2,3) hd_in_set by metis
  moreover have "set (tr_nodes r) = within (edges_of P s (\<lambda>_. True)) u n" if "card (set (tr_nodes r)) < bound"
    using p(6) that card by (simp split: if_splits)
  ultimately show ?thesis using r(1) p(4,5) card False by auto
qed

lemma UN_restrict: "(\<And>u. u \<notin> B \<Longrightarrow> f u = {}) \<Longrightarrow> (\<Union>u\<in>A. f u) = \<Union> (f ` (A \<inter> B))"
  by auto

lemma apply_depth_spec:
  assumes s: "graph_ok P ok s" and fits: "fits_u32 P s" and E: "env_ok E s" "qe_ops E = P" and st: "finite (ps_working_set st)"
  shows "\<exists>st'. apply_depth E s n config st = Some st' \<and> finite (ps_working_set st') \<and>
    op_spec E s config (Depth n) (ps_working_set st) (ps_working_set st')"
proof -
  let ?W = "ps_working_set st" and ?walk = "\<lambda>u. traverse P s (qe_workers E) u
     \<lparr>tc_max_depth = n, tc_max_nodes = qc_max_nodes config, tc_direction = TD_Outgoing, tc_parallel = False\<rparr>"
  let ?P = "\<lambda>u r. if get_node P s u = None then tr_nodes r = []
    else u \<in> set (tr_nodes r) \<and> card (set (tr_nodes r)) \<le> max 1 (qc_max_nodes config) \<and> set (tr_nodes r) \<subseteq> within (edges_of P s (\<lambda>_. True)) u n \<and>
      (card (set (tr_nodes r)) < qc_max_nodes config \<longrightarrow> set (tr_nodes r) = within (edges_of P s (\<lambda>_. True)) u n)"
  have "\<exists>r. \<forall>u. ?walk u = Some (r u) \<and> ?P u (r u)"
    by (rule choice, rule allI, rule depth_part [OF graph_okD(1) [OF s] fits refl])
  then obtain r where r: "\<And>u. ?walk u = Some (r u)" "\<And>u. ?P u (r u)" by blast
  let ?part = "\<lambda>u. set (tr_nodes (r u))"
  have absent: "?part u = {}" if "u \<notin> nodes_where E s (\<lambda>_. True)" for u
    using that r(2) [of u] by (cases "get_node P s u") (simp_all add: nodes_where_get E(2))
  have "(\<Union>u\<in>?W. ?part u) = \<Union> (?part ` (?W \<inter> nodes_where E s (\<lambda>_. True)))"
    by (rule UN_restrict [OF absent])
  moreover have "\<forall>u\<in>?W \<inter> nodes_where E s (\<lambda>_. True). u \<in> ?part u \<and> card (?part u) \<le> max 1 (qc_max_nodes config) \<and>
      ?part u \<subseteq> within (edges_of (qe_ops E) s (\<lambda>_. True)) u n \<and>
      (card (?part u) < qc_max_nodes config \<longrightarrow> ?part u = within (edges_of (qe_ops E) s (\<lambda>_. True)) u n)"
  proof
    fix u assume "u \<in> ?W \<inter> nodes_where E s (\<lambda>_. True)"
    then have "get_node P s u \<noteq> None" by (auto simp: nodes_where_get E(2))
    then show "u \<in> ?part u \<and> card (?part u) \<le> max 1 (qc_max_nodes config) \<and>
        ?part u \<subseteq> within (edges_of (qe_ops E) s (\<lambda>_. True)) u n \<and>
        (card (?part u) < qc_max_nodes config \<longrightarrow> ?part u = within (edges_of (qe_ops E) s (\<lambda>_. True)) u n)"
      using r(2) [of u] unfolding E(2) by presburger
  qed
  ultimately have "op_spec E s config (Depth n) ?W (\<Union>u\<in>?W. ?part u)"
    unfolding op_spec.simps by (intro exI [of _ ?part] conjI)
  moreover have "apply_depth E s n config st = Some (st\<lparr>ps_working_set := \<Union>u\<in>?W. ?part u,
      ps_cycles_detected := ps_cycles_detected st @ concat (map (tr_cycles_detected_at \<circ> r) (qe_order E ?W))\<rparr>)"
    unfolding apply_depth_def E(2) traverse_all_total [of ?walk r, OF r(1)] by (simp add: env_orderD(2) [OF E(1) st])
  ultimately show ?thesis using st by simp
qed

text \<open>The search through calls.\<close>

lemma rtrancl_bound:
  assumes "R \<subseteq> D \<times> D"
  shows "R\<^sup>* `` W \<subseteq> W \<union> D"
proof
  fix x assume "x \<in> R\<^sup>* `` W"
  then obtain w where w: "w \<in> W" "(w, x) \<in> R\<^sup>*" by blast
  from w(2) show "x \<in> W \<union> D" by (rule rtranclE) (use assms w(1) in auto)
qed

lemma reach_from_rel:
  assumes "\<And>u. set (nxt u) = {w. (u, w) \<in> R}"
  shows "reach_from nxt W = R\<^sup>* `` W"
  by (simp add: reach_from_def assms)

lemma apply_call_spec:
  assumes s: "graph_ok P ok s" and E: "env_ok E s" "qe_ops E = P" and st: "finite (ps_working_set st)"
  shows "\<exists>st'. apply_call_reachability E s config incoming st = Some st' \<and> finite (ps_working_set st') \<and>
    reaches_up_to (qc_max_nodes config) ((if incoming then (calling P s)\<inverse> else calling P s)\<^sup>* `` ps_working_set st) (ps_working_set st')"
proof -
  let ?W = "ps_working_set st" and ?R = "if incoming then (calling P s)\<inverse> else calling P s"
  let ?ends = "call_ends (if incoming then get_edges_to P s else get_edges_from P s)"
  have "\<exists>nxt. \<forall>u. ?ends u = Some (nxt u) \<and> set (nxt u) = {w. (u, w) \<in> ?R}"
    by (rule choice) (use call_ends_from [OF graph_okD(1) [OF s]] call_ends_to [OF graph_okD(1) [OF s]] in simp)
  then obtain nxt where nxt: "\<And>u. ?ends u = Some (nxt u)" "\<And>u. set (nxt u) = {w. (u, w) \<in> ?R}" by blast
  note order = env_orderD(2) [OF E(1) st]
  have reach: "reach_from nxt (set (qe_order E ?W)) = ?R\<^sup>* `` ?W" unfolding order by (rule reach_from_rel [OF nxt(2)])
  have "?R \<subseteq> dom (get_node P s) \<times> dom (get_node P s)" by (auto dest: calling_live [OF s])
  then have "?R\<^sup>* `` ?W \<subseteq> ?W \<union> dom (get_node P s)" by (rule rtrancl_bound)
  then have fin: "finite (reach_from nxt (set (qe_order E ?W)))"
    unfolding reach by (rule finite_subset) (use st nodes_finite [OF s] in simp)
  from call_reachability_done [OF fin nxt(1), of "qc_max_nodes config" "ps_cycles_detected st"]
  obtain cl where cl: "call_reachability ?ends (qc_max_nodes config)
      \<lparr>cr_visited = {}, cr_queue = qe_order E ?W, cr_cycles = ps_cycles_detected st\<rparr> = Some cl"
      "call_done nxt (qc_max_nodes config) (set (qe_order E ?W)) (cr_visited cl)" by blast
  have "reaches_up_to (qc_max_nodes config) (?R\<^sup>* `` ?W) (cr_visited cl)"
    using cl(2) unfolding call_done_def reaches_up_to_def reach by blast
  moreover have "finite (cr_visited cl)" using cl(2) fin unfolding call_done_def by (meson finite_subset)
  moreover have "apply_call_reachability E s config incoming st = Some (st\<lparr>ps_working_set := cr_visited cl, ps_cycles_detected := cr_cycles cl\<rparr>)"
    unfolding apply_call_reachability_def E(2) cl(1) by simp
  ultimately show ?thesis by simp
qed

text \<open>The search along a pattern.\<close>

lemma matched_node: "graph_ok P ok s \<Longrightarrow> gv_contains (view_of P s) u \<Longrightarrow> matched (view_of P s) d p u v \<Longrightarrow> gv_contains (view_of P s) v"
proof -
  assume s: "graph_ok P ok s" and u: "gv_contains (view_of P s) u" and "matched (view_of P s) d p u v"
  then obtain ks where "walk (view_of P s) d u ks v" by (auto simp: matched_def)
  then show ?thesis using u
  proof (induction ks arbitrary: u)
    case (Cons k ks)
    then obtain w l where w: "(w, l) \<in> set (neighbours (view_of P s) d u)" "walk (view_of P s) d w ks v" by auto
    show ?case by (rule Cons.IH [OF w(2) view_ok_neighbour [OF view_of_ok [OF s] w(1)]])
  qed simp
qed

lemma reachable_targets_set:
  assumes s: "graph_ok P ok s"
  shows "\<exists>vs. reachable_targets (view_of P s) u p d = Some vs \<and>
    set vs = (if get_node P s u = None then {} else {v. matched (view_of P s) d p u v})"
proof (cases "gv_contains (view_of P s) u")
  case True
  then have present: "get_node P s u \<noteq> None" using contains_get_node [OF graph_okD(1) [OF s]] by (simp add: view_of_def)
  have "finite {v. matched (view_of P s) d p u v}"
    by (rule finite_subset [of _ "{v. gv_contains (view_of P s) v}"])
      (use matched_node [OF s True] view_of_ok [OF s] in \<open>auto simp: view_ok_def\<close>)
  then show ?thesis using product_bfs_result [OF view_of_ok [OF s] True, of p d None] True present
    by (auto simp: reachable_targets_def)
next
  case False
  then show ?thesis using contains_get_node [OF graph_okD(1) [OF s], of u] by (simp add: reachable_targets_def view_of_def)
qed

lemma apply_reachable_via_spec:
  assumes s: "graph_ok P ok s" and E: "env_ok E s" "qe_ops E = P" and st: "finite (ps_working_set st)"
  shows "\<exists>st'. apply_reachable_via E s pattern d st = Some st' \<and> finite (ps_working_set st') \<and>
    op_spec E s config (ReachableVia pattern d) (ps_working_set st) (ps_working_set st')"
proof (cases "ps_working_set st = {}")
  case True
  then show ?thesis by (simp add: apply_reachable_via_def Let_def note_down_def)
next
  case False
  let ?W = "ps_working_set st"
  have "\<exists>f. \<forall>u. reachable_targets (view_of P s) u pattern d = Some (f u) \<and>
      set (f u) = (if get_node P s u = None then {} else {v. matched (view_of P s) d pattern u v})"
    by (rule choice) (use reachable_targets_set [OF s] in blast)
  then obtain f where f: "\<And>u. reachable_targets (view_of P s) u pattern d = Some (f u)"
      "\<And>u. set (f u) = (if get_node P s u = None then {} else {v. matched (view_of P s) d pattern u v})" by blast
  have "map (\<lambda>seed. reachable_targets (view_of P s) seed pattern d) (qe_order E ?W) = map Some (map f (qe_order E ?W))"
    by (simp add: f(1))
  then have run: "those (map (\<lambda>seed. reachable_targets (view_of P s) seed pattern d) (qe_order E ?W)) = Some (map f (qe_order E ?W))"
    by (simp only: those_map_Some)
  define found where "found = set (concat (map f (qe_order E ?W)))"
  have "found = (\<Union>u\<in>?W. set (f u))" using env_orderD(2) [OF E(1) st] by (simp add: found_def)
  also have "\<dots> = {v. \<exists>u\<in>?W \<inter> nodes_where E s (\<lambda>_. True). matched (view_of P s) d pattern u v}"
    by (auto simp: f(2) nodes_where_get E(2) split: if_splits)
  finally have "op_spec E s config (ReachableVia pattern d) ?W found" by (simp add: E(2))
  moreover have "finite found" unfolding found_def by (rule finite_set)
  ultimately show ?thesis using False run by (simp add: apply_reachable_via_def Let_def note_down_def E(2) found_def [symmetric] del: set_concat)
qed

section \<open>Pipes and results\<close>

lemma retain_spec: "ps_working_set (retain p st) = ps_working_set st \<inter> {u. p u}"
  by (auto simp: retain_def)

lemma note_down_set [simp]: "ps_working_set (note_down l st) = ps_working_set st"
  by (simp add: note_down_def)

lemma note_down_fold [simp]: "ps_working_set (fold note_down ls st) = ps_working_set st"
  by (induction ls arbitrary: st) simp_all

lemma apply_dispatch_spec:
  assumes s: "slots_ok P ok s" and E: "qe_ops E = P"
  shows "op_spec E s config Dispatch (ps_working_set st) (ps_working_set (apply_dispatch E s st))"
  using trait_dispatch_promise [OF s] by (fastforce simp: apply_dispatch_def Let_def E image_iff)

lemma apply_cluster_spec:
  assumes s: "graph_ok P ok s" and E: "qe_ops E = P"
  shows "op_spec E s config ClusterByType (ps_working_set st) (ps_working_set (apply_cluster_by_type E s st))"
proof -
  note cs = clusters_promise [OF graph_okD(1) [OF s]]
  let ?W = "ps_working_set st" and ?cs = "cluster_by_primary_type P s"
  have fin: "finite (tcl_functions c)" if "c \<in> set ?cs" for c
  proof -
    have "tcl_functions c \<subseteq> dom (get_node P s)" using cs(3) [OF that] by (auto simp: of_kind_def)
    then show ?thesis by (rule finite_subset [OF _ nodes_finite [OF s]])
  qed
  have "ps_working_set (apply_cluster_by_type E s st) = (\<Union>c\<in>set ?cs. set (cluster_members ?W c))"
  proof -
    have "(\<Union>x\<in>set (filter (\<lambda>(i, c). cluster_members ?W c \<noteq> []) (enumerate 0 ?cs)). set (cluster_members ?W (snd x))) =
        (\<Union>x\<in>set (enumerate 0 ?cs). set (cluster_members ?W (snd x)))" by fastforce
    also have "\<dots> = (\<Union>c\<in>snd ` set (enumerate 0 ?cs). set (cluster_members ?W c))" by simp
    also have "snd ` set (enumerate 0 ?cs) = set ?cs" by (metis list.set_map map_snd_enumerate)
    finally show ?thesis by (simp add: apply_cluster_by_type_def Let_def E case_prod_beta')
  qed
  also have "\<dots> = {f \<in> of_kind P s {AN_Function}. (?W = {} \<or> f \<in> ?W) \<and> (\<exists>t. mostly_uses P s f t)}"
    using cs(3,4) fin by (fastforce simp: cluster_members_def image_iff)
  finally show ?thesis by (simp add: E)
qed

lemma apply_pipe_op_spec:
  assumes s: "graph_ok P ok s" and fits: "fits_u32 P s" and E: "env_ok E s" "qe_ops E = P" and st: "finite (ps_working_set st)"
  shows "\<exists>st'. apply_pipe_op E s config op st = Some st' \<and> finite (ps_working_set st') \<and>
    op_spec E s config op (ps_working_set st) (ps_working_set st')"
proof -
  note slots = graph_okD(1) [OF s]
  note order = env_orderD(2) [OF E(1) st]
  have insight: "finite (ps_working_set (qe_insight E s op st))" using E(1) st by (simp add: env_ok_def)
  have keep: "finite (ps_working_set st \<inter> A)" for A using st by simp
  have calls: "finite {u. \<exists>w\<in>A. (u, w) \<in> calling P s}" "finite {w. \<exists>u\<in>A. (u, w) \<in> calling P s}" for A
    by (rule finite_subset [OF _ nodes_finite [OF s]]; use calling_live [OF s] in blast)+
  show ?thesis
  proof (cases op)
    case (SelectFn name)
    have "ps_working_set (apply_select_fn E s name st) = nodes_where E s (\<lambda>n. named_like E name n \<and> nd_kind n = AN_Function)"
      unfolding selected [OF slots E(2), symmetric] by (simp add: apply_select_fn_def Let_def E(2))
    then show ?thesis using nodes_where_finite [OF s E(2)] by (simp add: SelectFn)
  next
    case (SelectType name)
    have "ps_working_set (apply_select_type E s name st) =
        nodes_where E s (\<lambda>n. named_like E name n \<and> nd_kind n \<in> {AN_Struct, AN_Enum, AN_Trait})"
      unfolding selected [OF slots E(2), symmetric] by (simp add: apply_select_type_def Let_def E(2))
    then show ?thesis using nodes_where_finite [OF s E(2)] by (simp add: SelectType)
  next
    case Callers
    have "call_step (get_edges_to P s) (qe_order E (ps_working_set st)) = Some (\<Union>u\<in>ps_working_set st. {w. (w, u) \<in> calling P s})"
      using call_step_total [OF call_ends_to [OF slots]] by (simp add: order)
    moreover have "(\<Union>u\<in>ps_working_set st. {w. (w, u) \<in> calling P s}) = {u. \<exists>w\<in>ps_working_set st. (u, w) \<in> calling P s}" by blast
    ultimately show ?thesis using calls(1) by (simp add: Callers apply_callers_def Let_def E(2))
  next
    case Callees
    have "call_step (get_edges_from P s) (qe_order E (ps_working_set st)) = Some (\<Union>u\<in>ps_working_set st. {w. (u, w) \<in> calling P s})"
      using call_step_total [OF call_ends_from [OF slots]] by (simp add: order)
    moreover have "(\<Union>u\<in>ps_working_set st. {w. (u, w) \<in> calling P s}) = {w. \<exists>u\<in>ps_working_set st. (u, w) \<in> calling P s}" by blast
    ultimately show ?thesis using calls(2) by (simp add: Callees apply_callees_def Let_def E(2))
  next
    case (Depth n)
    show ?thesis unfolding Depth apply_pipe_op.simps by (rule apply_depth_spec [OF s fits E st])
  next
    case (Taint source)
    show ?thesis unfolding Taint using apply_call_spec [OF s E st, of config False] by (simp add: apply_taint_def E(2))
  next
    case Preconditions
    show ?thesis unfolding Preconditions using apply_call_spec [OF s E st, of config True] by (simp add: apply_preconditions_def E(2))
  next
    case (Affected n since_rev)
    let ?A = "{w. \<exists>u x. get_node P s u = Some x \<and> of_nat since_rev \<le> nd_last_modified_revision x \<and> (\<exists>j\<le>n. (u, w) \<in> linked P s ^^ j)}"
    have "finite ?A"
    proof (rule finite_subset [OF _ nodes_finite [OF s]], rule subsetI)
      fix w assume "w \<in> ?A"
      then obtain u x j where u: "get_node P s u = Some x" "(u, w) \<in> linked P s ^^ j" by blast
      then show "w \<in> dom (get_node P s)"
        by (cases j) (use adjacent_ends(2) [OF slots] in \<open>auto simp: linked_def\<close>)
    qed
    then show ?thesis by (simp add: Affected apply_affected_def changed_within [OF s] E(2))
  next
    case (ReachableVia pattern d)
    show ?thesis unfolding ReachableVia apply_pipe_op.simps by (rule apply_reachable_via_spec [OF s E st])
  next
    case Dispatch
    have "finite (ps_working_set (apply_dispatch E s st))" by (simp add: apply_dispatch_def Let_def)
    then show ?thesis unfolding Dispatch using apply_dispatch_spec [OF slots E(2)] by simp
  next
    case ClusterByType
    have "finite (ps_working_set (apply_cluster_by_type E s st))" by (simp add: apply_cluster_by_type_def Let_def del: set_concat)
    then show ?thesis unfolding ClusterByType using apply_cluster_spec [OF s E(2)] by simp
  qed (use insight keep st in \<open>simp_all add: apply_filter_def apply_since_def apply_untested_def apply_possible_types_def Let_def
      retain_spec nodes_where_def\<close>)
qed

lemma apply_pipe_spec:
  assumes s: "graph_ok P ok s" and fits: "fits_u32 P s" and E: "env_ok E s" "qe_ops E = P"
  shows "finite (ps_working_set st) \<Longrightarrow> \<exists>st'. apply_pipe E s config ops st = Some st' \<and> finite (ps_working_set st') \<and>
    pipe_spec E s config ops (ps_working_set st) (ps_working_set st')"
proof (induction ops arbitrary: st)
  case (Cons op ops)
  obtain st1 where st1: "apply_pipe_op E s config op st = Some st1" "finite (ps_working_set st1)"
    "op_spec E s config op (ps_working_set st) (ps_working_set st1)" using apply_pipe_op_spec [OF s fits E Cons.prems] by blast
  from Cons.IH [OF st1(2)] st1 show ?case by (auto simp del: op_spec.simps)
qed simp

text \<open>The edges of a result join nodes of its set.\<close>

lemma edges_within_total:
  assumes s: "slots_ok P ok s" and "qe_ops E = P"
  shows "\<exists>es. edges_within E s us = Some es \<and>
    (\<forall>(u, v, k)\<in>set es. u \<in> set us \<and> v \<in> set us \<and> (u, v) \<in> edges_of P s (\<lambda>e. qe_debug_kind E (ed_kind e) = k))"
proof -
  have "\<exists>f. \<forall>u. get_edges_from P s u = Some (f u)" by (rule choice) (use edges_from [OF s] in blast)
  then obtain f where f: "\<And>u. get_edges_from P s u = Some (f u)" by blast
  let ?g = "\<lambda>u. map (\<lambda>(v, e). (u, v, qe_debug_kind E (ed_kind e))) (filter (\<lambda>(v, e). v \<in> set us) (f u))"
  have "edges_within E s us = map_option concat (those (map Some (map ?g us)))"
    unfolding edges_within_def assms(2) by (simp add: f comp_def)
  then have "edges_within E s us = Some (concat (map ?g us))" by (simp only: those_map_Some option.map)
  moreover have "u \<in> set us \<and> v \<in> set us \<and> (u, v) \<in> edges_of P s (\<lambda>e. qe_debug_kind E (ed_kind e) = k)"
    if "(u, v, k) \<in> set (concat (map ?g us))" for u v k
    using that by (auto simp: edges_of_def f)
  ultimately show ?thesis by blast
qed

lemma pipe_total:
  assumes s: "graph_ok P ok s" and fits: "fits_u32 P s" and E: "env_ok E s" "qe_ops E = P" and st: "finite (ps_working_set st)"
  shows "\<exists>r. Option.bind (apply_pipe E s config ops st) (pipe_finish E s config) = Some r \<and>
    pipe_result E s config ops (ps_working_set st) r"
proof -
  obtain st' where st': "apply_pipe E s config ops st = Some st'" "finite (ps_working_set st')"
    "pipe_spec E s config ops (ps_working_set st) (ps_working_set st')" using apply_pipe_spec [OF s fits E st] by blast
  let ?W = "ps_working_set st'"
  note order = env_orderD [OF E(1) st'(2)]
  obtain es where es: "edges_within E s (qe_order E ?W) = Some es"
    "\<forall>(u, v, k)\<in>set es. u \<in> ?W \<and> v \<in> ?W \<and> (u, v) \<in> edges_of P s (\<lambda>e. qe_debug_kind E (ed_kind e) = k)"
    using edges_within_total [OF graph_okD(1) [OF s] E(2), of "qe_order E ?W"] unfolding order(2) by blast
  obtain r where r: "pipe_finish E s config st' = Some r" "qr_edges r = es" "qr_total_before_truncation r = card ?W"
    "qr_was_truncated r \<longleftrightarrow> qc_max_nodes config < card ?W"
    "qr_nodes r = (if qr_was_truncated r then take (qc_max_nodes config) (qe_order E ?W) else qe_order E ?W)"
    by (simp add: pipe_finish_def es(1) Let_def order(3))
  have "shows_set config ?W r" by (rule bounded_show [OF E(1) st'(2) r(5,3,4)])
  then have "pipe_result E s config ops (ps_working_set st) r"
    unfolding pipe_result_def E(2) using st'(3) es(2) r(2) by blast
  with st'(1) r(1) show ?thesis by simp
qed

end

end
