(* ===== verification/Expression_Promise.thy ===== *)
theory Expression_Promise
  imports Query_Promise
begin

text \<open>
  What an expression promises, by recursion over it, and the lemma that the executor returns a result that
  keeps the promise, whatever the expression.
\<close>

section \<open>Promises of expressions\<close>

fun combined :: "set_op \<Rightarrow> nat set \<Rightarrow> nat set \<Rightarrow> nat set" where
  "combined SetUnion A B = A \<union> B"
| "combined SetIntersect A B = A \<inter> B"
| "combined SetDiff A B = A - B"

text \<open>The nodes on a path, within the depth, from a node of the one set to a node of the other.\<close>

definition on_paths :: "(nat \<times> nat) set \<Rightarrow> nat set \<Rightarrow> nat set \<Rightarrow> nat \<Rightarrow> nat set" where
  "on_paths R A B depth = {u. \<exists>p. walk_in R p \<and> hd p \<in> A \<and> last p \<in> B \<and> length p \<le> Suc depth \<and> u \<in> set p}"

definition depth_of :: "nat option \<Rightarrow> nat" where
  "depth_of max_depth = (case max_depth of None \<Rightarrow> 32 | Some n \<Rightarrow> n)"

definition path_result_ok :: "('g, 'x) query_env \<Rightarrow> 'g code_graph \<Rightarrow> query_config \<Rightarrow> nat set \<Rightarrow> nat set \<Rightarrow> nat \<Rightarrow> query_result \<Rightarrow> bool" where
  "path_result_ok E s config A B depth r \<longleftrightarrow>
     (\<exists>W. shows_set config W r \<and> W \<subseteq> on_paths (edges_of (qe_ops E) s (\<lambda>_. True)) A B depth)"

text \<open>What a query with a root shows, and nothing on a graph without functions.\<close>

definition rooted :: "('g, 'x) query_env \<Rightarrow> 'g code_graph \<Rightarrow> query_config \<Rightarrow> (nat \<Rightarrow> nat set) \<Rightarrow> query_result \<Rightarrow> bool" where
  "rooted E s config W r \<longleftrightarrow> of_kind (qe_ops E) s {AN_Function} = {} \<and> shows_set config {} r \<or>
     (\<exists>root. dominator_root (qe_ops E) s root \<and> shows_set config (W root) r)"

fun expr_result :: "('g, 'x) query_env \<Rightarrow> 'g code_graph \<Rightarrow> query_config \<Rightarrow> expr \<Rightarrow> query_result \<Rightarrow> bool" where
  "expr_result E s config (Pipe ops) r \<longleftrightarrow> pipe_result E s config ops {} r"
| "expr_result E s config (PipeFrom base ops) r \<longleftrightarrow>
     (\<exists>b. expr_result E s config base b \<and> pipe_result E s config ops (set (qr_nodes b)) r)"
| "expr_result E s config (SetOp op l x) r \<longleftrightarrow>
     (\<exists>a b. expr_result E s config l a \<and> expr_result E s config x b \<and>
        shows_set config (combined op (set (qr_nodes a)) (set (qr_nodes b))) r)"
| "expr_result E s config (PathQuery mode source target kind via depth) r \<longleftrightarrow>
     (\<exists>a b. expr_result E s config source a \<and> expr_result E s config target b \<and>
        path_result_ok E s config (set (qr_nodes a)) (set (qr_nodes b)) (depth_of depth) r)"
| "expr_result E s config (MultiPath sources target depth) r \<longleftrightarrow>
     (\<exists>rs b. list_all2 (expr_result E s config) sources rs \<and> expr_result E s config target b \<and>
        path_result_ok E s config (\<Union>a\<in>set rs. set (qr_nodes a)) (set (qr_nodes b)) (depth_of depth) r)"
| "expr_result E s config (Entrypoints k) r \<longleftrightarrow> sorted (qr_nodes r) \<and>
     shows_set config {u. \<exists>x. is_entry (qe_ops E) s u x \<and> (k = None \<or> k = Some (from_analysis x))} r"
| "expr_result E s config (TraitImplsOf inner) r \<longleftrightarrow>
     (\<exists>a. expr_result E s config inner a \<and>
        shows_set config {u. \<exists>t\<in>set (qr_nodes a). (u, t) \<in> edges_of (qe_ops E) s (\<lambda>e. ed_kind e = AE_Implements)} r)"
| "expr_result E s config (DominatorsOf inner) r \<longleftrightarrow>
     (\<exists>a. expr_result E s config inner a \<and>
        rooted E s config (\<lambda>root. {d. \<exists>u\<in>set (qr_nodes a). strictly (edges_of (qe_ops E) s (\<lambda>_. True)) root d u}) r)"
| "expr_result E s config (DominatesOf inner) r \<longleftrightarrow>
     (\<exists>a. expr_result E s config inner a \<and>
        rooted E s config (\<lambda>root. {u. \<exists>d\<in>set (qr_nodes a). strictly (edges_of (qe_ops E) s (\<lambda>_. True)) root d u}) r)"

lemma expr_result_ok: "expr_result E s config e r \<Longrightarrow> result_ok config r"
  by (cases e) (auto simp: pipe_result_def shows_set_def path_result_ok_def rooted_def)

section \<open>Loops over paths\<close>

definition hits_in :: "nat set \<Rightarrow> path_hits \<Rightarrow> bool" where
  "hits_in N st \<longleftrightarrow> finite (ph_nodes st) \<and> ph_nodes st \<subseteq> N"

definition loop_in :: "nat set \<Rightarrow> path_loop \<Rightarrow> bool" where
  "loop_in N r \<longleftrightarrow> (case r of Inl (Fail _) \<Rightarrow> False | Inl (Return st) \<Rightarrow> hits_in N st | Inr st \<Rightarrow> hits_in N st)"

lemma loop_in_for_each:
  assumes "\<forall>x\<in>set xs. \<forall>st. hits_in N st \<longrightarrow> loop_in N (f x st)"
  shows "hits_in N st \<Longrightarrow> loop_in N (for_each f xs st)"
  using assms
proof (induction xs arbitrary: st)
  case (Cons x xs)
  then have x: "loop_in N (f x st)" by simp
  show ?case
  proof (cases "f x st")
    case (Inl e)
    with x show ?thesis by (simp add: loop_in_def)
  next
    case (Inr t)
    with x have "hits_in N t" by (simp add: loop_in_def)
    with Cons Inr show ?thesis by simp
  qed
qed (simp add: loop_in_def)

lemma loop_in_after: "loop_in N r \<Longrightarrow> loop_in N (after_loop config r)"
  by (auto simp: loop_in_def after_loop_def split: sum.splits exit.splits)

lemma leave_loop_in: "loop_in N r \<Longrightarrow> \<exists>st. leave_loop r = Some st \<and> hits_in N st"
  by (auto simp: loop_in_def leave_loop_def split: sum.splits exit.splits)

context stable_graph
begin

lemma edge_text_total: "slots_ok P ok s \<Longrightarrow> qe_ops E = P \<Longrightarrow> \<exists>k. edge_text E s u v = Some k"
  using edges_from [of s u] by (auto simp: edge_text_def)

lemma add_path_in:
  assumes "slots_ok P ok s" and "qe_ops E = P"
  shows "hits_in N st \<Longrightarrow> set path \<subseteq> N \<Longrightarrow> \<exists>st'. add_path E s path st = Some st' \<and> hits_in N st'"
proof (induction path arbitrary: st rule: induct_list012)
  case (3 u v path)
  obtain k where k: "edge_text E s u v = Some k" using edge_text_total [OF assms] by blast
  show ?case using 3 by (simp add: k hits_in_def)
qed (auto simp: hits_in_def)

lemma via_found_total:
  assumes "slots_ok P ok s" and "qe_ops E = P"
  shows "\<exists>b. via_found E s required path = Some b"
proof (induction path rule: induct_list012)
  case (3 u v path)
  then show ?case using edges_from [OF assms(1), of u] by (auto simp: assms(2))
qed (simp_all, (rule exI [of _ False], simp)+)

lemma filters_total:
  assumes "slots_ok P ok s" and "qe_ops E = P"
  shows "\<exists>b. path_matches_filters E s kind via path = Some b"
  using via_found_total [OF assms] by (auto simp: path_matches_filters_def split: option.split)

lemma take_path_in:
  assumes s: "slots_ok P ok s" and E: "qe_ops E = P" and "set path \<subseteq> N" and "hits_in N st"
  shows "loop_in N (take_path E s config (path_matches_filters E s kind via) path st)"
proof -
  obtain b where b: "path_matches_filters E s kind via path = Some b" using filters_total [OF s E] by blast
  obtain st' where st': "add_path E s path st = Some st'" "hits_in N st'" using add_path_in [OF s E assms(4,3)] by blast
  show ?thesis using assms(4) st'(2) by (cases b) (simp_all add: take_path_def b st'(1) loop_in_def)
qed

lemma candidates_on_paths:
  assumes s: "slots_ok P ok s" and E: "qe_ops E = P" and "src \<in> A" and "dst \<in> B"
  shows "\<exists>ps. candidate_paths E s config mode depth src dst = Some ps \<and>
    (\<forall>p\<in>set ps. set p \<subseteq> on_paths (edges_of P s (\<lambda>_. True)) A B depth)"
proof (cases mode)
  case Shortest
  obtain r where r: "Graph_Paths.find_path P s src dst depth = Some r"
    "if get_node P s src \<noteq> None \<and> get_node P s dst \<noteq> None
     then shortest_path_promise (edges_of P s (\<lambda>_. True)) {src} dst depth r else r = None" using find_path_promise [OF s] by blast
  show ?thesis
  proof (cases r)
    case None
    then show ?thesis using r(1) by (simp add: candidate_paths_def Shortest E)
  next
    case (Some p)
    then have "walk_in (edges_of P s (\<lambda>_. True)) p" "hd p \<in> A" "last p \<in> B" "length p \<le> Suc depth"
      using r(2) assms(3,4) by (auto simp: shortest_path_promise_def split: if_splits)
    then have "set p \<subseteq> on_paths (edges_of P s (\<lambda>_. True)) A B depth" unfolding on_paths_def by blast
    then show ?thesis using r(1) Some by (simp add: candidate_paths_def Shortest E)
  qed
next
  case AllSimple
  obtain ps where ps: "all_simple_paths_bounded P s src dst depth (qc_max_nodes config) = Some ps"
    "set ps \<subseteq> simple_paths (edges_of P s (\<lambda>_. True)) src dst depth" using simple_paths_promise [OF s] by blast
  have "set p \<subseteq> on_paths (edges_of P s (\<lambda>_. True)) A B depth" if "p \<in> set ps" for p
    using ps(2) that assms(3,4) by (auto simp: simple_paths_def on_paths_def)
  with ps(1) show ?thesis by (simp add: candidate_paths_def AllSimple E)
qed

lemma path_query_result:
  assumes s: "slots_ok P ok s" and E: "env_ok E s" "qe_ops E = P"
  shows "\<exists>r. execute_path_query E s config mode kind via max_depth a b = Some r \<and>
    path_result_ok E s config (set (qr_nodes a)) (set (qr_nodes b)) (depth_of max_depth) r"
proof -
  let ?N = "on_paths (edges_of P s (\<lambda>_. True)) (set (qr_nodes a)) (set (qr_nodes b)) (depth_of max_depth)"
  let ?wanted = "path_matches_filters E s kind via"
  have pair: "loop_in ?N (case candidate_paths E s config mode (depth_of max_depth) src dst of
      None \<Rightarrow> Inl (Fail ()) | Some paths \<Rightarrow> for_each (take_path E s config ?wanted) paths st)"
    if ends: "src \<in> set (qr_nodes a)" "dst \<in> set (qr_nodes b)" and st: "hits_in ?N st" for src dst st
  proof -
    obtain ps where ps: "candidate_paths E s config mode (depth_of max_depth) src dst = Some ps" "\<forall>p\<in>set ps. set p \<subseteq> ?N"
      using candidates_on_paths [OF s E(2) ends] by blast
    have "loop_in ?N (for_each (take_path E s config ?wanted) ps st)"
      by (rule loop_in_for_each [OF _ st]) (use take_path_in [OF s E(2)] ps(2) in blast)
    then show ?thesis by (simp add: ps(1))
  qed
  have "loop_in ?N (path_pairs E s config mode (depth_of max_depth) ?wanted (qr_nodes a) (qr_nodes b) \<lparr>ph_nodes = {}, ph_edges = []\<rparr>)"
    unfolding path_pairs_def
    by (intro loop_in_for_each ballI allI impI loop_in_after pair) (simp_all add: hits_in_def)
  from leave_loop_in [OF this] obtain st where
    st: "leave_loop (path_pairs E s config mode (depth_of max_depth) ?wanted (qr_nodes a) (qr_nodes b) \<lparr>ph_nodes = {}, ph_edges = []\<rparr>) = Some st"
      "hits_in ?N st" by blast
  have fin: "finite (ph_nodes st)" "ph_nodes st \<subseteq> ?N" using st(2) by (simp_all add: hits_in_def)
  have "shows_set config (ph_nodes st) (bounded_result E config (ph_nodes st) (ph_edges st) [])"
    by (rule bounded_show [OF E(1) fin(1)]) (simp_all add: bounded_result_def Let_def)
  with fin(2) st(1) show ?thesis by (auto simp: execute_path_query_def depth_of_def path_result_ok_def E(2))
qed

lemma multi_path_loop_in:
  assumes s: "slots_ok P ok s" and E: "qe_ops E = P"
  defines "R \<equiv> edges_of P s (\<lambda>_. True)"
  shows "hits_in (on_paths R (set srcs) B depth) (fst st) \<Longrightarrow> set targets \<subseteq> B \<Longrightarrow>
    \<exists>st'. multi_path_loop E s config depth srcs targets st = Some st' \<and> hits_in (on_paths R (set srcs) B depth) (fst st')"
proof (induction targets arbitrary: st)
  case (Cons target targets)
  let ?N = "on_paths R (set srcs) B depth"
  obtain r where r: "find_path_multi_source P s srcs target depth = Some r"
    "if get_node P s target \<noteq> None
     then shortest_path_promise R {u \<in> set srcs. get_node P s u \<noteq> None} target depth r else r = None"
    using find_path_multi_source_promise [OF s] unfolding R_def by blast
  have IH: "hits_in ?N (fst t) \<Longrightarrow> \<exists>st'. multi_path_loop E s config depth srcs targets t = Some st' \<and> hits_in ?N (fst st')" for t
    using Cons by simp
  show ?case
  proof (cases r)
    case None
    then show ?thesis using IH [OF Cons.prems(1)] r(1) by (simp add: E)
  next
    case (Some p)
    then have p: "walk_in R p" "hd p \<in> set srcs" "last p \<in> B" "length p \<le> Suc depth"
      using r(2) Cons.prems(2) by (auto simp: shortest_path_promise_def split: if_splits)
    then have "set p \<subseteq> ?N" unfolding on_paths_def by blast
    then obtain hits where hits: "add_path E s p (fst st) = Some hits" "hits_in ?N hits"
      using add_path_in [OF s E Cons.prems(1)] by blast
    obtain u path where "p = u # path" using p(1) by (cases p) (auto simp: walk_in_def)
    then show ?thesis using Some r(1) hits IH by (simp add: E Let_def)
  qed
qed simp

lemma multi_path_result:
  assumes s: "slots_ok P ok s" and E: "env_ok E s" "qe_ops E = P"
  shows "\<exists>r. execute_multi_path E s config max_depth rs b = Some r \<and>
    path_result_ok E s config (\<Union>a\<in>set rs. set (qr_nodes a)) (set (qr_nodes b)) (depth_of max_depth) r"
proof -
  let ?A = "\<Union> (set (map (set \<circ> qr_nodes) rs))"
  have A: "set (qe_order E ?A) = ?A" by (rule env_orderD(2) [OF E(1)]) auto
  let ?N = "on_paths (edges_of P s (\<lambda>_. True)) (set (qe_order E ?A)) (set (qr_nodes b)) (depth_of max_depth)"
  obtain st where st: "multi_path_loop E s config (depth_of max_depth) (qe_order E ?A) (qr_nodes b) (\<lparr>ph_nodes = {}, ph_edges = []\<rparr>, []) = Some st"
      "hits_in ?N (fst st)"
    using multi_path_loop_in [OF s E(2), of "qe_order E ?A" "set (qr_nodes b)" "depth_of max_depth" "(\<lparr>ph_nodes = {}, ph_edges = []\<rparr>, [])"
        "qr_nodes b" config] by (auto simp: hits_in_def)
  have fin: "finite (ph_nodes (fst st))" "ph_nodes (fst st) \<subseteq> ?N" using st(2) by (simp_all add: hits_in_def)
  have "shows_set config (ph_nodes (fst st)) (bounded_result E config (ph_nodes (fst st)) (ph_edges (fst st)) (snd st))"
    by (rule bounded_show [OF E(1) fin(1)]) (simp_all add: bounded_result_def Let_def)
  moreover have "?A = (\<Union>a\<in>set rs. set (qr_nodes a))" by auto
  ultimately show ?thesis using fin(2) st(1) A
    by (intro exI [of _ "bounded_result E config (ph_nodes (fst st)) (ph_edges (fst st)) (snd st)"])
      (auto simp: execute_multi_path_def depth_of_def path_result_ok_def E(2) case_prod_beta')
qed

lemma combine_result:
  assumes E: "env_ok E s"
  shows "shows_set config (combined op (set (qr_nodes a)) (set (qr_nodes b))) (combine_set_op E op a b (qc_max_nodes config))"
proof -
  have "combine_set_op E op a b (qc_max_nodes config) =
      (let merged = qe_order E (combined op (set (qr_nodes a)) (set (qr_nodes b))); total = length merged; was_truncated = qc_max_nodes config < total in
      \<lparr>qr_nodes = (if was_truncated then take (qc_max_nodes config) merged else merged), qr_edges = [], qr_was_truncated = was_truncated,
       qr_total_before_truncation = total, qr_cycles_detected = [], qr_metadata = []\<rparr>)"
    by (cases op) (simp_all add: combine_set_op_def)
  moreover have fin: "finite (combined op (set (qr_nodes a)) (set (qr_nodes b)))" by (cases op) auto
  ultimately show ?thesis using env_orderD(3) [OF E fin] by (intro bounded_show [OF E fin]) (simp_all add: Let_def)
qed

lemma entrypoints_result:
  assumes s: "graph_ok P ok s" and E: "qe_ops E = P"
  shows "\<exists>r. execute_entrypoints E s k config = Some r \<and> expr_result E s config (Entrypoints k) r"
proof -
  obtain es where es: "classify_entrypoints P s = Some es" "sorted_wrt (<) (map es_node_id es)"
    "\<forall>u x. (\<exists>e\<in>set es. es_node_id e = u \<and> es_kind e = x) \<longleftrightarrow> is_entry P s u x"
    using classify_entrypoints_promise [OF graph_okD(1) [OF s]] by blast
  let ?want = "\<lambda>x. case k of None \<Rightarrow> True | Some want \<Rightarrow> from_analysis (es_kind x) = want"
  let ?nodes = "map es_node_id (filter ?want es)"
  have nodes: "set ?nodes = {u. \<exists>x. is_entry P s u x \<and> (k = None \<or> k = Some (from_analysis x))}"
    unfolding es(3) [rule_format, symmetric] by (cases k) auto
  have "sorted_wrt (<) ?nodes" using es(2) unfolding sorted_wrt_map by (rule sorted_wrt_filter)
  then have ord: "sorted ?nodes" "distinct ?nodes" by (simp_all add: strict_sorted_iff)
  obtain r where r: "execute_entrypoints E s k config = Some r" "qr_was_truncated r \<longleftrightarrow> qc_max_nodes config < length ?nodes"
    "qr_nodes r = (if qc_max_nodes config < length ?nodes then take (qc_max_nodes config) ?nodes else ?nodes)"
    "qr_total_before_truncation r = length ?nodes"
    by (simp add: execute_entrypoints_def E es(1) Let_def)
  have "shows_set config (set ?nodes) r"
    using ord(2) set_take_subset [of "qc_max_nodes config" ?nodes] distinct_card [OF ord(2)]
    by (auto simp: shows_set_def result_ok_def r)
  moreover have "sorted (qr_nodes r)" using ord(1) by (simp add: r sorted_wrt_take)
  ultimately show ?thesis using r(1) unfolding nodes by (simp add: E)
qed

lemma trait_impls_result:
  assumes s: "graph_ok P ok s" and E: "env_ok E s" "qe_ops E = P"
  shows "shows_set config {u. \<exists>t\<in>set seeds. (u, t) \<in> edges_of P s (\<lambda>e. ed_kind e = AE_Implements)} (execute_trait_impls_of E s seeds config)"
proof -
  note th = trait_hierarchies_promise [OF graph_okD(1) [OF s]]
  let ?A = "{u. \<exists>t\<in>set seeds. (u, t) \<in> edges_of P s (\<lambda>e. ed_kind e = AE_Implements)}"
  have "\<Union> (set (map th_direct_impls (filter (\<lambda>h. th_trait_id h \<in> set seeds) (trait_hierarchies P s)))) = ?A"
  proof (rule set_eqI, rule iffI)
    fix u assume "u \<in> ?A"
    then obtain t where t: "t \<in> set seeds" "(u, t) \<in> edges_of P s (\<lambda>e. ed_kind e = AE_Implements)" by blast
    then have "t \<in> th_trait_id ` set (trait_hierarchies P s)" unfolding th(2) by blast
    then obtain h where "h \<in> set (trait_hierarchies P s)" "th_trait_id h = t" by blast
    with t th(3) show "u \<in> \<Union> (set (map th_direct_impls (filter (\<lambda>h. th_trait_id h \<in> set seeds) (trait_hierarchies P s))))" by auto
  qed (use th(3) in auto)
  moreover have "finite ?A"
    by (rule finite_subset [OF _ nodes_finite [OF s]])
      (use edges_of_live(1) [OF graph_okD(1) [OF s]] resolve_get_node [OF graph_okD(1) [OF s]] in \<open>auto simp: domIff; blast\<close>)
  ultimately show ?thesis
    by (intro bounded_show [OF E(1)]) (simp_all add: execute_trait_impls_of_def bounded_result_def Let_def E(2))
qed

lemma fill_nodes_shows:
  assumes "env_ok E s" and "finite W"
  shows "shows_set config W (fill_nodes E config r W)"
  by (rule bounded_show [OF assms]) (simp_all add: fill_nodes_def Let_def)

lemma noted_shows: "shows_set config {} (noted line)"
  by (simp add: shows_set_def result_ok_def noted_def query_result_default_def)

lemma strictly_bounded:
  assumes s: "graph_ok P ok s" and "resolve s root \<noteq> None"
  shows "finite {d. \<exists>u\<in>A. strictly (edges_of P s (\<lambda>_. True)) root d u}" "finite {u. \<exists>d\<in>A. strictly (edges_of P s (\<lambda>_. True)) root d u}"
proof -
  note slots = graph_okD(1) [OF s]
  have "u \<in> dom (get_node P s)" if "resolve s u \<noteq> None" for u using that resolve_get_node [OF slots, of u] by (simp add: domIff)
  with strict_ends [OF slots assms(2)]
  have "{d. \<exists>u\<in>A. strictly (edges_of P s (\<lambda>_. True)) root d u} \<subseteq> dom (get_node P s)"
    "{u. \<exists>d\<in>A. strictly (edges_of P s (\<lambda>_. True)) root d u} \<subseteq> dom (get_node P s)" by blast+
  then show "finite {d. \<exists>u\<in>A. strictly (edges_of P s (\<lambda>_. True)) root d u}" "finite {u. \<exists>d\<in>A. strictly (edges_of P s (\<lambda>_. True)) root d u}"
    using nodes_finite [OF s] by (simp_all add: finite_subset)
qed

lemma dominators_result:
  assumes s: "graph_ok P ok s" and E: "env_ok E s" "qe_ops E = P" "algorithm_ok (qe_simple_fast E) P s"
  shows "\<exists>r. execute_dominators_of E s seeds config = Some r \<and>
    rooted E s config (\<lambda>root. {d. \<exists>u\<in>set seeds. strictly (edges_of P s (\<lambda>_. True)) root d u}) r"
proof -
  note slots = graph_okD(1) [OF s]
  obtain root where root: "pick_dominator_root E s = Some root"
    "case root of None \<Rightarrow> of_kind P s {AN_Function} = {} | Some (u, i) \<Rightarrow> dominator_root P s u \<and> resolve s u = Some i"
    using pick_dominator_root_promise [OF slots E(2)] by blast
  show ?thesis
  proof (cases root)
    case None
    then show ?thesis using root noted_shows by (auto simp: execute_dominators_of_def rooted_def E(2))
  next
    case (Some p)
    then obtain u i where p: "root = Some (u, i)" "dominator_root P s u" "resolve s u = Some i" using root(2) by (cases p) auto
    obtain dm where dm: "dominators_build (qe_simple_fast E) (out_neighbours P s) i = Some dm" "idoms_ok (slot_edges P s) i dm"
      using dominators_built [OF slots E(3) resolve_live(1) [OF slots p(3)]] by blast
    let ?W = "{d. \<exists>t\<in>set seeds. strictly (edges_of P s (\<lambda>_. True)) u d t}"
    have "those (map (seed_dominators P s dm) seeds) = Some (map (\<lambda>t. {d. strictly (edges_of P s (\<lambda>_. True)) u d t}) seeds)"
      by (rule those_all) (use seed_dominators_promise [OF slots p(3) dm(2)] in blast)
    moreover have "\<Union> (set (map (\<lambda>t. {d. strictly (edges_of P s (\<lambda>_. True)) u d t}) seeds)) = ?W" by auto
    moreover have "finite ?W" by (rule strictly_bounded(1) [OF s]) (simp add: p(3))
    ultimately show ?thesis using p(2) fill_nodes_shows [OF E(1), of ?W config]
      by (auto simp: execute_dominators_of_def root(1) p(1) dm(1) rooted_def E(2))
  qed
qed

lemma dominates_result:
  assumes s: "graph_ok P ok s" and E: "env_ok E s" "qe_ops E = P" "algorithm_ok (qe_simple_fast E) P s"
  shows "\<exists>r. execute_dominates_of E s seeds config = Some r \<and>
    rooted E s config (\<lambda>root. {u. \<exists>d\<in>set seeds. strictly (edges_of P s (\<lambda>_. True)) root d u}) r"
proof -
  note slots = graph_okD(1) [OF s]
  obtain root where root: "pick_dominator_root E s = Some root"
    "case root of None \<Rightarrow> of_kind P s {AN_Function} = {} | Some (u, i) \<Rightarrow> dominator_root P s u \<and> resolve s u = Some i"
    using pick_dominator_root_promise [OF slots E(2)] by blast
  show ?thesis
  proof (cases root)
    case None
    then show ?thesis using root noted_shows by (auto simp: execute_dominates_of_def rooted_def E(2))
  next
    case (Some p)
    then obtain u i where p: "root = Some (u, i)" "dominator_root P s u" "resolve s u = Some i" using root(2) by (cases p) auto
    obtain dm where dm: "dominators_build (qe_simple_fast E) (out_neighbours P s) i = Some dm" "idoms_ok (slot_edges P s) i dm"
      using dominators_built [OF slots E(3) resolve_live(1) [OF slots p(3)]] by blast
    let ?W = "{v. \<exists>d\<in>set seeds. strictly (edges_of P s (\<lambda>_. True)) u d v}"
    let ?at = "\<lambda>i. {v. v = slot_id P (cg_graph s) i \<and> (\<exists>d\<in>set seeds. strictly (edges_of P s (\<lambda>_. True)) u d v)}"
    let ?is = "pg_indices P (cg_graph s)"
    have live_is: "set ?is = dom (pg_weight P (cg_graph s))" using live [OF slots_okD(1) [OF slots]] by blast
    have "?W \<subseteq> slot_id P (cg_graph s) ` set ?is"
    proof
      fix v assume "v \<in> ?W"
      then have "resolve s v \<noteq> None" using strict_ends(2) [OF slots, of u _ v] p(3) by auto
      then obtain j where j: "resolve s v = Some j" by blast
      show "v \<in> slot_id P (cg_graph s) ` set ?is" using resolve_live [OF slots j] by (auto simp: live_is)
    qed
    then have W: "\<Union> (set (map ?at ?is)) = ?W" by auto
    have found: "those (map (seed_dominated P s dm (List.map_filter (resolve s) seeds)) ?is) = Some (map ?at ?is)"
      by (rule those_all) (use seed_dominated_promise [OF slots p(3) dm(2)] live_is in blast)
    have fin: "finite ?W" by (rule strictly_bounded(2) [OF s]) (simp add: p(3))
    show ?thesis
    proof (cases "List.map_filter (resolve s) seeds = []")
      case True
      then have "resolve s d = None" if "d \<in> set seeds" for d using that by (induction seeds) (auto simp: map_filter_simps split: option.splits)
      then have "?W = {}" using strict_ends(1) [OF slots, of u] p(3) by blast
      then show ?thesis using p(2) True noted_shows
        by (auto simp: execute_dominates_of_def root(1) p(1) dm(1) rooted_def E(2) Let_def)
    next
      case False
      then show ?thesis using p(2) fill_nodes_shows [OF E(1) fin, of config]
        by (auto simp: execute_dominates_of_def root(1) p(1) dm(1) rooted_def E(2) Let_def found W simp del: set_map)
    qed
  qed
qed

section \<open>Expressions\<close>

lemma those_list_all2:
  "\<forall>x\<in>set xs. \<exists>y. f x = Some y \<and> Q x y \<Longrightarrow> \<exists>ys. those (map f xs) = Some ys \<and> list_all2 Q xs ys"
  by (induction xs) fastforce+

lemma execute_expr_result:
  assumes s: "graph_ok P ok s" and fits: "fits_u32 P s" and E: "env_ok E s" "qe_ops E = P" "algorithm_ok (qe_simple_fast E) P s"
  shows "\<exists>r. execute_expr E s config e = Some r \<and> expr_result E s config e r"
proof (induction e)
  case (Pipe ops)
  show ?case using pipe_total [OF s fits E(1,2), of pipe_state_default config ops] by (simp add: execute_def pipe_state_default_def)
next
  case (PathQuery mode source target kind via depth)
  then show ?case using path_query_result [OF graph_okD(1) [OF s] E(1,2), of config mode kind via depth] by fastforce
next
  case (SetOp op l x)
  then show ?case using combine_result [OF E(1), of config op] by fastforce
next
  case (Entrypoints k)
  show ?case unfolding execute_expr.simps by (rule entrypoints_result [OF s E(2)])
next
  case (TraitImplsOf inner)
  then show ?case using trait_impls_result [OF s E(1,2), where config = config] by (fastforce simp: E(2))
next
  case (PipeFrom base ops)
  then obtain b where b: "execute_expr E s config base = Some b" "expr_result E s config base b" by blast
  with pipe_total [OF s fits E(1,2), of "with_seed (qr_nodes b)" config ops] show ?case
    by (auto simp: execute_pipe_from_def with_seed_def)
next
  case (MultiPath sources target depth)
  then obtain rs b where rs: "those (map (execute_expr E s config) sources) = Some rs" "list_all2 (expr_result E s config) sources rs"
    "execute_expr E s config target = Some b" "expr_result E s config target b"
    using those_list_all2 [of sources "execute_expr E s config" "expr_result E s config"] by blast
  with multi_path_result [OF graph_okD(1) [OF s] E(1,2), of config depth rs b] show ?case by auto
next
  case (DominatorsOf inner)
  then obtain a where "execute_expr E s config inner = Some a" "expr_result E s config inner a" by blast
  with dominators_result [OF s E, of "qr_nodes a" config] show ?case by (auto simp: E(2))
next
  case (DominatesOf inner)
  then obtain a where "execute_expr E s config inner = Some a" "expr_result E s config inner a" by blast
  with dominates_result [OF s E, of "qr_nodes a" config] show ?case by (auto simp: E(2))
qed

end

end
