(* ===== verification/Execution_Properties.thy ===== *)
theory Execution_Properties
  imports Expression_Promise Dominator_Properties Query_Properties
begin

text \<open>
  Properties of the execution of queries on every code graph its operations can build, with any library graph
  that keeps the laws.
\<close>



text \<open>C36. The search for simple paths is exact: it returns only paths without repetition from the source to
  the target within the depth, and all of them when the nodes on those returned
  are fewer than the budget and the depth is not the greatest one, at which the bound on the stack wraps around.\<close>

theorem simple_paths_exact:
  assumes "stable_graph P ok" and "run_graph P ops (code_graph_new P) = Some (answers, s)"
  shows "\<exists>ps. all_simple_paths_bounded P s a b depth budget = Some ps \<and>
    set ps \<subseteq> simple_paths (edges_of P s (\<lambda>_. True)) a b depth \<and>
    (Suc depth < 2 ^ 64 \<and> card (\<Union> (set ` set ps)) < budget \<longrightarrow> set ps = simple_paths (edges_of P s (\<lambda>_. True)) a b depth)"
  by (rule stable_graph.simple_paths_promise [OF assms(1) stable_graph.graph_okD(1) [OF assms(1) stable_graph.run_ok [OF assms]]])

section \<open>A sample environment\<close>










section \<open>Witnesses\<close>



theorem simple_paths_exact_witness:
  "\<exists>ps. all_simple_paths_bounded list_graph_ops sample_graph 1 2 3 50 = Some ps \<and>
    set ps \<subseteq> simple_paths (edges_of list_graph_ops sample_graph (\<lambda>_. True)) 1 2 3"
  using simple_paths_exact [OF list_graph.stable_graph_axioms sample_run, of 1 2 3 50] by blast

end
