(* ===== verification/Spec2Isabelle.thy ===== *)
theory Spec2Isabelle
  imports Traversal_Properties Segments Query_Properties Reachability_Properties Code_Graph_Properties Event_Properties Graph_Path_Properties Csr_Properties Analysis_Properties Dominator_Properties Execution_Properties
begin

text \<open>
  The knowledge graph of codegraph: a program that extracts the symbols of a code base into a graph, keeps the
  graph in an SQLite database, and answers questions about it. The repository has two crates with a graph each.
  The main crate (\<^verbatim>\<open>src/src\<close>) keeps nodes and edges in tables, with a cache in front, and searches them edge
  by edge through queries. The analysis crate (\<^verbatim>\<open>src/analysis\<close>) keeps a graph in memory, with indices, a
  snapshot in compressed rows, an event log, and a query language with a lexer, two parsers, an optimiser and an
  executor. This development models the core of both, from the source, and proves what it promises. It says
  nothing of the extraction of symbols from files: the operations below take whatever nodes and edges they are
  given.

  \<^bold>\<open>The parts and how they interact.\<close>
  In the main crate a \<^verbatim>\<open>GraphTraverser\<close> holds a \<^verbatim>\<open>QueryBuilder\<close>; its searches call five
  operations that read nodes and edges, the store answers them from its tables through the node cache, and the
  operations that write keep the two in agreement. In the analysis crate \<^verbatim>\<open>CodeGraph\<close> wraps a stable graph of
  petgraph with a map from identifiers to slots and four indices; path searches, bounded traversals, label
  reachability and closure read it, a snapshot (\<^verbatim>\<open>CsrSnapshot\<close>) is built from it for large traversals, and the
  executor of a parsed and optimised query calls all of them.

  \<^bold>\<open>Theories and code.\<close> Each group starts with the definitions, in the order of the code and by its names, and
  ends with a theory of properties.

  \<^item> \<^verbatim>\<open>Prelude\<close>, \<^verbatim>\<open>Contracts\<close>: results with errors as values, loops left early, hash maps as association
    lists, the contract \<open>yields\<close> of a fallible function.
  \<^item> \<^verbatim>\<open>Graph_Types\<close> (\<^verbatim>\<open>src/types.rs\<close>, \<^verbatim>\<open>src/error.rs\<close>): nodes, edges, kinds with their stored text.
  \<^item> \<^verbatim>\<open>Lru\<close> (\<^verbatim>\<open>db/queries/statements/cache.rs\<close>, \<^verbatim>\<open>resolution/lru_cache.rs\<close>): the two caches, both
    instances of the locale \<open>lru\<close>, whose abstract cache is a list in order of use.
  \<^item> \<^verbatim>\<open>Segments\<close> (\<^verbatim>\<open>search/identifier_segments.rs\<close>): the words of an identifier.
  \<^item> \<^verbatim>\<open>Query_Interface\<close>, \<^verbatim>\<open>Graph_Store\<close>, \<^verbatim>\<open>Store_Proofs\<close>, \<^verbatim>\<open>Sample_Platform\<close>,
    \<^verbatim>\<open>Store_Properties\<close> (\<^verbatim>\<open>db/queries/statements\<close>, \<^verbatim>\<open>db/schema.sql\<close>): rows, conversions, the
    operations of \<^verbatim>\<open>QueryBuilder\<close> on nodes and edges over the tables, with keys, cascades and transactions; the
    invariant \<open>store_ok\<close> of tables and cache; the locale \<open>graph_store\<close> of what the searches rely on.
  \<^item> \<^verbatim>\<open>Traversal\<close> with \<^verbatim>\<open>Path_Search\<close>, \<^verbatim>\<open>Impact\<close>, \<^verbatim>\<open>Layers\<close>, \<^verbatim>\<open>Breadth_First\<close>,
    \<^verbatim>\<open>Traversal_Properties\<close> (\<^verbatim>\<open>graph/traversal.rs\<close>, \<^verbatim>\<open>graph/cancel.rs\<close>): the searches, and for the
    shortest path, the impact radius, callers and callees, and the breadth-first search, what they return.
  \<^item> \<^verbatim>\<open>Query_Syntax\<close>, \<^verbatim>\<open>Query_Lexer\<close>, \<^verbatim>\<open>Query_Parser\<close>, \<^verbatim>\<open>Query_Expressions\<close>, \<^verbatim>\<open>Label_Patterns\<close>
    (\<^verbatim>\<open>analysis/src/dsl/syntax\<close>, \<^verbatim>\<open>label_reachability.rs\<close>): tokens, operations and expressions, the lexer on
    bytes, the recursive descent parser with its errors and its one panic. \<^verbatim>\<open>Query_Contract\<close> shows that it
    always returns, \<^verbatim>\<open>Query_Printer\<close> and \<^verbatim>\<open>Query_Roundtrip\<close> that it reads back the text of every
    expression; the printers are specifications and not part of the program. \<^verbatim>\<open>Query_Properties\<close>.
  \<^item> \<^verbatim>\<open>Stack_Search\<close>, \<^verbatim>\<open>Queue_Search\<close>, \<^verbatim>\<open>Parent_Search\<close>: what the searches of the analysis crate share:
    a set of visited items with a stack or a queue, and a map from a node to the node it was found from (the locale
    \<open>parent_marks\<close>, interpreted for one source and for many).
  \<^item> \<^verbatim>\<open>Label_Reachability\<close>, \<^verbatim>\<open>Reachability_Properties\<close> (\<^verbatim>\<open>label_reachability.rs\<close>, \<^verbatim>\<open>closure.rs\<close>): the
    automaton of a label pattern, the search of its product with the graph, transitive closure.
  \<^item> \<^verbatim>\<open>Code_Index\<close>, \<^verbatim>\<open>Code_Graph\<close>, \<^verbatim>\<open>Code_Graph_Laws\<close>, \<^verbatim>\<open>Code_Graph_Proofs\<close>,
    \<^verbatim>\<open>Code_Graph_Effects\<close>, \<^verbatim>\<open>Code_Graph_Runs\<close>, \<^verbatim>\<open>Code_Graph_Queries\<close>, \<^verbatim>\<open>Code_Graph_Properties\<close>
    (\<^verbatim>\<open>nodes.rs\<close>, \<^verbatim>\<open>edges.rs\<close>, \<^verbatim>\<open>index.rs\<close>, \<^verbatim>\<open>graph.rs\<close>): the code graph. Its abstract graph is a map
    from identifiers to nodes, a multiset of edges between identifiers and a revision; every sequence of operations
    refines it. petgraph is the argument \<open>P\<close> of every definition, a record of its operations, and the locale
    \<open>stable_graph\<close> states its documented laws; a graph made of lists meets them.
  \<^item> \<^verbatim>\<open>Graph_Paths\<close>, \<^verbatim>\<open>Graph_Path_Properties\<close>, \<^verbatim>\<open>Graph_Traverse\<close>, \<^verbatim>\<open>Csr_Snapshot\<close>,
    \<^verbatim>\<open>Csr_Rows\<close>, \<^verbatim>\<open>Csr_Proofs\<close>, \<^verbatim>\<open>Csr_Traverse\<close>, \<^verbatim>\<open>Csr_Properties\<close>
    (\<^verbatim>\<open>traversal/mod.rs\<close>, \<^verbatim>\<open>csr.rs\<close>): four path searches, the bounded traversal of the graph and of its
    snapshot, serial and in chunks, and the construction of the snapshot.
  \<^item> \<^verbatim>\<open>Trait_Analyses\<close>, \<^verbatim>\<open>Entry_Points\<close>, \<^verbatim>\<open>Analysis_Properties\<close> (\<^verbatim>\<open>traits_hierarchy.rs\<close> and the entry
    points of \<^verbatim>\<open>analysis/algorithms.rs\<close>): implementors of traits, calls through trait methods, functions
    clustered by type, entry points with what they reach.
  \<^item> \<^verbatim>\<open>Dominators\<close>, \<^verbatim>\<open>Dominator_Tree\<close>, \<^verbatim>\<open>Dominator_Properties\<close>, \<^verbatim>\<open>Query_Dominators\<close>
    (\<^verbatim>\<open>dominators.rs\<close>, the dominator tree of \<^verbatim>\<open>analysis/algorithms.rs\<close>, \<^verbatim>\<open>executor/dominators.rs\<close>): immediate
    dominators, chains and tests of dominance, and the queries for them. The relation of dominance is defined by
    reachability without a node; the library's algorithm is asked for the closest strict dominator.
  \<^item> \<^verbatim>\<open>Query_Result\<close>, \<^verbatim>\<open>Event_Log\<close>, \<^verbatim>\<open>Event_Properties\<close> (\<^verbatim>\<open>dsl/syntax/executor/mod.rs\<close>,
    \<^verbatim>\<open>persistence.rs\<close>, \<^verbatim>\<open>history.rs\<close>): results, the log of events and the ring of past queries.
  \<^item> \<^verbatim>\<open>Query_Plan\<close>, \<^verbatim>\<open>Query_Executor\<close>, \<^verbatim>\<open>Call_Reach\<close>, \<^verbatim>\<open>Expression_Executor\<close>, \<^verbatim>\<open>Simple_Paths\<close>,
    \<^verbatim>\<open>Query_Promise\<close>, \<^verbatim>\<open>Expression_Promise\<close>, \<^verbatim>\<open>Execution_Properties\<close> (\<^verbatim>\<open>dsl/plan.rs\<close>,
    \<^verbatim>\<open>dsl/syntax/executor\<close>): the optimiser, the executor, and the promise of an expression, a relation between
    sets of nodes, which every execution keeps.

  \<^bold>\<open>What the lemmas show.\<close>
  The properties C1 to C40 are stated on states that the operations can build, never on an invariant that the
  reader would have to trust: on every store reached from a new one, on every code graph that a run of operations
  returns, on every log. Each rests on lemmas for one state that satisfies the invariant. The searches of both
  crates are shown exact (sound, complete and nearest first) against reachability and distance in the relation of
  the edges, with their termination; mutations against the abstract state; the parser against a printer and for
  every text; the query executor against the meaning of a query. Four properties show faults of the code by an
  evaluated example: a query that panics, an event edge that the graph refused, a joining path that is reported
  as a cycle, and two optimisations that change the answer of a query.

  \<^bold>\<open>Modelling choices.\<close>
  A value of the type \<open>error + 'a\<close> is a Rust \<^verbatim>\<open>Result\<close>; \<open>None\<close> is a panic, or a loop that does not end, and
  the properties exclude it. A hash set whose order is not observed is a set; where its order matters it is an
  association list or an order given as an argument, and the properties hold for every order. Unsigned 64-bit
  and 32-bit counters that can wrap or saturate (revisions, event identifiers, snapshot offsets) are words; a
  \<^verbatim>\<open>usize\<close> that counts elements in memory is a \<open>nat\<close>. Loops are recursive where they are structural; the
  others are \<open>loop_while\<close> or \<open>while_option\<close>, whose value is \<open>None\<close> when they do not end, with a measure that
  shows that they do. The recursive parser takes fuel: one unit covers one level of nesting or one pass of a
  loop, and one more than the number of tokens is enough, so that running out of it is excluded.
  \<^verbatim>\<open>trace_cascade\<close> can run forever, and there is a property for the logs on which it does. The depth-first
  search for simple paths recurses on what the bound leaves of the stack.

  \<^bold>\<open>What is an argument.\<close>
  SQLite is modelled by the effect of each statement of the code on the tables; the text of JSON values, the row
  order of a query without an order clause, the clock and the flag of cancellation are arguments. So are
  petgraph, case folding and character classes of Unicode, the debug rendering of a value, the number of worker
  threads and the language adapter. So is petgraph's algorithm for immediate dominators. What
  is asked of them is stated in \<open>platform_ok\<close>, \<open>stable_graph\<close>, \<open>env_ok\<close> and \<open>algorithm_ok\<close>, and each is met by an instance in this development.

  \<^bold>\<open>Not modelled.\<close>
  Extraction (the parsers of tree-sitter are not in the repository), name resolution, the context builder and the
  facade \<^verbatim>\<open>codegraph.rs\<close>, full-text search, migrations and statistics of the store, the analyses of function
  bodies (data flow, points-to, taint), bug checks and rule packs, dependencies and external tools, the command
  line and the protocol server: they are input and output, work on syntax trees, or compose what is modelled into
  text. Of the executor, the pipe operations \<^verbatim>\<open>hot\<close>, \<^verbatim>\<open>scc\<close>,
  \<^verbatim>\<open>co_changes\<close>, \<^verbatim>\<open>communities\<close>, \<^verbatim>\<open>complexity\<close>, \<^verbatim>\<open>cfg\<close> and \<^verbatim>\<open>dataflow\<close> rest on floating point scores or on analyses that are not modelled,
  and are arguments of the executor; aggregates over results are left out.
\<close>

end
